(* ===== verification/Prelude.thy ===== *)
theory Prelude
  imports Main "HOL-Library.Word" "HOL-Library.Signed_Division"
begin

text \<open>
  Shared vocabulary of the development: the Go types the components use, Go's
  fixed-width arithmetic, big-endian byte strings, and the two codec interfaces
  (\<open>codec\<close>, \<open>stream_codec\<close>) that the encoders of the repository implement.

  A Go array \<open>[20]byte\<close> or \<open>[32]byte\<close> is a word of that many bits, most significant
  byte first: equality and \<open>bytes.Compare\<close> on such arrays are equality and unsigned
  comparison of the words. A slice \<open>[]byte\<close> is a list of bytes. Go's \<open>int64\<close> and
  \<open>int\<close> are HOL integers kept in range by \<open>wrap64\<close>; \<open>uint64\<close> is \<open>64 word\<close>, whose
  arithmetic wraps as Go's does. Go's \<open>/\<close> and \<open>%\<close> on signed integers truncate
  towards zero: they are \<open>sdiv\<close> and \<open>smod\<close>.
\<close>

section \<open>Types\<close>

type_synonym u8 = "8 word"
type_synonym u64 = "64 word"
type_synonym bytes = "8 word list"
type_synonym address = "160 word"
type_synonym hash256 = "256 word"

named_theorems word_arith \<open>reading word arithmetic as arithmetic on naturals\<close>
named_theorems codec_laws \<open>round trips of the encoders\<close>

text \<open>The run-time panics of Go that the modelled code can raise.\<close>

datatype go_panic = IndexOutOfRange | NilDereference | DivideByZero | ExplicitPanic string

section \<open>Fixed-width integers\<close>

definition wrap64 :: "int \<Rightarrow> int" where
  "wrap64 x = (x + 2 ^ 63) mod 2 ^ 64 - 2 ^ 63"

definition in_int64 :: "int \<Rightarrow> bool" where
  "in_int64 x \<longleftrightarrow> - (2 ^ 63) \<le> x \<and> x < 2 ^ 63"

text \<open>\<open>big.Int.Uint64\<close>: the low 64 bits; \<open>int64\<close> of a \<open>uint64\<close>: the same bits, signed.\<close>

definition bigUint64 :: "int \<Rightarrow> u64" where
  "bigUint64 x = word_of_int x"

definition int64_of :: "u64 \<Rightarrow> int" where
  "int64_of w = wrap64 (uint w)"

section \<open>Big-endian byte strings\<close>

fun be_val :: "bytes \<Rightarrow> nat" where
  "be_val [] = 0"
| "be_val (b # bs) = unat b * 256 ^ length bs + be_val bs"

text \<open>\<open>big.Int.Bytes\<close>: the big-endian bytes without leading zeros, empty for zero.\<close>

fun be_bytes :: "nat \<Rightarrow> bytes" where
  "be_bytes n = (if n = 0 then [] else be_bytes (n div 256) @ [word_of_nat (n mod 256)])"

declare be_bytes.simps [simp del]

definition no_leading_zero :: "bytes \<Rightarrow> bool" where
  "no_leading_zero bs \<longleftrightarrow> (bs = [] \<or> hd bs \<noteq> 0)"

section \<open>Lemmas on fixed-width integers\<close>

lemma wrap64_id [simp]: "in_int64 x \<Longrightarrow> wrap64 x = x"
  by (simp add: wrap64_def in_int64_def)

lemma in_int64I: "0 \<le> x \<Longrightarrow> x < 2 ^ 63 \<Longrightarrow> in_int64 x"
  by (simp add: in_int64_def)

lemma in_int64_wrap64 [simp]: "in_int64 (wrap64 x)"
proof -
  have "0 \<le> (x + 2 ^ 63) mod 2 ^ 64" "(x + 2 ^ 63) mod 2 ^ 64 < (2::int) ^ 64"
    by simp_all
  then show ?thesis by (simp add: wrap64_def in_int64_def)
qed

lemma int64_of_small:
  assumes "uint w < 2 ^ 63"
  shows "int64_of w = uint w"
proof -
  have "- (2 ^ 63) \<le> uint w" by (rule order.trans [of _ 0]) simp_all
  with assms show ?thesis unfolding int64_of_def by (intro wrap64_id) (simp only: in_int64_def simp_thms)
qed

lemma wrap64_mod: "wrap64 (x mod 2 ^ 64) = wrap64 x"
  by (simp add: wrap64_def mod_simps)

lemma int64_of_diff: "int64_of (bigUint64 a - bigUint64 b) = wrap64 (a - b)"
proof -
  have "bigUint64 a - bigUint64 b = word_of_int (a - b)" by (simp add: bigUint64_def)
  then have "uint (bigUint64 a - bigUint64 b) = uint (word_of_int (a - b) :: u64)"
    by (simp only:)
  also have "\<dots> = (a - b) mod 2 ^ 64" by (subst uint_word_of_int) simp
  finally show ?thesis by (simp only: int64_of_def wrap64_mod)
qed

lemma unat_sub_noborrow [word_arith]:
  fixes a b :: "'a::len word"
  shows "b \<le> a \<Longrightarrow> unat (a - b) = unat a - unat b"
  by (rule unat_sub)

lemma unat_add_nocarry [word_arith]:
  fixes a b :: u64
  shows "unat a + unat b < 2 ^ 64 \<Longrightarrow> unat (a + b) = unat a + unat b"
  by (simp add: unat_word_ariths)

lemma unat_mult_nocarry [word_arith]:
  fixes a b :: u64
  shows "unat a * unat b < 2 ^ 64 \<Longrightarrow> unat (a * b) = unat a * unat b"
  by (simp add: unat_word_ariths)

lemma unat_byte_lt [simp]: "unat (b :: u8) < 256"
  using unsigned_less [of b] by simp

lemma unat_u64_lt [simp]: "unat (w :: u64) < 18446744073709551616"
  using unsigned_less [of w] by simp

lemma smod_nonneg: "0 \<le> a \<Longrightarrow> 0 < b \<Longrightarrow> a smod b = a mod (b :: int)"
  by (auto simp: signed_modulo_int_def signed_divide_int_def sgn_if
      minus_mult_div_eq_mod [symmetric] mult.commute)

lemma sdiv_nonneg: "0 \<le> a \<Longrightarrow> 0 < b \<Longrightarrow> a sdiv b = a div (b :: int)"
  by (auto simp: signed_divide_int_def sgn_if)

section \<open>Lemmas on byte strings\<close>

lemma be_val_append: "be_val (xs @ ys) = be_val xs * 256 ^ length ys + be_val ys"
  by (induction xs) (simp_all add: power_add algebra_simps)

lemma be_val_snoc [simp]: "be_val (xs @ [b]) = be_val xs * 256 + unat b"
  by (simp add: be_val_append)

lemma be_val_lt: "be_val bs < 256 ^ length bs"
proof (induction bs)
  case Nil
  show ?case by simp
next
  case (Cons b bs)
  have "unat b * 256 ^ length bs + be_val bs < (unat b + 1) * 256 ^ length bs"
    using Cons by simp
  also have "\<dots> \<le> 256 * 256 ^ length bs"
    by (rule mult_le_mono1) (use unat_byte_lt [of b] in linarith)
  finally show ?case by simp
qed

lemma be_val_zeros [simp]: "be_val (replicate n 0 @ bs) = be_val bs"
  by (induction n) simp_all

lemma be_bytes_zero [simp]: "be_bytes 0 = []"
  by (simp add: be_bytes.simps)

lemma be_bytes_eq_Nil [simp]: "be_bytes n = [] \<longleftrightarrow> n = 0"
  by (subst be_bytes.simps) simp

lemma be_bytes_nonzero: "n \<noteq> 0 \<Longrightarrow> be_bytes n = be_bytes (n div 256) @ [word_of_nat (n mod 256)]"
  by (subst be_bytes.simps) simp

lemma be_val_be_bytes [simp]: "be_val (be_bytes n) = n"
proof (induction n rule: be_bytes.induct)
  case (1 n)
  show ?case
  proof (cases "n = 0")
    case True
    then show ?thesis by simp
  next
    case False
    have "unat (word_of_nat (n mod 256) :: u8) = n mod 256"
      by (simp add: unat_of_nat)
    with 1 False show ?thesis by (simp add: be_bytes_nonzero)
  qed
qed

lemma hd_be_bytes: "n \<noteq> 0 \<Longrightarrow> hd (be_bytes n) \<noteq> 0"
proof (induction n rule: be_bytes.induct)
  case (1 n)
  show ?case
  proof (cases "n div 256 = 0")
    case True
    then have "n < 256" by (simp add: div_eq_0_iff)
    with 1(2) have "word_of_nat n \<noteq> (0 :: u8)"
      by (simp add: word_of_nat_eq_0_iff nat_dvd_not_less)
    with True 1(2) \<open>n < 256\<close> show ?thesis by (simp add: be_bytes_nonzero)
  next
    case False
    with 1 have "hd (be_bytes (n div 256)) \<noteq> 0" by simp
    moreover have "be_bytes (n div 256) \<noteq> []" using False by simp
    ultimately show ?thesis
      unfolding be_bytes_nonzero [OF 1(2)] by (metis hd_append2)
  qed
qed

lemma no_leading_zero_be_bytes [simp]: "no_leading_zero (be_bytes n)"
  by (cases "n = 0") (simp_all add: no_leading_zero_def hd_be_bytes)

lemma be_bytes_be_val: "no_leading_zero bs \<Longrightarrow> be_bytes (be_val bs) = bs"
proof (induction bs rule: rev_induct)
  case Nil
  show ?case by simp
next
  case (snoc b bs)
  show ?case
  proof (cases "bs = []")
    case True
    with snoc.prems have "unat b \<noteq> 0"
      by (simp add: no_leading_zero_def unat_eq_0)
    then show ?thesis using True unat_byte_lt [of b] by (simp add: be_bytes_nonzero)
  next
    case False
    with snoc.prems have nz: "no_leading_zero bs" by (simp add: no_leading_zero_def)
    with snoc.IH have IH: "be_bytes (be_val bs) = bs" by simp
    with False have "be_val bs \<noteq> 0" by (metis be_bytes_zero)
    with IH unat_byte_lt [of b] show ?thesis by (simp add: be_bytes_nonzero)
  qed
qed

lemma be_bytes_inject [simp]: "be_bytes m = be_bytes n \<longleftrightarrow> m = n"
  by (metis be_val_be_bytes)

lemma be_val_ge: "no_leading_zero bs \<Longrightarrow> bs \<noteq> [] \<Longrightarrow> 256 ^ (length bs - 1) \<le> be_val bs"
proof (cases bs)
  case (Cons b cs)
  assume "no_leading_zero bs" "bs \<noteq> []"
  with Cons have "1 \<le> unat b" by (simp add: no_leading_zero_def Suc_le_eq unat_gt_0)
  then have "1 * 256 ^ length cs \<le> unat b * 256 ^ length cs" by (rule mult_le_mono1)
  then show ?thesis by (simp add: Cons trans_le_add1)
qed simp

lemma length_be_bytes_le: "n < 256 ^ k \<Longrightarrow> length (be_bytes n) \<le> k"
proof (rule ccontr)
  assume n: "n < 256 ^ k" and "\<not> length (be_bytes n) \<le> k"
  then have k: "k \<le> length (be_bytes n) - 1" and "be_bytes n \<noteq> []"
    by (cases "be_bytes n"; simp)+
  then have "256 ^ (length (be_bytes n) - 1) \<le> n"
    using be_val_ge [of "be_bytes n"] by simp
  moreover have "(256::nat) ^ k \<le> 256 ^ (length (be_bytes n) - 1)"
    using k by (rule power_increasing) simp
  ultimately show False using n by linarith
qed

section \<open>Codec interfaces\<close>

text \<open>
  An encoder whose decoder takes the whole input, and an encoder whose decoder reads
  one value off the front of the input and returns the rest. The clients use what the
  laws give: encodings are injective, no encoding is a prefix of another, and a
  sequence of encodings has one reading.
\<close>

locale codec =
  fixes enc :: "'a \<Rightarrow> 'b" and dec :: "'b \<Rightarrow> 'a option" and valid :: "'a \<Rightarrow> bool"
  assumes dec_enc: "valid x \<Longrightarrow> dec (enc x) = Some x"
begin

lemma enc_inject: "valid x \<Longrightarrow> valid y \<Longrightarrow> enc x = enc y \<longleftrightarrow> x = y"
proof
  assume "valid x" "valid y" "enc x = enc y"
  then have "Some x = Some y" by (metis dec_enc)
  then show "x = y" by simp
qed simp

end

locale stream_codec =
  fixes senc :: "'a \<Rightarrow> 'b list" and sdec :: "'b list \<Rightarrow> ('a \<times> 'b list) option"
    and svalid :: "'a \<Rightarrow> bool" and fits :: "'b list \<Rightarrow> bool"
  assumes sdec_senc: "svalid x \<Longrightarrow> fits (senc x @ rest) \<Longrightarrow> sdec (senc x @ rest) = Some (x, rest)"
    and fits_suffix: "fits (xs @ ys) \<Longrightarrow> fits ys"
begin

lemma senc_prefix_free:
  assumes "svalid x" "svalid y" "fits (senc x @ r)" "senc x @ r = senc y @ s"
  shows "x = y \<and> r = s"
proof -
  have "Some (x, r) = Some (y, s)"
    unfolding sdec_senc [OF assms(1,3), symmetric] assms(4)
    using sdec_senc [OF assms(2)] assms(3,4) by simp
  then show ?thesis by simp
qed

lemma senc_inject: "svalid x \<Longrightarrow> svalid y \<Longrightarrow> fits (senc x) \<Longrightarrow> senc x = senc y \<longleftrightarrow> x = y"
proof
  assume "svalid x" "svalid y" "fits (senc x)" "senc x = senc y"
  then show "x = y" using senc_prefix_free [of x y "[]" "[]"] by simp
qed simp

lemma senc_seq_unique:
  "\<lbrakk>\<forall>x \<in> set xs. svalid x; \<forall>y \<in> set ys. svalid y; length xs = length ys;
    fits (concat (map senc xs) @ r);
    concat (map senc xs) @ r = concat (map senc ys) @ s\<rbrakk> \<Longrightarrow> xs = ys \<and> r = s"
proof (induction xs arbitrary: ys)
  case Nil
  then show ?case by simp
next
  case (Cons x xs)
  then obtain y zs where ys: "ys = y # zs" by (cases ys) auto
  with Cons.prems
  have "x = y \<and> concat (map senc xs) @ r = concat (map senc zs) @ s"
    by (intro senc_prefix_free) simp_all
  moreover have "fits (concat (map senc xs) @ r)"
    using Cons.prems(4) fits_suffix [of "senc x"] by simp
  ultimately show ?case using Cons.IH [of zs] Cons.prems ys by simp
qed

end

end
