(* ===== verification/Common.thy ===== *)
theory Common
  imports Prelude
begin

text \<open>
  The helpers of \<^verbatim>\<open>src/common/bytes.go\<close> and \<^verbatim>\<open>src/common/types.go\<close>: hexadecimal text,
  padding, and the fixed-size \<open>Hash\<close> and \<open>Address\<close> values. \<open>hexDecode\<close> is
  \<open>encoding/hex.DecodeString\<close>: the bytes decoded before the first bad digit, and whether
  the whole text was good.
\<close>

section \<open>Hexadecimal text\<close>

definition fromHexChar :: "char \<Rightarrow> nat option" where
  "fromHexChar c = (let n = of_char c :: nat in
     if 48 \<le> n \<and> n \<le> 57 then Some (n - 48)
     else if 97 \<le> n \<and> n \<le> 102 then Some (n - 97 + 10)
     else if 65 \<le> n \<and> n \<le> 70 then Some (n - 65 + 10)
     else None)"

definition toHexChar :: "nat \<Rightarrow> char" where
  "toHexChar n = char_of (if n < 10 then n + 48 else n - 10 + 97)"

fun hexDecode :: "string \<Rightarrow> bytes \<times> bool" where
  "hexDecode [] = ([], True)"
| "hexDecode [c] = ([], False)"
| "hexDecode (c # d # cs) =
     (case (fromHexChar c, fromHexChar d) of
        (Some x, Some y) \<Rightarrow>
          (let (bs, ok) = hexDecode cs in (word_of_nat (16 * x + y) # bs, ok))
      | _ \<Rightarrow> ([], False))"

fun Bytes2Hex :: "bytes \<Rightarrow> string" where
  "Bytes2Hex [] = []"
| "Bytes2Hex (b # bs) = toHexChar (unat b div 16) # toHexChar (unat b mod 16) # Bytes2Hex bs"

definition Hex2Bytes :: "string \<Rightarrow> bytes" where
  "Hex2Bytes s = fst (hexDecode s)"

definition ToHex :: "bytes \<Rightarrow> string" where
  "ToHex b = (let hex = Bytes2Hex b in ''0x'' @ (if length hex = 0 then ''0'' else hex))"

definition FromHex :: "string \<Rightarrow> bytes" where
  "FromHex s =
     (let s1 = (if 1 < length s \<and> (take 2 s = ''0x'' \<or> take 2 s = ''0X'') then drop 2 s else s);
          s2 = (if length s1 mod 2 = 1 then CHR ''0'' # s1 else s1)
      in Hex2Bytes s2)"

definition hasHexPrefix :: "string \<Rightarrow> bool" where
  "hasHexPrefix str \<longleftrightarrow>
     2 \<le> length str \<and> str ! 0 = CHR ''0'' \<and> (str ! 1 = CHR ''x'' \<or> str ! 1 = CHR ''X'')"

definition isHexCharacter :: "char \<Rightarrow> bool" where
  "isHexCharacter c = (let n = of_char c :: nat in
     (48 \<le> n \<and> n \<le> 57) \<or> (97 \<le> n \<and> n \<le> 102) \<or> (65 \<le> n \<and> n \<le> 70))"

definition isHex :: "string \<Rightarrow> bool" where
  "isHex str \<longleftrightarrow> length str mod 2 = 0 \<and> list_all isHexCharacter str"

definition IsHexAddress :: "string \<Rightarrow> bool" where
  "IsHexAddress s = (let s1 = (if hasHexPrefix s then drop 2 s else s)
     in length s1 = 2 * 20 \<and> isHex s1)"

section \<open>Padding and fixed-size values\<close>

definition Hex2BytesFixed :: "string \<Rightarrow> nat \<Rightarrow> bytes" where
  "Hex2BytesFixed str flen = (let h = fst (hexDecode str) in
     if length h = flen then h
     else if flen < length h then drop (length h - flen) h
     else replicate (flen - length h) 0 @ h)"

definition RightPadBytes :: "bytes \<Rightarrow> nat \<Rightarrow> bytes" where
  "RightPadBytes b l =
     (if l \<le> length b then b else b @ replicate (l - length b) 0)"

definition LeftPadBytes :: "bytes \<Rightarrow> nat \<Rightarrow> bytes" where
  "LeftPadBytes b l =
     (if l \<le> length b then b else replicate (l - length b) 0 @ b)"

text \<open>\<open>SetBytes\<close> crops from the left and aligns to the right.\<close>

definition BytesToHash :: "bytes \<Rightarrow> hash256" where
  "BytesToHash b = word_of_nat (be_val (if 32 < length b then drop (length b - 32) b else b))"

definition BytesToAddress :: "bytes \<Rightarrow> address" where
  "BytesToAddress b = word_of_nat (be_val (if 20 < length b then drop (length b - 20) b else b))"

text \<open>A slice that may be nil, read as a byte string.\<close>

definition bytesOf :: "bytes option \<Rightarrow> bytes" where
  "bytesOf b = (case b of None \<Rightarrow> [] | Some x \<Rightarrow> x)"

definition HexToAddress :: "string \<Rightarrow> address" where
  "HexToAddress s = BytesToAddress (FromHex s)"

definition addr_bytes :: "address \<Rightarrow> bytes" where
  "addr_bytes a = LeftPadBytes (be_bytes (unat a)) 20"

definition hash_bytes :: "hash256 \<Rightarrow> bytes" where
  "hash_bytes h = LeftPadBytes (be_bytes (unat h)) 32"

section \<open>Lemmas\<close>

lemma fromHexChar_toHexChar: "n < 16 \<Longrightarrow> fromHexChar (toHexChar n) = Some n"
  by (auto simp: fromHexChar_def toHexChar_def Let_def)

lemma isHexCharacter_iff: "isHexCharacter c \<longleftrightarrow> fromHexChar c \<noteq> None"
  by (auto simp: isHexCharacter_def fromHexChar_def Let_def)

lemma hexDecode_Bytes2Hex: "hexDecode (Bytes2Hex bs) = (bs, True)"
proof (induction bs)
  case Nil
  show ?case by simp
next
  case (Cons b bs)
  have "unat b div 16 < 16" by (rule less_mult_imp_div_less) simp
  then have hi: "fromHexChar (toHexChar (unat b div 16)) = Some (unat b div 16)"
    by (rule fromHexChar_toHexChar)
  have lo: "fromHexChar (toHexChar (unat b mod 16)) = Some (unat b mod 16)"
    by (rule fromHexChar_toHexChar) simp
  have "word_of_nat (16 * (unat b div 16) + unat b mod 16) = b" by simp
  with Cons hi lo show ?case by simp
qed

lemma hexDecode_ok: "snd (hexDecode s) \<longleftrightarrow> isHex s"
  by (induction s rule: hexDecode.induct)
    (auto simp: isHex_def isHexCharacter_iff split: option.splits prod.splits)

lemma length_hexDecode: "snd (hexDecode s) \<Longrightarrow> 2 * length (fst (hexDecode s)) = length s"
  by (induction s rule: hexDecode.induct) (auto split: option.splits prod.splits)

interpretation hex_text: codec Bytes2Hex "\<lambda>s. if snd (hexDecode s) then Some (fst (hexDecode s)) else None" "\<lambda>_. True"
  by unfold_locales (simp add: hexDecode_Bytes2Hex)

lemma length_LeftPadBytes [simp]: "length (LeftPadBytes b l) = max l (length b)"
  by (simp add: LeftPadBytes_def)

lemma length_RightPadBytes [simp]: "length (RightPadBytes b l) = max l (length b)"
  by (simp add: RightPadBytes_def)

lemma be_val_LeftPadBytes [simp]: "be_val (LeftPadBytes b l) = be_val b"
  by (simp add: LeftPadBytes_def)

lemma be_bytes_unat_len:
  fixes w :: "'a::len word"
  assumes "LENGTH('a) = 8 * k"
  shows "length (be_bytes (unat w)) \<le> k"
proof (rule length_be_bytes_le)
  have "unat w < 2 ^ (8 * k)" using unsigned_less [of w] assms by simp
  then show "unat w < 256 ^ k" by (simp add: power_mult)
qed

lemma length_addr_bytes [simp]: "length (addr_bytes a) = 20"
  using be_bytes_unat_len [of 20 a] by (simp add: addr_bytes_def)

lemma length_hash_bytes [simp]: "length (hash_bytes h) = 32"
  using be_bytes_unat_len [of 32 h] by (simp add: hash_bytes_def)

lemma BytesToAddress_addr_bytes [codec_laws]: "BytesToAddress (addr_bytes a) = a"
  by (simp add: BytesToAddress_def) (simp add: addr_bytes_def)

lemma BytesToHash_hash_bytes [codec_laws]: "BytesToHash (hash_bytes h) = h"
  by (simp add: BytesToHash_def) (simp add: hash_bytes_def)

interpretation addr_codec: codec addr_bytes "\<lambda>b. Some (BytesToAddress b)" "\<lambda>_. True"
  by unfold_locales (simp add: codec_laws)

interpretation hash_codec: codec hash_bytes "\<lambda>b. Some (BytesToHash b)" "\<lambda>_. True"
  by unfold_locales (simp add: codec_laws)

end
