(* ===== verification/StarList.thy ===== *)
theory StarList
  imports Common
begin

text \<open>
  The list of block producers (\<^verbatim>\<open>src/common/dpovp/dpovp_util.go\<close>): reading the file
  \<open>starlist\<close>, and the queries on the list that the consensus engine, the miner and the
  block chain use. The package's globals \<open>dataDir\<close> and \<open>starList\<close> are the record
  \<open>StarState\<close> (\<open>starList = None\<close> is Go's nil). The file system is a parameter: the
  content of each file name, None when the open fails (\<open>log.Crit\<close> then ends the process).
  The text of the file is read as single-byte characters.
\<close>

record AddrNodeIDMapping =
  Addr :: address
  Pubkey :: bytes

record StarState =
  dataDir :: string
  starList :: "AddrNodeIDMapping list option"

definition SetDataDir :: "string \<Rightarrow> StarState \<Rightarrow> StarState" where
  "SetDataDir path st = (if dataDir st = '''' then st\<lparr>dataDir := path\<rparr> else st)"

section \<open>Reading the file\<close>

text \<open>\<open>bufio.Reader.ReadString\<close> in the loop: the lines, the last one only if not empty.\<close>

function readLines :: "string \<Rightarrow> string list" where
  "readLines [] = []"
| "readLines (c # cs) =
     (let line = takeWhile (\<lambda>x. x \<noteq> CHR 10) (c # cs);
          rest = dropWhile (\<lambda>x. x \<noteq> CHR 10) (c # cs)
      in line # readLines (tl rest))"
  by pat_completeness auto
termination
proof (relation "measure length", goal_cases)
  case 1
  show ?case by simp
next
  case (2 c cs line rest)
  have "length (tl (dropWhile (\<lambda>x. x \<noteq> CHR 10) (c # cs))) < length (c # cs)"
    using length_dropWhile_le [of "\<lambda>x. x \<noteq> CHR 10" "c # cs"]
    by (cases "dropWhile (\<lambda>x. x \<noteq> CHR 10) (c # cs)") auto
  with 2 show ?case by simp
qed

text \<open>\<open>strings.TrimSpace\<close> on single-byte text, and \<open>strings.Split(s, " ")\<close>.\<close>

definition isSpace :: "char \<Rightarrow> bool" where
  "isSpace c = (let n = of_char c :: nat in (9 \<le> n \<and> n \<le> 13) \<or> n = 32)"

definition TrimSpace :: "string \<Rightarrow> string" where
  "TrimSpace s = rev (dropWhile isSpace (rev (dropWhile isSpace s)))"

fun splitOn :: "char \<Rightarrow> string \<Rightarrow> string list" where
  "splitOn sep [] = [[]]"
| "splitOn sep (c # cs) =
     (if c = sep then [] # splitOn sep cs
      else (case splitOn sep cs of [] \<Rightarrow> [[c]] | w # ws \<Rightarrow> (c # w) # ws))"

definition parseStarLine :: "string \<Rightarrow> AddrNodeIDMapping option" where
  "parseStarLine line0 =
     (let tmp = splitOn (CHR '' '') (TrimSpace line0) in
      if length tmp \<noteq> 2 then None
      else let addrStr = (if take 2 (tmp ! 0) = ''0x'' \<or> take 2 (tmp ! 0) = ''0X''
                          then drop 2 (tmp ! 0) else tmp ! 0)
           in Some \<lparr>Addr = HexToAddress addrStr, Pubkey = Hex2Bytes (tmp ! 1)\<rparr>)"

definition readStarList :: "(string \<Rightarrow> string option) \<Rightarrow> StarState \<Rightarrow> StarState option" where
  "readStarList fs st =
     (case fs (dataDir st @ ''/starlist'') of
        None \<Rightarrow> None
      | Some content \<Rightarrow>
          Some (st\<lparr>starList := Some (List.map_filter parseStarLine (readLines content))\<rparr>))"

definition GetAllSortedCoreNodes ::
  "(string \<Rightarrow> string option) \<Rightarrow> StarState \<Rightarrow> (AddrNodeIDMapping list \<times> StarState) option" where
  "GetAllSortedCoreNodes fs st =
     (case starList st of
        Some ns \<Rightarrow> Some (ns, st)
      | None \<Rightarrow> (case readStarList fs st of
                   None \<Rightarrow> None
                 | Some st' \<Rightarrow> (case starList st' of None \<Rightarrow> None | Some ns \<Rightarrow> Some (ns, st'))))"

section \<open>Queries\<close>

text \<open>
  Each query walks the slice returned by \<open>GetAllSortedCoreNodes\<close>, here the argument
  \<open>nodes\<close>. \<open>firstIndex\<close> is their common loop.
\<close>

fun firstIndex :: "('a \<Rightarrow> bool) \<Rightarrow> int \<Rightarrow> 'a list \<Rightarrow> int" where
  "firstIndex p i [] = -1"
| "firstIndex p i (x # xs) = (if p x then i else firstIndex p (i + 1) xs)"

definition GetCoreNodesCount :: "AddrNodeIDMapping list \<Rightarrow> int" where
  "GetCoreNodesCount nodes = int (length nodes)"

definition GetCoreNodeIndex :: "AddrNodeIDMapping list \<Rightarrow> address \<Rightarrow> int" where
  "GetCoreNodeIndex nodes a = firstIndex (\<lambda>n. Addr n = a) 0 nodes"

definition GetCoreNodeIndexByPubkey ::
  "AddrNodeIDMapping list \<Rightarrow> bytes \<Rightarrow> go_panic + int" where
  "GetCoreNodeIndexByPubkey nodes pubKey =
     (if nodes \<noteq> [] \<and> pubKey = [] then Inl IndexOutOfRange
      else Inr (firstIndex (\<lambda>n. Pubkey n = drop 1 pubKey) 0 nodes))"

fun GetPubkeyByAddress :: "AddrNodeIDMapping list \<Rightarrow> address \<Rightarrow> bytes option" where
  "GetPubkeyByAddress [] a = None"
| "GetPubkeyByAddress (n # ns) a = (if Addr n = a then Some (Pubkey n) else GetPubkeyByAddress ns a)"

fun addressOfPubkey :: "AddrNodeIDMapping list \<Rightarrow> bytes \<Rightarrow> address" where
  "addressOfPubkey [] k = 0"
| "addressOfPubkey (n # ns) k = (if Pubkey n = k then Addr n else addressOfPubkey ns k)"

definition GetAddressByPubkey :: "AddrNodeIDMapping list \<Rightarrow> bytes \<Rightarrow> address" where
  "GetAddressByPubkey nodes pubKey =
     addressOfPubkey nodes (if length pubKey = 65 then drop 1 pubKey else pubKey)"

definition GetSlot :: "AddrNodeIDMapping list \<Rightarrow> address \<Rightarrow> address \<Rightarrow> go_panic + int" where
  "GetSlot nodes firstAddress nextAddress =
     (let firstIdx = GetCoreNodeIndex nodes firstAddress;
          nextIdx = GetCoreNodeIndex nodes nextAddress
      in if firstAddress = 0 then Inr (nextIdx + 1)
         else let nodeCount = GetCoreNodesCount nodes in
           if nodeCount = 1 then Inr 1
           else if nodeCount = 0 then Inl DivideByZero
           else Inr ((nextIdx - firstIdx + nodeCount) smod nodeCount))"

section \<open>The contract of the list\<close>

text \<open>
  What the engine and the miner rely on: an address has a position in the list or the
  position -1; positions tell addresses apart; when no address is listed twice, every
  position belongs to an address. \<open>slot_unique\<close> and \<open>slot_exists\<close> are the two facts about
  cyclic distances that the turn rule rests on.
\<close>

locale core_nodes =
  fixes idx :: "'l \<Rightarrow> address \<Rightarrow> int" and cnt :: "'l \<Rightarrow> int" and nodup :: "'l \<Rightarrow> bool"
  assumes idx_range: "-1 \<le> idx l a \<and> idx l a < cnt l"
    and idx_inj: "0 \<le> idx l a \<Longrightarrow> idx l a = idx l b \<Longrightarrow> a = b"
    and idx_onto: "nodup l \<Longrightarrow> 0 \<le> i \<Longrightarrow> i < cnt l \<Longrightarrow> \<exists>a. idx l a = i"
begin

lemma cyclic_distance_eq:
  assumes "0 \<le> idx l a" "0 \<le> idx l p"
  shows "(idx l a - idx l p + cnt l) mod cnt l = k mod cnt l \<longleftrightarrow>
         idx l a = (idx l p + k) mod cnt l"
proof
  assume "(idx l a - idx l p + cnt l) mod cnt l = k mod cnt l"
  then have "(idx l p + (idx l a - idx l p)) mod cnt l = (idx l p + k) mod cnt l"
    by (intro mod_add_cong) simp_all
  then show "idx l a = (idx l p + k) mod cnt l"
    using assms(1) idx_range [of l a] by simp
next
  assume "idx l a = (idx l p + k) mod cnt l"
  then have "idx l a mod cnt l = (idx l p + k) mod cnt l" by simp
  then have "(idx l a - idx l p) mod cnt l = (idx l p + k - idx l p) mod cnt l"
    by (intro mod_diff_cong) simp_all
  then show "(idx l a - idx l p + cnt l) mod cnt l = k mod cnt l" by simp
qed

lemma slot_unique:
  assumes "0 \<le> idx l a" "0 \<le> idx l b" "0 \<le> idx l p"
    and "(idx l a - idx l p + cnt l) mod cnt l = k mod cnt l"
    and "(idx l b - idx l p + cnt l) mod cnt l = k mod cnt l"
  shows "a = b"
proof (rule idx_inj [OF assms(1)])
  from assms show "idx l a = idx l b" by (simp only: cyclic_distance_eq)
qed

lemma slot_exists:
  assumes "nodup l" "0 \<le> idx l p"
  shows "\<exists>a. 0 \<le> idx l a \<and> (idx l a - idx l p + cnt l) mod cnt l = k mod cnt l"
proof -
  have "0 < cnt l" using assms(2) idx_range [of l p] by linarith
  then obtain a where "idx l a = (idx l p + k) mod cnt l"
    using idx_onto [OF assms(1), of "(idx l p + k) mod cnt l"] by auto
  with \<open>0 < cnt l\<close> show ?thesis
    using cyclic_distance_eq [OF _ assms(2)] by (metis pos_mod_sign)
qed

end

section \<open>The list implements the contract\<close>

lemma firstIndex_cases:
  "firstIndex p i xs = -1 \<and> (\<forall>x \<in> set xs. \<not> p x) \<or>
   (\<exists>k < length xs. firstIndex p i xs = i + int k \<and> p (xs ! k) \<and> (\<forall>j < k. \<not> p (xs ! j)))"
proof (induction xs arbitrary: i)
  case Nil
  show ?case by simp
next
  case (Cons x xs)
  show ?case
  proof (cases "p x")
    case True
    then show ?thesis by (intro disjI2 exI [of _ 0]) simp
  next
    case False
    from Cons.IH [of "i + 1"] show ?thesis
    proof (elim disjE exE conjE)
      fix k assume "k < length xs" "firstIndex p (i + 1) xs = i + 1 + int k" "p (xs ! k)"
        "\<forall>j < k. \<not> p (xs ! j)"
      with False show ?thesis
        by (intro disjI2 exI [of _ "Suc k"]) (auto simp: less_Suc_eq_0_disj)
    qed (use False in simp)
  qed
qed

lemma GetCoreNodeIndex_cases:
  obtains (absent) "GetCoreNodeIndex ns a = -1" "\<forall>n \<in> set ns. Addr n \<noteq> a"
  | (present) k where "k < length ns" "GetCoreNodeIndex ns a = int k" "Addr (ns ! k) = a"
      "\<forall>j < k. Addr (ns ! j) \<noteq> a"
  using firstIndex_cases [of "\<lambda>n. Addr n = a" 0 ns] by (auto simp: GetCoreNodeIndex_def)

lemma GetCoreNodeIndex_member: "0 \<le> GetCoreNodeIndex ns a \<longleftrightarrow> a \<in> Addr ` set ns"
  by (cases rule: GetCoreNodeIndex_cases [of ns a]) (auto simp: image_iff)

lemma GetCoreNodeIndex_nth:
  assumes "distinct (map Addr ns)" "k < length ns"
  shows "GetCoreNodeIndex ns (Addr (ns ! k)) = int k"
proof (cases rule: GetCoreNodeIndex_cases [of ns "Addr (ns ! k)"])
  case absent
  with assms(2) show ?thesis by auto
next
  case (present j)
  with assms show ?thesis by (auto simp: distinct_conv_nth)
qed

interpretation star: core_nodes GetCoreNodeIndex GetCoreNodesCount "\<lambda>ns. distinct (map Addr ns)"
proof unfold_locales
  fix ns :: "AddrNodeIDMapping list" and a b :: address and i :: int
  show "-1 \<le> GetCoreNodeIndex ns a \<and> GetCoreNodeIndex ns a < GetCoreNodesCount ns"
    by (cases rule: GetCoreNodeIndex_cases [of ns a]) (auto simp: GetCoreNodesCount_def)
  show "0 \<le> GetCoreNodeIndex ns a \<Longrightarrow> GetCoreNodeIndex ns a = GetCoreNodeIndex ns b \<Longrightarrow> a = b"
    by (cases rule: GetCoreNodeIndex_cases [of ns a]; cases rule: GetCoreNodeIndex_cases [of ns b]) auto
  assume "distinct (map Addr ns)" "0 \<le> i" "i < GetCoreNodesCount ns"
  then have "GetCoreNodeIndex ns (Addr (ns ! nat i)) = i"
    by (subst GetCoreNodeIndex_nth) (auto simp: GetCoreNodesCount_def nat_less_iff)
  then show "\<exists>a. GetCoreNodeIndex ns a = i" by blast
qed

lemma GetPubkeyByAddress_first:
  "k < length ns \<Longrightarrow> Addr (ns ! k) = a \<Longrightarrow> \<forall>j < k. Addr (ns ! j) \<noteq> a \<Longrightarrow>
   GetPubkeyByAddress ns a = Some (Pubkey (ns ! k))"
proof (induction ns arbitrary: k)
  case Nil
  then show ?case by simp
next
  case (Cons n ns)
  show ?case
  proof (cases k)
    case 0
    with Cons.prems show ?thesis by simp
  next
    case (Suc m)
    with Cons.prems have "Addr n \<noteq> a" by force
    moreover have "GetPubkeyByAddress ns a = Some (Pubkey (ns ! m))"
      by (rule Cons.IH) (use Cons.prems Suc in force)+
    ultimately show ?thesis using Suc by simp
  qed
qed

lemma GetPubkeyByAddress_None: "GetPubkeyByAddress ns a = None \<longleftrightarrow> a \<notin> Addr ` set ns"
  by (induction ns) auto

lemma GetPubkeyByAddress_index:
  "0 \<le> GetCoreNodeIndex ns a \<Longrightarrow>
   GetPubkeyByAddress ns a = Some (Pubkey (ns ! nat (GetCoreNodeIndex ns a)))"
  by (cases rule: GetCoreNodeIndex_cases [of ns a]) (simp_all add: GetPubkeyByAddress_first)

lemma GetSlot_members:
  assumes "0 \<le> GetCoreNodeIndex ns p" "0 \<le> GetCoreNodeIndex ns a" "p \<noteq> 0" "GetCoreNodesCount ns \<noteq> 1"
  shows "GetSlot ns p a =
    Inr ((GetCoreNodeIndex ns a - GetCoreNodeIndex ns p + GetCoreNodesCount ns) mod GetCoreNodesCount ns)"
proof -
  from star.idx_range [of ns p] star.idx_range [of ns a] assms
  have "0 < GetCoreNodesCount ns"
    and "0 \<le> GetCoreNodeIndex ns a - GetCoreNodeIndex ns p + GetCoreNodesCount ns" by linarith+
  then show ?thesis
    using assms by (simp add: GetSlot_def Let_def smod_nonneg)
qed

end
