(* ===== verification/Engine.thy ===== *)
theory Engine
  imports StarList
begin

text \<open>
  The consensus engine (\<^verbatim>\<open>src/consensus/dpovp/dpovp.go\<close>) over block headers
  (\<^verbatim>\<open>src/core/types/block.go\<close>). The hash of a header, Keccak-256, public-key recovery and
  signing are parameters (\<open>cryptoOps\<close>), as is the clock; the chain reader is the function
  that looks a header up by hash and number. An \<open>error\<close> result of Go is an option: None
  is nil. A panic is the error \<open>Panic\<close>.
\<close>

section \<open>Headers and parameters\<close>

record Header =
  hParentHash :: hash256
  hUncleHash :: hash256
  hCoinbase :: address
  hRoot :: hash256
  hTxHash :: hash256
  hReceiptHash :: hash256
  hBloom :: bytes
  hDifficulty :: int
  hNumber :: "int option"
  hGasLimit :: u64
  hGasUsed :: u64
  hTime :: int
  hExtra :: bytes
  hMixDigest :: hash256
  hNonce :: u64
  hSignInfo :: bytes

record cryptoOps =
  hdrHash :: "Header \<Rightarrow> hash256"
  keccak256 :: "bytes \<Rightarrow> hash256"
  ecrecover :: "hash256 \<Rightarrow> bytes \<Rightarrow> bytes option"

record DpovpConfig =
  Timeout :: int
  Sleeptime :: int

record Dpovp =
  coinbase :: address
  timeoutTime :: int
  blockInternal :: int

datatype dpovp_error =
    ErrInvalidNumber
  | ErrUnknownAncestor
  | ErrFutureBlock
  | BadDifficulty
  | WrongSignInfo
  | NoPubkey address
  | SignerMismatch
  | NotNewer
  | OnlyOneNode
  | NotTurn nat
  | UnclesNotAllowed
  | SealRecoverFailed
  | SignerNotCoinbase
  | NotInStarList
  | UnknownBlock
  | SignFailed
  | Panic go_panic

definition newDpovp :: "DpovpConfig \<Rightarrow> address \<Rightarrow> Dpovp" where
  "newDpovp config cb =
     \<lparr>coinbase = cb, timeoutTime = Timeout config, blockInternal = Sleeptime config\<rparr>"

definition SetCoinbase :: "address \<Rightarrow> Dpovp \<Rightarrow> Dpovp" where
  "SetCoinbase cb d = d\<lparr>coinbase := cb\<rparr>"

definition Author :: "Header \<Rightarrow> address" where
  "Author h = hCoinbase h"

definition CalcDifficulty :: "u64 \<Rightarrow> Header \<Rightarrow> int" where
  "CalcDifficulty t parent = 1"

definition MainnetDpovpConfig :: DpovpConfig where
  "MainnetDpovpConfig = \<lparr>Timeout = 10 * 1000, Sleeptime = 3 * 1000\<rparr>"

section \<open>Header verification\<close>

text \<open>The loop over the batch of parents, then the data base.\<close>

fun parentInBatch :: "(Header \<Rightarrow> hash256) \<Rightarrow> hash256 \<Rightarrow> Header list \<Rightarrow> Header option" where
  "parentInBatch H ph [] = None"
| "parentInBatch H ph (b # bs) = (if H b = ph then Some b else parentInBatch H ph bs)"

definition findParent ::
  "(Header \<Rightarrow> hash256) \<Rightarrow> (hash256 \<Rightarrow> u64 \<Rightarrow> Header option) \<Rightarrow> Header list \<Rightarrow> Header \<Rightarrow> u64 \<Rightarrow> Header option" where
  "findParent H chain parents h number =
     (case parentInBatch H (hParentHash h) parents of
        Some p \<Rightarrow> Some p
      | None \<Rightarrow> chain (hParentHash h) (number - 1))"

text \<open>The signature over the coinbase and the registered key of the coinbase.\<close>

definition verifySigner ::
  "cryptoOps \<Rightarrow> AddrNodeIDMapping list \<Rightarrow> Header \<Rightarrow> dpovp_error option" where
  "verifySigner C nodes h =
     (let tmpHash = keccak256 C (addr_bytes (hCoinbase h)) in
      case ecrecover C tmpHash (hSignInfo h) of
        None \<Rightarrow> Some WrongSignInfo
      | Some pubKey \<Rightarrow>
          (case GetPubkeyByAddress nodes (hCoinbase h) of
             None \<Rightarrow> Some (NoPubkey (hCoinbase h))
           | Some blkNodePubkey \<Rightarrow>
               if pubKey = [] then Some (Panic IndexOutOfRange)
               else if blkNodePubkey \<noteq> drop 1 pubKey then Some SignerMismatch
               else None))"

definition spanMillis :: "int \<Rightarrow> int \<Rightarrow> int" where
  "spanMillis t pt = wrap64 (int64_of (bigUint64 t - bigUint64 pt) * 1000)"

text \<open>Whose turn it is, from the time between the block and its parent in milliseconds.\<close>

definition verifyTurn ::
  "AddrNodeIDMapping list \<Rightarrow> Dpovp \<Rightarrow> address \<Rightarrow> address \<Rightarrow> int \<Rightarrow> dpovp_error option" where
  "verifyTurn nodes d parentCoinbase headerCoinbase timeSpan =
     (if timeSpan < blockInternal d then Some NotNewer
      else
        (let nodeCount = GetCoreNodesCount nodes in
         case GetSlot nodes parentCoinbase headerCoinbase of
           Inl p \<Rightarrow> Some (Panic p)
         | Inr slot \<Rightarrow>
           (let oneLoopTime = wrap64 (GetCoreNodesCount nodes * timeoutTime d) in
            if nodeCount = 1 then
              (if timeSpan < blockInternal d then Some OnlyOneNode else None)
            else if slot = 0 then
              (if oneLoopTime = 0 then Some (Panic DivideByZero)
               else if wrap64 (oneLoopTime - timeoutTime d) \<le> timeSpan smod oneLoopTime
               then None else Some (NotTurn 2))
            else if slot = 1 then
              (if timeSpan < oneLoopTime then
                 (if blockInternal d \<le> timeSpan \<and> timeSpan < timeoutTime d
                  then None else Some (NotTurn 3))
               else if oneLoopTime = 0 then Some (Panic DivideByZero)
               else if timeSpan smod oneLoopTime < timeoutTime d
               then None else Some (NotTurn 4))
            else
              (if oneLoopTime = 0 \<or> timeoutTime d = 0 then Some (Panic DivideByZero)
               else if wrap64 ((timeSpan smod oneLoopTime) sdiv timeoutTime d) = slot - 1
               then None else Some (NotTurn 5)))))"

definition verifyHeader ::
  "cryptoOps \<Rightarrow> AddrNodeIDMapping list \<Rightarrow> int \<Rightarrow> Dpovp \<Rightarrow> (hash256 \<Rightarrow> u64 \<Rightarrow> Header option) \<Rightarrow>
   Header \<Rightarrow> Header list \<Rightarrow> dpovp_error option" where
  "verifyHeader C nodes now d chain h parents =
     (case hNumber h of
        None \<Rightarrow> Some ErrInvalidNumber
      | Some num \<Rightarrow>
        if bigUint64 (hDifficulty h) \<noteq> 1 then Some BadDifficulty
        else
          (let number = bigUint64 num in
           case findParent (hdrHash C) chain parents h number of
             None \<Rightarrow> Some ErrUnknownAncestor
           | Some parent \<Rightarrow>
             (case hNumber parent of
                None \<Rightarrow> Some (Panic NilDereference)
              | Some pnum \<Rightarrow>
                if bigUint64 pnum \<noteq> number - 1 \<or> hdrHash C parent \<noteq> hParentHash h
                then Some ErrUnknownAncestor
                else if hTime h > now then Some ErrFutureBlock
                else
                  (case verifySigner C nodes h of
                     Some e \<Rightarrow> Some e
                   | None \<Rightarrow>
                     if bigUint64 pnum = 0 then None
                     else verifyTurn nodes d (hCoinbase parent) (hCoinbase h)
                            (spanMillis (hTime h) (hTime parent))))))"

definition VerifyHeader ::
  "cryptoOps \<Rightarrow> AddrNodeIDMapping list \<Rightarrow> int \<Rightarrow> Dpovp \<Rightarrow> (hash256 \<Rightarrow> u64 \<Rightarrow> Header option) \<Rightarrow>
   Header \<Rightarrow> bool \<Rightarrow> dpovp_error option" where
  "VerifyHeader C nodes now d chain h seal = verifyHeader C nodes now d chain h []"

text \<open>
  The batch verifier sends one result per header, in order; \<open>now i\<close> is the clock when
  header \<open>i\<close> is checked and \<open>k\<close> the number of results taken before \<open>abort\<close> closes.
\<close>

definition VerifyHeaders ::
  "cryptoOps \<Rightarrow> AddrNodeIDMapping list \<Rightarrow> (nat \<Rightarrow> int) \<Rightarrow> Dpovp \<Rightarrow> (hash256 \<Rightarrow> u64 \<Rightarrow> Header option) \<Rightarrow>
   Header list \<Rightarrow> nat \<Rightarrow> dpovp_error option list" where
  "VerifyHeaders C nodes now d chain headers k =
     take k (map (\<lambda>i. verifyHeader C nodes (now i) d chain (headers ! i) (take i headers))
                 [0 ..< length headers])"

definition VerifyUncles :: "Header list \<Rightarrow> dpovp_error option" where
  "VerifyUncles uncles = (if 0 < length uncles then Some UnclesNotAllowed else None)"

definition VerifySeal :: "cryptoOps \<Rightarrow> Header \<Rightarrow> dpovp_error option" where
  "VerifySeal C h =
     (let tmpHash = keccak256 C (addr_bytes (hCoinbase h)) in
      case ecrecover C tmpHash (hSignInfo h) of
        None \<Rightarrow> Some SealRecoverFailed
      | Some pubkey \<Rightarrow>
          if pubkey = [] then Some (Panic IndexOutOfRange)
          else let signer = BytesToAddress (drop 12 (hash_bytes (keccak256 C (drop 1 pubkey)))) in
            if hCoinbase h \<noteq> signer then Some SignerNotCoinbase else None)"

section \<open>Block production\<close>

definition Prepare ::
  "int \<Rightarrow> (hash256 \<Rightarrow> u64 \<Rightarrow> Header option) \<Rightarrow> Header \<Rightarrow> dpovp_error + Header" where
  "Prepare now chain h =
     (case hNumber h of
        None \<Rightarrow> Inl (Panic NilDereference)
      | Some num \<Rightarrow>
        (case chain (hParentHash h) (bigUint64 num - 1) of
           None \<Rightarrow> Inl ErrUnknownAncestor
         | Some parent \<Rightarrow>
             Inr (h\<lparr>hNonce := 0, hMixDigest := 0, hDifficulty := 1,
                    hTime := uint (bigUint64 now)\<rparr>)))"

definition Seal ::
  "cryptoOps \<Rightarrow> (hash256 \<Rightarrow> bytes option) \<Rightarrow> AddrNodeIDMapping list \<Rightarrow> Dpovp \<Rightarrow> Header \<Rightarrow>
   dpovp_error + Header" where
  "Seal C sign nodes d h =
     (if GetCoreNodeIndex nodes (coinbase d) = -1 then Inl NotInStarList
      else (case hNumber h of
        None \<Rightarrow> Inl (Panic NilDereference)
      | Some num \<Rightarrow>
        if bigUint64 num = 0 then Inl UnknownBlock
        else
          (case sign (keccak256 C (addr_bytes (coinbase d))) of
             None \<Rightarrow> Inl SignFailed
           | Some signInfo \<Rightarrow> Inr (h\<lparr>hSignInfo := signInfo\<rparr>))))"

section \<open>The turn rule\<close>

text \<open>
  The abstract rule: after a block by the producer at position \<open>p\<close> of \<open>n\<close>, time is cut
  into windows of \<open>T\<close> milliseconds that go round the list, starting after \<open>p\<close>.
\<close>

definition scheduled_index :: "int \<Rightarrow> int \<Rightarrow> int \<Rightarrow> int \<Rightarrow> int" where
  "scheduled_index n T p ts = (p + 1 + ts div T) mod n"

definition turn_params_ok :: "AddrNodeIDMapping list \<Rightarrow> Dpovp \<Rightarrow> bool" where
  "turn_params_ok nodes d \<longleftrightarrow>
     0 < timeoutTime d \<and> 0 \<le> blockInternal d \<and> blockInternal d < timeoutTime d \<and>
     GetCoreNodesCount nodes * timeoutTime d < 2 ^ 63"

lemma window_of_loop:
  fixes ts n T :: int
  assumes "0 < T" "0 < n"
  shows "(ts mod (n * T)) div T = (ts div T) mod n"
  using assms by (simp add: mult.commute [of n T] zmod_zmult2_eq)

lemma loop_bounds:
  fixes ts n T :: int
  assumes "0 < T" "0 < n"
  defines "w \<equiv> (ts div T) mod n"
  shows "w * T \<le> ts mod (n * T)" "ts mod (n * T) < (w + 1) * T" "0 \<le> w" "w < n"
proof -
  have w: "(ts mod (n * T)) div T = w" using window_of_loop [OF assms(1,2)] by (simp add: w_def)
  have "w * T + (ts mod (n * T)) mod T = ts mod (n * T)"
    using div_mult_mod_eq [of "ts mod (n * T)" T] w by simp
  moreover have "0 \<le> (ts mod (n * T)) mod T" "(ts mod (n * T)) mod T < T" using assms(1) by simp_all
  ultimately show "w * T \<le> ts mod (n * T)" "ts mod (n * T) < (w + 1) * T"
    by (simp_all add: distrib_right)
  show "0 \<le> w" "w < n" using assms by (simp_all add: w_def)
qed

lemma window_eq:
  fixes ts n T k :: int
  assumes "0 < T" "0 < n"
  shows "k * T \<le> ts mod (n * T) \<and> ts mod (n * T) < (k + 1) * T \<longleftrightarrow> (ts div T) mod n = k"
proof
  assume k: "k * T \<le> ts mod (n * T) \<and> ts mod (n * T) < (k + 1) * T"
  then have "k * T < ((ts div T) mod n + 1) * T" "(ts div T) mod n * T < (k + 1) * T"
    using loop_bounds(1,2) [OF assms, of ts] by linarith+
  then have "k < (ts div T) mod n + 1" "(ts div T) mod n < k + 1"
    using assms(1) mult_less_cancel_right_pos [of T] by blast+
  then show "(ts div T) mod n = k" by linarith
next
  assume "(ts div T) mod n = k"
  then show "k * T \<le> ts mod (n * T) \<and> ts mod (n * T) < (k + 1) * T"
    using loop_bounds(1,2) [OF assms, of ts] by simp
qed

lemma window_first:
  fixes ts n T :: int
  assumes "0 < T" "0 < n"
  shows "ts mod (n * T) < T \<longleftrightarrow> (ts div T) mod n = 0"
  using window_eq [OF assms, of 0 ts] assms by simp

lemma window_last:
  fixes ts n T :: int
  assumes "0 < T" "0 < n"
  shows "n * T - T \<le> ts mod (n * T) \<longleftrightarrow> (ts div T) mod n = n - 1"
  using window_eq [OF assms, of "n - 1" ts] assms by (simp add: left_diff_distrib)

text \<open>The three cases of the code, as one condition on the slot.\<close>

lemma verifyTurn_slot:
  assumes ok: "turn_params_ok nodes d" and n: "2 \<le> GetCoreNodesCount nodes"
    and ts: "0 \<le> ts" and slot: "GetSlot nodes p a = Inr s" and s: "0 \<le> s" "s < GetCoreNodesCount nodes"
  shows "verifyTurn nodes d p a ts = None \<longleftrightarrow>
    blockInternal d \<le> ts \<and>
    (s - 1) mod GetCoreNodesCount nodes = (ts div timeoutTime d) mod GetCoreNodesCount nodes"
proof -
  define n T where "n = GetCoreNodesCount nodes" and "T = timeoutTime d"
  define w where "w = (ts div T) mod n"
  from ok n have T: "0 < T" and n0: "0 < n" and max: "n * T < 2 ^ 63"
    by (auto simp: turn_params_ok_def n_def T_def)
  have le: "T \<le> n * T" "n \<le> n * T" using T n0 by simp_all
  have L0: "0 < n * T" using T le(1) by linarith
  have L: "wrap64 (n * T) = n * T" "wrap64 (n * T - T) = n * T - T"
    by (rule wrap64_id, rule in_int64I; use T L0 le(1) max in linarith)+
  have win: "(ts mod (n * T)) div T = w" by (simp add: w_def window_of_loop [OF T n0])
  note w = loop_bounds(3,4) [OF T n0, of ts, folded w_def]
  have wid: "wrap64 w = w"
    using w le(2) max by (intro wrap64_id in_int64I) linarith+
  have n1: "n \<noteq> 1" using n by (simp add: n_def)
  have nz: "n \<noteq> 0" "T \<noteq> 0" using n0 T by simp_all
  note turn = verifyTurn_def [of nodes d p a ts] slot smod_nonneg [OF ts L0] L n1 nz Let_def
    n_def [symmetric] T_def [symmetric]
  show ?thesis
    unfolding n_def [symmetric] T_def [symmetric] w_def [symmetric]
  proof (cases "ts < blockInternal d")
    case True
    then show "verifyTurn nodes d p a ts = None \<longleftrightarrow> blockInternal d \<le> ts \<and> (s - 1) mod n = w"
      by (simp add: verifyTurn_def)
  next
    case False
    consider (zero) "s = 0" | (one) "s = 1" | (more) "2 \<le> s" using s by linarith
    then show "verifyTurn nodes d p a ts = None \<longleftrightarrow> blockInternal d \<le> ts \<and> (s - 1) mod n = w"
    proof cases
      case zero
      have "verifyTurn nodes d p a ts = (if n * T - T \<le> ts mod (n * T) then None else Some (NotTurn 2))"
        using False zero by (simp add: turn)
      moreover have "(s - 1) mod n = n - 1" using zero n0 by (simp add: zmod_minus1)
      ultimately show ?thesis using window_last [OF T n0, of ts] False by (auto simp: w_def)
    next
      case one
      have small: "ts mod (n * T) = ts" if "ts < n * T"
        using ts that by (rule mod_pos_pos_trivial)
      have "verifyTurn nodes d p a ts = None \<longleftrightarrow>
          (if ts < n * T then ts < T else ts mod (n * T) < T)"
        using False one by (simp add: turn)
      then have "verifyTurn nodes d p a ts = None \<longleftrightarrow> ts mod (n * T) < T"
        using small by (cases "ts < n * T") simp_all
      then show ?thesis
        unfolding window_first [OF T n0] w_def using one False by auto
    next
      case more
      have "verifyTurn nodes d p a ts = (if w = s - 1 then None else Some (NotTurn 5))"
        using False more L0 T by (simp add: turn sdiv_nonneg win wid)
      moreover have "(s - 1) mod n = s - 1" using more s by (simp add: n_def)
      ultimately show ?thesis using False by auto
    qed
  qed
qed

section \<open>Properties of the engine\<close>

lemma count_pos: "0 \<le> GetCoreNodeIndex nodes p \<Longrightarrow> 0 < GetCoreNodesCount nodes"
  using star.idx_range [of nodes p] by linarith

lemma one_node_index:
  "GetCoreNodesCount nodes = 1 \<Longrightarrow> 0 \<le> GetCoreNodeIndex nodes p \<Longrightarrow> GetCoreNodeIndex nodes p = 0"
  using star.idx_range [of nodes p] by linarith

lemma spanMillis_eq:
  assumes "0 \<le> t" "t < 2 ^ 53" "0 \<le> pt" "pt < 2 ^ 53"
  shows "spanMillis t pt = (t - pt) * 1000"
proof -
  have "in_int64 (t - pt)" "in_int64 ((t - pt) * 1000)"
    using assms by (simp_all add: in_int64_def)
  then show ?thesis by (simp add: spanMillis_def int64_of_diff)
qed

lemma verifyHeader_NoneD:
  assumes "verifyHeader C nodes now d chain h parents = None"
    and "hNumber h = Some num" "findParent (hdrHash C) chain parents h (bigUint64 num) = Some parent"
    and "hNumber parent = Some pnum"
  shows "bigUint64 (hDifficulty h) = 1" "bigUint64 pnum = bigUint64 num - 1"
    "hdrHash C parent = hParentHash h" "hTime h \<le> now" "verifySigner C nodes h = None"
    "bigUint64 pnum \<noteq> 0 \<Longrightarrow>
       verifyTurn nodes d (hCoinbase parent) (hCoinbase h) (spanMillis (hTime h) (hTime parent)) = None"
  using assms by (auto simp: verifyHeader_def Let_def split: if_splits option.splits)

lemma verifySigner_NoneD:
  assumes "verifySigner C nodes h = None"
  shows "\<exists>pk. ecrecover C (keccak256 C (addr_bytes (hCoinbase h))) (hSignInfo h) = Some pk \<and>
     GetPubkeyByAddress nodes (hCoinbase h) = Some (drop 1 pk)"
    and "0 \<le> GetCoreNodeIndex nodes (hCoinbase h)"
proof -
  from assms show pk: "\<exists>pk. ecrecover C (keccak256 C (addr_bytes (hCoinbase h))) (hSignInfo h) = Some pk \<and>
     GetPubkeyByAddress nodes (hCoinbase h) = Some (drop 1 pk)"
    by (auto simp: verifySigner_def Let_def split: option.splits if_splits)
  then show "0 \<le> GetCoreNodeIndex nodes (hCoinbase h)"
    using GetPubkeyByAddress_None [of nodes "hCoinbase h"] by (auto simp: GetCoreNodeIndex_member)
qed

lemma turn_iff:
  assumes "turn_params_ok nodes d" "0 \<le> ts" "p \<noteq> 0"
    and "0 \<le> GetCoreNodeIndex nodes p" "0 \<le> GetCoreNodeIndex nodes a"
  shows "verifyTurn nodes d p a ts = None \<longleftrightarrow>
    blockInternal d \<le> ts \<and>
    GetCoreNodeIndex nodes a =
      (GetCoreNodeIndex nodes p + (1 + ts div timeoutTime d)) mod GetCoreNodesCount nodes"
proof (cases "GetCoreNodesCount nodes = 1")
  case True
  with assms one_node_index [OF True, of p] one_node_index [OF True, of a] show ?thesis
    by (auto simp: verifyTurn_def GetSlot_def Let_def)
next
  case False
  let ?n = "GetCoreNodesCount nodes" and ?k = "1 + ts div timeoutTime d"
  let ?s = "(GetCoreNodeIndex nodes a - GetCoreNodeIndex nodes p + ?n) mod ?n"
  have n: "2 \<le> ?n" using count_pos [OF assms(4)] False by linarith
  have slot: "GetSlot nodes p a = Inr ?s" by (rule GetSlot_members) (use assms False in simp_all)
  have "(?s - 1) mod ?n = (ts div timeoutTime d) mod ?n \<longleftrightarrow> ?s = ?k mod ?n"
  proof
    assume "(?s - 1) mod ?n = (ts div timeoutTime d) mod ?n"
    then have "(1 + (?s - 1)) mod ?n = ?k mod ?n" by (intro mod_add_cong) simp_all
    then show "?s = ?k mod ?n" by simp
  next
    assume "?s = ?k mod ?n"
    then have "(?s - 1) mod ?n = (?k mod ?n - 1) mod ?n" by simp
    then show "(?s - 1) mod ?n = (ts div timeoutTime d) mod ?n" by (simp add: mod_simps)
  qed
  with verifyTurn_slot [OF assms(1) n assms(2) slot] n star.cyclic_distance_eq [OF assms(5,4), of ?k]
  show ?thesis by simp
qed

text \<open>A list of three producers with the main net's parameters, for the witnesses.\<close>

definition exNodes :: "AddrNodeIDMapping list" where
  "exNodes = [\<lparr>Addr = 17, Pubkey = [1]\<rparr>, \<lparr>Addr = 18, Pubkey = [2]\<rparr>, \<lparr>Addr = 19, Pubkey = [3]\<rparr>]"

definition exEngine :: Dpovp where
  "exEngine = newDpovp MainnetDpovpConfig 18"

lemmas ex_simps = exNodes_def exEngine_def newDpovp_def MainnetDpovpConfig_def turn_params_ok_def
  GetCoreNodesCount_def GetCoreNodeIndex_def

definition exHeader :: "address \<Rightarrow> int \<Rightarrow> int \<Rightarrow> hash256 \<Rightarrow> bytes \<Rightarrow> Header" where
  "exHeader cb num t ph sig =
     \<lparr>hParentHash = ph, hUncleHash = 0, hCoinbase = cb, hRoot = 0, hTxHash = 0, hReceiptHash = 0,
      hBloom = [], hDifficulty = 1, hNumber = Some num, hGasLimit = 0, hGasUsed = 0, hTime = t,
      hExtra = [], hMixDigest = 0, hNonce = 0, hSignInfo = sig\<rparr>"

definition exCrypto :: cryptoOps where
  "exCrypto = \<lparr>hdrHash = (\<lambda>h. word_of_int (hTime h) + 901), keccak256 = (\<lambda>_. 7),
               ecrecover = (\<lambda>_ sig. if sig = [] then None else Some (4 # sig))\<rparr>"

definition exChain :: "hash256 \<Rightarrow> u64 \<Rightarrow> Header option" where
  "exChain hh n = (if hh = 1001 \<and> n = 1 then Some (exHeader 17 1 100 950 [1]) else None)"

lemmas ex_header_simps = exHeader_def exCrypto_def exChain_def findParent_def bigUint64_def

lemma ex_params [simp]: "turn_params_ok exNodes exEngine"
  by (simp add: ex_simps)

lemma ex_index [simp]:
  "GetCoreNodeIndex exNodes 17 = 0" "GetCoreNodeIndex exNodes 18 = 1" "GetCoreNodeIndex exNodes 19 = 2"
  by (simp_all add: ex_simps)

lemma ex_accepted:
  "verifyHeader exCrypto exNodes 200 exEngine exChain (exHeader 18 2 105 1001 [2]) [] = None"
proof -
  have "spanMillis 105 100 = 5000" by (simp add: spanMillis_eq)
  then show ?thesis
    using turn_iff [of exNodes exEngine 5000 17 18]
    by (simp add: verifyHeader_def verifySigner_def ex_header_simps Let_def) (simp add: ex_simps)
qed

lemma ex_parent:
  "findParent (hdrHash exCrypto) exChain [] (exHeader 18 2 105 1001 [2]) (bigUint64 2) =
   Some (exHeader 17 1 100 950 [1])"
  by (simp add: ex_header_simps)

text \<open>C1. The turn rule is a round robin. Between producers of the list, with parameters in
  range, a block is in turn exactly when it is at least the block interval younger than its
  parent and its coinbase is the one the round robin names for the elapsed time: the
  position after the parent's, moved on by one for each full timeout.\<close>

theorem verifyTurn_round_robin:
  assumes "turn_params_ok nodes d" "0 \<le> ts" "p \<noteq> 0"
    and "0 \<le> GetCoreNodeIndex nodes p" "0 \<le> GetCoreNodeIndex nodes a"
  shows "verifyTurn nodes d p a ts = None \<longleftrightarrow>
    blockInternal d \<le> ts \<and>
    GetCoreNodeIndex nodes a =
      scheduled_index (GetCoreNodesCount nodes) (timeoutTime d) (GetCoreNodeIndex nodes p) ts"
  unfolding scheduled_index_def using turn_iff [OF assms] by (simp add: add.assoc)

theorem verifyTurn_round_robin_witness:
  "verifyTurn exNodes exEngine 17 19 14000 = None \<and> verifyTurn exNodes exEngine 17 18 14000 \<noteq> None"
  using verifyTurn_round_robin [of exNodes exEngine 14000 17 19]
    verifyTurn_round_robin [of exNodes exEngine 14000 17 18]
  by (simp add: scheduled_index_def) (simp add: ex_simps)

text \<open>C2. Exactly one producer is in turn. After a block of a listed producer, at every
  moment from the block interval on, one and only one address of the list passes the turn
  check: no two producers can extend the same parent with the same time stamp, and there is
  no moment at which nobody may.\<close>

theorem verifyTurn_exactly_one:
  assumes "turn_params_ok nodes d" "distinct (map Addr nodes)" "blockInternal d \<le> ts"
    and "p \<in> Addr ` set nodes" "p \<noteq> 0"
  shows "\<exists>!a. a \<in> Addr ` set nodes \<and> verifyTurn nodes d p a ts = None"
proof -
  let ?n = "GetCoreNodesCount nodes" and ?k = "1 + ts div timeoutTime d"
  have ts: "0 \<le> ts" using assms(1,3) by (simp add: turn_params_ok_def)
  have p: "0 \<le> GetCoreNodeIndex nodes p" using assms(4) by (simp add: GetCoreNodeIndex_member)
  have turn: "verifyTurn nodes d p a ts = None \<longleftrightarrow> GetCoreNodeIndex nodes a = (GetCoreNodeIndex nodes p + ?k) mod ?n"
    if "a \<in> Addr ` set nodes" for a
    using turn_iff [OF assms(1) ts assms(5) p, of a] that assms(3) by (simp add: GetCoreNodeIndex_member)
  obtain a where a: "GetCoreNodeIndex nodes a = (GetCoreNodeIndex nodes p + ?k) mod ?n"
    using star.idx_onto [OF assms(2), of "(GetCoreNodeIndex nodes p + ?k) mod ?n"] count_pos [OF p] by auto
  then have mem: "a \<in> Addr ` set nodes"
    using count_pos [OF p] by (simp flip: GetCoreNodeIndex_member)
  show ?thesis
  proof (rule ex1I [of _ a])
    show "a \<in> Addr ` set nodes \<and> verifyTurn nodes d p a ts = None" using mem turn [OF mem] a by simp
  next
    fix b assume b: "b \<in> Addr ` set nodes \<and> verifyTurn nodes d p b ts = None"
    then have "0 \<le> GetCoreNodeIndex nodes b" by (simp add: GetCoreNodeIndex_member)
    then show "b = a" by (rule star.idx_inj) (use turn [of b] a b in simp)
  qed
qed

theorem verifyTurn_exactly_one_witness:
  "\<exists>!a. a \<in> Addr ` set exNodes \<and> verifyTurn exNodes exEngine 17 a 3000 = None"
  by (rule verifyTurn_exactly_one) (simp, simp_all add: ex_simps)





text \<open>C31. The seal covers the coinbase only. The verdict of header verification does not change
  when the state root, the transaction, receipt and uncle hashes, the bloom, the gas fields,
  the extra data, the mix digest and the nonce of a header are replaced; and the signature
  check depends on nothing but the coinbase and the signature, so one signature of a producer
  is good for every header with that coinbase.\<close>

theorem verifyHeader_ignores_content:
  "verifyHeader C nodes now d chain
     (h\<lparr>hUncleHash := u, hRoot := r, hTxHash := t, hReceiptHash := rc, hBloom := b, hGasLimit := gl,
        hGasUsed := gu, hExtra := e, hMixDigest := m, hNonce := n\<rparr>) parents =
   verifyHeader C nodes now d chain h parents \<and>
   verifySigner C nodes (g\<lparr>hCoinbase := hCoinbase h, hSignInfo := hSignInfo h\<rparr>) = verifySigner C nodes h"
  by (simp add: verifyHeader_def verifySigner_def findParent_def Let_def split: option.split)



end
