(* ===== verification/Miner.thy ===== *)
theory Miner
  imports Engine
begin

text \<open>
  The timer that decides when the local node builds a block (\<^verbatim>\<open>src/miner/worker.go\<close>,
  \<open>beforeCommitNewWork\<close>, \<open>modifyTimer\<close>, \<open>resetMinerTimer\<close>, \<open>getTimespan\<close>). The fields
  of \<open>worker\<close> that the timer uses are the record below: \<open>blockMinerTimer\<close> is the delay in
  nanoseconds the timer was last armed with, and \<open>time2Seal\<close> counts the signals sent to the
  sealing loop. The clock and the head block's coinbase and time are arguments.
\<close>

record worker =
  wcoinbase :: address
  wtimeoutTime :: int
  wblockInternal :: int
  blockMinerTimer :: "int option"
  time2Seal :: nat
  mining :: bool

text \<open>What one call of \<open>modifyTimer\<close> does: signal, arm the timer, or nothing.\<close>

datatype timerAction = SendSeal | ResetTimer int | NoTimerAction

definition resetMinerTimer :: "int \<Rightarrow> worker \<Rightarrow> worker" where
  "resetMinerTimer timeDur w = w\<lparr>blockMinerTimer := Some (wrap64 (timeDur * 1000000))\<rparr>"

text \<open>The callback of the timer.\<close>

definition minerTimerFired :: "worker \<Rightarrow> worker" where
  "minerTimerFired w = (if mining w then w\<lparr>time2Seal := Suc (time2Seal w)\<rparr> else w)"

definition applyTimerAction :: "timerAction \<Rightarrow> worker \<Rightarrow> worker" where
  "applyTimerAction act w =
     (case act of
        SendSeal \<Rightarrow> w\<lparr>time2Seal := Suc (time2Seal w)\<rparr>
      | ResetTimer t \<Rightarrow> resetMinerTimer t w
      | NoTimerAction \<Rightarrow> w)"

definition beforeCommitNewWork :: "AddrNodeIDMapping list \<Rightarrow> worker \<Rightarrow> worker" where
  "beforeCommitNewWork nodes w =
     (let nodeCount = GetCoreNodesCount nodes;
          timeDur = (if 1 < nodeCount then wrap64 ((nodeCount - 1) * wtimeoutTime w)
                     else wblockInternal w)
      in resetMinerTimer timeDur w)"

definition getTimespan :: "int \<Rightarrow> int \<Rightarrow> worker \<Rightarrow> int" where
  "getTimespan now headTime w =
     (let lstSpan = wrap64 headTime in
      if lstSpan = 0 then wblockInternal w
      else wrap64 (wrap64 (now - lstSpan) * 1000))"

definition timerDecision :: "int \<Rightarrow> int \<Rightarrow> int \<Rightarrow> int \<Rightarrow> int \<Rightarrow> go_panic + timerAction" where
  "timerDecision nodeCount timeout internal slot timeDur =
     (let oneLoopTime = wrap64 (nodeCount * timeout) in
      if slot = 0 then
        (if timeDur > oneLoopTime then
           (if oneLoopTime = 0 then Inl DivideByZero
            else let t = timeDur smod oneLoopTime;
                     waitTime = wrap64 (wrap64 ((nodeCount - 1) * timeout) - t)
                 in if waitTime \<le> 0 then Inr SendSeal else Inr (ResetTimer waitTime))
         else Inr NoTimerAction)
      else if slot = 1 then
        (if timeDur > oneLoopTime then
           (if oneLoopTime = 0 then Inl DivideByZero
            else let t = timeDur smod oneLoopTime in
              if t < timeout then Inr SendSeal
              else Inr (ResetTimer (wrap64 (oneLoopTime - t))))
         else
           (if timeDur > timeout then Inr (ResetTimer (wrap64 (oneLoopTime - timeDur)))
            else if timeDur \<ge> internal then Inr SendSeal
            else Inr (ResetTimer (wrap64 (internal - timeDur)))))
      else
        (if oneLoopTime = 0 then Inl DivideByZero
         else let t = timeDur smod oneLoopTime in
           if t \<ge> wrap64 ((slot - 1) * timeout) \<and> t < wrap64 (slot * timeout) then Inr SendSeal
           else Inr (ResetTimer
             (wrap64 (wrap64 (wrap64 ((slot - 1) * timeout) - t) + oneLoopTime) smod oneLoopTime))))"

definition modifyTimer ::
  "AddrNodeIDMapping list \<Rightarrow> int \<Rightarrow> address \<Rightarrow> int \<Rightarrow> worker \<Rightarrow> go_panic + worker" where
  "modifyTimer nodes now headCoinbase headTime w =
     (let nodeCount = GetCoreNodesCount nodes in
      if nodeCount = 1 then Inr (resetMinerTimer (wblockInternal w) w)
      else
        (let timeDur = getTimespan now headTime w in
         case GetSlot nodes headCoinbase (wcoinbase w) of
           Inl p \<Rightarrow> Inl p
         | Inr slot \<Rightarrow>
             (case timerDecision nodeCount (wtimeoutTime w) (wblockInternal w) slot timeDur of
                Inl p \<Rightarrow> Inl p
              | Inr act \<Rightarrow> Inr (applyTimerAction act w))))"

section \<open>The decision and the turn rule\<close>

text \<open>
  What an action has to achieve, in terms of the windows of the turn rule: a signal now is in
  the node's window, or at the one boundary where the code signals outside of it; a timer
  fires in the node's window; and nothing is done only when the head block is the node's own
  and no full round has passed.
\<close>

definition decisionOk :: "int \<Rightarrow> int \<Rightarrow> int \<Rightarrow> int \<Rightarrow> int \<Rightarrow> timerAction \<Rightarrow> bool" where
  "decisionOk n T bi s td act =
     (case act of
        SendSeal \<Rightarrow> bi \<le> td \<and> ((s - 1) mod n = (td div T) mod n \<or> s = 1 \<and> td = T)
      | ResetTimer wt \<Rightarrow> 0 \<le> wt \<and> wt \<le> n * T \<and> bi \<le> td + wt \<and> (s - 1) mod n = ((td + wt) div T) mod n
      | NoTimerAction \<Rightarrow> s = 0 \<and> td \<le> n * T)"

text \<open>The worker and the engine are configured from the same \<open>DpovpConfig\<close>.\<close>

definition same_config :: "worker \<Rightarrow> Dpovp \<Rightarrow> bool" where
  "same_config w d \<longleftrightarrow> wtimeoutTime w = timeoutTime d \<and> wblockInternal w = blockInternal d"

lemma mod_shift_to:
  fixes t L k :: int
  assumes "0 < L" "0 \<le> k" "k < L"
  shows "(t + (k - t mod L)) mod L = k"
proof -
  have "(t + (k - t mod L)) mod L = (t mod L + (k - t mod L)) mod L" by (simp only: mod_add_left_eq)
  then show ?thesis using assms by simp
qed

lemma wrap_small: "- 4611686018427387904 \<le> x \<Longrightarrow> x \<le> 4611686018427387904 \<Longrightarrow> wrap64 x = x"
  by (rule wrap64_id) (simp add: in_int64_def)

lemma timerDecision_slot0:
  assumes T: "0 < T" and n: "2 \<le> n" and bi: "0 \<le> bi" "bi < T" and L: "n * T < 2305843009213693952"
    and td: "0 \<le> td" "td < 2305843009213693952"
  shows "\<exists>act. timerDecision n T bi 0 td = Inr act \<and> decisionOk n T bi 0 td act"
proof -
  have n0: "0 < n" "n \<noteq> 0" "T \<noteq> 0" using n T by simp_all
  have TL: "T \<le> n * T" using T n0(1) by simp
  have L0: "0 < n * T" using T TL by linarith
  have wr: "wrap64 (n * T) = n * T" by (rule wrap_small) (use L L0 in linarith)+
  have wr': "wrap64 ((n - 1) * T) = n * T - T"
    unfolding left_diff_distrib mult_1 by (rule wrap_small) (use L TL T in linarith)+
  have s: "(0 - 1) mod n = n - 1" using n0(1) by (simp add: zmod_minus1)
  show ?thesis
  proof (cases "n * T < td")
    case False
    then show ?thesis by (simp add: timerDecision_def wr decisionOk_def)
  next
    case True
    let ?t = "td mod (n * T)"
    have t: "0 \<le> ?t" "?t < n * T" using L0 by simp_all
    have w: "wrap64 (n * T - T - ?t) = n * T - T - ?t" using t L TL T by (intro wrap_small) linarith+
    show ?thesis
    proof (cases "n * T - T - ?t \<le> 0")
      case send: True
      then have "timerDecision n T bi 0 td = Inr SendSeal"
        using True L0 n0 by (simp add: timerDecision_def wr wr' smod_nonneg td Let_def w)
      moreover have "bi \<le> td" using True TL bi by linarith
      ultimately show ?thesis
        using send window_last [OF T n0(1), of td] s by (simp add: decisionOk_def)
    next
      case False
      then have "timerDecision n T bi 0 td = Inr (ResetTimer (n * T - T - ?t))"
        using True L0 n0 by (simp add: timerDecision_def wr wr' smod_nonneg td Let_def w)
      moreover have "(td + (n * T - T - ?t)) mod (n * T) = n * T - T"
        using mod_shift_to [of "n * T" "n * T - T" td] L0 TL T by simp
      moreover have "bi \<le> td" using True TL bi by linarith
      ultimately show ?thesis
        using False t T window_last [OF T n0(1), of "td + (n * T - T - ?t)"] s
        by (auto simp: decisionOk_def)
    qed
  qed
qed

lemma timerDecision_slot1:
  assumes T: "0 < T" and n: "2 \<le> n" and bi: "0 \<le> bi" "bi < T" and L: "n * T < 2305843009213693952"
    and td: "0 \<le> td" "td < 2305843009213693952"
  shows "\<exists>act. timerDecision n T bi 1 td = Inr act \<and> decisionOk n T bi 1 td act"
proof -
  have n0: "0 < n" "n \<noteq> 0" "T \<noteq> 0" using n T by simp_all
  have TL: "T \<le> n * T" using T n0(1) by simp
  have L0: "0 < n * T" using T TL by linarith
  have wr: "wrap64 (n * T) = n * T" by (rule wrap_small) (use L L0 in linarith)+
  let ?t = "td mod (n * T)"
  have t: "0 \<le> ?t" "?t < n * T" using L0 by simp_all
  have w: "wrap64 (n * T - ?t) = n * T - ?t" "wrap64 (n * T - td) = n * T - td" "wrap64 (bi - td) = bi - td"
    by (rule wrap_small; use t L TL T td bi in linarith)+
  consider (late_send) "n * T < td" "?t < T" | (late_wait) "n * T < td" "\<not> ?t < T"
    | (missed) "td \<le> n * T" "T < td" | (now) "td \<le> n * T" "td \<le> T" "bi \<le> td"
    | (early) "td \<le> n * T" "td \<le> T" "td < bi" by linarith
  then show ?thesis
  proof cases
    case late_send
    then have "timerDecision n T bi 1 td = Inr SendSeal"
      using L0 n0 by (simp add: timerDecision_def wr smod_nonneg td Let_def)
    moreover have "bi \<le> td" using late_send TL bi by linarith
    ultimately show ?thesis using late_send window_first [OF T n0(1), of td] by (simp add: decisionOk_def)
  next
    case late_wait
    then have "timerDecision n T bi 1 td = Inr (ResetTimer (n * T - ?t))"
      using L0 n0 by (simp add: timerDecision_def wr smod_nonneg td Let_def w)
    moreover have "(td + (n * T - ?t)) mod (n * T) < T"
    proof -
      have "td + (n * T - ?t) = td + (0 - ?t) + n * T" by simp
      then have "(td + (n * T - ?t)) mod (n * T) = (td + (0 - ?t)) mod (n * T)"
        by (simp only: mod_add_self2)
      also have "\<dots> = 0" by (rule mod_shift_to) (use L0 in simp_all)
      finally show ?thesis using T by simp
    qed
    moreover have "bi \<le> td" using late_wait TL bi by linarith
    ultimately show ?thesis
      using t window_first [OF T n0(1), of "td + (n * T - ?t)"] by (simp add: decisionOk_def)
  next
    case missed
    then have "timerDecision n T bi 1 td = Inr (ResetTimer (n * T - td))"
      by (simp add: timerDecision_def wr w)
    then show ?thesis
      using missed td TL bi window_first [OF T n0(1), of "n * T"] T by (simp add: decisionOk_def)
  next
    case now
    then have "timerDecision n T bi 1 td = Inr SendSeal" by (simp add: timerDecision_def wr)
    moreover have "td = T \<or> td div T = 0" using now td by (cases "td = T") simp_all
    ultimately show ?thesis using now by (auto simp: decisionOk_def)
  next
    case early
    then have "timerDecision n T bi 1 td = Inr (ResetTimer (bi - td))"
      by (simp add: timerDecision_def wr w)
    moreover have "bi - td \<le> n * T" using td TL bi by linarith
    ultimately show ?thesis using early td bi by (simp add: decisionOk_def)
  qed
qed

lemma timerDecision_slot2:
  assumes T: "0 < T" and n: "2 \<le> n" and bi: "0 \<le> bi" "bi < T" and L: "n * T < 2305843009213693952"
    and td: "0 \<le> td" "td < 2305843009213693952"
    and s: "2 \<le> s" "s < n"
  shows "\<exists>act. timerDecision n T bi s td = Inr act \<and> decisionOk n T bi s td act"
proof -
  have n0: "0 < n" "n \<noteq> 0" "T \<noteq> 0" using n T by simp_all
  have sT: "T \<le> (s - 1) * T" "(s - 1) * T < n * T" "s * T \<le> n * T" "(s - 1) * T \<le> s * T"
    using T s by simp_all
  then have L0: "0 < n * T" using T by linarith
  let ?t = "td mod (n * T)" and ?k = "(s - 1) * T"
  have t: "0 \<le> ?t" "?t < n * T" "?t \<le> td" using L0 td by (simp_all add: zmod_le_nonneg_dividend)
  have wr: "wrap64 (n * T) = n * T" "wrap64 ?k = ?k" "wrap64 (s * T) = s * T" "wrap64 (?k - ?t) = ?k - ?t"
    "wrap64 (?k - ?t + n * T) = ?k - ?t + n * T"
    by (rule wrap_small; use t L L0 T sT in linarith)+
  have wt: "(?k - ?t + n * T) smod (n * T) = (?k - ?t) mod (n * T)"
  proof (subst smod_nonneg)
    show "0 \<le> ?k - ?t + n * T" using t sT T by linarith
  qed (use L0 in simp_all)
  have sm: "(s - 1) mod n = s - 1" using s by simp
  show ?thesis
  proof (cases "?k \<le> ?t \<and> ?t < s * T")
    case True
    then have "timerDecision n T bi s td = Inr SendSeal"
      using s n0 by (simp add: timerDecision_def wr smod_nonneg [OF td(1) L0] Let_def)
    moreover have "(td div T) mod n = s - 1" using True window_eq [OF T n0(1), of "s - 1" td] by simp
    moreover have "bi \<le> td" using True t sT bi by linarith
    ultimately show ?thesis using sm by (simp add: decisionOk_def)
  next
    case False
    let ?wt = "(?k - ?t) mod (n * T)"
    have "timerDecision n T bi s td = Inr (ResetTimer ?wt)"
      using s n0 False by (simp add: timerDecision_def wr smod_nonneg [OF td(1) L0] Let_def wt)
    moreover have *: "(td + ?wt) mod (n * T) = ?k"
      using mod_shift_to [of "n * T" ?k td] L0 sT T by (simp add: mod_add_right_eq)
    moreover have "((td + ?wt) div T) mod n = s - 1"
      using window_eq [OF T n0(1), of "s - 1" "td + ?wt"] sT * T by (simp add: left_diff_distrib)
    moreover have "0 \<le> ?wt" "?wt \<le> n * T" using L0 by (simp_all add: order_less_imp_le)
    moreover have "?k \<le> td + ?wt"
      using * zmod_le_nonneg_dividend [of "td + ?wt" "n * T"] td \<open>0 \<le> ?wt\<close> by simp
    then have "bi \<le> td + ?wt" using sT(1) bi by linarith
    ultimately show ?thesis using sm by (simp add: decisionOk_def)
  qed
qed

lemma timerDecision_ok:
  assumes "turn_params_ok nodes d" "2 \<le> GetCoreNodesCount nodes"
    and "GetCoreNodesCount nodes * timeoutTime d < 2 ^ 61" "0 \<le> td" "td < 2 ^ 61"
    and "0 \<le> s" "s < GetCoreNodesCount nodes"
  shows "\<exists>act. timerDecision (GetCoreNodesCount nodes) (timeoutTime d) (blockInternal d) s td = Inr act \<and>
    decisionOk (GetCoreNodesCount nodes) (timeoutTime d) (blockInternal d) s td act"
proof -
  let ?n = "GetCoreNodesCount nodes" and ?T = "timeoutTime d" and ?bi = "blockInternal d"
  have ok: "0 < ?T" "0 \<le> ?bi" "?bi < ?T" using assms(1) by (simp_all add: turn_params_ok_def)
  have num: "?n * ?T < 2305843009213693952" "td < 2305843009213693952" using assms(3,5) by simp_all
  consider "s = 0" | "s = 1" | "2 \<le> s" using assms(6) by linarith
  then show ?thesis
  proof cases
    case 1
    then show ?thesis using timerDecision_slot0 [OF ok(1) assms(2) ok(2,3) num(1) assms(4) num(2)] by simp
  next
    case 2
    then show ?thesis using timerDecision_slot1 [OF ok(1) assms(2) ok(2,3) num(1) assms(4) num(2)] by simp
  next
    case 3
    then show ?thesis
      by (rule timerDecision_slot2 [OF ok(1) assms(2) ok(2,3) num(1) assms(4) num(2) _ assms(7)])
  qed
qed

section \<open>Properties of the timer\<close>

text \<open>The slot of two listed producers, in the form the decision takes it.\<close>

lemma GetSlot_range:
  assumes "0 \<le> GetCoreNodeIndex nodes p" "0 \<le> GetCoreNodeIndex nodes a" "p \<noteq> 0" "2 \<le> GetCoreNodesCount nodes"
  obtains s where "GetSlot nodes p a = Inr s" "0 \<le> s" "s < GetCoreNodesCount nodes"
  using GetSlot_members [OF assms(1,2,3)] assms(4) that by simp

lemma getTimespan_eq:
  assumes "0 < t" "t \<le> now" "now < 2 ^ 50"
  shows "getTimespan now t w = (now - t) * 1000"
proof -
  have "in_int64 t" "in_int64 (now - t)" "in_int64 ((now - t) * 1000)"
    using assms by (simp_all add: in_int64_def)
  with assms(1) show ?thesis by (simp add: getTimespan_def)
qed


definition exWorker :: worker where
  "exWorker = \<lparr>wcoinbase = 18, wtimeoutTime = 10000, wblockInternal = 3000,
               blockMinerTimer = None, time2Seal = 0, mining = True\<rparr>"

lemma ex_config [simp]: "same_config exWorker exEngine"
  by (simp add: same_config_def exWorker_def ex_simps)


text \<open>C33. The boundary. When the node is next in line and exactly the timeout has passed since
  the head block, the miner is told to seal at once, and every verifier rejects the block it
  makes: the miner's window includes the timeout, the verifier's does not.\<close>

theorem modifyTimer_boundary_rejected:
  assumes "turn_params_ok nodes d" "same_config w d" "2 \<le> GetCoreNodesCount nodes"
    and "0 < t" "t \<le> now" "now < 2 ^ 50" "(now - t) * 1000 = timeoutTime d"
    and "GetSlot nodes hc (wcoinbase w) = Inr 1"
  shows "modifyTimer nodes now hc t w = Inr (w\<lparr>time2Seal := Suc (time2Seal w)\<rparr>) \<and>
    verifyTurn nodes d hc (wcoinbase w) (spanMillis now t) = Some (NotTurn 3)"
proof -
  let ?n = "GetCoreNodesCount nodes" and ?T = "timeoutTime d"
  have T: "0 < ?T" "blockInternal d \<le> ?T" and max: "?n * ?T < 2 ^ 63"
    using assms(1) by (simp_all add: turn_params_ok_def)
  have lt: "?T < ?n * ?T" using T(1) assms(3) by simp
  then have L: "wrap64 (?n * ?T) = ?n * ?T" using T max by (intro wrap64_id in_int64I) linarith+
  have "spanMillis now t = ?T" using assms(4-7) by (simp add: spanMillis_eq)
  then have "verifyTurn nodes d hc (wcoinbase w) (spanMillis now t) = Some (NotTurn 3)"
    using T lt assms(3,8) L by (simp add: verifyTurn_def)
  moreover have "modifyTimer nodes now hc t w = Inr (w\<lparr>time2Seal := Suc (time2Seal w)\<rparr>)"
    using assms(2,3,7,8) T lt L
    by (simp add: modifyTimer_def timerDecision_def same_config_def applyTimerAction_def
        getTimespan_eq [OF assms(4-6)])
  ultimately show ?thesis by simp
qed

theorem modifyTimer_boundary_rejected_witness:
  "modifyTimer exNodes 110 17 100 exWorker = Inr (exWorker\<lparr>time2Seal := 1\<rparr>) \<and>
   verifyTurn exNodes exEngine 17 18 (spanMillis 110 100) = Some (NotTurn 3)"
  using modifyTimer_boundary_rejected [OF ex_params ex_config, of 100 110 17]
  by (simp add: exWorker_def) (simp add: ex_simps GetSlot_def)

text \<open>C30. The timer set before a block is built. When at least two producers are listed, the
  delay \<open>beforeCommitNewWork\<close> arms is the one after which the producer of the head block is in
  turn again, if nobody else produced a block in between.\<close>

theorem beforeCommitNewWork_next_round:
  assumes "turn_params_ok nodes d" "same_config w d" "2 \<le> GetCoreNodesCount nodes"
    and "wcoinbase w \<noteq> 0" "0 \<le> GetCoreNodeIndex nodes (wcoinbase w)"
  shows "\<exists>delay. beforeCommitNewWork nodes w = resetMinerTimer delay w \<and>
    delay = (GetCoreNodesCount nodes - 1) * timeoutTime d \<and>
    verifyTurn nodes d (wcoinbase w) (wcoinbase w) delay = None"
proof -
  let ?n = "GetCoreNodesCount nodes" and ?T = "timeoutTime d" and ?i = "GetCoreNodeIndex nodes (wcoinbase w)"
  have T: "0 < ?T" "blockInternal d < ?T" and max: "?n * ?T < 2 ^ 63"
    using assms(1) by (simp_all add: turn_params_ok_def)
  have lo: "?T \<le> (?n - 1) * ?T" "(?n - 1) * ?T \<le> ?n * ?T" using T(1) assms(3) by simp_all
  then have small: "wrap64 ((?n - 1) * ?T) = (?n - 1) * ?T"
    using T max by (intro wrap64_id in_int64I) linarith+
  have "?i = (?i + (1 + (?n - 1) * ?T div ?T)) mod ?n"
    using T(1) assms(5) star.idx_range [of nodes "wcoinbase w"] by (simp add: add.commute)
  moreover have "0 \<le> (?n - 1) * ?T" "blockInternal d \<le> (?n - 1) * ?T" using lo(1) T by linarith+
  ultimately have "verifyTurn nodes d (wcoinbase w) (wcoinbase w) ((?n - 1) * ?T) = None"
    using turn_iff [OF assms(1) _ assms(4,5,5)] by simp
  with small assms(2,3) show ?thesis by (simp add: beforeCommitNewWork_def same_config_def)
qed

theorem beforeCommitNewWork_next_round_witness:
  "verifyTurn exNodes exEngine 18 18 20000 = None"
  using beforeCommitNewWork_next_round [OF ex_params ex_config]
  by (simp add: exWorker_def) (simp add: ex_simps)

end
