(* ===== verification/Confirm.thy ===== *)
theory Confirm
  imports Engine
begin

unbundle bit_operations_syntax

text \<open>
  Confirmation of blocks by the producers (\<^verbatim>\<open>src/core/blockchain.go\<close>): the bit mask of
  confirmations per block, the two-thirds test, the stable block, and the choice of a new head
  among the descendants of the stable block. The part of \<open>BlockChain\<close> these functions use is
  the record below; \<open>childrenMap\<close> is the package variable of that name, and \<open>sent\<close> records
  the calls of the two broadcast callbacks. A block is represented by its header. The data
  base is the parameter \<open>getBlock\<close> (block by hash and number; \<open>HasBlock\<close> is its domain), the
  hash of a block the parameter \<open>H\<close>.
\<close>

datatype broadcast = BroadcastCon hash256 u64 bool | BroadcastToSatellite hash256 u64

record BlockChain =
  isStarNode :: bool
  currentBlock :: Header
  stableBlock :: Header
  blocksConsensus :: "hash256 \<rightharpoonup> u64"
  bcCoinbase :: address
  childrenMap :: "hash256 \<Rightarrow> hash256 list"
  sent :: "broadcast list"

record consensusMsg =
  msgHash :: hash256
  msgNumber :: u64
  msgHasConsensus :: u8
  msgSignInfo :: bytes

type_synonym blockDb = "hash256 \<Rightarrow> u64 \<Rightarrow> Header option"

text \<open>\<open>Header().Number\<close> of a block is never nil: \<open>CopyHeader\<close> replaces nil by zero.\<close>

definition blockNumber :: "Header \<Rightarrow> int" where
  "blockNumber b = (case hNumber b of None \<Rightarrow> 0 | Some n \<Rightarrow> n)"

definition NumberU64 :: "Header \<Rightarrow> u64" where
  "NumberU64 b = bigUint64 (blockNumber b)"

section \<open>Confirmation flags\<close>

definition SetConsensusFlag ::
  "AddrNodeIDMapping list \<Rightarrow> hash256 \<Rightarrow> address \<Rightarrow> BlockChain \<Rightarrow> BlockChain" where
  "SetConsensusFlag nodes hh a bc =
     (let index = GetCoreNodeIndex nodes a in
      if index < 0 then bc
      else let v = push_bit (nat index) (1 :: u64);
               v' = (case blocksConsensus bc hh of Some flag \<Rightarrow> flag OR v | None \<Rightarrow> v)
           in bc\<lparr>blocksConsensus := (blocksConsensus bc)(hh \<mapsto> v')\<rparr>)"

text \<open>The counting loop of \<open>VerifyConsensusOK\<close>.\<close>

fun countFlags :: "u64 \<Rightarrow> nat \<Rightarrow> nat" where
  "countFlags flag 0 = 0"
| "countFlags flag (Suc i) =
     (let tmp = push_bit i (1 :: u64) in
      countFlags flag i + (if tmp AND flag = tmp then 1 else 0))"

definition VerifyConsensusOK :: "AddrNodeIDMapping list \<Rightarrow> hash256 \<Rightarrow> BlockChain \<Rightarrow> bool" where
  "VerifyConsensusOK nodes hh bc =
     (case blocksConsensus bc hh of
        None \<Rightarrow> False
      | Some flag \<Rightarrow>
          (let nodeCount = length nodes; count = countFlags flag nodeCount
           in nodeCount * 2 div 3 \<le> count))"

definition RemoveConsensusFlag :: "hash256 \<Rightarrow> BlockChain \<Rightarrow> BlockChain" where
  "RemoveConsensusFlag hh bc = bc\<lparr>blocksConsensus := (blocksConsensus bc)(hh := None)\<rparr>"

definition SetStableBlock :: "Header \<Rightarrow> BlockChain \<Rightarrow> BlockChain" where
  "SetStableBlock b bc = bc\<lparr>stableBlock := b\<rparr>"

definition SetIsStarNode :: "bool \<Rightarrow> BlockChain \<Rightarrow> BlockChain" where
  "SetIsStarNode flag bc = bc\<lparr>isStarNode := flag\<rparr>"

section \<open>The stable chain\<close>

text \<open>The loop of \<open>isCurAndStableBlockInSameChain\<close>; a nil block is dereferenced by the next step.\<close>

fun walkBack :: "blockDb \<Rightarrow> (Header \<Rightarrow> hash256) \<Rightarrow> nat \<Rightarrow> Header \<Rightarrow> go_panic + Header" where
  "walkBack getBlock H 0 parBlock = Inr parBlock"
| "walkBack getBlock H (Suc k) parBlock =
     (case getBlock (H parBlock) (NumberU64 parBlock) of
        None \<Rightarrow> Inl NilDereference
      | Some b \<Rightarrow> walkBack getBlock H k b)"

definition isCurAndStableBlockInSameChain ::
  "blockDb \<Rightarrow> (Header \<Rightarrow> hash256) \<Rightarrow> BlockChain \<Rightarrow> go_panic + bool" where
  "isCurAndStableBlockInSameChain getBlock H bc =
     (let curBlock = currentBlock bc; staBlock = stableBlock bc in
      if NumberU64 curBlock = 0 then Inr True
      else if blockNumber curBlock < blockNumber staBlock then Inr False
      else (case walkBack getBlock H (nat (int64_of (NumberU64 curBlock - NumberU64 staBlock))) curBlock of
              Inl p \<Rightarrow> Inl p
            | Inr parBlock \<Rightarrow> Inr (H staBlock = H parBlock)))"

text \<open>
  \<open>getLeavesOfBlock\<close> recurses through \<open>childrenMap\<close>; the fuel bounds the depth, None is out
  of fuel. \<open>collectLeaves\<close> is its loop over the children.
\<close>

fun collectLeaves ::
  "(Header \<Rightarrow> (go_panic + Header list) option) \<Rightarrow> blockDb \<Rightarrow> u64 \<Rightarrow> hash256 list \<Rightarrow>
   (go_panic + Header list) option" where
  "collectLeaves rec getBlock num [] = Some (Inr [])"
| "collectLeaves rec getBlock num (c # cs) =
     (case getBlock c num of
        None \<Rightarrow> Some (Inl NilDereference)
      | Some child \<Rightarrow>
          (case rec child of
             None \<Rightarrow> None
           | Some (Inl p) \<Rightarrow> Some (Inl p)
           | Some (Inr ls) \<Rightarrow>
               (case collectLeaves rec getBlock num cs of
                  None \<Rightarrow> None
                | Some (Inl p) \<Rightarrow> Some (Inl p)
                | Some (Inr rest) \<Rightarrow> Some (Inr (ls @ rest)))))"

fun getLeavesOfBlock ::
  "nat \<Rightarrow> blockDb \<Rightarrow> (Header \<Rightarrow> hash256) \<Rightarrow> (hash256 \<Rightarrow> hash256 list) \<Rightarrow> Header \<Rightarrow>
   (go_panic + Header list) option" where
  "getLeavesOfBlock 0 getBlock H children b = None"
| "getLeavesOfBlock (Suc fuel) getBlock H children b =
     (if children (H b) = [] then Some (Inr [b])
      else collectLeaves (getLeavesOfBlock fuel getBlock H children) getBlock (NumberU64 b + 1)
             (children (H b)))"

text \<open>The highest leaf, and among the highest the one with the smallest hash.\<close>

fun highest :: "u64 \<Rightarrow> Header list \<Rightarrow> u64" where
  "highest m [] = m"
| "highest m (b # bs) = highest (if m < NumberU64 b then NumberU64 b else m) bs"

fun smallestHash :: "(Header \<Rightarrow> hash256) \<Rightarrow> Header \<Rightarrow> Header list \<Rightarrow> Header" where
  "smallestHash H r [] = r"
| "smallestHash H r (b # bs) = smallestHash H (if H b < H r then b else r) bs"

definition chooseLeaf :: "(Header \<Rightarrow> hash256) \<Rightarrow> Header \<Rightarrow> Header list \<Rightarrow> go_panic + Header" where
  "chooseLeaf H staBlock leafBlocks =
     (let lstHight = highest (NumberU64 staBlock) leafBlocks;
          sameHightBlocks = filter (\<lambda>b. NumberU64 b = lstHight) leafBlocks
      in case sameHightBlocks of
           [] \<Rightarrow> Inl IndexOutOfRange
         | r # _ \<Rightarrow> Inr (smallestHash H r sameHightBlocks))"

definition getNewestBlockInStableChain ::
  "nat \<Rightarrow> blockDb \<Rightarrow> (Header \<Rightarrow> hash256) \<Rightarrow> BlockChain \<Rightarrow> (go_panic + Header) option" where
  "getNewestBlockInStableChain fuel getBlock H bc =
     (case getLeavesOfBlock fuel getBlock H (childrenMap bc) (stableBlock bc) of
        None \<Rightarrow> None
      | Some (Inl p) \<Rightarrow> Some (Inl p)
      | Some (Inr leafBlocks) \<Rightarrow> Some (chooseLeaf H (stableBlock bc) leafBlocks))"

section \<open>Handlers\<close>

text \<open>
  What both handlers do with a block that has enough confirmations: move the stable block up,
  move the head onto the stable chain, tell the satellites. \<open>higher\<close> is the handler's test that
  the stable block is below the block.
\<close>

definition applyConsensus ::
  "nat \<Rightarrow> blockDb \<Rightarrow> (Header \<Rightarrow> hash256) \<Rightarrow> bool \<Rightarrow> Header \<Rightarrow> hash256 \<Rightarrow> u64 \<Rightarrow> BlockChain \<Rightarrow>
   (go_panic + BlockChain) option" where
  "applyConsensus fuel getBlock H higher block hh num bc =
     (let bc1 = (if higher then bc\<lparr>stableBlock := block\<rparr> else bc) in
      case isCurAndStableBlockInSameChain getBlock H bc1 of
        Inl p \<Rightarrow> Some (Inl p)
      | Inr True \<Rightarrow> Some (Inr (bc1\<lparr>sent := sent bc1 @ [BroadcastToSatellite hh num]\<rparr>))
      | Inr False \<Rightarrow>
          (case getNewestBlockInStableChain fuel getBlock H bc1 of
             None \<Rightarrow> None
           | Some (Inl p) \<Rightarrow> Some (Inl p)
           | Some (Inr newCurBlock) \<Rightarrow>
               Some (Inr (bc1\<lparr>currentBlock := newCurBlock,
                             sent := sent bc1 @ [BroadcastToSatellite hh num]\<rparr>))))"

text \<open>A confirmation message from a peer.\<close>

definition ProcConsensusMsg ::
  "nat \<Rightarrow> cryptoOps \<Rightarrow> AddrNodeIDMapping list \<Rightarrow> blockDb \<Rightarrow> (Header \<Rightarrow> hash256) \<Rightarrow>
   consensusMsg \<Rightarrow> bytes \<Rightarrow> BlockChain \<Rightarrow> (go_panic + BlockChain) option" where
  "ProcConsensusMsg fuel C nodes getBlock H info peerPubKey bc =
     (if \<not> isStarNode bc then Some (Inr bc)
      else if msgHasConsensus info \<noteq> 1 then Some (Inr bc)
      else (case ecrecover C (msgHash info) (msgSignInfo info) of
        None \<Rightarrow> Some (Inr bc)
      | Some pubkey \<Rightarrow>
          if pubkey \<noteq> peerPubKey then Some (Inr bc)
          else let remoteAddr = GetAddressByPubkey nodes pubkey in
            if remoteAddr = 0 then Some (Inr bc)
            else let bc1 = SetConsensusFlag nodes (msgHash info) remoteAddr bc in
              (case getBlock (msgHash info) (msgNumber info) of
                 None \<Rightarrow> Some (Inr bc1)
               | Some block \<Rightarrow>
                   if VerifyConsensusOK nodes (msgHash info) bc1
                   then applyConsensus fuel getBlock H
                          (wrap64 (blockNumber (stableBlock bc1)) < int64_of (msgNumber info))
                          block (msgHash info) (msgNumber info) bc1
                   else Some (Inr bc1))))"

text \<open>
  The producers' part of \<open>insertChain\<close> for one verified block: before it is written (None: the
  block is below the stable block and import ends), and after.
\<close>

definition confirmBeforeWrite ::
  "AddrNodeIDMapping list \<Rightarrow> (Header \<Rightarrow> hash256) \<Rightarrow> Header \<Rightarrow> BlockChain \<Rightarrow> BlockChain \<times> bool" where
  "confirmBeforeWrite nodes H block bc =
     (if isStarNode bc then
        (if wrap64 (blockNumber block) < wrap64 (blockNumber (stableBlock bc))
         then (bc\<lparr>sent := sent bc @ [BroadcastCon (H block) (NumberU64 block) False]\<rparr>, False)
         else (SetConsensusFlag nodes (H block) (hCoinbase block) bc, True))
      else (bc, True))"

definition confirmAfterWrite ::
  "nat \<Rightarrow> AddrNodeIDMapping list \<Rightarrow> blockDb \<Rightarrow> (hash256 \<Rightarrow> u64 \<Rightarrow> Header option) \<Rightarrow>
   (Header \<Rightarrow> hash256) \<Rightarrow> Header \<Rightarrow> BlockChain \<Rightarrow> (go_panic + BlockChain) option" where
  "confirmAfterWrite fuel nodes getBlock getHeader H block bc =
     (if \<not> isStarNode bc then Some (Inr bc)
      else
        (let bc1 = SetConsensusFlag nodes (H block) (bcCoinbase bc) bc in
         case (if VerifyConsensusOK nodes (H block) bc1
               then applyConsensus fuel getBlock H (NumberU64 (stableBlock bc1) < NumberU64 block)
                      block (H block) (NumberU64 block) bc1
               else Some (Inr bc1)) of
           None \<Rightarrow> None
         | Some (Inl p) \<Rightarrow> Some (Inl p)
         | Some (Inr bc2) \<Rightarrow>
             (case getHeader (hParentHash block) (NumberU64 block - 1) of
                None \<Rightarrow> Some (Inl NilDereference)
              | Some parentHeader \<Rightarrow>
                  let parHash = H parentHeader in
                  Some (Inr (bc2\<lparr>childrenMap :=
                                   (childrenMap bc2)(parHash := childrenMap bc2 parHash @ [H block]),
                                 sent := sent bc2 @ [BroadcastCon (H block) (NumberU64 block) True]\<rparr>)))))"

section \<open>Flags as sets of confirming nodes\<close>

text \<open>The confirmations of a block, as the set of indexes of the nodes that confirmed it.\<close>

definition confirmers :: "BlockChain \<Rightarrow> hash256 \<Rightarrow> nat set" where
  "confirmers bc hh = (case blocksConsensus bc hh of None \<Rightarrow> {} | Some f \<Rightarrow> {i. bit f i})"

lemma bit_one_shift: "bit (2 ^ k :: u64) i \<longleftrightarrow> i = k \<and> k < 64"
  by (auto simp: bit_exp_iff)

lemma shift_subset_iff: "2 ^ k AND f = (2 ^ k :: u64) \<longleftrightarrow> (k < 64 \<longrightarrow> bit f k)"
  by (subst bit_eq_iff) (auto simp: bit_and_iff bit_one_shift)

lemma countFlags_card: "countFlags f n = card {i. i < n \<and> (i < 64 \<longrightarrow> bit f i)}"
proof (induction n)
  case (Suc n)
  have "{i. i < Suc n \<and> (i < 64 \<longrightarrow> bit f i)} =
        {i. i < n \<and> (i < 64 \<longrightarrow> bit f i)} \<union> (if n < 64 \<longrightarrow> bit f n then {n} else {})"
    by (auto simp: less_Suc_eq)
  then have "card {i. i < Suc n \<and> (i < 64 \<longrightarrow> bit f i)} =
      card {i. i < n \<and> (i < 64 \<longrightarrow> bit f i)} + (if n < 64 \<longrightarrow> bit f n then 1 else 0)"
    by (simp split del: if_split) simp
  then show ?case
    by (simp add: Suc shift_subset_iff)
qed simp

lemma confirmers_bounded: "confirmers bc hh \<subseteq> {..<64}"
  by (auto simp: confirmers_def bit_simps dest: bit_imp_le_length split: option.splits)

lemma finite_confirmers [simp]: "finite (confirmers bc hh)"
  using confirmers_bounded finite_subset by blast

lemma confirmers_SetConsensusFlag:
  "confirmers (SetConsensusFlag nodes h a bc) hh =
     (let i = GetCoreNodeIndex nodes a in
      if hh = h \<and> 0 \<le> i \<and> i < 64 then insert (nat i) (confirmers bc hh) else confirmers bc hh)"
  by (auto simp: confirmers_def SetConsensusFlag_def Let_def bit_or_iff bit_one_shift
           split: option.splits if_splits)

lemma VerifyConsensusOK_card:
  assumes "length nodes \<le> 64"
  shows "VerifyConsensusOK nodes hh bc \<longleftrightarrow>
         hh \<in> dom (blocksConsensus bc) \<and>
         length nodes * 2 div 3 \<le> card (confirmers bc hh \<inter> {..<length nodes})"
proof -
  have *: "{i. i < length nodes \<and> (i < 64 \<longrightarrow> bit f i)} = {i. bit f i} \<inter> {..<length nodes}" for f :: u64
    using assms by auto
  show ?thesis
    by (auto simp: VerifyConsensusOK_def confirmers_def countFlags_card * Let_def split: option.splits)
qed

lemma quorums_meet:
  assumes "n = 3 \<or> 5 \<le> n" "A \<subseteq> {..<n}" "B \<subseteq> {..<n}"
    and "n * 2 div 3 \<le> card A" "n * 2 div 3 \<le> card B"
  shows "A \<inter> B \<noteq> {}"
proof
  assume "A \<inter> B = {}"
  moreover have "finite A" "finite B"
    using assms(2,3) finite_subset by blast+
  ultimately have "card (A \<union> B) = card A + card B"
    by (simp add: card_Un_disjoint)
  moreover have "card (A \<union> B) \<le> n"
    using assms(2,3) card_mono [of "{..<n}" "A \<union> B"] by simp
  ultimately have "n * 2 div 3 + n * 2 div 3 \<le> n"
    using assms(4,5) by simp
  with assms(1) show False by presburger
qed

lemma many_nodes_count:
  assumes "190 \<le> n"
  shows "n * 2 div 3 \<le> countFlags f n"
proof -
  have "{64..<n} \<subseteq> {i. i < n \<and> (i < 64 \<longrightarrow> bit f i)}" by auto
  from card_mono [OF _ this] have "n - 64 \<le> countFlags f n"
    by (simp add: countFlags_card)
  with assms show ?thesis by presburger
qed

section \<open>The block tree\<close>

text \<open>The data base returns, for a hash and a number, a block of that hash and number.\<close>

definition db_ok :: "blockDb \<Rightarrow> (Header \<Rightarrow> hash256) \<Rightarrow> bool" where
  "db_ok getBlock H \<longleftrightarrow> (\<forall>h n b. getBlock h n = Some b \<longrightarrow> H b = h \<and> NumberU64 b = n)"

definition stored :: "blockDb \<Rightarrow> (Header \<Rightarrow> hash256) \<Rightarrow> Header \<Rightarrow> bool" where
  "stored getBlock H b \<longleftrightarrow> getBlock (H b) (NumberU64 b) = Some b"

text \<open>The recorded children of a stored block are stored, and no stored block reaches height \<open>N\<close>.\<close>

definition children_ok ::
  "blockDb \<Rightarrow> (Header \<Rightarrow> hash256) \<Rightarrow> (hash256 \<Rightarrow> hash256 list) \<Rightarrow> u64 \<Rightarrow> bool" where
  "children_ok getBlock H children N \<longleftrightarrow>
     (\<forall>b. stored getBlock H b \<longrightarrow>
        NumberU64 b < N \<and> (\<forall>c\<in>set (children (H b)). getBlock c (NumberU64 b + 1) \<noteq> None))"

inductive leafOf ::
  "blockDb \<Rightarrow> (Header \<Rightarrow> hash256) \<Rightarrow> (hash256 \<Rightarrow> hash256 list) \<Rightarrow> Header \<Rightarrow> Header \<Rightarrow> bool"
  for getBlock H children where
  leaf: "children (H b) = [] \<Longrightarrow> leafOf getBlock H children b b"
| child: "c \<in> set (children (H b)) \<Longrightarrow> getBlock c (NumberU64 b + 1) = Some d \<Longrightarrow>
          leafOf getBlock H children d l \<Longrightarrow> leafOf getBlock H children b l"

inductive_simps leafOf_iff: "leafOf getBlock H children b l"

lemma walkBack_stored:
  "stored getBlock H b \<Longrightarrow> walkBack getBlock H k b = Inr b"
  by (induction k) (auto simp: stored_def)

lemma sameChain_eq:
  assumes "stored getBlock H (currentBlock bc)" "NumberU64 (currentBlock bc) \<noteq> 0"
  shows "isCurAndStableBlockInSameChain getBlock H bc =
           Inr (blockNumber (stableBlock bc) \<le> blockNumber (currentBlock bc) \<and>
                H (stableBlock bc) = H (currentBlock bc))"
  using assms by (auto simp: isCurAndStableBlockInSameChain_def walkBack_stored Let_def)

lemma db_ok_stored: "db_ok getBlock H \<Longrightarrow> getBlock h n = Some b \<Longrightarrow> stored getBlock H b"
  by (auto simp: db_ok_def stored_def)

lemma collectLeaves_all:
  assumes "\<And>c. c \<in> set cs \<Longrightarrow> \<exists>d ls. getBlock c num = Some d \<and> rec d = Some (Inr ls)"
  shows "\<exists>rest. collectLeaves rec getBlock num cs = Some (Inr rest) \<and>
           set rest = {l. \<exists>c\<in>set cs. \<exists>d ls. getBlock c num = Some d \<and> rec d = Some (Inr ls) \<and> l \<in> set ls}"
  using assms
proof (induction cs)
  case (Cons c cs)
  obtain d ls where d: "getBlock c num = Some d" "rec d = Some (Inr ls)"
    using Cons.prems [of c] by auto
  obtain rest where "collectLeaves rec getBlock num cs = Some (Inr rest)"
    "set rest = {l. \<exists>c\<in>set cs. \<exists>d ls. getBlock c num = Some d \<and> rec d = Some (Inr ls) \<and> l \<in> set ls}"
    using Cons.IH [OF Cons.prems] by auto
  with d show ?case by (simp add: set_eq_iff)
qed simp

lemma child_number:
  assumes "db_ok getBlock H" "children_ok getBlock H children N" "stored getBlock H b"
    and "getBlock c (NumberU64 b + 1) = Some d"
  shows "stored getBlock H d" "NumberU64 d < N" "unat (NumberU64 d) = Suc (unat (NumberU64 b))"
proof -
  show d: "stored getBlock H d" using db_ok_stored [OF assms(1,4)] .
  show "NumberU64 d < N" using assms(2) d by (auto simp: children_ok_def)
  have "NumberU64 b < N" using assms(2,3) by (auto simp: children_ok_def)
  then have "NumberU64 b + 1 \<noteq> 0"
    by (metis add.commute max_word_wrap not_less_iff_gr_or_eq word_order.extremum_strict)
  moreover have "NumberU64 d = NumberU64 b + 1" using assms(1,4) by (auto simp: db_ok_def)
  ultimately show "unat (NumberU64 d) = Suc (unat (NumberU64 b))"
    using unatSuc [of "NumberU64 b"] by (metis add.commute)
qed

lemma leaves_of_children:
  assumes "b_children \<noteq> []"
    and "\<And>c. c \<in> set b_children \<Longrightarrow> \<exists>d. getBlock c num = Some d \<and> (\<exists>ls. rec d = Some (Inr ls) \<and>
           set ls = {l. leafOf getBlock H children d l} \<and> ls \<noteq> [])"
  shows "\<exists>rest. collectLeaves rec getBlock num b_children = Some (Inr rest) \<and> rest \<noteq> [] \<and>
           set rest = {l. \<exists>c\<in>set b_children. \<exists>d. getBlock c num = Some d \<and> leafOf getBlock H children d l}"
proof -
  have "\<exists>d ls. getBlock c num = Some d \<and> rec d = Some (Inr ls)" if "c \<in> set b_children" for c
    using assms(2) [OF that] by blast
  from collectLeaves_all [where rec = rec and getBlock = getBlock and cs = b_children
      and num = num, OF this] obtain rest
    where rest: "collectLeaves rec getBlock num b_children = Some (Inr rest)"
      "set rest = {l. \<exists>c\<in>set b_children. \<exists>d ls. getBlock c num = Some d \<and>
                     rec d = Some (Inr ls) \<and> l \<in> set ls}"
    by blast
  have "(\<exists>d ls. getBlock c num = Some d \<and> rec d = Some (Inr ls) \<and> l \<in> set ls) \<longleftrightarrow>
        (\<exists>d. getBlock c num = Some d \<and> leafOf getBlock H children d l)"
    if "c \<in> set b_children" for c l
    using assms(2) [OF that] by auto
  then have "set rest = {l. \<exists>c\<in>set b_children. \<exists>d. getBlock c num = Some d \<and>
                           leafOf getBlock H children d l}"
    unfolding rest(2) by blast
  moreover have "set rest \<noteq> {}"
  proof -
    obtain c where c: "c \<in> set b_children" using assms(1) by (cases b_children) auto
    from assms(2) [OF this] obtain d ls where "getBlock c num = Some d" "rec d = Some (Inr ls)"
      "ls \<noteq> []" by blast
    moreover from this(3) obtain l where "l \<in> set ls" using list.set_sel(1) by blast
    ultimately show ?thesis using c unfolding rest(2) by blast
  qed
  ultimately show ?thesis using rest(1) by auto
qed

lemma getLeavesOfBlock_total:
  assumes "db_ok getBlock H" "children_ok getBlock H children N" "stored getBlock H b"
    and "unat N - unat (NumberU64 b) \<le> fuel"
  shows "\<exists>ls. getLeavesOfBlock fuel getBlock H children b = Some (Inr ls) \<and>
              set ls = {l. leafOf getBlock H children b l} \<and> ls \<noteq> []"
  using assms(3,4)
proof (induction fuel arbitrary: b)
  case 0
  then have "NumberU64 b < N" using assms(2) by (auto simp: children_ok_def)
  with 0 show ?case by (simp add: word_less_nat_alt)
next
  case (Suc fuel)
  show ?case
  proof (cases "children (H b) = []")
    case True
    then have "{l. leafOf getBlock H children b l} = {b}"
      by (subst leafOf_iff) auto
    with True show ?thesis by simp
  next
    case False
    let ?rec = "getLeavesOfBlock fuel getBlock H children"
    have "\<exists>d. getBlock c (NumberU64 b + 1) = Some d \<and> (\<exists>ls. ?rec d = Some (Inr ls) \<and>
            set ls = {l. leafOf getBlock H children d l} \<and> ls \<noteq> [])"
      if c: "c \<in> set (children (H b))" for c
    proof -
      obtain d where d: "getBlock c (NumberU64 b + 1) = Some d"
        using assms(2) Suc.prems(1) c unfolding children_ok_def by blast
      note child_number [OF assms(1,2) Suc.prems(1) d]
      with Suc.prems(2) Suc.IH [of d] d show ?thesis by simp
    qed
    from leaves_of_children [where rec = ?rec and num = "NumberU64 b + 1", OF False this]
    obtain rest where rest:
      "collectLeaves ?rec getBlock (NumberU64 b + 1) (children (H b)) = Some (Inr rest)" "rest \<noteq> []"
      "set rest = {l. \<exists>c\<in>set (children (H b)). \<exists>d. getBlock c (NumberU64 b + 1) = Some d \<and>
                     leafOf getBlock H children d l}"
      by blast
    have "{l. leafOf getBlock H children b l} = set rest"
      unfolding rest(3) using False by (subst leafOf_iff) auto
    with False rest show ?thesis by simp
  qed
qed

lemma highest_start: "m \<le> highest m bs"
proof (induction bs arbitrary: m)
  case (Cons c bs)
  show ?case
    using Cons.IH [of m] Cons.IH [of "NumberU64 c"] by (auto intro: order_trans less_imp_le)
qed simp

lemma highest_ge: "b \<in> set bs \<Longrightarrow> NumberU64 b \<le> highest m bs"
proof (induction bs arbitrary: m)
  case (Cons c bs)
  show ?case
  proof (cases "b = c")
    case True
    then show ?thesis
      using highest_start [of m bs] highest_start [of "NumberU64 c" bs]
      by (simp add: not_less) (meson order_trans)
  next
    case False
    then show ?thesis using Cons by simp
  qed
qed simp

lemma highest_in: "highest m bs = m \<or> (\<exists>b\<in>set bs. highest m bs = NumberU64 b)"
proof (induction bs arbitrary: m)
  case (Cons c bs)
  show ?case
    using Cons.IH [of m] Cons.IH [of "NumberU64 c"] by auto
qed simp

lemma smallestHash_min:
  "smallestHash H r bs \<in> insert r (set bs) \<and> (\<forall>b\<in>insert r (set bs). H (smallestHash H r bs) \<le> H b)"
proof (induction bs arbitrary: r)
  case (Cons c bs)
  show ?case
    using Cons.IH [of c] Cons.IH [of r] by (auto simp: not_less intro: order_trans less_imp_le)
qed simp

lemma leafOf_height:
  assumes "db_ok getBlock H" "children_ok getBlock H children N" "leafOf getBlock H children b l"
  shows "stored getBlock H b \<Longrightarrow> unat (NumberU64 b) \<le> unat (NumberU64 l)"
  using assms(3)
proof (induction rule: leafOf.induct)
  case (child c b d l)
  note child_number [OF assms(1,2) child.prems child.hyps(2)]
  with child.IH show ?case by simp
qed simp

section \<open>How the handlers change the state\<close>

definition grows :: "BlockChain \<Rightarrow> BlockChain \<Rightarrow> bool" where
  "grows bc bc' \<longleftrightarrow> (\<forall>hh f. blocksConsensus bc hh = Some f \<longrightarrow>
     (\<exists>f'. blocksConsensus bc' hh = Some f' \<and> (\<forall>i. bit f i \<longrightarrow> bit f' i)))"

lemma grows_same: "blocksConsensus bc' = blocksConsensus bc \<Longrightarrow> grows bc bc'"
  by (auto simp: grows_def)

lemma grows_trans: "grows a b \<Longrightarrow> grows b c \<Longrightarrow> grows a c"
  unfolding grows_def by metis

lemma grows_SetConsensusFlag: "grows bc (SetConsensusFlag nodes h a bc)"
  by (auto simp: grows_def SetConsensusFlag_def Let_def bit_or_iff)

lemma grows_VerifyConsensusOK:
  assumes "grows bc bc'" "VerifyConsensusOK nodes hh bc"
  shows "VerifyConsensusOK nodes hh bc'"
proof -
  obtain f where f: "blocksConsensus bc hh = Some f" "length nodes * 2 div 3 \<le> countFlags f (length nodes)"
    using assms(2) by (auto simp: VerifyConsensusOK_def Let_def split: option.splits)
  then obtain f' where f': "blocksConsensus bc' hh = Some f'" "\<forall>i. bit f i \<longrightarrow> bit f' i"
    using assms(1) unfolding grows_def by blast
  then have "{i. i < n \<and> (i < 64 \<longrightarrow> bit f i)} \<subseteq> {i. i < n \<and> (i < 64 \<longrightarrow> bit f' i)}" for n
    by auto
  from card_mono [OF _ this] have "countFlags f n \<le> countFlags f' n" for n
    by (simp add: countFlags_card)
  with f f' show ?thesis by (auto simp: VerifyConsensusOK_def Let_def intro: order_trans)
qed

lemma SetConsensusFlag_frame [simp]:
  "stableBlock (SetConsensusFlag nodes h a bc) = stableBlock bc"
  "currentBlock (SetConsensusFlag nodes h a bc) = currentBlock bc"
  "childrenMap (SetConsensusFlag nodes h a bc) = childrenMap bc"
  "isStarNode (SetConsensusFlag nodes h a bc) = isStarNode bc"
  "sent (SetConsensusFlag nodes h a bc) = sent bc"
  by (simp_all add: SetConsensusFlag_def Let_def)

lemma applyConsensus_frame:
  assumes "applyConsensus fuel getBlock H higher b hh num bc = Some (Inr bc')"
  shows "blocksConsensus bc' = blocksConsensus bc"
    and "stableBlock bc' = (if higher then b else stableBlock bc)"
    and "childrenMap bc' = childrenMap bc"
  using assms
  by (auto simp: applyConsensus_def Let_def split: sum.splits bool.splits option.splits if_splits)

lemma VerifyConsensusOK_cong:
  "blocksConsensus bc' = blocksConsensus bc \<Longrightarrow> VerifyConsensusOK nodes h bc' = VerifyConsensusOK nodes h bc"
  by (simp add: VerifyConsensusOK_def)

lemma applyConsensus_outcome:
  assumes "applyConsensus fuel getBlock H higher b hh num bc = Some (Inr bc')"
    and "VerifyConsensusOK nodes hh bc"
  shows "blocksConsensus bc' = blocksConsensus bc \<and>
         (stableBlock bc' = stableBlock bc \<or>
          VerifyConsensusOK nodes hh bc' \<and> stableBlock bc' = b \<and> higher)"
  using applyConsensus_frame [OF assms(1)] assms(2) VerifyConsensusOK_cong [of bc' bc nodes hh] by auto

text \<open>The handlers that confirm: what each leaves behind.\<close>

definition accepted :: "cryptoOps \<Rightarrow> AddrNodeIDMapping list \<Rightarrow> consensusMsg \<Rightarrow> bytes \<Rightarrow> BlockChain \<Rightarrow> bool" where
  "accepted C nodes info peer bc \<longleftrightarrow>
     isStarNode bc \<and> msgHasConsensus info = 1 \<and>
     ecrecover C (msgHash info) (msgSignInfo info) = Some peer \<and> GetAddressByPubkey nodes peer \<noteq> 0"

lemma ProcConsensusMsg_eq:
  "ProcConsensusMsg fuel C nodes getBlock H info peer bc =
     (if accepted C nodes info peer bc then
        let bc1 = SetConsensusFlag nodes (msgHash info) (GetAddressByPubkey nodes peer) bc in
        (case getBlock (msgHash info) (msgNumber info) of
           None \<Rightarrow> Some (Inr bc1)
         | Some b \<Rightarrow>
             if VerifyConsensusOK nodes (msgHash info) bc1
             then applyConsensus fuel getBlock H
                    (wrap64 (blockNumber (stableBlock bc)) < int64_of (msgNumber info))
                    b (msgHash info) (msgNumber info) bc1
             else Some (Inr bc1))
      else Some (Inr bc))"
  by (auto simp: ProcConsensusMsg_def accepted_def Let_def split: option.split)

lemma ProcConsensusMsg_outcome:
  assumes "ProcConsensusMsg fuel C nodes getBlock H info peer bc = Some (Inr bc')"
    and "accepted C nodes info peer bc"
  shows "blocksConsensus bc' =
           blocksConsensus (SetConsensusFlag nodes (msgHash info) (GetAddressByPubkey nodes peer) bc) \<and>
         (stableBlock bc' = stableBlock bc \<or>
          VerifyConsensusOK nodes (msgHash info) bc' \<and>
          getBlock (msgHash info) (msgNumber info) = Some (stableBlock bc') \<and>
          wrap64 (blockNumber (stableBlock bc)) < int64_of (msgNumber info))"
proof (cases "getBlock (msgHash info) (msgNumber info)")
  case None
  with assms show ?thesis by (auto simp: ProcConsensusMsg_eq Let_def)
next
  case (Some b)
  show ?thesis
  proof (cases "VerifyConsensusOK nodes (msgHash info)
                  (SetConsensusFlag nodes (msgHash info) (GetAddressByPubkey nodes peer) bc)")
    case True
    from assms Some True
    have "applyConsensus fuel getBlock H (wrap64 (blockNumber (stableBlock bc)) < int64_of (msgNumber info))
            b (msgHash info) (msgNumber info)
            (SetConsensusFlag nodes (msgHash info) (GetAddressByPubkey nodes peer) bc) = Some (Inr bc')"
      by (simp add: ProcConsensusMsg_eq Let_def)
    from applyConsensus_outcome [OF this True] Some show ?thesis by auto
  next
    case False
    with assms Some show ?thesis by (auto simp: ProcConsensusMsg_eq Let_def)
  qed
qed

lemma confirmAfterWrite_outcome:
  assumes "confirmAfterWrite fuel nodes getBlock getHeader H b bc = Some (Inr bc')" "isStarNode bc"
  shows "blocksConsensus bc' = blocksConsensus (SetConsensusFlag nodes (H b) (bcCoinbase bc) bc) \<and>
         (stableBlock bc' = stableBlock bc \<or>
          VerifyConsensusOK nodes (H b) bc' \<and> stableBlock bc' = b \<and>
          NumberU64 (stableBlock bc) < NumberU64 b)"
proof -
  let ?bc1 = "SetConsensusFlag nodes (H b) (bcCoinbase bc) bc"
  obtain bc2 where bc2:
    "(if VerifyConsensusOK nodes (H b) ?bc1
      then applyConsensus fuel getBlock H (NumberU64 (stableBlock ?bc1) < NumberU64 b)
             b (H b) (NumberU64 b) ?bc1
      else Some (Inr ?bc1)) = Some (Inr bc2)"
    and eq: "blocksConsensus bc' = blocksConsensus bc2" "stableBlock bc' = stableBlock bc2"
    using assms
    by (auto simp: confirmAfterWrite_def Let_def simp del: SetConsensusFlag_frame
        split: option.splits sum.splits)
  show ?thesis
  proof (cases "VerifyConsensusOK nodes (H b) ?bc1")
    case True
    with bc2 have "applyConsensus fuel getBlock H (NumberU64 (stableBlock bc) < NumberU64 b)
        b (H b) (NumberU64 b) ?bc1 = Some (Inr bc2)" by simp
    from applyConsensus_outcome [OF this True] show ?thesis
      using eq VerifyConsensusOK_cong [OF eq(1), of nodes "H b"] by auto
  next
    case False
    with bc2 have "bc2 = ?bc1" by simp
    with eq show ?thesis by simp
  qed
qed

lemma newest_total:
  assumes "db_ok getBlock H" "children_ok getBlock H (childrenMap bc) N" "stored getBlock H (stableBlock bc)"
    and "unat N \<le> fuel"
  shows "\<exists>b. getNewestBlockInStableChain fuel getBlock H bc = Some (Inr b) \<and>
             leafOf getBlock H (childrenMap bc) (stableBlock bc) b \<and>
             (\<forall>l. leafOf getBlock H (childrenMap bc) (stableBlock bc) l \<longrightarrow>
                NumberU64 l < NumberU64 b \<or> NumberU64 l = NumberU64 b \<and> H b \<le> H l)"
proof -
  let ?sta = "stableBlock bc"
  from assms(4) have "unat N - unat (NumberU64 ?sta) \<le> fuel" by simp
  from getLeavesOfBlock_total [OF assms(1-3) this] obtain ls where ls:
    "getLeavesOfBlock fuel getBlock H (childrenMap bc) ?sta = Some (Inr ls)"
    "set ls = {l. leafOf getBlock H (childrenMap bc) ?sta l}" "ls \<noteq> []" by blast
  have above: "NumberU64 ?sta \<le> NumberU64 l" if "l \<in> set ls" for l
    using leafOf_height [OF assms(1,2) _ assms(3)] ls(2) that by (simp add: word_le_nat_alt)
  let ?m = "highest (NumberU64 ?sta) ls"
  have "\<exists>b\<in>set ls. ?m = NumberU64 b"
    using highest_in [of "NumberU64 ?sta" ls] highest_ge above ls(3)
    by (metis antisym list.set_sel(1))
  then obtain r rs where same: "filter (\<lambda>b. NumberU64 b = ?m) ls = r # rs"
    by (cases "filter (\<lambda>b. NumberU64 b = ?m) ls") (auto simp: filter_empty_conv)
  let ?b = "smallestHash H r (r # rs)"
  have min: "?b \<in> set (r # rs)" "\<forall>l\<in>set (r # rs). H ?b \<le> H l"
    using smallestHash_min [of H r "r # rs"] by auto
  have in_same: "l \<in> set (r # rs) \<longleftrightarrow> l \<in> set ls \<and> NumberU64 l = ?m" for l
    using arg_cong [OF same, of set] by (auto simp: set_eq_iff)
  have "getNewestBlockInStableChain fuel getBlock H bc = Some (Inr ?b)"
    by (simp only: getNewestBlockInStableChain_def chooseLeaf_def ls(1) same Let_def
        option.simps sum.simps list.simps)
  moreover have "leafOf getBlock H (childrenMap bc) ?sta ?b" "NumberU64 ?b = ?m"
    using min(1) in_same [of ?b] ls(2) by simp_all
  moreover have "NumberU64 l < ?m \<or> NumberU64 l = ?m \<and> H ?b \<le> H l" if "l \<in> set ls" for l
    using highest_ge [OF that, of "NumberU64 ?sta"] in_same [of l] min(2) that by (metis order_le_less)
  ultimately show ?thesis using ls(2) by (metis mem_Collect_eq)
qed

lemma applyConsensus_total:
  assumes "db_ok getBlock H" "children_ok getBlock H (childrenMap bc) N"
    and "stored getBlock H (stableBlock bc)" "stored getBlock H (currentBlock bc)" "stored getBlock H b"
    and "unat N \<le> fuel"
  shows "\<exists>bc'. applyConsensus fuel getBlock H higher b hh num bc = Some (Inr bc')"
proof -
  define bc1 where "bc1 = (if higher then bc\<lparr>stableBlock := b\<rparr> else bc)"
  have "\<exists>same. isCurAndStableBlockInSameChain getBlock H bc1 = Inr same"
    using sameChain_eq [of getBlock H bc1] assms(4)
    by (cases "NumberU64 (currentBlock bc1) = 0")
      (auto simp: isCurAndStableBlockInSameChain_def Let_def bc1_def)
  moreover have "\<exists>nb. getNewestBlockInStableChain fuel getBlock H bc1 = Some (Inr nb)"
    using newest_total [of getBlock H bc1 N fuel] assms by (auto simp: bc1_def)
  ultimately show ?thesis
    by (auto simp: applyConsensus_def bc1_def [symmetric] Let_def split: bool.split)
qed

section \<open>Runs of a node\<close>

text \<open>
  A node's confirmation state changes by the messages of peers, by the two parts of an
  import, and by the head change of writing a block. The data base may differ from step to
  step (it grows); it answers with blocks of the hash and number asked for, and heights stay
  below \<open>2 ^ 63\<close>.
\<close>

definition small_number :: "Header \<Rightarrow> bool" where
  "small_number b \<longleftrightarrow> 0 \<le> blockNumber b \<and> blockNumber b < 2 ^ 63"

definition small_db :: "blockDb \<Rightarrow> bool" where
  "small_db getBlock \<longleftrightarrow> (\<forall>h n b. getBlock h n = Some b \<longrightarrow> small_number b)"

inductive confirmStep ::
  "cryptoOps \<Rightarrow> AddrNodeIDMapping list \<Rightarrow> (Header \<Rightarrow> hash256) \<Rightarrow> BlockChain \<Rightarrow> BlockChain \<Rightarrow> bool"
  for C nodes H where
  message: "db_ok getBlock H \<Longrightarrow> small_db getBlock \<Longrightarrow>
    ProcConsensusMsg fuel C nodes getBlock H info peer bc = Some (Inr bc') \<Longrightarrow>
    confirmStep C nodes H bc bc'"
| before: "confirmBeforeWrite nodes H b bc = (bc', goOn) \<Longrightarrow> confirmStep C nodes H bc bc'"
| after: "small_number b \<Longrightarrow>
    confirmAfterWrite fuel nodes getBlock getHeader H b bc = Some (Inr bc') \<Longrightarrow>
    confirmStep C nodes H bc bc'"
| head: "confirmStep C nodes H bc (bc\<lparr>currentBlock := b\<rparr>)"

lemma small_number_u64:
  "small_number b \<Longrightarrow> blockNumber b = int (unat (NumberU64 b)) \<and> wrap64 (blockNumber b) = blockNumber b \<and>
    int64_of (NumberU64 b) = blockNumber b"
proof -
  assume "small_number b"
  then have r: "0 \<le> blockNumber b" "blockNumber b < 2 ^ 63" by (auto simp: small_number_def)
  then have u: "uint (NumberU64 b) = blockNumber b"
    by (simp add: NumberU64_def bigUint64_def uint_word_of_int)
  moreover have "wrap64 (blockNumber b) = blockNumber b"
    using r by (intro wrap64_id) (simp add: in_int64_def)
  ultimately show ?thesis by (simp add: int64_of_def)
qed

lemmas small_number_unat = small_number_u64 [THEN conjunct1]
lemmas small_number_wrap = small_number_u64 [THEN conjunct2, THEN conjunct1]
lemmas small_number_int64 = small_number_u64 [THEN conjunct2, THEN conjunct2]

lemma confirmStep_stable:
  assumes "confirmStep C nodes H bc bc'" "small_number (stableBlock bc)"
  shows "grows bc bc' \<and>
         (stableBlock bc' = stableBlock bc \<or>
          small_number (stableBlock bc') \<and> blockNumber (stableBlock bc) < blockNumber (stableBlock bc') \<and>
          VerifyConsensusOK nodes (H (stableBlock bc')) bc')"
  using assms
proof cases
  case (message getBlock fuel info peer)
  show ?thesis
  proof (cases "accepted C nodes info peer bc")
    case True
    note out = ProcConsensusMsg_outcome [OF message(3) True]
    from out have "grows bc bc'"
      by (intro grows_trans [OF grows_SetConsensusFlag grows_same]) blast
    moreover have "small_number (stableBlock bc') \<and> blockNumber (stableBlock bc) < blockNumber (stableBlock bc') \<and>
        VerifyConsensusOK nodes (H (stableBlock bc')) bc'"
      if "stableBlock bc' \<noteq> stableBlock bc"
    proof -
      from out that have new: "getBlock (msgHash info) (msgNumber info) = Some (stableBlock bc')"
        "VerifyConsensusOK nodes (msgHash info) bc'"
        "wrap64 (blockNumber (stableBlock bc)) < int64_of (msgNumber info)" by blast+
      with message(1,2) have "small_number (stableBlock bc')" "H (stableBlock bc') = msgHash info"
        "NumberU64 (stableBlock bc') = msgNumber info" unfolding db_ok_def small_db_def by blast+
      with new show ?thesis
        using small_number_wrap [OF assms(2)] small_number_int64 [of "stableBlock bc'"] by simp
    qed
    ultimately show ?thesis by blast
  next
    case False
    with message(3) show ?thesis by (simp add: ProcConsensusMsg_eq grows_same)
  qed
next
  case (before b goOn)
  then show ?thesis
    by (auto simp: confirmBeforeWrite_def grows_same grows_SetConsensusFlag split: if_splits)
next
  case (after b fuel getBlock getHeader)
  show ?thesis
  proof (cases "isStarNode bc")
    case True
    note out = confirmAfterWrite_outcome [OF after(2) True]
    from out have "grows bc bc'"
      by (intro grows_trans [OF grows_SetConsensusFlag grows_same]) blast
    moreover from out after(1) have "small_number (stableBlock bc') \<and>
        blockNumber (stableBlock bc) < blockNumber (stableBlock bc') \<and>
        VerifyConsensusOK nodes (H (stableBlock bc')) bc'"
      if "stableBlock bc' \<noteq> stableBlock bc"
      using that small_number_unat [OF assms(2)] small_number_unat [OF after(1)]
      by (auto simp: word_less_def)
    ultimately show ?thesis by blast
  next
    case False
    with after(2) show ?thesis by (simp add: confirmAfterWrite_def grows_same)
  qed
next
  case (head b)
  then show ?thesis by (simp add: grows_same)
qed

lemma confirm_run:
  assumes "(confirmStep C nodes H)\<^sup>*\<^sup>* bc bc'" "small_number (stableBlock bc)"
  shows "small_number (stableBlock bc') \<and> grows bc bc' \<and>
         blockNumber (stableBlock bc) \<le> blockNumber (stableBlock bc') \<and>
         (stableBlock bc' = stableBlock bc \<or> VerifyConsensusOK nodes (H (stableBlock bc')) bc')"
  using assms
proof (induction rule: rtranclp_induct)
  case base
  then show ?case by (simp add: grows_same)
next
  case (step y z)
  then have IH: "small_number (stableBlock y)" "grows bc y"
      "blockNumber (stableBlock bc) \<le> blockNumber (stableBlock y)"
      "stableBlock y = stableBlock bc \<or> VerifyConsensusOK nodes (H (stableBlock y)) y" by auto
  from confirmStep_stable [OF step.hyps(2) IH(1)]
  show ?case using IH grows_trans [OF IH(2)] grows_VerifyConsensusOK by fastforce
qed

section \<open>Properties\<close>

text \<open>A small instance: three blocks, two of them children of the first.\<close>

definition exHash :: "Header \<Rightarrow> hash256" where
  "exHash b = word_of_int (hTime b)"

definition exBlock :: "int \<Rightarrow> int \<Rightarrow> Header" where
  "exBlock n t = exHeader 17 n t 0 []"

definition exDb :: blockDb where
  "exDb h n = (if h = 1 \<and> n = 1 then Some (exBlock 1 1)
               else if h = 2 \<and> n = 2 then Some (exBlock 2 2)
               else if h = 3 \<and> n = 2 then Some (exBlock 2 3) else None)"

definition exChildren :: "hash256 \<Rightarrow> hash256 list" where
  "exChildren h = (if h = 1 then [3, 2] else [])"

definition exState :: BlockChain where
  "exState = \<lparr>isStarNode = True, currentBlock = exBlock 2 3, stableBlock = exBlock 1 1,
              blocksConsensus = Map.empty, bcCoinbase = 18, childrenMap = exChildren, sent = []\<rparr>"

definition fourNodes :: "AddrNodeIDMapping list" where
  "fourNodes = map (\<lambda>a. \<lparr>Addr = a, Pubkey = []\<rparr>) [17, 18, 19, 20]"

lemma exBlock_simps [simp]:
  "blockNumber (exBlock n t) = n" "NumberU64 (exBlock n t) = word_of_int n"
  "exHash (exBlock n t) = word_of_int t"
  by (simp_all add: exBlock_def exHeader_def blockNumber_def NumberU64_def bigUint64_def exHash_def)

lemma exDb_ok: "db_ok exDb exHash" "small_db exDb"
  by (auto simp: db_ok_def small_db_def small_number_def exDb_def split: if_splits)

lemma exDb_stored: "stored exDb exHash b \<longleftrightarrow> b = exBlock 1 1 \<or> b = exBlock 2 2 \<or> b = exBlock 2 3"
proof
  assume "stored exDb exHash b"
  then show "b = exBlock 1 1 \<or> b = exBlock 2 2 \<or> b = exBlock 2 3"
    by (auto simp: stored_def exDb_def split: if_splits)
qed (auto simp: stored_def exDb_def)

lemma exDb_children: "children_ok exDb exHash exChildren 3"
  by (auto simp: children_ok_def exDb_stored exDb_def exChildren_def)

lemma confirmers_votes:
  "confirmers (fold (SetConsensusFlag nodes hh) votes bc) hh =
     confirmers bc hh \<union> {i. i < 64 \<and> (\<exists>a\<in>set votes. GetCoreNodeIndex nodes a = int i)}"
proof (induction votes arbitrary: bc)
  case (Cons a votes)
  have "{i. i < 64 \<and> (\<exists>b\<in>set (a # votes). GetCoreNodeIndex nodes b = int i)} =
        {i. i < 64 \<and> GetCoreNodeIndex nodes a = int i} \<union>
        {i. i < 64 \<and> (\<exists>b\<in>set votes. GetCoreNodeIndex nodes b = int i)}" by auto
  moreover have "confirmers (SetConsensusFlag nodes hh a bc) hh =
      confirmers bc hh \<union> {i. i < 64 \<and> GetCoreNodeIndex nodes a = int i}"
    by (auto simp: confirmers_SetConsensusFlag Let_def nat_less_iff)
  ultimately show ?case by (simp add: Cons.IH Un_assoc)
qed simp

lemma votes_known:
  "hh \<in> dom (blocksConsensus (fold (SetConsensusFlag nodes hh) votes bc)) \<longleftrightarrow>
   hh \<in> dom (blocksConsensus bc) \<or> set votes \<inter> Addr ` set nodes \<noteq> {}"
proof (induction votes arbitrary: bc)
  case (Cons a votes)
  have "hh \<in> dom (blocksConsensus (SetConsensusFlag nodes hh a bc)) \<longleftrightarrow>
        hh \<in> dom (blocksConsensus bc) \<or> a \<in> Addr ` set nodes"
    using GetCoreNodeIndex_member [of nodes a] by (auto simp: SetConsensusFlag_def Let_def)
  then show ?case by (auto simp: Cons.IH)
qed simp

lemma voters_card:
  assumes "length nodes \<le> 64"
  shows "card ({i. i < 64 \<and> (\<exists>a\<in>set votes. GetCoreNodeIndex nodes a = int i)} \<inter> {..<length nodes}) =
         card (set votes \<inter> Addr ` set nodes)"
proof -
  let ?S = "set votes \<inter> Addr ` set nodes" and ?f = "\<lambda>a. nat (GetCoreNodeIndex nodes a)"
  have mem: "a \<in> Addr ` set nodes \<longleftrightarrow> 0 \<le> GetCoreNodeIndex nodes a" for a
    by (simp add: GetCoreNodeIndex_member)
  have "{i. i < 64 \<and> (\<exists>a\<in>set votes. GetCoreNodeIndex nodes a = int i)} \<inter> {..<length nodes} = ?f ` ?S"
  proof (intro set_eqI iffI)
    fix i assume "i \<in> {i. i < 64 \<and> (\<exists>a\<in>set votes. GetCoreNodeIndex nodes a = int i)} \<inter> {..<length nodes}"
    then obtain a where "a \<in> set votes" "GetCoreNodeIndex nodes a = int i" by auto
    then show "i \<in> ?f ` ?S" using mem [of a] by (intro image_eqI [of _ _ a]) auto
  next
    fix i assume "i \<in> ?f ` ?S"
    then obtain a where a: "a \<in> set votes" "0 \<le> GetCoreNodeIndex nodes a"
      "i = nat (GetCoreNodeIndex nodes a)" using mem by auto
    moreover have "GetCoreNodeIndex nodes a < int (length nodes)"
      using star.idx_range [of nodes a] by (simp add: GetCoreNodesCount_def)
    ultimately show "i \<in> {i. i < 64 \<and> (\<exists>a\<in>set votes. GetCoreNodeIndex nodes a = int i)} \<inter> {..<length nodes}"
      using assms by (auto simp: nat_less_iff)
  qed
  moreover have "inj_on ?f ?S"
  proof (rule inj_onI)
    fix a b assume "a \<in> ?S" "b \<in> ?S" "?f a = ?f b"
    with mem have "0 \<le> GetCoreNodeIndex nodes a" "GetCoreNodeIndex nodes a = GetCoreNodeIndex nodes b"
      by (auto simp: eq_nat_nat_iff)
    then show "a = b" by (rule star.idx_inj)
  qed
  ultimately show ?thesis by (simp add: card_image)
qed

lemma VerifyConsensusOK_fold:
  assumes "length nodes \<le> 64" "blocksConsensus bc hh = None"
  shows "VerifyConsensusOK nodes hh (fold (SetConsensusFlag nodes hh) votes bc) \<longleftrightarrow>
         set votes \<inter> Addr ` set nodes \<noteq> {} \<and>
         length nodes * 2 div 3 \<le> card (set votes \<inter> Addr ` set nodes)"
proof -
  have "confirmers bc hh = {}" "hh \<notin> dom (blocksConsensus bc)"
    using assms(2) by (auto simp: confirmers_def)
  then show ?thesis
    using VerifyConsensusOK_card [OF assms(1), of hh] confirmers_votes [of nodes hh votes bc]
      votes_known [of hh nodes votes bc] voters_card [OF assms(1), of votes]
    by simp
qed

lemma votes_other:
  "hh \<noteq> h \<Longrightarrow> blocksConsensus (fold (SetConsensusFlag nodes h) votes bc) hh = blocksConsensus bc hh"
proof (induction votes arbitrary: bc)
  case (Cons a votes)
  then show ?case by (simp add: SetConsensusFlag_def Let_def)
qed simp

lemma VerifyConsensusOK_other:
  "hh \<noteq> h \<Longrightarrow> VerifyConsensusOK nodes hh (fold (SetConsensusFlag nodes h) votes bc) =
     VerifyConsensusOK nodes hh bc"
  by (simp add: VerifyConsensusOK_def votes_other)

lemma confirmers_other:
  "hh \<noteq> h \<Longrightarrow> confirmers (fold (SetConsensusFlag nodes h) votes bc) hh = confirmers bc hh"
  by (simp add: confirmers_def votes_other)

text \<open>C17. The bit mask counts producers. For lists of at most 64 producers, after any sequence of
  confirmations of a block that had none, the block passes the test exactly when a listed
  producer confirmed it and the number of different listed producers among the confirming
  addresses is at least two thirds of the list, rounded down: repeated confirmations count
  once, addresses outside the list do not count.\<close>

theorem VerifyConsensusOK_votes:
  assumes "length nodes \<le> 64" "blocksConsensus bc hh = None"
  shows "VerifyConsensusOK nodes hh (fold (SetConsensusFlag nodes hh) votes bc) \<longleftrightarrow>
         set votes \<inter> Addr ` set nodes \<noteq> {} \<and>
         length nodes * 2 div 3 \<le> card (set votes \<inter> Addr ` set nodes)"
  using VerifyConsensusOK_fold [OF assms] .

theorem VerifyConsensusOK_votes_witness:
  "VerifyConsensusOK exNodes 5 (fold (SetConsensusFlag exNodes 5) [17, 20, 19, 17] exState) \<and>
   \<not> VerifyConsensusOK exNodes 5 (fold (SetConsensusFlag exNodes 5) [17, 20, 17] exState)"
  using VerifyConsensusOK_votes [of exNodes exState 5 "[17, 20, 19, 17]"]
    VerifyConsensusOK_votes [of exNodes exState 5 "[17, 20, 17]"]
  by (simp add: exNodes_def exState_def)

text \<open>C5. Any two quorums share a producer. For three, or five to 64, producers, two blocks that
  pass the test, on the same node or on two nodes, have a producer that confirmed both: if no
  producer confirms two blocks of one height, no two such blocks are ever both stable.\<close>

theorem quorum_intersection:
  assumes "length nodes = 3 \<or> 5 \<le> length nodes" "length nodes \<le> 64"
    and "VerifyConsensusOK nodes h1 bc1" "VerifyConsensusOK nodes h2 bc2"
  shows "\<exists>i < length nodes. i \<in> confirmers bc1 h1 \<and> i \<in> confirmers bc2 h2"
proof -
  have "confirmers bc1 h1 \<inter> {..<length nodes} \<inter> (confirmers bc2 h2 \<inter> {..<length nodes}) \<noteq> {}"
    using quorums_meet [OF assms(1)] assms(3,4) VerifyConsensusOK_card [OF assms(2)] by simp
  then show ?thesis by blast
qed

theorem quorum_intersection_witness:
  "\<exists>i < 3. i \<in> confirmers (fold (SetConsensusFlag exNodes 5) [17, 18] exState) 5 \<and>
           i \<in> confirmers (fold (SetConsensusFlag exNodes 6) [19, 18] exState) 6"
proof -
  have ok: "VerifyConsensusOK exNodes 5 (fold (SetConsensusFlag exNodes 5) [17, 18] exState)"
    "VerifyConsensusOK exNodes 6 (fold (SetConsensusFlag exNodes 6) [19, 18] exState)"
    using VerifyConsensusOK_fold [of exNodes exState 5 "[17, 18]"]
      VerifyConsensusOK_fold [of exNodes exState 6 "[19, 18]"]
    by (simp_all add: exState_def exNodes_def)
  have "length exNodes = 3" by (simp add: exNodes_def)
  with quorum_intersection [OF _ _ ok] show ?thesis by simp
qed

text \<open>C34. With four producers the test is not a quorum. Two of four confirmations pass, so two
  different blocks can both pass with disjoint sets of confirming producers, though the comment
  of the function promises more than two thirds.\<close>

theorem four_nodes_two_quorums:
  "let bc = fold (SetConsensusFlag fourNodes 6) [19, 20] (fold (SetConsensusFlag fourNodes 5) [17, 18] exState)
   in VerifyConsensusOK fourNodes 5 bc \<and> VerifyConsensusOK fourNodes 6 bc \<and>
      confirmers bc 5 = {0, 1} \<and> confirmers bc 6 = {2, 3}"
proof -
  define v5 where "v5 = fold (SetConsensusFlag fourNodes 5) [17, 18] exState"
  define bc where "bc = fold (SetConsensusFlag fourNodes 6) [19, 20] v5"
  have none: "blocksConsensus exState h = None" for h by (simp add: exState_def)
  have none6: "blocksConsensus v5 6 = None"
    using votes_other [of 6 5 fourNodes "[17, 18]" exState, folded v5_def] none by simp
  have empty: "confirmers exState 5 = {}" "confirmers v5 6 = {}"
    by (simp_all add: confirmers_def none none6)
  have four: "length fourNodes = 4" "Addr ` set fourNodes = {17, 18, 19, 20}"
    by (simp_all add: fourNodes_def)
  have idx: "GetCoreNodeIndex fourNodes 17 = 0" "GetCoreNodeIndex fourNodes 18 = 1"
    "GetCoreNodeIndex fourNodes 19 = 2" "GetCoreNodeIndex fourNodes 20 = 3"
    by (simp_all add: GetCoreNodeIndex_def fourNodes_def)
  have "VerifyConsensusOK fourNodes 5 v5" "VerifyConsensusOK fourNodes 6 bc"
    using VerifyConsensusOK_fold [OF _ none, of fourNodes 5 "[17, 18]", folded v5_def]
      VerifyConsensusOK_fold [OF _ none6, of fourNodes "[19, 20]", folded bc_def]
    by (simp_all add: four)
  moreover have "VerifyConsensusOK fourNodes 5 bc = VerifyConsensusOK fourNodes 5 v5"
    using VerifyConsensusOK_other [of 5 6 fourNodes "[19, 20]" v5, folded bc_def] by simp
  moreover have "confirmers v5 5 = {0, 1}" "confirmers bc 6 = {2, 3}"
    using confirmers_votes [of fourNodes 5 "[17, 18]" exState, folded v5_def]
      confirmers_votes [of fourNodes 6 "[19, 20]" v5, folded bc_def] empty
    by (auto simp: idx)
  moreover have "confirmers bc 5 = confirmers v5 5"
    using confirmers_other [of 5 6 fourNodes "[19, 20]" v5, folded bc_def] by simp
  ultimately show ?thesis unfolding v5_def [symmetric] bc_def [symmetric] Let_def by simp
qed

text \<open>C35. More than 64 producers break the test. The flag word has 64 bits and a shift beyond
  them is zero, which every flag contains: from 190 producers on, one confirmation is enough
  for any block.\<close>

theorem many_nodes_always_ok:
  assumes "190 \<le> length nodes" "blocksConsensus bc hh = Some f"
  shows "VerifyConsensusOK nodes hh bc"
  using assms many_nodes_count [OF assms(1)] by (simp add: VerifyConsensusOK_def Let_def)

theorem many_nodes_always_ok_witness:
  "VerifyConsensusOK (replicate 190 \<lparr>Addr = 17, Pubkey = []\<rparr>) 5
     (exState\<lparr>blocksConsensus := [5 \<mapsto> 0]\<rparr>)"
  by (rule many_nodes_always_ok [of _ _ _ 0]) simp_all

definition exVoteCrypto :: cryptoOps where
  "exVoteCrypto = exCrypto\<lparr>ecrecover := (\<lambda>_ sig. if sig = [] then None else Some sig)\<rparr>"

definition exMsg :: consensusMsg where
  "exMsg = \<lparr>msgHash = 2, msgNumber = 2, msgHasConsensus = 1, msgSignInfo = [2]\<rparr>"

definition exConfirmed :: BlockChain where
  "exConfirmed = SetConsensusFlag exNodes 2 17 exState"

lemma exVote_accepted: "isStarNode bc \<Longrightarrow> accepted exVoteCrypto exNodes exMsg [2] bc"
  and exVote_address: "GetAddressByPubkey exNodes [2] = 18"
  by (simp_all add: accepted_def exVoteCrypto_def exMsg_def exNodes_def GetAddressByPubkey_def)

lemma exVote_moves:
  "\<exists>bc'. ProcConsensusMsg 3 exVoteCrypto exNodes exDb exHash exMsg [2] exConfirmed = Some (Inr bc') \<and>
         stableBlock bc' = exBlock 2 2 \<and> VerifyConsensusOK exNodes 2 bc'"
proof -
  let ?bc1 = "SetConsensusFlag exNodes 2 18 exConfirmed"
  have ok: "VerifyConsensusOK exNodes 2 ?bc1"
    using VerifyConsensusOK_fold [of exNodes exState 2 "[17, 18]"]
    by (simp add: exConfirmed_def) (simp add: exState_def exNodes_def)
  obtain bc' where bc': "applyConsensus 3 exDb exHash True (exBlock 2 2) 2 2 ?bc1 = Some (Inr bc')"
    using applyConsensus_total [OF exDb_ok(1), of ?bc1 3 "exBlock 2 2" 3 True 2 2] exDb_children
    by (auto simp: exDb_stored exConfirmed_def exState_def)
  have "wrap64 (1) < int64_of 2" by (simp add: wrap64_def int64_of_def)
  then have "ProcConsensusMsg 3 exVoteCrypto exNodes exDb exHash exMsg [2] exConfirmed = Some (Inr bc')"
    using bc' ok exVote_accepted [of exConfirmed]
    by (simp add: ProcConsensusMsg_eq exVote_address exMsg_def)
      (simp add: exDb_def exConfirmed_def exState_def)
  moreover note applyConsensus_frame [OF bc'] VerifyConsensusOK_cong [of bc' ?bc1 exNodes 2]
  ultimately show ?thesis using ok by auto
qed

text \<open>C32. The same-chain test never looks at an ancestor. Its loop asks the data base for the
  block it already has, so for a stored head above the first block the answer is whether the
  head is the stable block itself: for a head that is a proper descendant of the stable block,
  which the comment of the function describes, the answer is no.\<close>

theorem sameChain_is_equality:
  assumes "stored getBlock H (currentBlock bc)" "NumberU64 (currentBlock bc) \<noteq> 0"
  shows "isCurAndStableBlockInSameChain getBlock H bc =
           Inr (blockNumber (stableBlock bc) \<le> blockNumber (currentBlock bc) \<and>
                H (stableBlock bc) = H (currentBlock bc))"
  using sameChain_eq [OF assms] .

theorem sameChain_is_equality_witness:
  "leafOf exDb exHash exChildren (stableBlock exState) (currentBlock exState) \<and>
   isCurAndStableBlockInSameChain exDb exHash exState = Inr False"
proof -
  have "leafOf exDb exHash exChildren (exBlock 1 1) (exBlock 2 3)"
    by (rule leafOf.child [of 3 _ _ _ _ "exBlock 2 3"])
      (auto simp: exChildren_def exDb_def intro: leafOf.leaf)
  moreover have "isCurAndStableBlockInSameChain exDb exHash exState = Inr False"
    using sameChain_is_equality [of exDb exHash exState] by (simp add: exDb_stored exState_def)
  ultimately show ?thesis by (simp add: exState_def)
qed

text \<open>C27. The new head is the best leaf. Over a data base that answers truthfully and has all
  recorded children, \<open>getNewestBlockInStableChain\<close> returns (fuel: the height bound), without a
  nil dereference or an index out of range, a leaf below the stable block that is highest
  among all of them and, among the highest, has the smallest hash.\<close>

theorem newest_is_best_leaf:
  assumes "db_ok getBlock H" "children_ok getBlock H (childrenMap bc) N" "stored getBlock H (stableBlock bc)"
    and "unat N \<le> fuel"
  shows "\<exists>b. getNewestBlockInStableChain fuel getBlock H bc = Some (Inr b) \<and>
             leafOf getBlock H (childrenMap bc) (stableBlock bc) b \<and>
             (\<forall>l. leafOf getBlock H (childrenMap bc) (stableBlock bc) l \<longrightarrow>
                NumberU64 l < NumberU64 b \<or> NumberU64 l = NumberU64 b \<and> H b \<le> H l)"
  using newest_total [OF assms] .

theorem newest_is_best_leaf_witness:
  "\<exists>b. getNewestBlockInStableChain 3 exDb exHash exState = Some (Inr b) \<and>
       leafOf exDb exHash exChildren (exBlock 1 1) b \<and> 2 \<le> NumberU64 b"
proof -
  have "leafOf exDb exHash exChildren (exBlock 1 1) (exBlock 2 2)"
    by (rule leafOf.child [of 2 _ _ _ _ "exBlock 2 2"])
      (auto simp: exChildren_def exDb_def intro: leafOf.leaf)
  moreover have "stableBlock exState = exBlock 1 1" "childrenMap exState = exChildren"
    by (simp_all add: exState_def)
  ultimately show ?thesis
    using newest_is_best_leaf [OF exDb_ok(1), of exState 3 3] exDb_children
    by (force simp: exDb_stored)
qed

text \<open>C28. A confirmation is authentic. When handling a message gives a block a confirming
  producer it did not have, the node is a producer, the block is the one the message names,
  and the producer's index is that of the peer whose key signed the block's hash: nobody
  else's confirmation can be recorded, forwarded messages and strangers leave no trace.\<close>

theorem ProcConsensusMsg_authentic:
  assumes "ProcConsensusMsg fuel C nodes getBlock H info peer bc = Some (Inr bc')"
    and "i \<in> confirmers bc' hh" "i \<notin> confirmers bc hh"
  shows "isStarNode bc \<and> msgHasConsensus info = 1 \<and> hh = msgHash info \<and>
         ecrecover C (msgHash info) (msgSignInfo info) = Some peer \<and>
         GetCoreNodeIndex nodes (GetAddressByPubkey nodes peer) = int i"
proof (cases "accepted C nodes info peer bc")
  case True
  let ?a = "GetAddressByPubkey nodes peer"
  have "confirmers bc' hh = confirmers (SetConsensusFlag nodes (msgHash info) ?a bc) hh"
    using ProcConsensusMsg_outcome [OF assms(1) True] by (simp add: confirmers_def)
  with assms(2,3) have "hh = msgHash info" "GetCoreNodeIndex nodes ?a = int i"
    by (auto simp: confirmers_SetConsensusFlag Let_def split: if_splits)
  with True show ?thesis by (auto simp: accepted_def)
next
  case False
  with assms show ?thesis by (simp add: ProcConsensusMsg_eq)
qed

theorem ProcConsensusMsg_authentic_witness:
  "\<exists>bc'. ProcConsensusMsg 3 exVoteCrypto exNodes exDb exHash exMsg [2] exConfirmed = Some (Inr bc') \<and>
         1 \<in> confirmers bc' 2 \<and> GetCoreNodeIndex exNodes (GetAddressByPubkey exNodes [2]) = 1"
proof -
  obtain bc' where bc':
    "ProcConsensusMsg 3 exVoteCrypto exNodes exDb exHash exMsg [2] exConfirmed = Some (Inr bc')"
    using exVote_moves by blast
  have star: "isStarNode exConfirmed" and msg: "msgHash exMsg = 2"
    by (simp_all add: exConfirmed_def exState_def exMsg_def)
  have "1 \<notin> confirmers exConfirmed 2"
    by (simp add: exConfirmed_def confirmers_SetConsensusFlag) (simp add: confirmers_def exState_def)
  moreover have "confirmers bc' 2 = confirmers (SetConsensusFlag exNodes 2 18 exConfirmed) 2"
    using ProcConsensusMsg_outcome [OF bc' exVote_accepted [OF star]]
    by (simp add: confirmers_def msg exVote_address)
  then have "1 \<in> confirmers bc' 2"
    by (simp add: confirmers_SetConsensusFlag)
  ultimately show ?thesis
    using bc' ProcConsensusMsg_authentic [OF bc', of 1 2] by simp
qed





end
