(* ===== verification/RlpEncode.thy ===== *)
theory RlpEncode
  imports Prelude
begin

text \<open>
  The RLP encoder (\<^verbatim>\<open>src/rlp/encode.go\<close>). The encoder first writes all string data into one
  buffer and remembers where list headers belong (\<open>encbuf\<close>); \<open>toBytes\<close> merges the two. The
  Go value and its reflected type are the data types \<open>rval\<close> and \<open>rtype\<close>; a writer per kind of
  type follows \<open>makeWriter\<close>. The reference \<open>encv\<close> is the RLP rule itself, with lengths of the
  content computed first; the main lemma shows that both give the same bytes. Lengths of
  slices are mathematical integers (no slice is as long as \<open>2 ^ 63\<close>).
\<close>

datatype rlp_error = IoEOF | UnexpectedEOF | EOL | ErrExpectedString | ErrExpectedList | ErrCanonInt
  | ErrCanonSize | ErrElemTooLarge | ErrValueTooLarge | ErrMoreThanOneValue | ErrNotInList
  | ErrNotAtEOL | ErrUintOverflow | DecodeError rlp_error | TooLong | TooShort | TooFew | BadBool
  | NegativeBig | IllTyped | RlpPanic go_panic

section \<open>Headers\<close>

text \<open>\<open>putint\<close> returns the bytes it writes; their number is the size the code returns.\<close>

definition byte_at :: "u64 \<Rightarrow> nat \<Rightarrow> u8" where
  "byte_at i n = ucast (drop_bit n i)"

definition putint :: "u64 \<Rightarrow> bytes" where
  "putint i =
     (if i < 2 ^ 8 then [byte_at i 0]
      else if i < 2 ^ 16 then [byte_at i 8, byte_at i 0]
      else if i < 2 ^ 24 then [byte_at i 16, byte_at i 8, byte_at i 0]
      else if i < 2 ^ 32 then [byte_at i 24, byte_at i 16, byte_at i 8, byte_at i 0]
      else if i < 2 ^ 40 then [byte_at i 32, byte_at i 24, byte_at i 16, byte_at i 8, byte_at i 0]
      else if i < 2 ^ 48 then
        [byte_at i 40, byte_at i 32, byte_at i 24, byte_at i 16, byte_at i 8, byte_at i 0]
      else if i < 2 ^ 56 then
        [byte_at i 48, byte_at i 40, byte_at i 32, byte_at i 24, byte_at i 16, byte_at i 8, byte_at i 0]
      else
        [byte_at i 56, byte_at i 48, byte_at i 40, byte_at i 32, byte_at i 24, byte_at i 16, byte_at i 8,
         byte_at i 0])"

function intsize :: "u64 \<Rightarrow> int" where
  "intsize i = (let i' = drop_bit 8 i in if i' = 0 then 1 else 1 + intsize i')"
  by pat_completeness auto

lemma drop_bit_8_less: "drop_bit 8 i \<noteq> (0 :: u64) \<Longrightarrow> unat (drop_bit 8 i) < unat i"
proof -
  assume "drop_bit 8 i \<noteq> 0"
  then have "unat (drop_bit 8 i) \<noteq> 0" by (simp only: unat_eq_0) simp
  moreover have "unat (drop_bit 8 i) = unat i div 256"
    unfolding unat_drop_bit_eq by (simp add: drop_bit_eq_div)
  ultimately show ?thesis by simp
qed

termination intsize
  by (relation "measure unat") (auto intro: drop_bit_8_less)

definition headsize :: "u64 \<Rightarrow> int" where
  "headsize sz = (if sz < 56 then 1 else 1 + intsize sz)"

definition puthead :: "u8 \<Rightarrow> u8 \<Rightarrow> u64 \<Rightarrow> bytes" where
  "puthead smalltag largetag sz =
     (if sz < 56 then [smalltag + ucast sz]
      else let b = putint sz in (largetag + word_of_nat (length b)) # b)"

section \<open>The encoding buffer\<close>

record listhead =
  lhOffset :: int
  lhSize :: int

record encbuf =
  str :: bytes
  lheads :: "listhead list"
  lhsize :: int

definition emptyBuf :: encbuf where
  "emptyBuf = \<lparr>str = [], lheads = [], lhsize = 0\<rparr>"

definition bufWrite :: "bytes \<Rightarrow> encbuf \<Rightarrow> encbuf" where
  "bufWrite b w = w\<lparr>str := str w @ b\<rparr>"

definition encodeStringHeader :: "nat \<Rightarrow> encbuf \<Rightarrow> encbuf" where
  "encodeStringHeader sz w =
     (if sz < 56 then bufWrite [0x80 + word_of_nat sz] w
      else let b = putint (word_of_nat sz) in bufWrite ((0xB7 + word_of_nat (length b)) # b) w)"

definition encodeString :: "bytes \<Rightarrow> encbuf \<Rightarrow> encbuf" where
  "encodeString b w =
     (if length b = 1 \<and> hd b \<le> 0x7F then bufWrite b w
      else bufWrite b (encodeStringHeader (length b) w))"

definition encSize :: "encbuf \<Rightarrow> int" where
  "encSize w = int (length (str w)) + lhsize w"

text \<open>\<open>list\<close> returns the position of the new head in \<open>lheads\<close>, \<open>listEnd\<close> completes that head.\<close>

definition listStart :: "encbuf \<Rightarrow> encbuf \<times> nat" where
  "listStart w =
     (w\<lparr>lheads := lheads w @ [\<lparr>lhOffset = int (length (str w)), lhSize = lhsize w\<rparr>]\<rparr>,
      length (lheads w))"

definition listEnd :: "nat \<Rightarrow> encbuf \<Rightarrow> encbuf" where
  "listEnd k w =
     (let lh = lheads w ! k;
          sz = encSize w - lhOffset lh - lhSize lh
      in w\<lparr>lheads := (lheads w)[k := lh\<lparr>lhSize := sz\<rparr>],
           lhsize := lhsize w + (if sz < 56 then 1 else 1 + intsize (word_of_int sz))\<rparr>)"

text \<open>The loop of \<open>toBytes\<close>: string data up to the next header, then the header.\<close>

fun mergeHeads :: "bytes \<Rightarrow> nat \<Rightarrow> listhead list \<Rightarrow> bytes" where
  "mergeHeads s strpos [] = drop strpos s"
| "mergeHeads s strpos (h # hs) =
     (let n = nat (lhOffset h) - strpos
      in take n (drop strpos s) @ puthead 0xC0 0xF7 (word_of_int (lhSize h)) @ mergeHeads s (strpos + n) hs)"

definition toBytes :: "encbuf \<Rightarrow> bytes" where
  "toBytes w =
     (let out = mergeHeads (str w) 0 (lheads w); n = nat (encSize w)
      in take n out @ replicate (n - length out) 0)"

section \<open>Types, values and their writers\<close>

text \<open>
  The reflected type of a value, with the struct tags that change its encoding: a \<open>TTail\<close>
  field takes the rest of its list, a \<open>TOptPtr\<close> is a pointer field tagged \<open>nil\<close>. \<open>TBig\<close> is
  \<open>*big.Int\<close>. An interface value carries its dynamic type.
\<close>

datatype rtype = TRaw | TUint nat | TBool | TBig | TString | TBytes | TByteArray nat | TSlice rtype
  | TArray nat rtype | TStruct "rtype list" | TTail rtype | TPtr rtype | TOptPtr rtype | TIface

datatype rval = VBytes bytes | VUint u64 | VBool bool | VBig "int option" | VList "rval list"
  | VPtr "rval option" | VIface "(rtype \<times> rval) option"

definition writeUint :: "u64 \<Rightarrow> encbuf \<Rightarrow> encbuf" where
  "writeUint i w =
     (if i = 0 then bufWrite [0x80] w
      else if i < 128 then bufWrite [ucast i] w
      else let b = putint i in bufWrite ((0x80 + word_of_nat (length b)) # b) w)"

definition writeBool :: "bool \<Rightarrow> encbuf \<Rightarrow> encbuf" where
  "writeBool b w = bufWrite [if b then 0x01 else 0x80] w"

definition writeBigInt :: "int \<Rightarrow> encbuf \<Rightarrow> rlp_error + encbuf" where
  "writeBigInt i w =
     (if i < 0 then Inl NegativeBig
      else if i = 0 then Inr (bufWrite [0x80] w)
      else Inr (encodeString (be_bytes (nat i)) w))"

definition writeBigIntPtr :: "int option \<Rightarrow> encbuf \<Rightarrow> rlp_error + encbuf" where
  "writeBigIntPtr p w = (case p of None \<Rightarrow> Inr (bufWrite [0x80] w) | Some i \<Rightarrow> writeBigInt i w)"

definition writeString :: "bytes \<Rightarrow> encbuf \<Rightarrow> encbuf" where
  "writeString s w =
     (if length s = 1 \<and> hd s \<le> 0x7F then bufWrite s w
      else bufWrite s (encodeStringHeader (length s) w))"

definition emptyList :: "encbuf \<Rightarrow> encbuf" where
  "emptyList w = (let (w1, lh) = listStart w in listEnd lh w1)"

text \<open>What a nil pointer to a type writes (\<open>makePtrWriter\<close>).\<close>

fun writeNil :: "rtype \<Rightarrow> encbuf \<Rightarrow> encbuf" where
  "writeNil (TByteArray n) w = bufWrite [0x80] w"
| "writeNil (TStruct ts) w = emptyList w"
| "writeNil (TArray n t) w = emptyList w"
| "writeNil (TSlice t) w = emptyList w"
| "writeNil (TPtr t) w = writeNil t w"
| "writeNil (TOptPtr t) w = writeNil t w"
| "writeNil (TUint n) w = writeUint 0 w"
| "writeNil TBool w = writeBool False w"
| "writeNil TBig w = bufWrite [0x80] w"
| "writeNil TString w = writeString [] w"
| "writeNil TBytes w = encodeString [] w"
| "writeNil TRaw w = bufWrite [] w"
| "writeNil TIface w = bufWrite [0xC0] w"
| "writeNil (TTail t) w = w"

definition ebind :: "'e + 'a \<Rightarrow> ('a \<Rightarrow> 'e + 'b) \<Rightarrow> 'e + 'b" where
  "ebind r f = (case r of Inl e \<Rightarrow> Inl e | Inr x \<Rightarrow> f x)"

lemma ebind_simps [simp]: "ebind (Inl e) f = Inl e" "ebind (Inr x) f = f x"
  by (simp_all add: ebind_def)

lemma ebind_cong [fundef_cong]: "r = r' \<Longrightarrow> (\<And>x. r' = Inr x \<Longrightarrow> f x = g x) \<Longrightarrow> ebind r f = ebind r' g"
  by (cases r') simp_all

text \<open>
  The writers by type (\<open>makeWriter\<close>, \<open>makeSliceWriter\<close>, \<open>makeStructWriter\<close>, \<open>makePtrWriter\<close>).
  Go's static typing excludes the pairs of a type and a value of another kind: \<open>IllTyped\<close>.
\<close>

definition writeByteString :: "rtype \<Rightarrow> bytes \<Rightarrow> encbuf \<Rightarrow> rlp_error + encbuf" where
  "writeByteString t b w =
     (case t of
        TRaw \<Rightarrow> Inr (bufWrite b w)
      | TString \<Rightarrow> Inr (writeString b w)
      | TBytes \<Rightarrow> Inr (encodeString b w)
      | TByteArray n \<Rightarrow> Inr (encodeString b w)
      | _ \<Rightarrow> Inl IllTyped)"

definition inList :: "(encbuf \<Rightarrow> rlp_error + encbuf) \<Rightarrow> encbuf \<Rightarrow> rlp_error + encbuf" where
  "inList f w = (let (w1, lh) = listStart w in ebind (f w1) (\<lambda>w2. Inr (listEnd lh w2)))"

lemma inList_cong [fundef_cong]:
  "w = w' \<Longrightarrow> (\<And>x. f x = g x) \<Longrightarrow> inList f w = inList g w'"
  by (simp add: inList_def)

fun writeVal :: "rtype \<Rightarrow> rval \<Rightarrow> encbuf \<Rightarrow> rlp_error + encbuf"
  and writeElems :: "rtype \<Rightarrow> rval list \<Rightarrow> encbuf \<Rightarrow> rlp_error + encbuf"
  and writeFields :: "rtype list \<Rightarrow> rval list \<Rightarrow> encbuf \<Rightarrow> rlp_error + encbuf" where
  "writeVal t (VBytes b) w = writeByteString t b w"
| "writeVal t (VUint i) w = (case t of TUint n \<Rightarrow> Inr (writeUint i w) | _ \<Rightarrow> Inl IllTyped)"
| "writeVal t (VBool b) w = (case t of TBool \<Rightarrow> Inr (writeBool b w) | _ \<Rightarrow> Inl IllTyped)"
| "writeVal t (VBig p) w = (case t of TBig \<Rightarrow> writeBigIntPtr p w | _ \<Rightarrow> Inl IllTyped)"
| "writeVal t (VList vs) w =
     (case t of
        TSlice et \<Rightarrow> inList (writeElems et vs) w
      | TArray n et \<Rightarrow> inList (writeElems et vs) w
      | TTail et \<Rightarrow> writeElems et vs w
      | TStruct ts \<Rightarrow> inList (writeFields ts vs) w
      | _ \<Rightarrow> Inl IllTyped)"
| "writeVal t (VPtr None) w =
     (case t of TPtr et \<Rightarrow> Inr (writeNil et w) | TOptPtr et \<Rightarrow> Inr (writeNil et w) | _ \<Rightarrow> Inl IllTyped)"
| "writeVal t (VPtr (Some v)) w =
     (case t of TPtr et \<Rightarrow> writeVal et v w | TOptPtr et \<Rightarrow> writeVal et v w | _ \<Rightarrow> Inl IllTyped)"
| "writeVal t (VIface None) w = (case t of TIface \<Rightarrow> Inr (bufWrite [0xC0] w) | _ \<Rightarrow> Inl IllTyped)"
| "writeVal t (VIface (Some (et, v))) w = (case t of TIface \<Rightarrow> writeVal et v w | _ \<Rightarrow> Inl IllTyped)"
| "writeElems t [] w = Inr w"
| "writeElems t (v # vs) w = ebind (writeVal t v w) (writeElems t vs)"
| "writeFields ts [] w = (if ts = [] then Inr w else Inl IllTyped)"
| "writeFields ts (v # vs) w =
     (case ts of [] \<Rightarrow> Inl IllTyped | t # ts' \<Rightarrow> ebind (writeVal t v w) (writeFields ts' vs))"

definition EncodeToBytes :: "rtype \<Rightarrow> rval \<Rightarrow> rlp_error + bytes" where
  "EncodeToBytes t v = ebind (writeVal t v emptyBuf) (\<lambda>w. Inr (toBytes w))"

section \<open>The RLP rule\<close>

definition rlpHead :: "u8 \<Rightarrow> u8 \<Rightarrow> nat \<Rightarrow> bytes" where
  "rlpHead small large n =
     (if n < 56 then [small + word_of_nat n]
      else (large + word_of_nat (length (be_bytes n))) # be_bytes n)"

definition encStr :: "bytes \<Rightarrow> bytes" where
  "encStr b = (if length b = 1 \<and> hd b < 0x80 then b else rlpHead 0x80 0xB7 (length b) @ b)"

definition encList :: "bytes \<Rightarrow> bytes" where
  "encList p = rlpHead 0xC0 0xF7 (length p) @ p"

fun encNil :: "rtype \<Rightarrow> bytes" where
  "encNil (TStruct ts) = encList []"
| "encNil (TArray n t) = encList []"
| "encNil (TSlice t) = encList []"
| "encNil TIface = encList []"
| "encNil (TPtr t) = encNil t"
| "encNil (TOptPtr t) = encNil t"
| "encNil TRaw = []"
| "encNil (TTail t) = []"
| "encNil t = encStr []"

fun encv :: "rtype \<Rightarrow> rval \<Rightarrow> bytes"
  and encElems :: "rtype \<Rightarrow> rval list \<Rightarrow> bytes"
  and encFields :: "rtype list \<Rightarrow> rval list \<Rightarrow> bytes" where
  "encv t (VBytes b) = (if t = TRaw then b else encStr b)"
| "encv t (VUint i) = encStr (be_bytes (unat i))"
| "encv t (VBool b) = encStr (if b then [1] else [])"
| "encv t (VBig p) = encStr (case p of None \<Rightarrow> [] | Some i \<Rightarrow> be_bytes (nat i))"
| "encv t (VList vs) =
     (case t of
        TSlice et \<Rightarrow> encList (encElems et vs)
      | TArray n et \<Rightarrow> encList (encElems et vs)
      | TTail et \<Rightarrow> encElems et vs
      | TStruct ts \<Rightarrow> encList (encFields ts vs)
      | _ \<Rightarrow> [])"
| "encv t (VPtr None) = (case t of TPtr et \<Rightarrow> encNil et | TOptPtr et \<Rightarrow> encNil et | _ \<Rightarrow> [])"
| "encv t (VPtr (Some v)) = (case t of TPtr et \<Rightarrow> encv et v | TOptPtr et \<Rightarrow> encv et v | _ \<Rightarrow> [])"
| "encv t (VIface None) = encList []"
| "encv t (VIface (Some (et, v))) = encv et v"
| "encElems t [] = []"
| "encElems t (v # vs) = encv t v @ encElems t vs"
| "encFields ts [] = []"
| "encFields ts (v # vs) = (case ts of [] \<Rightarrow> [] | t # ts' \<Rightarrow> encv t v @ encFields ts' vs)"

text \<open>Values of a type, as Go's typing and the encoder's error for negative numbers give them.\<close>

fun wt :: "rtype \<Rightarrow> rval \<Rightarrow> bool"
  and wtElems :: "rtype \<Rightarrow> rval list \<Rightarrow> bool"
  and wtFields :: "rtype list \<Rightarrow> rval list \<Rightarrow> bool" where
  "wt t (VBytes b) = (case t of TRaw \<Rightarrow> True | TString \<Rightarrow> True | TBytes \<Rightarrow> True
                       | TByteArray n \<Rightarrow> length b = n | _ \<Rightarrow> False)"
| "wt t (VUint i) = (case t of TUint n \<Rightarrow> unat i < 2 ^ n | _ \<Rightarrow> False)"
| "wt t (VBool b) = (t = TBool)"
| "wt t (VBig p) = (t = TBig \<and> (case p of None \<Rightarrow> True | Some i \<Rightarrow> 0 \<le> i))"
| "wt t (VList vs) =
     (case t of
        TSlice et \<Rightarrow> wtElems et vs
      | TArray n et \<Rightarrow> length vs = n \<and> wtElems et vs
      | TTail et \<Rightarrow> wtElems et vs
      | TStruct ts \<Rightarrow> wtFields ts vs
      | _ \<Rightarrow> False)"
| "wt t (VPtr None) = (case t of TPtr et \<Rightarrow> True | TOptPtr et \<Rightarrow> True | _ \<Rightarrow> False)"
| "wt t (VPtr (Some v)) = (case t of TPtr et \<Rightarrow> wt et v | TOptPtr et \<Rightarrow> wt et v | _ \<Rightarrow> False)"
| "wt t (VIface None) = (t = TIface)"
| "wt t (VIface (Some (et, v))) = (t = TIface \<and> wt et v)"
| "wtElems t [] = True"
| "wtElems t (v # vs) = (wt t v \<and> wtElems t vs)"
| "wtFields ts [] = (ts = [])"
| "wtFields ts (v # vs) = (case ts of [] \<Rightarrow> False | t # ts' \<Rightarrow> wt t v \<and> wtFields ts' vs)"

section \<open>Headers are minimal big-endian numbers\<close>

lemma unat_byte_at: "unat (byte_at i n) = unat i div 2 ^ n mod 256"
proof -
  have "unat (byte_at i n) = unat (drop_bit n i) mod 256"
    by (simp add: byte_at_def unsigned_ucast_eq take_bit_eq_mod)
  then show ?thesis unfolding unat_drop_bit_eq by (simp add: drop_bit_eq_div)
qed

text \<open>The last \<open>k\<close> bytes of a word.\<close>

definition last_bytes :: "nat \<Rightarrow> u64 \<Rightarrow> bytes" where
  "last_bytes k i = map (\<lambda>j. byte_at i (8 * j)) (rev [0..<k])"

lemma be_val_last_bytes: "be_val (last_bytes k i) = unat i mod 256 ^ k"
proof (induction k)
  case (Suc k)
  have "be_val (last_bytes (Suc k) i) = unat (byte_at i (8 * k)) * 256 ^ k + unat i mod 256 ^ k"
    using Suc by (simp add: last_bytes_def)
  also have "\<dots> = unat i div 256 ^ k mod 256 * 256 ^ k + unat i mod 256 ^ k"
    by (simp add: unat_byte_at power_mult)
  also have "\<dots> = unat i mod 256 ^ Suc k"
    using mod_mult2_eq [of "unat i" "256 ^ k" 256] by (simp add: mult.commute)
  finally show ?case .
qed (simp add: last_bytes_def)

lemma last_bytes_be_bytes:
  assumes "256 ^ k \<le> unat i" "unat i < 256 ^ Suc k"
  shows "last_bytes (Suc k) i = be_bytes (unat i)"
proof -
  have "byte_at i (8 * k) \<noteq> 0"
  proof
    assume "byte_at i (8 * k) = 0"
    then have "unat i div 256 ^ k mod 256 = 0"
      using unat_byte_at [of i "8 * k"] by (simp add: power_mult)
    moreover have "unat i div 256 ^ k < 256" using assms(2) by (simp add: less_mult_imp_div_less)
    moreover have "0 < unat i div 256 ^ k" using assms(1) by (simp add: div_greater_zero_iff)
    ultimately show False by simp
  qed
  then have "no_leading_zero (last_bytes (Suc k) i)"
    by (simp add: no_leading_zero_def last_bytes_def)
  from be_bytes_be_val [OF this] assms(2) show ?thesis by (simp add: be_val_last_bytes)
qed

lemma last_bytes_eval:
  "last_bytes 1 i = [byte_at i 0]"
  "last_bytes 2 i = [byte_at i 8, byte_at i 0]"
  "last_bytes 3 i = [byte_at i 16, byte_at i 8, byte_at i 0]"
  "last_bytes 4 i = [byte_at i 24, byte_at i 16, byte_at i 8, byte_at i 0]"
  "last_bytes 5 i = [byte_at i 32, byte_at i 24, byte_at i 16, byte_at i 8, byte_at i 0]"
  "last_bytes 6 i = [byte_at i 40, byte_at i 32, byte_at i 24, byte_at i 16, byte_at i 8, byte_at i 0]"
  "last_bytes 7 i =
    [byte_at i 48, byte_at i 40, byte_at i 32, byte_at i 24, byte_at i 16, byte_at i 8, byte_at i 0]"
  "last_bytes 8 i =
    [byte_at i 56, byte_at i 48, byte_at i 40, byte_at i 32, byte_at i 24, byte_at i 16, byte_at i 8,
     byte_at i 0]"
  by (simp_all add: last_bytes_def upt_rec [of _ 1] upt_rec [of _ 2] upt_rec [of _ 3] upt_rec [of _ 4]
      upt_rec [of _ 5] upt_rec [of _ 6] upt_rec [of _ 7] upt_rec [of _ 8])

lemma putint_last_bytes:
  "putint i = last_bytes
     (if i < 2 ^ 8 then 1 else if i < 2 ^ 16 then 2 else if i < 2 ^ 24 then 3 else if i < 2 ^ 32 then 4
      else if i < 2 ^ 40 then 5 else if i < 2 ^ 48 then 6 else if i < 2 ^ 56 then 7 else 8) i"
  unfolding putint_def if_distrib [of "\<lambda>n. last_bytes n i"] last_bytes_eval ..

lemma word_less_byte_power:
  fixes i :: u64
  shows "i < 2 ^ 8 \<longleftrightarrow> unat i < 256" "i < 2 ^ 16 \<longleftrightarrow> unat i < 65536"
    "i < 2 ^ 24 \<longleftrightarrow> unat i < 16777216" "i < 2 ^ 32 \<longleftrightarrow> unat i < 4294967296"
    "i < 2 ^ 40 \<longleftrightarrow> unat i < 1099511627776" "i < 2 ^ 48 \<longleftrightarrow> unat i < 281474976710656"
    "i < 2 ^ 56 \<longleftrightarrow> unat i < 72057594037927936"
  by (simp_all add: word_less_nat_alt)

lemma putint_range:
  assumes "k < 8" "256 ^ k \<le> unat i" "unat i < 256 ^ Suc k"
  shows "putint i = last_bytes (Suc k) i"
proof -
  from assms(1) consider "k = 0" | "k = 1" | "k = 2" | "k = 3" | "k = 4" | "k = 5" | "k = 6" | "k = 7"
    by linarith
  then show ?thesis
    unfolding putint_last_bytes word_less_byte_power
    by cases (use assms(2,3) in \<open>simp_all add: numeral_2_eq_2 [symmetric]\<close>)
qed

lemma putint_be_bytes:
  assumes "i \<noteq> 0"
  shows "putint i = be_bytes (unat i)"
proof -
  define k where "k = length (be_bytes (unat i)) - 1"
  have ne: "be_bytes (unat i) \<noteq> []" using assms by (simp add: unat_eq_0)
  then have len: "length (be_bytes (unat i)) = Suc k" unfolding k_def by (cases "be_bytes (unat i)") auto
  have "256 ^ k \<le> unat i"
    using be_val_ge [OF no_leading_zero_be_bytes ne] by (simp add: k_def)
  moreover have "unat i < 256 ^ Suc k"
    using be_val_lt [of "be_bytes (unat i)"] len by simp
  moreover have "Suc k \<le> 8"
    using length_be_bytes_le [of "unat i" 8] len unat_u64_lt [of i] by simp
  ultimately show ?thesis using putint_range [of k i] last_bytes_be_bytes [of k i] by simp
qed

lemma intsize_length: "i \<noteq> 0 \<Longrightarrow> intsize i = int (length (be_bytes (unat i)))"
proof (induction i rule: intsize.induct)
  case (1 i)
  have div: "unat (drop_bit 8 i) = unat i div 256"
    unfolding unat_drop_bit_eq by (simp add: drop_bit_eq_div)
  have ne: "unat i \<noteq> 0" using 1(2) by (simp add: unat_eq_0)
  show ?case
  proof (cases "drop_bit 8 i = 0")
    case True
    then have "unat i div 256 = 0" using div by simp
    then show ?thesis unfolding be_bytes_nonzero [OF ne] by (subst intsize.simps) (simp only: True Let_def, simp)
  next
    case False
    with 1 div have "intsize (drop_bit 8 i) = int (length (be_bytes (unat i div 256)))" by metis
    then show ?thesis
      unfolding be_bytes_nonzero [OF ne] by (subst intsize.simps) (simp only: False Let_def, simp)
  qed
qed

lemma puthead_rlpHead: "n < 2 ^ 64 \<Longrightarrow> puthead small large (word_of_nat n) = rlpHead small large n"
proof -
  assume n: "n < 2 ^ 64"
  then have u: "unat (word_of_nat n :: u64) = n" by (simp add: unat_of_nat)
  then have lt: "(word_of_nat n :: u64) < 56 \<longleftrightarrow> n < 56" by (simp add: word_less_nat_alt)
  show ?thesis
  proof (cases "n < 56")
    case True
    then have "(ucast (word_of_nat n :: u64) :: u8) = word_of_nat n"
      using n by (simp add: unsigned_of_nat take_bit_nat_eq_self)
    with True lt show ?thesis by (simp add: puthead_def rlpHead_def)
  next
    case False
    then have "(word_of_nat n :: u64) \<noteq> 0" using u by (metis unat_0 less_numeral_extra(3) zero_less_numeral)
    with False lt u show ?thesis by (simp add: puthead_def rlpHead_def putint_be_bytes Let_def)
  qed
qed

lemma length_rlpHead_intsize:
  assumes "n < 2 ^ 64"
  shows "int (length (rlpHead small large n)) = (if n < 56 then 1 else 1 + intsize (word_of_nat n))"
proof -
  have u: "unat (word_of_nat n :: u64) = n" using assms by (simp add: unat_of_nat)
  then have "\<not> n < 56 \<Longrightarrow> (word_of_nat n :: u64) \<noteq> 0" by (metis unat_0 zero_less_numeral)
  then show ?thesis using intsize_length [of "word_of_nat n"] u by (simp add: rlpHead_def)
qed

section \<open>The buffer holds the encoding\<close>

text \<open>
  What a writer adds to a buffer: string data and heads with offsets into that data. The
  relation \<open>encodes\<close> says that merging them gives the bytes, wherever they stand in a buffer.
\<close>

definition shiftHead :: "nat \<Rightarrow> listhead \<Rightarrow> listhead" where
  "shiftHead n h = h\<lparr>lhOffset := lhOffset h + int n\<rparr>"

definition headLen :: "listhead \<Rightarrow> int" where
  "headLen h = (if lhSize h < 56 then 1 else 1 + intsize (word_of_int (lhSize h)))"

definition extendBuf :: "encbuf \<Rightarrow> bytes \<Rightarrow> listhead list \<Rightarrow> encbuf" where
  "extendBuf w s hs =
     w\<lparr>str := str w @ s, lheads := lheads w @ map (shiftHead (length (str w))) hs,
       lhsize := lhsize w + sum_list (map headLen hs)\<rparr>"

definition encodes :: "bytes \<Rightarrow> listhead list \<Rightarrow> bytes \<Rightarrow> bool" where
  "encodes s hs b \<longleftrightarrow>
     (\<forall>pre post hs'. hs' = [] \<or> int (length pre + length s) \<le> lhOffset (hd hs') \<longrightarrow>
        mergeHeads (pre @ s @ post) (length pre) (map (shiftHead (length pre)) hs @ hs') =
        b @ mergeHeads (pre @ s @ post) (length pre + length s) hs') \<and>
     (\<forall>h\<in>set hs. 0 \<le> lhOffset h) \<and> int (length b) = int (length s) + sum_list (map headLen hs)"

lemma shiftHead_simps [simp]:
  "lhOffset (shiftHead n h) = lhOffset h + int n" "lhSize (shiftHead n h) = lhSize h"
  "headLen (shiftHead n h) = headLen h"
  by (simp_all add: shiftHead_def headLen_def)

lemma shiftHead_add: "shiftHead m (shiftHead n h) = shiftHead (m + n) h"
  by (simp add: shiftHead_def)

lemma headLen_shift [simp]: "sum_list (map (headLen \<circ> shiftHead n) hs) = sum_list (map headLen hs)"
  by (induction hs) simp_all

lemma encodes_bytes: "encodes b [] b"
proof -
  have "mergeHeads (pre @ b @ post) (length pre) hs' = b @ mergeHeads (pre @ b @ post) (length pre + length b) hs'"
    if "hs' = [] \<or> int (length pre + length b) \<le> lhOffset (hd hs')" for pre post hs'
  proof (cases hs')
    case (Cons h hs)
    with that have "length pre + length b \<le> nat (lhOffset h)" by auto
    then obtain k where "nat (lhOffset h) = length pre + length b + k"
      using le_Suc_ex by blast
    with Cons show ?thesis by (simp add: Let_def add.assoc)
  qed simp
  then show ?thesis by (simp add: encodes_def)
qed

lemma encodesD:
  assumes "encodes s hs b"
  shows "hs' = [] \<or> int (length pre + length s) \<le> lhOffset (hd hs') \<Longrightarrow>
           mergeHeads (pre @ s @ post) (length pre) (map (shiftHead (length pre)) hs @ hs') =
           b @ mergeHeads (pre @ s @ post) (length pre + length s) hs'"
    and "h \<in> set hs \<Longrightarrow> 0 \<le> lhOffset h"
    and "int (length b) = int (length s) + sum_list (map headLen hs)"
  using assms unfolding encodes_def by blast+

lemma encodes_append:
  assumes "encodes s hs b" "encodes s' hs' b'"
  shows "encodes (s @ s') (hs @ map (shiftHead (length s)) hs') (b @ b')"
proof -
  have "mergeHeads (pre @ (s @ s') @ post) (length pre)
          (map (shiftHead (length pre)) (hs @ map (shiftHead (length s)) hs') @ hs'') =
        (b @ b') @ mergeHeads (pre @ (s @ s') @ post) (length pre + length (s @ s')) hs''"
    if after: "hs'' = [] \<or> int (length pre + length (s @ s')) \<le> lhOffset (hd hs'')" for pre post hs''
  proof -
    let ?rest = "map (shiftHead (length (pre @ s))) hs' @ hs''"
    have "?rest = [] \<or> int (length pre + length s) \<le> lhOffset (hd ?rest)"
      using encodesD(2) [OF assms(2), of "hd hs'"] after by (cases hs') auto
    from encodesD(1) [OF assms(1) this, of "s' @ post"]
    have "mergeHeads (pre @ s @ s' @ post) (length pre) (map (shiftHead (length pre)) hs @ ?rest) =
        b @ mergeHeads (pre @ s @ s' @ post) (length pre + length s) ?rest" .
    moreover have "mergeHeads ((pre @ s) @ s' @ post) (length (pre @ s)) ?rest =
        b' @ mergeHeads ((pre @ s) @ s' @ post) (length (pre @ s) + length s') hs''"
      by (rule encodesD(1) [OF assms(2)]) (use after in \<open>simp add: add.assoc\<close>)
    ultimately show ?thesis by (simp add: shiftHead_add o_def add.assoc)
  qed
  moreover have "\<forall>h\<in>set (hs @ map (shiftHead (length s)) hs'). 0 \<le> lhOffset h"
    using encodesD(2) [OF assms(1)] encodesD(2) [OF assms(2)] by auto
  moreover have "int (length (b @ b')) =
      int (length (s @ s')) + sum_list (map headLen (hs @ map (shiftHead (length s)) hs'))"
    using encodesD(3) [OF assms(1)] encodesD(3) [OF assms(2)] by simp
  ultimately show ?thesis unfolding encodes_def by blast
qed

lemma encodes_list:
  assumes "encodes s hs b" "length b < 2 ^ 63"
  shows "encodes s (\<lparr>lhOffset = 0, lhSize = int (length b)\<rparr> # hs) (encList b)"
proof -
  define h where "h = \<lparr>lhOffset = 0, lhSize = int (length b)\<rparr>"
  have head: "puthead 0xC0 0xF7 (word_of_int (lhSize h)) = rlpHead 0xC0 0xF7 (length b)"
    using puthead_rlpHead [of "length b"] assms(2) by (simp add: h_def)
  have len: "headLen h = int (length (rlpHead 0xC0 0xF7 (length b)))"
    using length_rlpHead_intsize [of "length b"] assms(2) by (simp add: headLen_def h_def)
  have off: "lhOffset h = 0" by (simp add: h_def)
  have "mergeHeads (pre @ s @ post) (length pre) (map (shiftHead (length pre)) (h # hs) @ hs') =
        encList b @ mergeHeads (pre @ s @ post) (length pre + length s) hs'"
    if "hs' = [] \<or> int (length pre + length s) \<le> lhOffset (hd hs')" for pre post hs'
  proof -
    from that assms(1) have "mergeHeads (pre @ s @ post) (length pre) (map (shiftHead (length pre)) hs @ hs') =
        b @ mergeHeads (pre @ s @ post) (length pre + length s) hs'"
      unfolding encodes_def by blast
    then show ?thesis by (simp add: encList_def head off Let_def)
  qed
  moreover have "int (length (encList b)) = int (length s) + sum_list (map headLen (h # hs))"
    using assms(1) len by (simp add: encodes_def encList_def)
  moreover have "\<forall>x\<in>set (h # hs). 0 \<le> lhOffset x"
    using assms(1) off by (simp add: encodes_def)
  ultimately show ?thesis unfolding encodes_def h_def [symmetric] by blast
qed

lemma extendBuf_append:
  "extendBuf (extendBuf w s hs) s' hs' = extendBuf w (s @ s') (hs @ map (shiftHead (length s)) hs')"
  by (simp add: extendBuf_def shiftHead_add o_def add.assoc)

text \<open>A writer that adds the given bytes to every buffer.\<close>

definition writes :: "(encbuf \<Rightarrow> rlp_error + encbuf) \<Rightarrow> bytes \<Rightarrow> bool" where
  "writes f b \<longleftrightarrow> (\<exists>s hs. (\<forall>w. f w = Inr (extendBuf w s hs)) \<and> encodes s hs b)"

lemma writes_bytes: "(\<And>w. f w = Inr (bufWrite b w)) \<Longrightarrow> writes f b"
  unfolding writes_def
  by (intro exI [of _ b] exI [of _ "[]"]) (simp add: encodes_bytes bufWrite_def extendBuf_def)

lemma writes_then: "writes f b \<Longrightarrow> writes g c \<Longrightarrow> writes (\<lambda>w. ebind (f w) g) (b @ c)"
proof -
  assume "writes f b" "writes g c"
  then obtain s hs s' hs' where "\<And>w. f w = Inr (extendBuf w s hs)" "encodes s hs b"
      "\<And>w. g w = Inr (extendBuf w s' hs')" "encodes s' hs' c"
    unfolding writes_def by metis
  then show ?thesis
    unfolding writes_def
    by (intro exI [of _ "s @ s'"] exI [of _ "hs @ map (shiftHead (length s)) hs'"])
      (simp add: extendBuf_append encodes_append)
qed

lemma writes_inList:
  assumes "writes f b" "length b < 2 ^ 63"
  shows "writes (inList f) (encList b)"
proof -
  obtain s hs where f: "\<And>w. f w = Inr (extendBuf w s hs)" and enc: "encodes s hs b"
    using assms(1) by (auto simp: writes_def)
  have len: "int (length b) = int (length s) + sum_list (map headLen hs)"
    using enc by (simp add: encodes_def)
  have "inList f w = Inr (extendBuf w s (\<lparr>lhOffset = 0, lhSize = int (length b)\<rparr> # hs))" for w
    by (simp add: inList_def listStart_def listEnd_def f extendBuf_def encSize_def Let_def len
        shiftHead_def headLen_def list_update_append nth_append)
  with encodes_list [OF enc assms(2)] show ?thesis unfolding writes_def by blast
qed

lemma toBytes_encodes: "encodes s hs b \<Longrightarrow> toBytes (extendBuf emptyBuf s hs) = b"
proof -
  assume e: "encodes s hs b"
  have "map (shiftHead 0) hs = hs" by (induction hs) (simp_all add: shiftHead_def)
  moreover from encodesD(1) [OF e, of "[]" "[]" "[]"] this have "mergeHeads s 0 hs = b" by simp
  ultimately show ?thesis
    using encodesD(3) [OF e] by (simp add: toBytes_def extendBuf_def emptyBuf_def encSize_def Let_def)
qed

lemma encStr_single: "encStr [c] = (if c < 0x80 then [c] else [0x81, c])"
  by (simp add: encStr_def rlpHead_def)

lemma encStr_Nil [simp]: "encStr [] = [0x80]"
  by (simp add: encStr_def rlpHead_def)

lemma writes_string:
  assumes "\<And>w. f w = Inr (encodeString b w)" "length b < 2 ^ 63"
  shows "writes f (encStr b)"
proof (rule writes_bytes)
  fix w
  have small: "hd b \<le> 0x7F \<longleftrightarrow> hd b < 0x80"
    by (simp add: word_le_nat_alt word_less_nat_alt less_Suc_eq_le [symmetric])
  have "rlpHead 0x80 0xB7 (length b) = puthead 0x80 0xB7 (word_of_nat (length b))"
    using puthead_rlpHead [of "length b"] assms(2) by simp
  moreover have "(word_of_nat (length b) :: u64) < 56 \<longleftrightarrow> length b < 56"
    using assms(2) by (simp add: word_less_nat_alt unat_of_nat)
  moreover have "length b < 56 \<Longrightarrow> (ucast (word_of_nat (length b) :: u64) :: u8) = word_of_nat (length b)"
    by (simp add: unsigned_of_nat take_bit_nat_eq_self)
  ultimately show "f w = Inr (bufWrite (encStr b) w)"
    by (simp add: assms(1) encodeString_def encodeStringHeader_def encStr_def bufWrite_def puthead_def
        Let_def small)
qed

lemma encList_Nil [simp]: "encList [] = [0xC0]"
  by (simp add: encList_def rlpHead_def)

lemma writes_emptyList:
  assumes "\<And>w. f w = Inr (emptyList w)"
  shows "writes f [0xC0]"
proof -
  have "writes Inr []"
    unfolding writes_def
    by (intro exI [of _ "[]"]) (simp add: extendBuf_def encodes_bytes)
  from writes_inList [OF this] have "writes (inList Inr) [0xC0]" by simp
  moreover have "f = inList Inr" using assms by (auto simp: inList_def emptyList_def split: prod.split)
  ultimately show ?thesis by simp
qed

lemma writes_uint: "(\<And>w. f w = Inr (writeUint i w)) \<Longrightarrow> writes f (encStr (be_bytes (unat i)))"
proof (rule writes_bytes)
  fix w
  assume f: "\<And>w. f w = Inr (writeUint i w)"
  have "bufWrite (encStr (be_bytes (unat i))) w = writeUint i w"
  proof (cases "i < 128")
    case True
    then have u: "unat i < 128" by (simp add: word_less_nat_alt)
    show ?thesis
    proof (cases "i = 0")
      case False
      then have n: "unat i \<noteq> 0" by (simp add: unat_eq_0)
      then have "be_bytes (unat i) = [ucast i]" using u by (simp add: be_bytes_nonzero)
      moreover have "(ucast i :: u8) < 0x80"
        using u by (simp add: word_less_nat_alt unsigned_ucast_eq take_bit_eq_mod)
      ultimately show ?thesis using False True by (simp add: writeUint_def encStr_single)
    qed (simp add: writeUint_def)
  next
    case False
    then have u: "128 \<le> unat i" by (simp add: word_less_nat_alt)
    then have nz: "i \<noteq> 0" using unat_0 by force
    have len: "length (be_bytes (unat i)) < 56"
      using length_be_bytes_le [of "unat i" 8] by simp
    have "\<not> (length (be_bytes (unat i)) = 1 \<and> hd (be_bytes (unat i)) < 0x80)"
    proof
      assume a: "length (be_bytes (unat i)) = 1 \<and> hd (be_bytes (unat i)) < 0x80"
      then obtain c where "be_bytes (unat i) = [c]" "c < 0x80" by (auto simp: length_Suc_conv)
      then show False using u be_val_be_bytes [of "unat i"] by (simp add: word_less_nat_alt)
    qed
    with False nz len show ?thesis
      by (auto simp: writeUint_def putint_be_bytes encStr_def rlpHead_def Let_def)
  qed
  then show "f w = Inr (bufWrite (encStr (be_bytes (unat i))) w)" by (simp add: f)
qed

lemma writeString_eq: "writeString = encodeString"
  by (intro ext) (simp add: writeString_def encodeString_def)

lemma writes_nil: "writes (\<lambda>w. Inr (writeNil t w)) (encNil t)"
proof (induction t)
  case (TTail t)
  show ?case by (rule writes_bytes) (simp add: bufWrite_def)
next
  case (TString)
  have "writes (\<lambda>w. Inr (encodeString [] w)) (encStr [])" by (rule writes_string) simp_all
  then show ?case by (simp add: writeString_eq)
next
  case (TBytes)
  have "writes (\<lambda>w. Inr (encodeString [] w)) (encStr [])" by (rule writes_string) simp_all
  then show ?case by simp
qed (auto intro: writes_bytes writes_emptyList writes_string
    simp: writeUint_def writeBool_def encList_def rlpHead_def)

lemma writes_big:
  assumes "case p of None \<Rightarrow> True | Some i \<Rightarrow> 0 \<le> i"
    and "length (encStr (case p of None \<Rightarrow> [] | Some i \<Rightarrow> be_bytes (nat i))) < 2 ^ 63"
  shows "writes (writeBigIntPtr p) (encStr (case p of None \<Rightarrow> [] | Some i \<Rightarrow> be_bytes (nat i)))"
proof -
  have len: "length b \<le> length (encStr b)" for b by (simp add: encStr_def)
  show ?thesis
  proof (cases "p = None \<or> p = Some 0")
    case True
    then show ?thesis
      by (auto intro!: writes_bytes simp: writeBigIntPtr_def writeBigInt_def)
  next
    case False
    then obtain i where p: "p = Some i" "0 < i" using assms(1) by (cases p) auto
    with len [of "be_bytes (nat i)"] assms(2) show ?thesis
      by (auto intro!: writes_string simp: writeBigIntPtr_def writeBigInt_def)
  qed
qed

lemma length_encList [simp]: "length p \<le> length (encList p)" "length b \<le> length (encStr b)"
  by (simp_all add: encList_def encStr_def)

lemma writeVal_writes:
  "wt t v \<Longrightarrow> length (encv t v) < 2 ^ 63 \<Longrightarrow> writes (writeVal t v) (encv t v)"
  "wtElems t vs \<Longrightarrow> length (encElems t vs) < 2 ^ 63 \<Longrightarrow> writes (writeElems t vs) (encElems t vs)"
  "wtFields ts vs \<Longrightarrow> length (encFields ts vs) < 2 ^ 63 \<Longrightarrow> writes (writeFields ts vs) (encFields ts vs)"
proof (induction t v and t vs and ts vs rule: encv_encElems_encFields.induct)
  case (1 t b)
  show ?case
  proof (cases "t = TRaw")
    case True
    then show ?thesis by (auto intro: writes_bytes simp: writeByteString_def)
  next
    case False
    have "length b < 2 ^ 63" using 1(2) False length_encList(2) [of b] by (simp del: length_encList)
    with 1(1) False show ?thesis
      by (auto intro!: writes_string simp: writeByteString_def writeString_eq split: rtype.splits)
  qed
next
  case (2 t i)
  then show ?case by (auto intro: writes_uint split: rtype.splits)
next
  case (3 t b)
  then show ?case by (auto intro!: writes_bytes simp: writeBool_def encStr_single)
next
  case (4 t p)
  then show ?case using writes_big [of p] by auto
next
  case (5 t vs)
  have small: "length p < 2 ^ 63" if "length (encList p) < 2 ^ 63" for p
    using that length_encList(1) [of p] by linarith
  show ?case
  proof (cases t)
    case (TSlice et)
    with 5 small show ?thesis by (simp add: writes_inList)
  next
    case (TArray n et)
    with 5 small show ?thesis by (simp add: writes_inList)
  next
    case (TStruct ts)
    with 5 small show ?thesis by (simp add: writes_inList)
  next
    case (TTail et)
    with 5 show ?thesis by simp
  qed (use 5(5) in simp_all)
next
  case (6 t)
  then show ?case by (auto intro: writes_nil split: rtype.splits)
next
  case (7 t v)
  then show ?case by (auto split: rtype.splits)
next
  case (8 t)
  then show ?case by (auto intro!: writes_bytes simp: encList_def rlpHead_def)
next
  case (9 t et v)
  then show ?case by auto
next
  case (10 t)
  show ?case by (rule writes_bytes) (simp add: bufWrite_def)
next
  case (11 t v vs)
  then show ?case using writes_then [of "writeVal t v" "encv t v" "writeElems t vs" "encElems t vs"] by auto
next
  case (12 ts)
  then show ?case by (auto intro!: writes_bytes simp: bufWrite_def)
next
  case (13 ts v vs)
  then obtain t ts' where ts: "ts = t # ts'" by (cases ts) auto
  with 13 show ?case
    using writes_then [of "writeVal t v" "encv t v" "writeFields ts' vs" "encFields ts' vs"] by auto
qed

lemma EncodeToBytes_encv:
  assumes "wt t v" "length (encv t v) < 2 ^ 63"
  shows "EncodeToBytes t v = Inr (encv t v)"
proof -
  from writeVal_writes(1) [OF assms] obtain s hs where
    "writeVal t v emptyBuf = Inr (extendBuf emptyBuf s hs)" "encodes s hs (encv t v)"
    unfolding writes_def by blast
  then show ?thesis by (simp add: EncodeToBytes_def toBytes_encodes)
qed


definition exStruct :: rtype where
  "exStruct = TStruct [TUint 64, TSlice TBytes, TPtr (TUint 8), TTail TIface]"

definition exValue :: rval where
  "exValue = VList [VUint 1024, VList [VBytes [7], VBytes []], VPtr None,
                    VList [VIface (Some (TBytes, VBytes [200])), VIface None]]"


end
