(* ===== verification/RlpRaw.thy ===== *)
theory RlpRaw
  imports RlpEncode
begin

unbundle bit_operations_syntax

text \<open>
  Splitting of encoded values without decoding them (\<^verbatim>\<open>src/rlp/raw.go\<close>). The lemmas show that
  splitting inverts the encoding, that it accepts canonical encodings only, and that counting
  the values of a list always ends.
\<close>

datatype Kind = Byte | String | List

definition readSize :: "bytes \<Rightarrow> nat \<Rightarrow> rlp_error + u64" where
  "readSize b slen =
     (if slen > length b then Inl UnexpectedEOF
      else
        (let u = (\<lambda>i n. push_bit n (ucast (b ! i) :: u64));
             s = (if slen = 1 then u 0 0
                  else if slen = 2 then u 0 8 OR u 1 0
                  else if slen = 3 then u 0 16 OR u 1 8 OR u 2 0
                  else if slen = 4 then u 0 24 OR u 1 16 OR u 2 8 OR u 3 0
                  else if slen = 5 then u 0 32 OR u 1 24 OR u 2 16 OR u 3 8 OR u 4 0
                  else if slen = 6 then u 0 40 OR u 1 32 OR u 2 24 OR u 3 16 OR u 4 8 OR u 5 0
                  else if slen = 7 then
                    u 0 48 OR u 1 40 OR u 2 32 OR u 3 24 OR u 4 16 OR u 5 8 OR u 6 0
                  else if slen = 8 then
                    u 0 56 OR u 1 48 OR u 2 40 OR u 3 32 OR u 4 24 OR u 5 16 OR u 6 8 OR u 7 0
                  else 0)
         in if s < 56 \<or> b ! 0 = 0 then Inl ErrCanonSize else Inr s))"

text \<open>The result is kind, size of the tag and size of the content.\<close>

definition checkSize :: "bytes \<Rightarrow> Kind \<Rightarrow> u64 \<Rightarrow> rlp_error + u64 \<Rightarrow> rlp_error + Kind \<times> u64 \<times> u64" where
  "checkSize buf k tagsize r =
     (case r of
        Inl e \<Rightarrow> Inl e
      | Inr contentsize \<Rightarrow>
          if contentsize > word_of_nat (length buf) - tagsize then Inl ErrValueTooLarge
          else Inr (k, tagsize, contentsize))"

definition readKind :: "bytes \<Rightarrow> rlp_error + Kind \<times> u64 \<times> u64" where
  "readKind buf =
     (if length buf = 0 then Inl UnexpectedEOF
      else
        (let b = buf ! 0 in
         if b < 0x80 then checkSize buf Byte 0 (Inr 1)
         else if b < 0xB8 then
           (let contentsize = ucast (b - 0x80) in
            if contentsize = 1 \<and> length buf > 1 \<and> buf ! 1 < 128 then Inl ErrCanonSize
            else checkSize buf String 1 (Inr contentsize))
         else if b < 0xC0 then
           checkSize buf String (ucast (b - 0xB7) + 1) (readSize (drop 1 buf) (unat (b - 0xB7)))
         else if b < 0xF8 then checkSize buf List 1 (Inr (ucast (b - 0xC0)))
         else checkSize buf List (ucast (b - 0xF7) + 1) (readSize (drop 1 buf) (unat (b - 0xF7)))))"

definition Split :: "bytes \<Rightarrow> rlp_error + Kind \<times> bytes \<times> bytes" where
  "Split b =
     (case readKind b of
        Inl e \<Rightarrow> Inl e
      | Inr (k, ts, cs) \<Rightarrow>
          Inr (k, take (unat cs) (drop (unat ts) b), drop (unat ts + unat cs) b))"

definition SplitString :: "bytes \<Rightarrow> rlp_error + bytes \<times> bytes" where
  "SplitString b =
     (case Split b of
        Inl e \<Rightarrow> Inl e
      | Inr (k, content, rest) \<Rightarrow> if k = List then Inl ErrExpectedString else Inr (content, rest))"

definition SplitList :: "bytes \<Rightarrow> rlp_error + bytes \<times> bytes" where
  "SplitList b =
     (case Split b of
        Inl e \<Rightarrow> Inl e
      | Inr (k, content, rest) \<Rightarrow> if k \<noteq> List then Inl ErrExpectedList else Inr (content, rest))"

definition ListSize :: "u64 \<Rightarrow> u64" where
  "ListSize contentSize = word_of_int (headsize contentSize) + contentSize"

text \<open>The loop of \<open>CountValues\<close>; every turn consumes at least one byte.\<close>

lemma readKind_progress:
  assumes "readKind b = Inr (k, ts, cs)"
  shows "0 < unat ts + unat cs"
proof -
  have "ts \<noteq> 0 \<or> cs \<noteq> 0"
    using assms
    by (auto simp: readKind_def checkSize_def readSize_def Let_def split: if_splits sum.splits)
  then show ?thesis by (auto simp: unat_gt_0)
qed

function countFrom :: "int \<Rightarrow> bytes \<Rightarrow> rlp_error + int" where
  "countFrom i b =
     (if length b = 0 then Inr i
      else (case readKind b of
              Inl e \<Rightarrow> Inl e
            | Inr (k, ts, cs) \<Rightarrow> countFrom (i + 1) (drop (unat ts + unat cs) b)))"
  by pat_completeness auto

termination countFrom
  by (relation "measure (\<lambda>(i, b). length b)") (auto dest: readKind_progress)

definition CountValues :: "bytes \<Rightarrow> rlp_error + int" where
  "CountValues b = countFrom 0 b"

section \<open>Sizes\<close>

text \<open>The shifts and ors of \<open>readSize\<close> compute the big-endian value.\<close>

definition be_word :: "bytes \<Rightarrow> u64" where
  "be_word bs = foldl (\<lambda>a b. push_bit 8 a OR ucast b) 0 bs"

lemma push_bit_8_or: "push_bit 8 (a :: u64) OR ucast (b :: u8) = 256 * a + ucast b"
proof -
  have "push_bit 8 a + ucast b = push_bit 8 a OR ucast b"
    by (rule disjunctive_add) (auto simp: bit_simps dest: bit_imp_le_length)
  then show ?thesis by (simp add: push_bit_eq_mult mult.commute)
qed

lemma be_word_be_val: "be_word bs = word_of_nat (be_val bs)"
proof (induction bs rule: rev_induct)
  case (snoc b bs)
  have "be_word (bs @ [b]) = 256 * be_word bs + ucast b"
    by (simp add: be_word_def push_bit_8_or)
  also have "(ucast b :: u64) = word_of_nat (unat b)" by simp
  finally show ?case using snoc by (simp add: mult.commute)
qed (simp add: be_word_def)

lemma take_list_cases:
  assumes "n \<le> length b"
  obtains p q where "b = p @ q" "length p = n"
  using assms by (metis append_take_drop_id length_take min.absorb2)

lemma list_of_length:
  "length p = 1 \<Longrightarrow> \<exists>x0. p = [x0]"
  "length p = 2 \<Longrightarrow> \<exists>x0 x1. p = [x0, x1]"
  "length p = 3 \<Longrightarrow> \<exists>x0 x1 x2. p = [x0, x1, x2]"
  "length p = 4 \<Longrightarrow> \<exists>x0 x1 x2 x3. p = [x0, x1, x2, x3]"
  "length p = 5 \<Longrightarrow> \<exists>x0 x1 x2 x3 x4. p = [x0, x1, x2, x3, x4]"
  "length p = 6 \<Longrightarrow> \<exists>x0 x1 x2 x3 x4 x5. p = [x0, x1, x2, x3, x4, x5]"
  "length p = 7 \<Longrightarrow> \<exists>x0 x1 x2 x3 x4 x5 x6. p = [x0, x1, x2, x3, x4, x5, x6]"
  "length p = 8 \<Longrightarrow> \<exists>x0 x1 x2 x3 x4 x5 x6 x7. p = [x0, x1, x2, x3, x4, x5, x6, x7]"
  by (auto simp: length_Suc_conv numeral_eq_Suc)

lemma readSize_be_word:
  assumes "1 \<le> length p" "length p \<le> 8"
  shows "readSize (p @ q) (length p) =
    (if be_word p < 56 \<or> hd p = 0 then Inl ErrCanonSize else Inr (be_word p))"
proof -
  from assms consider "length p = 1" | "length p = 2" | "length p = 3" | "length p = 4" | "length p = 5"
    | "length p = 6" | "length p = 7" | "length p = 8" by linarith
  then show ?thesis
    by cases (drule list_of_length, elim exE, simp add: readSize_def be_word_def push_bit_or or.assoc)+
qed

section \<open>Headers\<close>

lemma checkSize_nat:
  assumes "unat tagsize \<le> length buf" "length buf < 2 ^ 64"
  shows "checkSize buf k tagsize (Inr cs) =
    (if length buf < unat tagsize + unat cs then Inl ErrValueTooLarge else Inr (k, tagsize, cs))"
proof -
  let ?l = "word_of_nat (length buf) :: u64"
  have l: "unat ?l = length buf" using assms(2) by (simp add: unat_of_nat)
  then have "unat (?l - tagsize) = length buf - unat tagsize"
    using assms(1) by (subst unat_sub_noborrow) (simp_all add: word_le_nat_alt)
  then have "?l - tagsize < cs \<longleftrightarrow> length buf < unat tagsize + unat cs"
    using assms(1) by (auto simp: word_less_nat_alt)
  then show ?thesis by (simp add: checkSize_def)
qed

lemma unat_small_tag:
  assumes "n < 56"
  shows "unat (0x80 + word_of_nat n :: u8) = 128 + n" "unat (0xC0 + word_of_nat n :: u8) = 192 + n"
  using assms by (simp_all add: unat_word_ariths unat_of_nat)

lemma unat_large_tag:
  assumes "k \<le> 8"
  shows "unat (0xB7 + word_of_nat k :: u8) = 183 + k" "unat (0xF7 + word_of_nat k :: u8) = 247 + k"
  using assms by (simp_all add: unat_word_ariths unat_of_nat)

lemma length_be_bytes_word: "n < 2 ^ 64 \<Longrightarrow> length (be_bytes n) \<le> 8"
  by (rule length_be_bytes_le) simp

text \<open>The size field of a long header.\<close>

lemma readSize_be_bytes:
  assumes "56 \<le> n" "n < 2 ^ 64"
  shows "readSize (be_bytes n @ q) (length (be_bytes n)) = Inr (word_of_nat n)"
proof -
  have "be_bytes n \<noteq> []" using assms(1) by simp
  then have "1 \<le> length (be_bytes n)" by (cases "be_bytes n") auto
  moreover have "\<not> (word_of_nat n :: u64) < 56"
    using assms by (simp add: word_less_nat_alt unat_of_nat)
  moreover have "hd (be_bytes n) \<noteq> 0" using assms(1) by (intro hd_be_bytes) simp
  ultimately show ?thesis
    using length_be_bytes_word [OF assms(2)] by (simp add: readSize_be_word be_word_be_val)
qed

lemma readSize_canonical:
  assumes "readSize b k = Inr s" "1 \<le> k" "k \<le> 8"
  obtains q where "b = be_bytes (unat s) @ q" "length (be_bytes (unat s)) = k" "56 \<le> unat s"
proof -
  have "k \<le> length b" using assms(1) by (auto simp: readSize_def split: if_splits)
  then obtain p q where b: "b = p @ q" "length p = k" by (rule take_list_cases)
  then have s: "s = be_word p" "\<not> be_word p < 56" "hd p \<noteq> 0"
    using assms readSize_be_word [of p q] by (auto split: if_splits)
  have "256 ^ k \<le> (256 :: nat) ^ 8" using assms(3) by (intro power_increasing) simp_all
  with be_val_lt [of p] b(2) have "be_val p < 256 ^ 8" by (metis order_less_le_trans)
  then have u: "unat s = be_val p" using s(1) by (simp add: be_word_be_val unat_of_nat)
  moreover have "no_leading_zero p" using s(3) by (simp add: no_leading_zero_def)
  ultimately have "be_bytes (unat s) = p" by (simp add: be_bytes_be_val)
  with b s u that show ?thesis by (simp add: word_less_nat_alt)
qed

section \<open>Splitting inverts encoding\<close>

definition isSingle :: "bytes \<Rightarrow> bool" where
  "isSingle c \<longleftrightarrow> length c = 1 \<and> hd c < 0x80"

definition encKind :: "Kind \<Rightarrow> bytes \<Rightarrow> bytes" where
  "encKind k c = (if k = List then encList c else encStr c)"

definition kindFits :: "Kind \<Rightarrow> bytes \<Rightarrow> bool" where
  "kindFits k c \<longleftrightarrow> k = List \<or> (k = Byte \<longleftrightarrow> isSingle c)"

lemma readKind_short:
  assumes "length (x # xs) < 2 ^ 64"
  shows "x < 0x80 \<Longrightarrow> readKind (x # xs) = Inr (Byte, 0, 1)"
    and "\<lbrakk>unat x = 128 + n; n < 56; n = length c; xs = c @ rest; \<not> isSingle c\<rbrakk> \<Longrightarrow>
         readKind (x # xs) = Inr (String, 1, word_of_nat n)"
    and "\<lbrakk>unat x = 192 + n; n < 56; n = length c; xs = c @ rest\<rbrakk> \<Longrightarrow>
         readKind (x # xs) = Inr (List, 1, word_of_nat n)"
proof -
  show "x < 0x80 \<Longrightarrow> readKind (x # xs) = Inr (Byte, 0, 1)"
    using assms by (simp add: readKind_def checkSize_nat)
next
  assume a: "unat x = 128 + n" "n < 56" "n = length c" "xs = c @ rest" "\<not> isSingle c"
  then have x: "\<not> x < 0x80" "x < 0xB8" by (simp_all add: word_less_nat_alt)
  have n: "unat (x - 0x80) = n" using a(1,2) x(1) by (subst unat_sub_noborrow) (simp_all add: word_le_nat_alt)
  then have cs: "(ucast (x - 0x80) :: u64) = word_of_nat n" unfolding n [symmetric] by simp
  have "(word_of_nat n :: u64) = 1 \<longleftrightarrow> n = 1"
    using a(2) by (simp add: word_unat_eq_iff unat_of_nat)
  then have "\<not> ((word_of_nat n :: u64) = 1 \<and> length (x # xs) > 1 \<and> (x # xs) ! 1 < 128)"
    using a by (auto simp: isSingle_def nth_append hd_conv_nth)
  moreover have "unat (word_of_nat n :: u64) = n" using a(2) by (simp add: unat_of_nat)
  ultimately show "readKind (x # xs) = Inr (String, 1, word_of_nat n)"
    using a x assms by (simp add: readKind_def cs checkSize_nat Let_def)
next
  assume a: "unat x = 192 + n" "n < 56" "n = length c" "xs = c @ rest"
  then have x: "\<not> x < 0x80" "\<not> x < 0xB8" "\<not> x < 0xC0" "x < 0xF8" by (simp_all add: word_less_nat_alt)
  have n: "unat (x - 0xC0) = n" using a(1,2) x(3) by (subst unat_sub_noborrow) (simp_all add: word_le_nat_alt)
  then have cs: "(ucast (x - 0xC0) :: u64) = word_of_nat n" unfolding n [symmetric] by simp
  moreover have "unat (word_of_nat n :: u64) = n" using a(2) by (simp add: unat_of_nat)
  ultimately show "readKind (x # xs) = Inr (List, 1, word_of_nat n)"
    using a x assms by (simp add: readKind_def cs checkSize_nat Let_def)
qed

lemma readKind_long:
  assumes "56 \<le> n" "n = length c" "xs = be_bytes n @ c @ rest" "length (x # xs) < 2 ^ 64"
  shows "unat x = 183 + length (be_bytes n) \<Longrightarrow>
           readKind (x # xs) = Inr (String, word_of_nat (Suc (length (be_bytes n))), word_of_nat n)"
    and "unat x = 247 + length (be_bytes n) \<Longrightarrow>
           readKind (x # xs) = Inr (List, word_of_nat (Suc (length (be_bytes n))), word_of_nat n)"
proof -
  let ?k = "length (be_bytes n)"
  have n: "n < 2 ^ 64" using assms by simp
  have k: "?k \<le> 8" using length_be_bytes_word [OF n] .
  have "be_bytes n \<noteq> []" using assms(1) by simp
  then have k1: "1 \<le> ?k" by (cases "be_bytes n") auto
  have tag: "(ucast w :: u64) + 1 = word_of_nat (Suc ?k)" if "unat w = ?k" for w :: u8
    unfolding of_nat_Suc that [symmetric] by simp
  have chk: "checkSize (x # xs) kd (word_of_nat (Suc ?k)) (Inr (word_of_nat n)) =
      Inr (kd, word_of_nat (Suc ?k), word_of_nat n)" for kd
    using k n assms(2,3,4) by (subst checkSize_nat) (simp_all add: unat_of_nat del: of_nat_Suc)
  have rs: "readSize xs ?k = Inr (word_of_nat n)"
    using readSize_be_bytes [OF assms(1) n] assms(3) by simp
  {
    assume x: "unat x = 183 + ?k"
    then have cmp: "\<not> x < 0x80" "\<not> x < 0xB8" "x < 0xC0"
      using k k1 assms(1) by (simp_all add: word_less_nat_alt)
    then have d: "unat (x - 0xB7) = ?k"
      using x by (subst unat_sub_noborrow) (simp_all add: word_le_nat_alt)
    show "readKind (x # xs) = Inr (String, word_of_nat (Suc ?k), word_of_nat n)"
      using cmp by (simp add: readKind_def Let_def d tag [OF d] rs chk del: of_nat_Suc)
  next
    assume x: "unat x = 247 + ?k"
    then have cmp: "\<not> x < 0x80" "\<not> x < 0xB8" "\<not> x < 0xC0" "\<not> x < 0xF8"
      using k k1 assms(1) by (simp_all add: word_less_nat_alt)
    then have d: "unat (x - 0xF7) = ?k"
      using x by (subst unat_sub_noborrow) (simp_all add: word_le_nat_alt)
    show "readKind (x # xs) = Inr (List, word_of_nat (Suc ?k), word_of_nat n)"
      using cmp by (simp add: readKind_def Let_def d tag [OF d] rs chk del: of_nat_Suc)
  }
qed

lemma readKind_encKind:
  assumes "kindFits k c" "length (encKind k c @ rest) < 2 ^ 64"
  shows "\<exists>ts. readKind (encKind k c @ rest) = Inr (k, ts, word_of_nat (length c)) \<and>
              unat ts + length c = length (encKind k c)"
proof (cases "k \<noteq> List \<and> isSingle c")
  case True
  then obtain x where "c = [x]" "x < 0x80" "k = Byte"
    using assms(1) by (auto simp: isSingle_def kindFits_def length_Suc_conv)
  then show ?thesis
    using readKind_short(1) [of x rest] assms(2) by (auto simp: encKind_def encStr_def)
next
  case not_single: False
  then have k: "k = String \<and> \<not> isSingle c \<or> k = List"
    using assms(1) by (cases k) (auto simp: kindFits_def)
  let ?s = "if k = List then 0xC0 else 0x80 :: u8" and ?l = "if k = List then 0xF7 else 0xB7 :: u8"
  have enc: "encKind k c = rlpHead ?s ?l (length c) @ c"
    using k by (auto simp: encKind_def encStr_def encList_def isSingle_def)
  show ?thesis
  proof (cases "length c < 56")
    case True
    with k enc assms(2) show ?thesis
      using readKind_short(2,3) [of "?s + word_of_nat (length c)" "c @ rest" "length c" c rest]
        unat_small_tag [OF True]
      by (auto simp: rlpHead_def)
  next
    case False
    then have n: "56 \<le> length c" "length c < 2 ^ 64" using assms(2) enc by simp_all
    from k enc assms(2) False show ?thesis
      using readKind_long [OF n(1) refl refl, of "?l + word_of_nat (length (be_bytes (length c)))" rest]
        unat_large_tag [OF length_be_bytes_word [OF n(2)]] length_be_bytes_word [OF n(2)]
      by (auto simp: rlpHead_def unat_of_nat simp del: of_nat_Suc)
  qed
qed

lemma Split_encKind:
  assumes "kindFits k c" "length (encKind k c @ rest) < 2 ^ 64"
  shows "Split (encKind k c @ rest) = Inr (k, c, rest)"
proof -
  obtain ts where ts: "readKind (encKind k c @ rest) = Inr (k, ts, word_of_nat (length c))"
    "unat ts + length c = length (encKind k c)"
    using readKind_encKind [OF assms] by blast
  moreover have "unat (word_of_nat (length c) :: u64) = length c"
    using ts(2) assms(2) by (simp add: unat_of_nat)
  moreover have "\<exists>h. encKind k c = h @ c"
    by (cases "isSingle c") (auto simp: encKind_def encList_def encStr_def isSingle_def)
  ultimately show ?thesis by (auto simp: Split_def)
qed

lemma checkSize_Inr:
  "checkSize buf kd ts r = Inr (k, ts', cs) \<Longrightarrow> k = kd \<and> ts' = ts \<and> r = Inr cs"
  by (auto simp: checkSize_def split: sum.splits if_splits)

lemma checkSize_fits:
  assumes "checkSize buf kd ts (Inr cs) = Inr r" "unat ts \<le> length buf" "length buf < 2 ^ 64"
  shows "unat ts + unat cs \<le> length buf"
  using assms checkSize_nat [of ts buf kd cs] by (auto split: if_splits)

lemma readKind_canonical_short:
  assumes "length (x # xs) < 2 ^ 64" "readKind (x # xs) = Inr (k, ts, cs)"
    and "x < 0xB8 \<or> \<not> x < 0xC0 \<and> x < 0xF8"
  shows "\<exists>c rest. x # xs = encKind k c @ rest \<and> kindFits k c \<and> length c = unat cs \<and>
                  unat ts + unat cs = length (encKind k c)"
proof (cases "x < 0x80")
  case True
  with assms(1,2) have "k = Byte" "ts = 0" "cs = 1" by (simp_all add: readKind_short(1))
  with True show ?thesis
    by (intro exI [of _ "[x]"] exI [of _ xs]) (simp add: encKind_def encStr_def kindFits_def isSingle_def)
next
  case ge80: False
  define kd where "kd = (if x < 0xB8 then String else List)"
  define base where "base = (if x < 0xB8 then 0x80 else 0xC0 :: u8)"
  define n where "n = unat (x - base)"
  have base: "base \<le> x" using ge80 assms(3) by (auto simp: base_def not_less)
  then have x: "x = base + word_of_nat n" by (simp add: n_def)
  have n: "n < 56"
    unfolding n_def unat_sub_noborrow [OF base]
    using assms(3) ge80 by (auto simp: base_def word_less_nat_alt)
  have cs: "(ucast (x - base) :: u64) = word_of_nat n" by (simp add: n_def)
  have un: "unat (word_of_nat n :: u64) = n" using n by (simp add: unat_of_nat)
  have chk: "checkSize (x # xs) kd 1 (Inr (word_of_nat n)) = Inr (k, ts, cs')"
    if "readKind (x # xs) = Inr (k, ts, cs')" for cs'
    using that ge80 assms(3) cs
    by (auto simp: readKind_def kd_def base_def Let_def split: if_splits)
  from chk [OF assms(2)] have r: "k = kd" "ts = 1" "cs = word_of_nat n"
    by (auto dest: checkSize_Inr)
  with chk [OF assms(2)] have len: "n \<le> length xs"
    using checkSize_fits [of "x # xs" kd 1 "word_of_nat n"] assms(1) un by simp
  have "\<not> (kd = String \<and> isSingle (take n xs))"
  proof
    assume a: "kd = String \<and> isSingle (take n xs)"
    then have "n = 1" "xs \<noteq> []" "xs ! 0 < 0x80" "x < 0xB8"
      using len by (cases xs; auto simp: isSingle_def kd_def split: if_splits)+
    with ge80 assms(2) cs show False by (simp add: readKind_def base_def Let_def)
  qed
  moreover have "rlpHead base l n = [x]" for l
    using n by (simp add: rlpHead_def x [symmetric])
  ultimately have "encKind k (take n xs) = x # take n xs" "kindFits k (take n xs)"
    using len unfolding base_def kd_def r
    by (auto simp: encKind_def encStr_def encList_def isSingle_def kindFits_def split: if_splits)
  with r un len show ?thesis
    by (intro exI [of _ "take n xs"] exI [of _ "drop n xs"]) simp
qed

lemma readKind_canonical_long:
  assumes "length (x # xs) < 2 ^ 64" "readKind (x # xs) = Inr (k, ts, cs)"
    and "\<not> (x < 0xB8 \<or> \<not> x < 0xC0 \<and> x < 0xF8)"
  shows "\<exists>c rest. x # xs = encKind k c @ rest \<and> kindFits k c \<and> length c = unat cs \<and>
                  unat ts + unat cs = length (encKind k c)"
proof -
  define kd where "kd = (if x < 0xC0 then String else List)"
  define base where "base = (if x < 0xC0 then 0xB7 else 0xF7 :: u8)"
  define m where "m = unat (x - base)"
  have base: "base \<le> x" using assms(3) by (auto simp: base_def word_less_nat_alt word_le_nat_alt)
  then have x: "x = base + word_of_nat m" by (simp add: m_def)
  have "unat x < 256" by simp
  then have m: "1 \<le> m" "m \<le> 8"
    unfolding m_def unat_sub_noborrow [OF base]
    using assms(3) by (auto simp: base_def word_less_nat_alt simp del: unat_byte_lt)
  have tag: "(ucast (x - base) :: u64) + 1 = word_of_nat (Suc m)" by (simp add: m_def)
  have chk: "checkSize (x # xs) kd (word_of_nat (Suc m)) (readSize xs m) = Inr (k, ts, cs)"
  proof -
    have "\<not> x < 0x80" using assms(3) by (auto simp: word_less_nat_alt)
    with assms(2,3) show ?thesis
      unfolding tag [symmetric] by (auto simp: readKind_def kd_def base_def Let_def m_def split: if_splits)
  qed
  then have r: "k = kd" "ts = word_of_nat (Suc m)" "readSize xs m = Inr cs"
    using checkSize_Inr [OF chk] by simp_all
  then obtain q where xs: "xs = be_bytes (unat cs) @ q" "length (be_bytes (unat cs)) = m" "56 \<le> unat cs"
    using readSize_canonical [OF r(3) m] by blast
  have ts: "unat ts = Suc m" using r(2) m(2) by (simp add: unat_of_nat del: of_nat_Suc)
  then have len: "unat cs \<le> length q"
    using checkSize_fits [of "x # xs" kd ts cs] chk r assms(1) xs by simp
  let ?c = "take (unat cs) q"
  have lc: "length ?c = unat cs" using len by simp
  moreover have "rlpHead s base (unat cs) = x # be_bytes (unat cs)" for s
    using xs(2,3) by (simp add: rlpHead_def x [symmetric])
  ultimately have "encKind k ?c = x # be_bytes (unat cs) @ ?c"
    using xs(3) unfolding base_def kd_def r
    by (auto simp: encKind_def encStr_def encList_def split: if_splits)
  moreover have "kindFits k ?c"
    using xs(3) lc by (auto simp: r kd_def kindFits_def isSingle_def)
  ultimately show ?thesis
    using xs ts lc len by (intro exI [of _ ?c] exI [of _ "drop (unat cs) q"]) simp
qed

lemmas readKind_canonical = readKind_canonical_short readKind_canonical_long

lemma Split_canonical:
  assumes "length b < 2 ^ 64" "Split b = Inr (k, c, rest)"
  shows "b = encKind k c @ rest \<and> kindFits k c"
proof -
  obtain ts cs where kind: "readKind b = Inr (k, ts, cs)"
    and out: "c = take (unat cs) (drop (unat ts) b)" "rest = drop (unat ts + unat cs) b"
    using assms(2) by (auto simp: Split_def split: sum.splits)
  then obtain x xs where b: "b = x # xs" by (cases b) (auto simp: readKind_def)
  have "\<exists>c' rest'. b = encKind k c' @ rest' \<and> kindFits k c' \<and> length c' = unat cs \<and>
                 unat ts + unat cs = length (encKind k c')"
    using readKind_canonical [of x xs k ts cs] assms(1) kind unfolding b by blast
  then obtain c' rest' where c': "b = encKind k c' @ rest'" "kindFits k c'"
    "length c' = unat cs" "unat ts + unat cs = length (encKind k c')" by blast
  have "Split (encKind k c' @ rest') = Inr (k, c', rest')"
    by (rule Split_encKind [OF c'(2)]) (use assms(1) c'(1) in simp)
  with assms(2) have "c' = c" "rest' = rest" unfolding c'(1) by simp_all
  with c'(1,2) show ?thesis by blast
qed

text \<open>C20. Splitting is the exact inverse of encoding. Over inputs shorter than \<open>2 ^ 64\<close> bytes, \<open>Split\<close>
  returns a kind, a content and a rest exactly when the input is the one encoding of the content
  as that kind followed by the rest: every encoding is split, and a header that is not minimal,
  a single byte below 128 with a header, or a size beyond the input is refused.\<close>

theorem Split_iff:
  assumes "length b < 2 ^ 64"
  shows "Split b = Inr (k, c, rest) \<longleftrightarrow> b = encKind k c @ rest \<and> kindFits k c"
proof
  assume "Split b = Inr (k, c, rest)"
  then show "b = encKind k c @ rest \<and> kindFits k c" by (rule Split_canonical [OF assms])
next
  assume "b = encKind k c @ rest \<and> kindFits k c"
  with assms Split_encKind [of k c rest] show "Split b = Inr (k, c, rest)" by simp
qed

theorem Split_iff_witness:
  "Split [0x82, 4, 0, 9] = Inr (String, [4, 0], [9]) \<and> Split [0x81, 4] \<noteq> Inr (String, [4], [])"
proof -
  have "[0x82, 4, 0, 9] = encKind String [4, 0] @ [9]" "kindFits String [4, 0]"
    "\<not> kindFits String [4]"
    by (simp_all add: encKind_def encStr_def rlpHead_def kindFits_def isSingle_def)
  then show ?thesis
    using Split_iff [of "[0x82, 4, 0, 9]" String "[4, 0]" "[9]"] Split_iff [of "[0x81, 4]" String "[4]" "[]"]
    by simp
qed

section \<open>Counting\<close>

declare countFrom.simps [simp del]

lemma countFrom_encoded:
  assumes "\<forall>(k, c)\<in>set ks. kindFits k c" "length (concat (map (\<lambda>(k, c). encKind k c) ks)) < 2 ^ 64"
  shows "countFrom i (concat (map (\<lambda>(k, c). encKind k c) ks)) = Inr (i + int (length ks))"
  using assms
proof (induction ks arbitrary: i)
  case Nil
  show ?case by (simp add: countFrom.simps)
next
  case (Cons kc ks)
  obtain k c where kc: "kc = (k, c)" by fastforce
  let ?rest = "concat (map (\<lambda>(k, c). encKind k c) ks)"
  obtain ts where ts: "readKind (encKind k c @ ?rest) = Inr (k, ts, word_of_nat (length c))"
    "unat ts + length c = length (encKind k c)"
    using readKind_encKind [of k c ?rest] Cons.prems kc by auto
  have lc: "unat (word_of_nat (length c) :: u64) = length c"
    using ts(2) Cons.prems kc by (simp add: unat_of_nat)
  moreover have "encKind k c \<noteq> []"
    using ts(2) readKind_progress [OF ts(1)] lc by auto
  ultimately show ?case
    using Cons ts kc by (subst countFrom.simps) simp
qed


lemma countFrom_canonical:
  "countFrom i b = Inr n \<Longrightarrow> length b < 2 ^ 64 \<Longrightarrow>
   \<exists>ks. b = concat (map (\<lambda>(k, c). encKind k c) ks) \<and> (\<forall>(k, c)\<in>set ks. kindFits k c) \<and> n = i + int (length ks)"
proof (induction i b rule: countFrom.induct)
  case (1 i b)
  show ?case
  proof (cases "b = []")
    case True
    with 1(2) show ?thesis by (intro exI [of _ "[]"]) (simp add: countFrom.simps)
  next
    case False
    then obtain k ts cs where kind: "readKind b = Inr (k, ts, cs)"
      using 1(2) by (subst (asm) countFrom.simps) (auto split: sum.splits)
    let ?rest = "drop (unat ts + unat cs) b"
    from 1(2) kind False have "countFrom (i + 1) ?rest = Inr n"
      by (subst (asm) countFrom.simps) simp
    moreover have "length ?rest < 2 ^ 64"
      using 1(3) by (metis diff_le_self length_drop order_le_less_trans)
    ultimately obtain ks where ks:
      "?rest = concat (map (\<lambda>(k, c). encKind k c) ks)" "\<forall>(k, c)\<in>set ks. kindFits k c"
      "n = i + 1 + int (length ks)" using 1(1) [OF _ kind refl refl] False by auto
    have "Split b = Inr (k, take (unat cs) (drop (unat ts) b), ?rest)"
      using kind by (simp add: Split_def)
    from Split_canonical [OF 1(3) this] ks show ?thesis
      by (intro exI [of _ "(k, take (unat cs) (drop (unat ts) b)) # ks"]) auto
  qed
qed

text \<open>C36. Counting counts. \<open>CountValues\<close> always ends, and it returns a number exactly for the
  concatenations of that many encoded values: every other input gives an error.\<close>

theorem CountValues_iff:
  assumes "length b < 2 ^ 64"
  shows "CountValues b = Inr n \<longleftrightarrow>
    (\<exists>ks. b = concat (map (\<lambda>(k, c). encKind k c) ks) \<and> (\<forall>(k, c)\<in>set ks. kindFits k c) \<and> n = int (length ks))"
proof
  assume "CountValues b = Inr n"
  with countFrom_canonical [of 0 b n] assms show "\<exists>ks. b = concat (map (\<lambda>(k, c). encKind k c) ks) \<and>
      (\<forall>(k, c)\<in>set ks. kindFits k c) \<and> n = int (length ks)"
    by (simp add: CountValues_def)
next
  assume "\<exists>ks. b = concat (map (\<lambda>(k, c). encKind k c) ks) \<and> (\<forall>(k, c)\<in>set ks. kindFits k c) \<and> n = int (length ks)"
  then show "CountValues b = Inr n"
    using countFrom_encoded [of _ 0] assms by (auto simp: CountValues_def)
qed

theorem CountValues_iff_witness: "CountValues [5, 0xC0, 0x82, 4, 0] = Inr 3"
proof -
  let ?ks = "[(Byte, [5]), (List, []), (String, [4, 0])]"
  have "[5, 0xC0, 0x82, 4, 0] = concat (map (\<lambda>(k, c). encKind k c) ?ks) \<and>
      (\<forall>(k, c)\<in>set ?ks. kindFits k c) \<and> 3 = int (length ?ks)"
    by (simp add: encKind_def encStr_def rlpHead_def kindFits_def isSingle_def)
  then have "\<exists>ks. [5, 0xC0, 0x82, 4, 0] = concat (map (\<lambda>(k, c). encKind k c) ks) \<and>
      (\<forall>(k, c)\<in>set ks. kindFits k c) \<and> 3 = int (length ks)" by (rule exI [of _ ?ks])
  then show ?thesis by (rule CountValues_iff [THEN iffD2, rotated]) simp
qed

section \<open>Sequences of values\<close>

definition splitItem :: "bytes \<Rightarrow> ((Kind \<times> bytes) \<times> bytes) option" where
  "splitItem b = (case Split b of Inl e \<Rightarrow> None | Inr (k, c, rest) \<Rightarrow> Some ((k, c), rest))"

interpretation rlp_items: stream_codec "\<lambda>(k, c). encKind k c" splitItem "\<lambda>(k, c). kindFits k c"
  "\<lambda>b. length b < 2 ^ 64"
proof unfold_locales
  fix x :: "Kind \<times> bytes" and rest
  assume "case x of (k, c) \<Rightarrow> kindFits k c" "length ((case x of (k, c) \<Rightarrow> encKind k c) @ rest) < 2 ^ 64"
  then show "splitItem ((case x of (k, c) \<Rightarrow> encKind k c) @ rest) = Some (x, rest)"
    using Split_encKind [of "fst x" "snd x" rest] by (cases x) (simp add: splitItem_def)
next
  fix xs ys :: bytes
  show "length (xs @ ys) < 2 ^ 64 \<Longrightarrow> length ys < 2 ^ 64" by simp
qed



end
