(* ===== verification/RlpDecode.thy ===== *)
theory RlpDecode
  imports RlpRaw
begin

text \<open>
  The RLP stream decoder (\<^verbatim>\<open>src/rlp/decode.go\<close>). A \<open>Stream\<close> holds the unread input, the input
  limit, the kind and size of the value ahead once they have been read, and the stack of the
  lists being read with the innermost list first. Operations return a result or an error
  together with the changed stream, because callers go on after some errors. The decoders by
  type follow \<open>makeDecoder\<close>; their recursion and loops run on fuel, None is out of fuel.
\<close>

type_synonym listpos = "u64 \<times> u64"

record Stream =
  input :: bytes
  remaining :: u64
  limited :: bool
  kind :: "Kind option"
  vsize :: u64
  byteval :: u8
  kinderr :: "rlp_error option"
  stack :: "listpos list"

type_synonym 'a op = "Stream \<Rightarrow> (rlp_error + 'a) \<times> Stream"

definition sbind :: "'a op \<Rightarrow> ('a \<Rightarrow> 'b op) \<Rightarrow> 'b op" where
  "sbind f g s = (case f s of (Inl e, s') \<Rightarrow> (Inl e, s') | (Inr x, s') \<Rightarrow> g x s')"

definition mapErr :: "(rlp_error \<Rightarrow> rlp_error) \<Rightarrow> 'a op \<Rightarrow> 'a op" where
  "mapErr h f s = (case f s of (Inl e, s') \<Rightarrow> (Inl (h e), s') | (Inr x, s') \<Rightarrow> (Inr x, s'))"

section \<open>Reading\<close>

text \<open>\<open>Reset\<close> on a reader of a byte slice: such readers are always limited.\<close>

definition Reset :: "bytes \<Rightarrow> u64 \<Rightarrow> Stream \<Rightarrow> Stream" where
  "Reset r inputLimit s =
     s\<lparr>input := r, remaining := (if inputLimit > 0 then inputLimit else word_of_nat (length r)),
       limited := True, kind := None, vsize := 0, kinderr := None, stack := []\<rparr>"

definition zeroStream :: Stream where
  "zeroStream = \<lparr>input = [], remaining = 0, limited = False, kind = Some Byte, vsize = 0, byteval = 0,
                 kinderr = None, stack = []\<rparr>"

definition NewStream :: "bytes \<Rightarrow> u64 \<Rightarrow> Stream" where
  "NewStream r inputLimit = Reset r inputLimit zeroStream"

definition NewListStream :: "bytes \<Rightarrow> u64 \<Rightarrow> Stream" where
  "NewListStream r len = (Reset r len zeroStream)\<lparr>kind := Some List, vsize := len\<rparr>"

definition willRead :: "u64 \<Rightarrow> unit op" where
  "willRead n s =
     (let s1 = s\<lparr>kind := None\<rparr>;
          limit = (\<lambda>s2. if limited s2
                        then (if n > remaining s2 then (Inl ErrValueTooLarge, s2)
                              else (Inr (), s2\<lparr>remaining := remaining s2 - n\<rparr>))
                        else (Inr (), s2))
      in case stack s1 of
           [] \<Rightarrow> limit s1
         | (pos, sz) # st \<Rightarrow>
             if n > sz - pos then (Inl ErrElemTooLarge, s1)
             else limit (s1\<lparr>stack := (pos + n, sz) # st\<rparr>))"

definition readByte :: "u8 op" where
  "readByte = sbind (willRead 1)
     (\<lambda>_ s. case input s of [] \<Rightarrow> (Inl UnexpectedEOF, s) | b # r \<Rightarrow> (Inr b, s\<lparr>input := r\<rparr>))"

definition readFull :: "u64 \<Rightarrow> bytes op" where
  "readFull n = sbind (willRead n)
     (\<lambda>_ s. if unat n \<le> length (input s)
            then (Inr (take (unat n) (input s)), s\<lparr>input := drop (unat n) (input s)\<rparr>)
            else (Inl UnexpectedEOF, s\<lparr>input := []\<rparr>))"

definition readUint :: "nat \<Rightarrow> u64 op" where
  "readUint sz =
     (if sz = 0 then (\<lambda>s. (Inr 0, s\<lparr>kind := None\<rparr>))
      else if sz = 1 then sbind readByte (\<lambda>b s. (Inr (ucast b), s))
      else sbind (readFull (word_of_nat sz))
        (\<lambda>b s. if hd b = 0 then (Inl ErrCanonSize, s) else (Inr (word_of_nat (be_val b)), s)))"

text \<open>\<open>readKind\<close> returns kind, size and error; \<open>Kind\<close> keeps all three for later calls.\<close>

definition readSizeOf :: "Kind \<Rightarrow> nat \<Rightarrow> Stream \<Rightarrow> (Kind \<times> u64 \<times> rlp_error option) \<times> Stream" where
  "readSizeOf k n s =
     (case readUint n s of
        (Inl e, s') \<Rightarrow> ((k, 0, Some e), s')
      | (Inr sz, s') \<Rightarrow> ((k, sz, if sz < 56 then Some ErrCanonSize else None), s'))"

definition readKindOf :: "Stream \<Rightarrow> (Kind \<times> u64 \<times> rlp_error option) \<times> Stream" where
  "readKindOf s =
     (case readByte s of
        (Inl e, s') \<Rightarrow>
          ((Byte, 0,
            Some (if stack s' = [] \<and> (e = UnexpectedEOF \<or> e = ErrValueTooLarge) then IoEOF else e)), s')
      | (Inr b, s1) \<Rightarrow>
          (let s' = s1\<lparr>byteval := 0\<rparr> in
           if b < 0x80 then ((Byte, 0, None), s'\<lparr>byteval := b\<rparr>)
           else if b < 0xB8 then ((String, ucast (b - 0x80), None), s')
           else if b < 0xC0 then readSizeOf String (unat (b - 0xB7)) s'
           else if b < 0xF8 then ((List, ucast (b - 0xC0), None), s')
           else readSizeOf List (unat (b - 0xF7)) s'))"

definition kindResult :: "(Kind \<times> u64) op" where
  "kindResult s =
     (case kinderr s of
        Some e \<Rightarrow> (Inl e, s)
      | None \<Rightarrow> (Inr (case kind s of Some k \<Rightarrow> k | None \<Rightarrow> Byte, vsize s), s))"

definition KindOf :: "(Kind \<times> u64) op" where
  "KindOf s =
     (if kind s = None then
        (let s0 = s\<lparr>kinderr := None\<rparr> in
         if (case stack s0 of [] \<Rightarrow> False | (pos, sz) # _ \<Rightarrow> pos = sz) then (Inl EOL, s0)
         else
           (let ((k, sz, err), s1) = readKindOf s0;
                tooLarge =
                  (case stack s1 of
                     [] \<Rightarrow> if limited s1 \<and> sz > remaining s1 then Some ErrValueTooLarge else None
                   | (pos, lsz) # _ \<Rightarrow> if sz > lsz - pos then Some ErrElemTooLarge else None)
            in kindResult (s1\<lparr>kind := Some k, vsize := sz,
                              kinderr := (case err of Some e \<Rightarrow> Some e | None \<Rightarrow> tooLarge)\<rparr>)))
      else kindResult s)"

section \<open>Values\<close>

definition Bytes :: "bytes op" where
  "Bytes = sbind KindOf (\<lambda>(k, sz) s.
     case k of
       Byte \<Rightarrow> (Inr [byteval s], s\<lparr>kind := None\<rparr>)
     | String \<Rightarrow> sbind (readFull sz)
         (\<lambda>b s. if sz = 1 \<and> hd b < 128 then (Inl ErrCanonSize, s) else (Inr b, s)) s
     | List \<Rightarrow> (Inl ErrExpectedString, s))"

definition Raw :: "bytes op" where
  "Raw = sbind KindOf (\<lambda>(k, sz) s.
     if k = Byte then (Inr [byteval s], s\<lparr>kind := None\<rparr>)
     else if unat sz + 9 \<ge> 2 ^ 64 then (Inl (RlpPanic IndexOutOfRange), s)
     else sbind (readFull sz)
       (\<lambda>b s. (Inr ((if k = String then puthead 0x80 0xB7 sz else puthead 0xC0 0xF7 sz) @ b), s)) s)"

definition uintOf :: "nat \<Rightarrow> u64 op" where
  "uintOf maxbits = sbind KindOf (\<lambda>(k, sz) s.
     case k of
       Byte \<Rightarrow> if byteval s = 0 then (Inl ErrCanonInt, s)
               else (Inr (ucast (byteval s)), s\<lparr>kind := None\<rparr>)
     | String \<Rightarrow>
         if unat sz > maxbits div 8 then (Inl ErrUintOverflow, s)
         else sbind (mapErr (\<lambda>e. if e = ErrCanonSize then ErrCanonInt else e) (readUint (unat sz)))
                (\<lambda>v s. if sz > 0 \<and> v < 128 then (Inl ErrCanonSize, s) else (Inr v, s)) s
     | List \<Rightarrow> (Inl ErrExpectedString, s))"

definition Uint :: "u64 op" where
  "Uint = uintOf 64"

definition BoolOf :: "bool op" where
  "BoolOf = sbind (uintOf 8)
     (\<lambda>n s. if n = 0 then (Inr False, s) else if n = 1 then (Inr True, s) else (Inl BadBool, s))"

definition ListOf :: "u64 op" where
  "ListOf = sbind KindOf (\<lambda>(k, sz) s.
     if k \<noteq> List then (Inl ErrExpectedList, s)
     else (Inr sz, s\<lparr>stack := (0, sz) # stack s, kind := None, vsize := 0\<rparr>))"

definition ListEnd :: "unit op" where
  "ListEnd s =
     (case stack s of
        [] \<Rightarrow> (Inl ErrNotInList, s)
      | (pos, sz) # st \<Rightarrow>
          if pos \<noteq> sz then (Inl ErrNotAtEOL, s)
          else (Inr (), s\<lparr>stack := (case st of [] \<Rightarrow> [] | (p, z) # st' \<Rightarrow> (p + sz, z) # st'),
                         kind := None, vsize := 0\<rparr>))"

section \<open>Decoders by type\<close>

definition wrapStreamError :: "rlp_error \<Rightarrow> rlp_error" where
  "wrapStreamError e =
     (if e \<in> {ErrCanonInt, ErrCanonSize, ErrExpectedList, ErrExpectedString, ErrUintOverflow, ErrNotAtEOL}
      then DecodeError e else e)"

definition decodeBigInt :: "int op" where
  "decodeBigInt = sbind (mapErr wrapStreamError Bytes)
     (\<lambda>b s. if length b > 0 \<and> hd b = 0 then (Inl (wrapStreamError ErrCanonInt), s)
            else (Inr (int (be_val b)), s))"

definition decodeByteArray :: "nat \<Rightarrow> bytes op" where
  "decodeByteArray vlen = sbind KindOf (\<lambda>(k, sz) s.
     case k of
       Byte \<Rightarrow>
         if vlen = 0 then (Inl TooLong, s)
         else if vlen > 1 then (Inl TooShort, s)
         else (case Uint s of
                 (Inl e, s') \<Rightarrow> (Inr [0], s')
               | (Inr bv, s') \<Rightarrow> (Inr [ucast bv], s'))
     | String \<Rightarrow>
         if vlen < unat sz then (Inl TooLong, s)
         else if vlen > unat sz then (Inl TooShort, s)
         else sbind (readFull sz)
           (\<lambda>b s. if sz = 1 \<and> hd b < 128 then (Inl (wrapStreamError ErrCanonSize), s) else (Inr b, s)) s
     | List \<Rightarrow> (Inl (wrapStreamError ErrExpectedString), s))"

text \<open>Running one step of an operation inside a decoder that may run out of fuel.\<close>

definition andThen ::
  "'a op \<Rightarrow> Stream \<Rightarrow> ('a \<Rightarrow> Stream \<Rightarrow> ((rlp_error + 'b) \<times> Stream) option) \<Rightarrow>
   ((rlp_error + 'b) \<times> Stream) option" where
  "andThen f s g = (case f s of (Inl e, s') \<Rightarrow> Some (Inl e, s') | (Inr x, s') \<Rightarrow> g x s')"

definition thenOp ::
  "((rlp_error + 'a) \<times> Stream) option \<Rightarrow> ('a \<Rightarrow> 'b op) \<Rightarrow> ((rlp_error + 'b) \<times> Stream) option" where
  "thenOp r g =
     (case r of
        None \<Rightarrow> None
      | Some (Inl e, s) \<Rightarrow> Some (Inl e, s)
      | Some (Inr x, s) \<Rightarrow> Some (g x s))"

definition listEndWith :: "rval \<Rightarrow> rval op" where
  "listEndWith v = sbind ListEnd (\<lambda>_ s. (Inr v, s))"

text \<open>The decoders whose types have no parts.\<close>

definition decodeSimple :: "rtype \<Rightarrow> rval op" where
  "decodeSimple t =
     (case t of
        TRaw \<Rightarrow> sbind Raw (\<lambda>b s. (Inr (VBytes b), s))
      | TUint bits \<Rightarrow> sbind (mapErr wrapStreamError (uintOf bits)) (\<lambda>n s. (Inr (VUint n), s))
      | TBool \<Rightarrow> sbind (mapErr wrapStreamError BoolOf) (\<lambda>b s. (Inr (VBool b), s))
      | TBig \<Rightarrow> sbind decodeBigInt (\<lambda>i s. (Inr (VBig (Some i)), s))
      | TString \<Rightarrow> sbind (mapErr wrapStreamError Bytes) (\<lambda>b s. (Inr (VBytes b), s))
      | TBytes \<Rightarrow> sbind (mapErr wrapStreamError Bytes) (\<lambda>b s. (Inr (VBytes b), s))
      | TByteArray n \<Rightarrow> sbind (decodeByteArray n) (\<lambda>b s. (Inr (VBytes b), s))
      | _ \<Rightarrow> (\<lambda>s. (Inl IllTyped, s)))"

type_synonym decoder = "Stream \<Rightarrow> ((rlp_error + rval) \<times> Stream) option"

text \<open>The loops take the decoder of the elements; the one over a slice runs on fuel.\<close>

fun decodeSliceElems :: "nat \<Rightarrow> decoder \<Rightarrow> Stream \<Rightarrow> ((rlp_error + rval list) \<times> Stream) option" where
  "decodeSliceElems 0 elemdec s = None"
| "decodeSliceElems (Suc fuel) elemdec s =
     (case elemdec s of
        None \<Rightarrow> None
      | Some (Inl e, s') \<Rightarrow> Some (if e = EOL then Inr [] else Inl e, s')
      | Some (Inr v, s') \<Rightarrow> thenOp (decodeSliceElems fuel elemdec s') (\<lambda>vs s. (Inr (v # vs), s)))"

definition decodeListSlice :: "nat \<Rightarrow> decoder \<Rightarrow> decoder" where
  "decodeListSlice fuel elemdec s =
     andThen (mapErr wrapStreamError ListOf) s (\<lambda>sz s.
       if sz = 0 then Some (listEndWith (VList []) s)
       else thenOp (decodeSliceElems fuel elemdec s) (\<lambda>vs s. listEndWith (VList vs) s))"

fun decodeArrayElems :: "nat \<Rightarrow> decoder \<Rightarrow> Stream \<Rightarrow> ((rlp_error + rval list) \<times> Stream) option" where
  "decodeArrayElems 0 elemdec s = Some (Inr [], s)"
| "decodeArrayElems (Suc n) elemdec s =
     (case elemdec s of
        None \<Rightarrow> None
      | Some (Inl e, s') \<Rightarrow> Some (if e = EOL then Inr [] else Inl e, s')
      | Some (Inr v, s') \<Rightarrow> thenOp (decodeArrayElems n elemdec s') (\<lambda>vs s. (Inr (v # vs), s)))"

definition decodeListArray :: "nat \<Rightarrow> decoder \<Rightarrow> decoder" where
  "decodeListArray vlen elemdec s =
     andThen (mapErr wrapStreamError ListOf) s (\<lambda>_ s.
       thenOp (decodeArrayElems vlen elemdec s) (\<lambda>vs s.
         if length vs < vlen then (Inl TooFew, s)
         else mapErr wrapStreamError (listEndWith (VList vs)) s))"

fun decodeFields ::
  "(rtype \<Rightarrow> decoder) \<Rightarrow> rtype list \<Rightarrow> Stream \<Rightarrow> ((rlp_error + rval list) \<times> Stream) option" where
  "decodeFields dec [] s = Some (Inr [], s)"
| "decodeFields dec (t # ts) s =
     (case dec t s of
        None \<Rightarrow> None
      | Some (Inl e, s') \<Rightarrow> Some (Inl (if e = EOL then TooFew else e), s')
      | Some (Inr v, s') \<Rightarrow> thenOp (decodeFields dec ts s') (\<lambda>vs s. (Inr (v # vs), s)))"

definition decodeStruct :: "(rtype \<Rightarrow> decoder) \<Rightarrow> rtype list \<Rightarrow> decoder" where
  "decodeStruct dec ts s =
     andThen (mapErr wrapStreamError ListOf) s (\<lambda>_ s.
       thenOp (decodeFields dec ts s) (\<lambda>vs s. mapErr wrapStreamError (listEndWith (VList vs)) s))"

definition decodePtr :: "decoder \<Rightarrow> decoder" where
  "decodePtr dec s = thenOp (dec s) (\<lambda>v s. (Inr (VPtr (Some v)), s))"

definition decodeOptionalPtr :: "decoder \<Rightarrow> decoder" where
  "decodeOptionalPtr dec s =
     (case KindOf s of
        (Inl e, s') \<Rightarrow> Some (Inl e, s'\<lparr>kind := None\<rparr>)
      | (Inr (k, sz), s') \<Rightarrow>
          if sz = 0 \<and> k \<noteq> Byte then Some (Inr (VPtr None), s'\<lparr>kind := None\<rparr>)
          else thenOp (dec s') (\<lambda>v s. (Inr (VPtr (Some v)), s)))"

definition decodeInterface :: "nat \<Rightarrow> decoder \<Rightarrow> decoder" where
  "decodeInterface fuel dec s =
     (case KindOf s of
        (Inl e, s') \<Rightarrow> Some (Inl e, s')
      | (Inr (k, sz), s') \<Rightarrow>
          if k = List
          then thenOp (decodeListSlice fuel dec s') (\<lambda>v s. (Inr (VIface (Some (TSlice TIface, v))), s))
          else Some (sbind Bytes (\<lambda>b s. (Inr (VIface (Some (TBytes, VBytes b))), s)) s'))"

definition decodeStep :: "nat \<Rightarrow> (rtype \<Rightarrow> decoder) \<Rightarrow> rtype \<Rightarrow> decoder" where
  "decodeStep fuel dec t =
     (case t of
        TSlice et \<Rightarrow> decodeListSlice fuel (dec et)
      | TTail et \<Rightarrow> (\<lambda>s. thenOp (decodeSliceElems fuel (dec et) s) (\<lambda>vs s. (Inr (VList vs), s)))
      | TArray n et \<Rightarrow> decodeListArray n (dec et)
      | TStruct ts \<Rightarrow> decodeStruct dec ts
      | TPtr et \<Rightarrow> decodePtr (dec et)
      | TOptPtr et \<Rightarrow> decodeOptionalPtr (dec et)
      | TIface \<Rightarrow> decodeInterface fuel (dec TIface)
      | _ \<Rightarrow> (\<lambda>s. Some (decodeSimple t s)))"

primrec decodeVal :: "nat \<Rightarrow> rtype \<Rightarrow> decoder" where
  "decodeVal 0 = (\<lambda>t s. None)"
| "decodeVal (Suc fuel) = decodeStep fuel (decodeVal fuel)"

definition DecodeBytes :: "nat \<Rightarrow> rtype \<Rightarrow> bytes \<Rightarrow> (rlp_error + rval) option" where
  "DecodeBytes fuel t b =
     (case decodeVal fuel t (NewStream b (word_of_nat (length b))) of
        None \<Rightarrow> None
      | Some (Inl e, s) \<Rightarrow> Some (Inl e)
      | Some (Inr v, s) \<Rightarrow> Some (if length (input s) > 0 then Inl ErrMoreThanOneValue else Inr v))"

lemma unat_ucast_byte: "unat (ucast (b :: u8) :: u64) = unat b"
proof -
  have "unat b < 2 ^ 64" by (rule less_trans [OF unat_byte_lt]) simp
  then show ?thesis by (simp add: unsigned_ucast_eq take_bit_nat_eq_self_iff)
qed

section \<open>Positions in the input\<close>

text \<open>
  \<open>avail n s\<close>: the input, the limit and the innermost list have \<open>n\<close> more bytes. \<open>adv n s\<close> is the
  stream after reading them. \<open>eqv\<close> compares streams up to the cached kind and size.
\<close>

definition avail :: "nat \<Rightarrow> Stream \<Rightarrow> bool" where
  "avail n s \<longleftrightarrow> n \<le> length (input s) \<and> n < 2 ^ 64 \<and> (limited s \<longrightarrow> n \<le> unat (remaining s)) \<and>
     (case stack s of [] \<Rightarrow> True | (p, z) # _ \<Rightarrow> p \<le> z \<and> n \<le> unat z - unat p)"

definition adv :: "nat \<Rightarrow> Stream \<Rightarrow> Stream" where
  "adv n s = s\<lparr>input := drop n (input s),
               remaining := (if limited s then remaining s - word_of_nat n else remaining s),
               stack := (case stack s of [] \<Rightarrow> [] | (p, z) # st \<Rightarrow> (p + word_of_nat n, z) # st)\<rparr>"

definition eqv :: "Stream \<Rightarrow> Stream \<Rightarrow> bool" where
  "eqv s s' \<longleftrightarrow> input s = input s' \<and> remaining s = remaining s' \<and> limited s = limited s' \<and> stack s = stack s'"

lemma eqv_refl [simp]: "eqv s s"
  by (simp add: eqv_def)

lemma eqv_trans: "eqv a b \<Longrightarrow> eqv b c \<Longrightarrow> eqv a c"
  by (simp add: eqv_def)

lemma eqv_sym: "eqv a b \<Longrightarrow> eqv b a"
  by (simp add: eqv_def)

lemma eqv_cached [simp]:
  "eqv (s\<lparr>kind := k\<rparr>) s' = eqv s s'" "eqv (s\<lparr>vsize := n\<rparr>) s' = eqv s s'"
  "eqv (s\<lparr>byteval := b\<rparr>) s' = eqv s s'" "eqv (s\<lparr>kinderr := e\<rparr>) s' = eqv s s'"
  "eqv s' (s\<lparr>kind := k\<rparr>) = eqv s' s" "eqv s' (s\<lparr>vsize := n\<rparr>) = eqv s' s"
  "eqv s' (s\<lparr>byteval := b\<rparr>) = eqv s' s" "eqv s' (s\<lparr>kinderr := e\<rparr>) = eqv s' s"
  by (simp_all add: eqv_def)

lemma eqv_adv: "eqv a b \<Longrightarrow> eqv (adv n a) (adv n b)"
  by (simp add: eqv_def adv_def)

lemma eqv_avail: "eqv a b \<Longrightarrow> avail n a = avail n b"
  by (simp add: eqv_def avail_def)

lemma adv_fields [simp]:
  "input (adv n s) = drop n (input s)" "limited (adv n s) = limited s" "kind (adv n s) = kind s"
  "vsize (adv n s) = vsize s" "byteval (adv n s) = byteval s" "kinderr (adv n s) = kinderr s"
  "stack (adv n s) = (case stack s of [] \<Rightarrow> [] | (p, z) # st \<Rightarrow> (p + word_of_nat n, z) # st)"
  by (simp_all add: adv_def)

lemma adv_adv: "adv m (adv n s) = adv (n + m) s"
  by (auto simp: adv_def algebra_simps split: list.split)

lemma adv_0: "eqv (adv 0 s) s"
  by (auto simp: adv_def eqv_def split: list.split)

lemma avail_mono: "avail n s \<Longrightarrow> m \<le> n \<Longrightarrow> avail m s"
  by (auto simp: avail_def split: list.splits)

lemma avail_adv:
  assumes "avail (n + m) s"
  shows "avail m (adv n s)"
proof -
  have n: "n < 2 ^ 64" "unat (word_of_nat n :: u64) = n"
    using assms by (simp_all add: avail_def unat_of_nat)
  have "m \<le> unat (remaining s - word_of_nat n)" if "limited s"
    using assms that n by (subst unat_sub_noborrow) (auto simp: avail_def word_le_nat_alt)
  moreover have "p + word_of_nat n \<le> z \<and> m \<le> unat z - unat (p + word_of_nat n)"
    if st: "stack s = (p, z) # st" for p z st
  proof -
    have le: "unat p + n \<le> unat z" and room: "n + m \<le> unat z - unat p"
      using assms st by (auto simp: avail_def word_le_nat_alt)
    have "unat p + n < 2 ^ 64" by (rule le_less_trans [OF le]) simp
    then have "unat (p + word_of_nat n) = unat p + n"
      using n by (subst unat_add_nocarry) simp_all
    moreover note le room
    ultimately show ?thesis by (simp add: word_le_nat_alt)
  qed
  ultimately show ?thesis
    using assms by (auto simp: avail_def adv_def split: list.split)
qed

lemma willRead_avail:
  assumes "avail (unat n) s"
  shows "willRead n s = (Inr (), (adv (unat n) s)\<lparr>kind := None, input := input s\<rparr>)"
proof -
  have "\<not> sz - pos < n" if "stack s = (pos, sz) # st" for pos sz st
    using assms that by (auto simp: avail_def word_less_nat_alt unat_sub_noborrow)
  moreover have "limited s \<Longrightarrow> \<not> remaining s < n"
    using assms by (simp add: avail_def word_less_nat_alt)
  ultimately show ?thesis
    by (auto simp: willRead_def adv_def Let_def split: list.split)
qed

lemma readFull_avail:
  assumes "avail (unat n) s"
  shows "readFull n s = (Inr (take (unat n) (input s)), (adv (unat n) s)\<lparr>kind := None\<rparr>)"
  using assms willRead_avail [OF assms]
  by (simp add: readFull_def sbind_def avail_def adv_def)

lemma readByte_avail:
  assumes "avail 1 s" "input s = b # r"
  shows "readByte s = (Inr b, (adv 1 s)\<lparr>kind := None\<rparr>)"
  using assms willRead_avail [of 1 s]
  by (simp add: readByte_def sbind_def adv_def)


section \<open>The value ahead\<close>

definition tagLen :: "Kind \<Rightarrow> bytes \<Rightarrow> nat" where
  "tagLen k c = length (encKind k c) - (if k = Byte then 0 else length c)"

definition sizeAhead :: "Kind \<Rightarrow> bytes \<Rightarrow> u64" where
  "sizeAhead k c = (if k = Byte then 0 else word_of_nat (length c))"

lemma encKind_split:
  assumes "kindFits k c" "k \<noteq> Byte"
  shows "\<exists>h. encKind k c = h @ c \<and> length h = tagLen k c \<and>
             (length c < 56 \<and> h = [(if k = List then 0xC0 else 0x80) + word_of_nat (length c)] \<or>
              56 \<le> length c \<and> h = ((if k = List then 0xF7 else 0xB7) +
                word_of_nat (length (be_bytes (length c)))) # be_bytes (length c))"
proof -
  have "encKind k c = rlpHead (if k = List then 0xC0 else 0x80) (if k = List then 0xF7 else 0xB7) (length c) @ c"
    using assms by (cases k) (auto simp: encKind_def encStr_def encList_def kindFits_def isSingle_def)
  then show ?thesis
    using assms(2) by (auto simp: rlpHead_def tagLen_def)
qed

lemma readUint_content:
  assumes "c \<noteq> []" "length c \<le> 8" "no_leading_zero c" "input s = c @ r" "avail (length c) s"
  shows "readUint (length c) s = (Inr (word_of_nat (be_val c)), (adv (length c) s)\<lparr>kind := None\<rparr>)"
proof (cases "length c = 1")
  case True
  then obtain b where "c = [b]" by (auto simp: length_Suc_conv)
  with assms readByte_avail [of s b r] show ?thesis
    by (simp add: readUint_def sbind_def)
next
  case False
  have "unat (word_of_nat (length c) :: u64) = length c"
    using assms(2) by (simp add: unat_of_nat)
  with False assms readFull_avail [of "word_of_nat (length c)" s] show ?thesis
    by (simp add: readUint_def sbind_def no_leading_zero_def)
qed

lemma readUint_be_bytes:
  assumes "56 \<le> n" "n < 2 ^ 64" "input s = be_bytes n @ r" "avail (length (be_bytes n)) s"
  shows "readUint (length (be_bytes n)) s = (Inr (word_of_nat n), (adv (length (be_bytes n)) s)\<lparr>kind := None\<rparr>)"
  using readUint_content [of "be_bytes n" s r] assms length_be_bytes_word [OF assms(2)] by simp

lemma readKindOf_tag:
  assumes "readByte s = (Inr b, s1)"
  shows "unat b = 128 + n \<Longrightarrow> n < 56 \<Longrightarrow> readKindOf s = ((String, word_of_nat n, None), s1\<lparr>byteval := 0\<rparr>)"
    and "unat b = 192 + n \<Longrightarrow> n < 56 \<Longrightarrow> readKindOf s = ((List, word_of_nat n, None), s1\<lparr>byteval := 0\<rparr>)"
    and "unat b = 183 + m \<Longrightarrow> 1 \<le> m \<Longrightarrow> m \<le> 8 \<Longrightarrow> readKindOf s = readSizeOf String m (s1\<lparr>byteval := 0\<rparr>)"
    and "unat b = 247 + m \<Longrightarrow> 1 \<le> m \<Longrightarrow> readKindOf s = readSizeOf List m (s1\<lparr>byteval := 0\<rparr>)"
proof -
  have cs: "(ucast (w :: u8) :: u64) = word_of_nat n" if "unat w = n" for w n
    unfolding that [symmetric] by simp
  have sub: "unat (b - c) = j" if "unat b = unat c + j" for c and j
    using that by (subst unat_sub_noborrow) (simp_all add: word_le_nat_alt)
  show "unat b = 128 + n \<Longrightarrow> n < 56 \<Longrightarrow> readKindOf s = ((String, word_of_nat n, None), s1\<lparr>byteval := 0\<rparr>)"
    using assms cs [OF sub [where c = "0x80" and j = n]] by (simp add: readKindOf_def word_less_nat_alt)
  show "unat b = 192 + n \<Longrightarrow> n < 56 \<Longrightarrow> readKindOf s = ((List, word_of_nat n, None), s1\<lparr>byteval := 0\<rparr>)"
    using assms cs [OF sub [where c = "0xC0" and j = n]] by (simp add: readKindOf_def word_less_nat_alt)
  show "unat b = 183 + m \<Longrightarrow> 1 \<le> m \<Longrightarrow> m \<le> 8 \<Longrightarrow> readKindOf s = readSizeOf String m (s1\<lparr>byteval := 0\<rparr>)"
    using assms sub [where c = "0xB7" and j = m] by (simp add: readKindOf_def word_less_nat_alt)
  show "unat b = 247 + m \<Longrightarrow> 1 \<le> m \<Longrightarrow> readKindOf s = readSizeOf List m (s1\<lparr>byteval := 0\<rparr>)"
    using assms sub [where c = "0xF7" and j = m] by (simp add: readKindOf_def word_less_nat_alt)
qed

lemma readKindOf_enc:
  assumes "input s = encKind k c @ rest" "kindFits k c" "avail (length (encKind k c)) s"
  shows "\<exists>s'. readKindOf s = ((k, sizeAhead k c, None), s') \<and> (k = Byte \<longrightarrow> [byteval s'] = c) \<and>
              eqv s' (adv (tagLen k c) s)"
proof (cases "k = Byte")
  case True
  with assms(2) obtain x where "c = [x]" "x < 0x80"
    by (auto simp: kindFits_def isSingle_def length_Suc_conv)
  with True assms readByte_avail [of s x rest] show ?thesis
    by (simp add: readKindOf_def encKind_def encStr_def tagLen_def sizeAhead_def)
next
  case False
  obtain h where h: "encKind k c = h @ c" "length h = tagLen k c"
    and form: "length c < 56 \<and> h = [(if k = List then 0xC0 else 0x80) + word_of_nat (length c)] \<or>
              56 \<le> length c \<and> h = ((if k = List then 0xF7 else 0xB7) +
                word_of_nat (length (be_bytes (length c)))) # be_bytes (length c)"
    using encKind_split [OF assms(2) False] by blast
  have n: "length c < 2 ^ 64" using assms(3) h by (simp add: avail_def)
  from form show ?thesis
  proof (elim disjE conjE)
    assume short: "length c < 56" "h = [(if k = List then 0xC0 else 0x80) + word_of_nat (length c)]"
    have "readByte s = (Inr (hd h), (adv 1 s)\<lparr>kind := None\<rparr>)"
      using assms h(1) short(2) by (intro readByte_avail [where r = "c @ rest"]) (auto elim: avail_mono)
    from readKindOf_tag(1,2) [OF this, of "length c"] show ?thesis
      using False short h unat_small_tag [OF short(1)]
      by (cases k) (auto simp: sizeAhead_def)
  next
    let ?m = "length (be_bytes (length c))"
    assume long: "56 \<le> length c" "h = ((if k = List then 0xF7 else 0xB7) + word_of_nat ?m) # be_bytes (length c)"
    have av: "avail (1 + ?m) s" using assms(3) h(1) long(2) by (auto elim: avail_mono)
    have rb: "readByte s = (Inr (hd h), (adv 1 s)\<lparr>kind := None\<rparr>)"
      using assms(1) h(1) long(2) avail_mono [OF av]
      by (intro readByte_avail [where r = "be_bytes (length c) @ c @ rest"]) auto
    let ?s1 = "(adv 1 s)\<lparr>kind := None, byteval := 0\<rparr>"
    have "avail ?m ?s1" using avail_adv [OF av] by (simp add: avail_def)
    moreover have "input ?s1 = be_bytes (length c) @ c @ rest" using assms(1) h(1) long(2) by simp
    ultimately have "readUint ?m ?s1 = (Inr (word_of_nat (length c)), (adv ?m ?s1)\<lparr>kind := None\<rparr>)"
      by (intro readUint_be_bytes [OF long(1) n])
    moreover have "\<not> (word_of_nat (length c) :: u64) < 56"
      using long(1) n by (simp add: word_less_nat_alt unat_of_nat)
    ultimately have size: "readSizeOf kd ?m ?s1 = ((kd, word_of_nat (length c), None), (adv ?m ?s1)\<lparr>kind := None\<rparr>)" for kd
      by (simp add: readSizeOf_def)
    have "eqv (adv ?m ?s1) (adv (tagLen k c) s)"
    proof -
      have "eqv (adv ?m ?s1) (adv ?m (adv 1 s))" by (rule eqv_adv) simp
      then show ?thesis using h(2) long(2) by (simp add: adv_adv)
    qed
    moreover have "be_bytes (length c) \<noteq> []" using long(1) by auto
    then have "1 \<le> ?m" by (cases "be_bytes (length c)") auto
    ultimately show ?thesis
      using False long h readKindOf_tag(3,4) [OF rb, of ?m] unat_large_tag [OF length_be_bytes_word [OF n]]
        length_be_bytes_word [OF n] size
      by (cases k) (auto simp: sizeAhead_def)
  qed
qed

text \<open>The stream after \<open>Kind\<close> has found a value of kind \<open>k\<close> and content \<open>c\<close>.\<close>

definition contentLen :: "Kind \<Rightarrow> bytes \<Rightarrow> nat" where
  "contentLen k c = (if k = Byte then 0 else length c)"

definition ahead :: "Kind \<Rightarrow> bytes \<Rightarrow> bytes \<Rightarrow> Stream \<Rightarrow> bool" where
  "ahead k c rest s \<longleftrightarrow>
     kind s = Some k \<and> kinderr s = None \<and> vsize s = sizeAhead k c \<and> (k = Byte \<longrightarrow> [byteval s] = c) \<and>
     input s = (if k = Byte then rest else c @ rest) \<and> avail (contentLen k c) s"

lemma encKind_length:
  assumes "kindFits k c"
  shows "length (encKind k c) = tagLen k c + contentLen k c" "0 < length (encKind k c)" "0 < tagLen k c"
proof -
  have "length c \<le> length (encKind k c)" by (simp add: encKind_def)
  then show len: "length (encKind k c) = tagLen k c + contentLen k c"
    by (simp add: tagLen_def contentLen_def)
  show "0 < tagLen k c"
  proof (cases "k = Byte")
    case True
    with assms show ?thesis by (auto simp: tagLen_def encKind_def encStr_def kindFits_def isSingle_def)
  next
    case False
    from encKind_split [OF assms False] show ?thesis by auto
  qed
  with len show "0 < length (encKind k c)" by simp
qed

lemma unat_sizeAhead: "avail (contentLen k c) s \<Longrightarrow> unat (sizeAhead k c) = contentLen k c"
  by (cases "k = Byte") (simp_all add: sizeAhead_def contentLen_def avail_def unat_of_nat)

lemma drop_tag: "kindFits k c \<Longrightarrow> drop (tagLen k c) (encKind k c @ rest) = (if k = Byte then rest else c @ rest)"
proof (cases "k = Byte")
  case True
  then show ?thesis by (simp add: tagLen_def)
next
  case False
  assume "kindFits k c"
  from encKind_split [OF this False] obtain h where "encKind k c = h @ c" "length h = tagLen k c" by blast
  with False show ?thesis by simp
qed

lemma KindOf_enc:
  assumes "kind s = None" "input s = encKind k c @ rest" "kindFits k c" "avail (length (encKind k c)) s"
  shows "\<exists>s'. KindOf s = (Inr (k, sizeAhead k c), s') \<and> ahead k c rest s' \<and> eqv s' (adv (tagLen k c) s)"
proof -
  let ?s0 = "s\<lparr>kinderr := None\<rparr>"
  have s0: "input ?s0 = encKind k c @ rest" "avail (length (encKind k c)) ?s0"
    using assms(2,4) by (simp_all add: avail_def)
  obtain s1 where s1: "readKindOf ?s0 = ((k, sizeAhead k c, None), s1)" "k = Byte \<longrightarrow> [byteval s1] = c"
    "eqv s1 (adv (tagLen k c) ?s0)"
    using readKindOf_enc [OF s0(1) assms(3) s0(2)] by blast
  have e1: "eqv s1 (adv (tagLen k c) s)"
    using s1(3) eqv_adv [of ?s0 s] by (auto intro: eqv_trans)
  have av: "avail (contentLen k c) s1"
    using avail_adv [of "tagLen k c" "contentLen k c" s] assms(4) encKind_length(1) [OF assms(3)] eqv_avail [OF e1]
    by simp
  have us: "unat (sizeAhead k c) = contentLen k c" by (rule unat_sizeAhead [OF av])
  have noEOL: "pos \<noteq> sz" if "stack s = (pos, sz) # st" for pos sz st
    using assms(4) encKind_length(2) [OF assms(3)] that by (auto simp: avail_def)
  have fits: "(case stack s1 of [] \<Rightarrow> if limited s1 \<and> remaining s1 < sizeAhead k c then Some ErrValueTooLarge else None
      | (pos, lsz) # x \<Rightarrow> if lsz - pos < sizeAhead k c then Some ErrElemTooLarge else None) = None"
    using av us by (auto simp: avail_def word_less_nat_alt unat_sub_noborrow split: list.split)
  have "KindOf s = kindResult (s1\<lparr>kind := Some k, vsize := sizeAhead k c, kinderr := None\<rparr>)"
    using assms(1) noEOL s1(1) fits by (auto simp: KindOf_def Let_def split: list.split)
  moreover have "input s1 = (if k = Byte then rest else c @ rest)"
    using e1 drop_tag [OF assms(3), of rest] assms(2) by (simp add: eqv_def)
  ultimately show ?thesis
    using e1 av s1(2) by (simp add: kindResult_def ahead_def avail_def)
qed

lemma kindResult_Inr: "kindResult s = (Inr r, s') \<Longrightarrow> s' = s"
  by (auto simp: kindResult_def split: option.splits)

lemma KindOf_cached: "kind s = Some k \<Longrightarrow> KindOf s = kindResult s"
  by (simp add: KindOf_def)

lemma KindOf_again:
  assumes "KindOf s = (Inr r, s')"
  shows "KindOf s' = (Inr r, s')"
proof (cases "kind s")
  case None
  obtain k sz err s1 where "readKindOf (s\<lparr>kinderr := None\<rparr>) = ((k, sz, err), s1)"
    by (metis prod.exhaust)
  with assms None obtain x where "kindResult (s1\<lparr>kind := Some k, vsize := sz, kinderr := x\<rparr>) = (Inr r, s')"
    by (fastforce simp: KindOf_def Let_def split: if_splits)
  with kindResult_Inr [OF this] show ?thesis by (simp add: KindOf_cached)
next
  case (Some k)
  with assms kindResult_Inr [of s r s'] show ?thesis by (auto simp: KindOf_cached)
qed

section \<open>Operations on encoded values\<close>

definition gives :: "'a op \<Rightarrow> 'a \<Rightarrow> bytes \<Rightarrow> bool" where
  "gives f v b \<longleftrightarrow> (\<forall>s rest. kind s = None \<and> input s = b @ rest \<and> avail (length b) s \<longrightarrow>
     (\<exists>s'. f s = (Inr v, s') \<and> kind s' = None \<and> eqv s' (adv (length b) s)))"

lemma gives_KindOf:
  assumes "kindFits k c"
    and "\<And>s rest. ahead k c rest s \<Longrightarrow>
      \<exists>s'. g (k, sizeAhead k c) s = (Inr v, s') \<and> kind s' = None \<and> eqv s' (adv (contentLen k c) s)"
  shows "gives (sbind KindOf g) v (encKind k c)"
  unfolding gives_def
proof (intro allI impI, elim conjE)
  fix s rest
  assume "kind s = None" "input s = encKind k c @ rest" "avail (length (encKind k c)) s"
  then obtain s1 where s1: "KindOf s = (Inr (k, sizeAhead k c), s1)" "ahead k c rest s1"
    "eqv s1 (adv (tagLen k c) s)" using KindOf_enc [OF _ _ assms(1)] by blast
  obtain s' where s': "g (k, sizeAhead k c) s1 = (Inr v, s')" "kind s' = None" "eqv s' (adv (contentLen k c) s1)"
    using assms(2) [OF s1(2)] by blast
  have "eqv s' (adv (length (encKind k c)) s)"
    using eqv_trans [OF s'(3) eqv_adv [OF s1(3)]] encKind_length(1) [OF assms(1)] by (simp add: adv_adv)
  with s1(1) s' show "\<exists>s'. sbind KindOf g s = (Inr v, s') \<and> kind s' = None \<and> eqv s' (adv (length (encKind k c)) s)"
    by (simp add: sbind_def)
qed

lemma gives_map: "gives f v b \<Longrightarrow> gives (sbind f (\<lambda>x s. (Inr (g x), s))) (g v) b"
  unfolding gives_def sbind_def by fastforce

lemma gives_mapErr: "gives f v b \<Longrightarrow> gives (mapErr h f) v b"
  unfolding gives_def mapErr_def by fastforce

lemma ahead_readFull:
  assumes "ahead k c rest s" "k \<noteq> Byte"
  shows "readFull (sizeAhead k c) s = (Inr c, (adv (length c) s)\<lparr>kind := None\<rparr>)"
proof -
  have "unat (sizeAhead k c) = length c"
    using assms unat_sizeAhead by (auto simp: ahead_def contentLen_def)
  with assms show ?thesis
    using readFull_avail [of "sizeAhead k c" s] by (simp add: ahead_def contentLen_def)
qed

definition strKind :: "bytes \<Rightarrow> Kind" where
  "strKind b = (if isSingle b then Byte else String)"

lemma strKind: "encStr b = encKind (strKind b) b" "kindFits (strKind b) b" "strKind b \<noteq> List"
  by (simp_all add: encKind_def strKind_def kindFits_def)

lemma sizeAhead_one: "avail (contentLen String b) s \<Longrightarrow> sizeAhead String b = 1 \<longleftrightarrow> length b = 1"
  by (simp add: sizeAhead_def avail_def contentLen_def word_unat_eq_iff unat_of_nat)

lemma gives_Bytes: "gives Bytes b (encStr b)"
  unfolding strKind(1) Bytes_def
proof (rule gives_KindOf [OF strKind(2)])
  fix s rest
  assume a: "ahead (strKind b) b rest s"
  show "\<exists>s'. (case (strKind b, sizeAhead (strKind b) b) of (k, sz) \<Rightarrow> \<lambda>s.
       case k of Byte \<Rightarrow> (Inr [byteval s], s\<lparr>kind := None\<rparr>)
       | String \<Rightarrow> sbind (readFull sz) (\<lambda>b s. if sz = 1 \<and> hd b < 128 then (Inl ErrCanonSize, s) else (Inr b, s)) s
       | List \<Rightarrow> (Inl ErrExpectedString, s)) s = (Inr b, s') \<and> kind s' = None \<and>
      eqv s' (adv (contentLen (strKind b) b) s)"
  proof (cases "isSingle b")
    case True
    then show ?thesis using a adv_0 [of s] by (auto simp: strKind_def ahead_def contentLen_def intro: eqv_sym)
  next
    case False
    with a have "sizeAhead String b = 1 \<longleftrightarrow> length b = 1"
      using sizeAhead_one by (auto simp: strKind_def ahead_def)
    with False a ahead_readFull [of String b rest s] show ?thesis
      by (auto simp: strKind_def sbind_def contentLen_def isSingle_def)
  qed
qed

lemma gives_uint:
  assumes "n \<in> {8, 16, 32, 64}" "unat i < 2 ^ n"
  shows "gives (uintOf n) i (encStr (be_bytes (unat i)))"
  unfolding strKind(1) uintOf_def
proof (rule gives_KindOf [OF strKind(2)])
  fix s rest
  let ?b = "be_bytes (unat i)"
  assume a: "ahead (strKind ?b) ?b rest s"
  show "\<exists>s'. (case (strKind ?b, sizeAhead (strKind ?b) ?b) of (k, sz) \<Rightarrow> \<lambda>s.
     case k of
       Byte \<Rightarrow> if byteval s = 0 then (Inl ErrCanonInt, s)
               else (Inr (ucast (byteval s)), s\<lparr>kind := None\<rparr>)
     | String \<Rightarrow>
         if unat sz > n div 8 then (Inl ErrUintOverflow, s)
         else sbind (mapErr (\<lambda>e. if e = ErrCanonSize then ErrCanonInt else e) (readUint (unat sz)))
                (\<lambda>v s. if sz > 0 \<and> v < 128 then (Inl ErrCanonSize, s) else (Inr v, s)) s
     | List \<Rightarrow> (Inl ErrExpectedString, s)) s = (Inr i, s') \<and> kind s' = None \<and>
      eqv s' (adv (contentLen (strKind ?b) ?b) s)"
  proof (cases "isSingle ?b")
    case True
    with a have b: "?b = [byteval s]" "kind s = Some Byte" by (auto simp: strKind_def ahead_def)
    then have "unat i = unat (byteval s)" using be_val_be_bytes [of "unat i"] by simp
    then have i: "i = ucast (byteval s)" by (simp add: word_unat_eq_iff unat_ucast_byte)
    moreover have "byteval s \<noteq> 0" using b(1) \<open>unat i = unat (byteval s)\<close> by auto
    ultimately show ?thesis using True a adv_0 [of s]
      by (auto simp: strKind_def ahead_def contentLen_def intro: eqv_sym)
  next
    case False
    then have a': "ahead String ?b rest s" using a by (simp add: strKind_def)
    then have sz: "unat (sizeAhead String ?b) = length ?b"
      using unat_sizeAhead by (auto simp: ahead_def contentLen_def)
    have "256 ^ (n div 8) = (2 :: nat) ^ n" using assms(1) by auto
    then have len: "length ?b \<le> n div 8" using assms(2) by (intro length_be_bytes_le) simp
    then have len8: "length ?b \<le> 8" using assms(1) by auto
    show ?thesis
    proof (cases "i = 0")
      case True
      then show ?thesis using a' sz adv_0 [of s] False
        by (auto simp: strKind_def sbind_def mapErr_def readUint_def contentLen_def sizeAhead_def intro: eqv_sym)
    next
      case nz: False
      then have ne: "?b \<noteq> []" by (simp add: unat_eq_0)
      have "readUint (length ?b) s = (Inr i, (adv (length ?b) s)\<lparr>kind := None\<rparr>)"
        using readUint_content [OF ne len8 no_leading_zero_be_bytes, of s rest] a'
        by (simp add: ahead_def contentLen_def)
      moreover have "\<not> i < 128"
      proof
        assume "i < 128"
        then have u: "unat i < 128" by (simp add: word_less_nat_alt)
        with nz have "?b = [ucast i]" by (simp add: be_bytes_nonzero unat_eq_0)
        with False u show False
          by (simp add: isSingle_def word_less_nat_alt unsigned_ucast_eq take_bit_eq_mod)
      qed
      ultimately show ?thesis
        using False len sz by (simp add: strKind_def sbind_def mapErr_def contentLen_def)
    qed
  qed
qed

end
