(* ===== verification/RlpRoundtrip.thy ===== *)
theory RlpRoundtrip
  imports RlpDecode
begin

text \<open>
  What the decoder of \<open>rlp/decode.go\<close> gives on the bytes of the encoder: the operations of the
  stream on one encoded value, the loops over lists, and the round trip for every type.
\<close>

lemma gives_bool: "gives BoolOf b (encStr (if b then [1] else []))"
proof -
  have enc: "be_bytes (unat (if b then 1 else 0 :: u64)) = (if b then [1] else [])"
    by (simp add: be_bytes_nonzero)
  have "gives (uintOf 8) (if b then 1 else 0) (encStr (if b then [1] else []))"
    using gives_uint [of 8 "if b then 1 else 0"] unfolding enc by simp
  then show ?thesis
    unfolding gives_def BoolOf_def sbind_def by (cases b) fastforce+
qed

lemma gives_bigInt:
  assumes "0 \<le> i"
  shows "gives decodeBigInt i (encStr (be_bytes (nat i)))"
proof -
  have "\<not> (length (be_bytes (nat i)) > 0 \<and> hd (be_bytes (nat i)) = 0)"
    by (cases "nat i = 0") (simp_all add: hd_be_bytes)
  then show ?thesis
    using gives_mapErr [OF gives_Bytes, of wrapStreamError "be_bytes (nat i)"] assms
    unfolding gives_def decodeBigInt_def sbind_def by fastforce
qed

lemma Uint_byte:
  assumes "ahead Byte c rest s" "c \<noteq> [0]"
  shows "Uint s = (Inr (ucast (hd c)), s\<lparr>kind := None\<rparr>)"
proof -
  from assms have "KindOf s = (Inr (Byte, 0), s)" "[byteval s] = c"
    by (auto simp: ahead_def KindOf_cached kindResult_def sizeAhead_def)
  with assms(2) show ?thesis by (auto simp: Uint_def uintOf_def sbind_def)
qed

lemma gives_byteArray:
  assumes "length b = n" "b \<noteq> [0]"
  shows "gives (decodeByteArray n) b (encStr b)"
  unfolding strKind(1) decodeByteArray_def
proof (rule gives_KindOf [OF strKind(2)])
  fix s rest
  assume a: "ahead (strKind b) b rest s"
  show "\<exists>s'. (case (strKind b, sizeAhead (strKind b) b) of (k, sz) \<Rightarrow> \<lambda>s.
     case k of
       Byte \<Rightarrow>
         if n = 0 then (Inl TooLong, s)
         else if n > 1 then (Inl TooShort, s)
         else (case Uint s of
                 (Inl e, s') \<Rightarrow> (Inr [0], s')
               | (Inr bv, s') \<Rightarrow> (Inr [ucast bv], s'))
     | String \<Rightarrow>
         if n < unat sz then (Inl TooLong, s)
         else if n > unat sz then (Inl TooShort, s)
         else sbind (readFull sz)
           (\<lambda>b s. if sz = 1 \<and> hd b < 128 then (Inl (wrapStreamError ErrCanonSize), s) else (Inr b, s)) s
     | List \<Rightarrow> (Inl (wrapStreamError ErrExpectedString), s)) s = (Inr b, s') \<and> kind s' = None \<and>
      eqv s' (adv (contentLen (strKind b) b) s)"
  proof (cases "isSingle b")
    case True
    then obtain x where b: "b = [x]" by (auto simp: isSingle_def length_Suc_conv)
    have "(ucast (ucast x :: u64) :: u8) = x" by (rule bit_word_eqI) (simp add: bit_simps)
    with True b assms a Uint_byte [of b rest s] adv_0 [of s] show ?thesis
      by (auto simp: strKind_def contentLen_def intro: eqv_sym)
  next
    case False
    then have a': "ahead String b rest s" using a by (simp add: strKind_def)
    then have "sizeAhead String b = 1 \<longleftrightarrow> length b = 1" "unat (sizeAhead String b) = length b"
      using sizeAhead_one unat_sizeAhead by (auto simp: ahead_def contentLen_def)
    with False assms ahead_readFull [OF a'] show ?thesis
      by (auto simp: strKind_def sbind_def contentLen_def isSingle_def)
  qed
qed

lemma gives_Raw:
  assumes "kindFits k c" "length (encKind k c) < 2 ^ 63"
  shows "gives Raw (encKind k c) (encKind k c)"
  unfolding Raw_def
proof (rule gives_KindOf [OF assms(1)])
  fix s rest
  assume a: "ahead k c rest s"
  show "\<exists>s'. (case (k, sizeAhead k c) of (k, sz) \<Rightarrow> \<lambda>s.
     if k = Byte then (Inr [byteval s], s\<lparr>kind := None\<rparr>)
     else if unat sz + 9 \<ge> 2 ^ 64 then (Inl (RlpPanic IndexOutOfRange), s)
     else sbind (readFull sz)
       (\<lambda>b s. (Inr ((if k = String then puthead 0x80 0xB7 sz else puthead 0xC0 0xF7 sz) @ b), s)) s) s =
      (Inr (encKind k c), s') \<and> kind s' = None \<and> eqv s' (adv (contentLen k c) s)"
  proof (cases "k = Byte")
    case True
    with a assms(1) adv_0 [of s] show ?thesis
      by (auto simp: ahead_def contentLen_def encKind_def encStr_def kindFits_def isSingle_def intro: eqv_sym)
  next
    case False
    have len: "length c < 2 ^ 63"
      using assms encKind_length(1) [OF assms(1)] False by (simp add: contentLen_def)
    moreover have "unat (sizeAhead k c) = length c"
      using a False unat_sizeAhead by (auto simp: ahead_def contentLen_def)
    moreover have "(if k = String then puthead 0x80 0xB7 (sizeAhead k c) else puthead 0xC0 0xF7 (sizeAhead k c)) @ c = encKind k c"
      using False assms(1) len
      by (cases k) (auto simp: sizeAhead_def puthead_rlpHead encKind_def encStr_def encList_def kindFits_def isSingle_def)
    ultimately show ?thesis
      using False ahead_readFull [OF a False] by (auto simp: sbind_def contentLen_def)
  qed
qed

section \<open>Lists\<close>

definition dgives :: "(Stream \<Rightarrow> ((rlp_error + 'a) \<times> Stream) option) \<Rightarrow> 'a \<Rightarrow> bytes \<Rightarrow> bool" where
  "dgives d v b \<longleftrightarrow> (\<forall>s rest. kind s = None \<and> input s = b @ rest \<and> avail (length b) s \<longrightarrow>
     (\<exists>s'. d s = Some (Inr v, s') \<and> kind s' = None \<and> eqv s' (adv (length b) s)))"

lemma dgives_op: "gives f v b \<Longrightarrow> dgives (\<lambda>s. Some (f s)) v b"
  by (auto simp: gives_def dgives_def)

lemma dgivesD:
  assumes "dgives d v b" "kind s = None" "input s = b @ rest" "avail (length b) s"
  obtains s' where "d s = Some (Inr v, s')" "kind s' = None" "eqv s' (adv (length b) s)"
  using assms unfolding dgives_def by blast

definition eol :: "decoder \<Rightarrow> bool" where
  "eol d \<longleftrightarrow> (\<forall>s p st. kind s = None \<and> stack s = (p, p) # st \<longrightarrow>
     (\<exists>s'. d s = Some (Inl EOL, s') \<and> kind s' = None \<and> eqv s' s))"

text \<open>Entering and leaving a list.\<close>

lemma ListOf_enc:
  assumes "kind s = None" "input s = encList p @ rest" "avail (length (encList p)) s"
  shows "\<exists>s1. ListOf s = (Inr (word_of_nat (length p)), s1) \<and> kind s1 = None \<and> input s1 = p @ rest \<and>
     avail (length p) s1 \<and> stack s1 = (0, word_of_nat (length p)) # stack (adv (tagLen List p) s) \<and>
     limited s1 = limited s \<and> remaining s1 = remaining (adv (tagLen List p) s)"
proof -
  have enc: "encList p = encKind List p" "kindFits List p" by (simp_all add: encKind_def kindFits_def)
  obtain s1 where s1: "KindOf s = (Inr (List, sizeAhead List p), s1)" "ahead List p rest s1"
    "eqv s1 (adv (tagLen List p) s)"
    using KindOf_enc [OF assms(1) _ enc(2)] assms(2,3) enc(1) by metis
  have "unat (sizeAhead List p) = length p"
    using s1(2) unat_sizeAhead by (auto simp: ahead_def contentLen_def)
  with s1 show ?thesis
    by (auto simp: ListOf_def sbind_def ahead_def eqv_def avail_def contentLen_def sizeAhead_def)
qed

lemma ListEnd_enc:
  assumes "eqv s2 (adv (length p) s1)" "stack s1 = (0, word_of_nat (length p)) # stack (adv (tagLen List p) s)"
    and "limited s1 = limited s" "remaining s1 = remaining (adv (tagLen List p) s)"
    and "input s = encList p @ rest" "input s1 = p @ rest"
  shows "\<exists>s'. ListEnd s2 = (Inr (), s') \<and> kind s' = None \<and> eqv s' (adv (length (encList p)) s)"
proof -
  have len: "length (encList p) = tagLen List p + length p"
    using encKind_length(1) [of List p] by (simp add: encKind_def kindFits_def contentLen_def)
  have "stack s2 = (word_of_nat (length p), word_of_nat (length p)) # stack (adv (tagLen List p) s)"
    using assms(1,2) by (simp add: eqv_def)
  then show ?thesis
    using assms by (auto simp: ListEnd_def eqv_def adv_def len algebra_simps split: list.split)
qed

text \<open>The innermost list has exactly \<open>n\<close> bytes left.\<close>

definition innerLeft :: "nat \<Rightarrow> Stream \<Rightarrow> bool" where
  "innerLeft n s \<longleftrightarrow> (\<exists>p z st. stack s = (p, z) # st \<and> p + word_of_nat n = z)"

lemma innerLeft_adv: "innerLeft (n + m) s \<Longrightarrow> innerLeft m (adv n s)"
  by (auto simp: innerLeft_def add.assoc)

lemma innerLeft_eqv: "eqv a b \<Longrightarrow> innerLeft n a = innerLeft n b"
  by (simp add: innerLeft_def eqv_def)

lemma eol_at_end: "eol d \<Longrightarrow> kind s = None \<Longrightarrow> innerLeft 0 s \<Longrightarrow>
    \<exists>s'. d s = Some (Inl EOL, s') \<and> kind s' = None \<and> eqv s' s"
  unfolding eol_def innerLeft_def by auto

lemma dgives_step:
  assumes "dgives d v b" "kind s = None" "input s = b @ c @ rest" "avail (length b + length c) s"
    and "innerLeft (length b + length c) s"
  obtains s' where "d s = Some (Inr v, s')" "kind s' = None" "eqv s' (adv (length b) s)"
    "input s' = c @ rest" "avail (length c) s'" "innerLeft (length c) s'"
proof -
  obtain s' where s': "d s = Some (Inr v, s')" "kind s' = None" "eqv s' (adv (length b) s)"
    using dgivesD [OF assms(1,2,3)] assms(4) avail_mono by (metis le_add1)
  moreover have "input s' = c @ rest" using s'(3) assms(3) by (simp add: eqv_def)
  moreover have "avail (length c) s'" using avail_adv [OF assms(4)] eqv_avail [OF s'(3)] by simp
  moreover have "innerLeft (length c) s'" using innerLeft_adv [OF assms(5)] innerLeft_eqv [OF s'(3)] by simp
  ultimately show ?thesis using that by blast
qed

lemma eqv_adv_step: "eqv s' (adv m s) \<Longrightarrow> eqv s'' (adv n s') \<Longrightarrow> eqv s'' (adv (m + n) s)"
  using eqv_trans eqv_adv by (metis adv_adv)

lemma sliceElems_give:
  assumes "list_all2 (dgives d) vs bs" "eol d" "length vs < fuel"
    and "kind s = None" "input s = concat bs @ rest" "avail (length (concat bs)) s"
    and "innerLeft (length (concat bs)) s"
  shows "\<exists>s'. decodeSliceElems fuel d s = Some (Inr vs, s') \<and> kind s' = None \<and>
              eqv s' (adv (length (concat bs)) s)"
  using assms(1,3-)
proof (induction vs bs arbitrary: s fuel rule: list_all2_induct)
  case Nil
  then obtain f where "fuel = Suc f" by (cases fuel) auto
  moreover obtain s' where "d s = Some (Inl EOL, s')" "kind s' = None" "eqv s' s"
    using eol_at_end [OF assms(2)] Nil by auto
  ultimately show ?case using adv_0 [of s] by (auto intro: eqv_trans eqv_sym)
next
  case (Cons v vs b bs)
  then obtain f where f: "fuel = Suc f" "length vs < f" by (cases fuel) auto
  obtain s1 where s1: "d s = Some (Inr v, s1)" "kind s1 = None" "eqv s1 (adv (length b) s)"
    "input s1 = concat bs @ rest" "avail (length (concat bs)) s1" "innerLeft (length (concat bs)) s1"
    using dgives_step [OF Cons(1), of s "concat bs" rest] Cons.prems by auto
  from Cons.IH [OF f(2) s1(2,4,5,6)] obtain s' where
    "decodeSliceElems f d s1 = Some (Inr vs, s')" "kind s' = None" "eqv s' (adv (length (concat bs)) s1)" by blast
  with s1 f show ?case by (auto simp: thenOp_def intro: eqv_adv_step)
qed

lemma arrayElems_give:
  assumes "list_all2 (dgives d) vs bs"
    and "kind s = None" "input s = concat bs @ rest" "avail (length (concat bs)) s"
    and "innerLeft (length (concat bs)) s"
  shows "\<exists>s'. decodeArrayElems (length vs) d s = Some (Inr vs, s') \<and> kind s' = None \<and>
              eqv s' (adv (length (concat bs)) s)"
  using assms
proof (induction vs bs arbitrary: s rule: list_all2_induct)
  case Nil
  then show ?case using adv_0 [of s] by (auto intro: eqv_sym)
next
  case (Cons v vs b bs)
  obtain s1 where s1: "d s = Some (Inr v, s1)" "kind s1 = None" "eqv s1 (adv (length b) s)"
    "input s1 = concat bs @ rest" "avail (length (concat bs)) s1" "innerLeft (length (concat bs)) s1"
    using dgives_step [OF Cons(1), of s "concat bs" rest] Cons.prems by auto
  from Cons.IH [OF s1(2,4,5,6)] obtain s' where
    "decodeArrayElems (length vs) d s1 = Some (Inr vs, s')" "kind s' = None"
    "eqv s' (adv (length (concat bs)) s1)" by blast
  with s1 show ?case by (auto simp: thenOp_def intro: eqv_adv_step)
qed

text \<open>A decoder that reads the content of a list to its end, between \<open>List\<close> and \<open>ListEnd\<close>.\<close>

definition fills :: "(Stream \<Rightarrow> ((rlp_error + rval list) \<times> Stream) option) \<Rightarrow> rval list \<Rightarrow> bytes \<Rightarrow> bool" where
  "fills d vs p \<longleftrightarrow> (\<forall>s rest. kind s = None \<and> input s = p @ rest \<and> avail (length p) s \<and> innerLeft (length p) s \<longrightarrow>
     (\<exists>s'. d s = Some (Inr vs, s') \<and> kind s' = None \<and> eqv s' (adv (length p) s)))"

lemma inside_list:
  assumes "fills d vs p" "kind s = None" "input s = encList p @ rest" "avail (length (encList p)) s"
  obtains s1 s2 s3 where "ListOf s = (Inr (word_of_nat (length p)), s1)" "d s1 = Some (Inr vs, s2)"
    "ListEnd s2 = (Inr (), s3)" "kind s3 = None" "eqv s3 (adv (length (encList p)) s)" "length p < 2 ^ 64"
    "p = [] \<Longrightarrow> \<exists>s3. ListEnd s1 = (Inr (), s3) \<and> kind s3 = None \<and> eqv s3 (adv (length (encList p)) s)"
proof -
  obtain s1 where s1: "ListOf s = (Inr (word_of_nat (length p)), s1)" "kind s1 = None" "input s1 = p @ rest"
    "avail (length p) s1" "stack s1 = (0, word_of_nat (length p)) # stack (adv (tagLen List p) s)"
    "limited s1 = limited s" "remaining s1 = remaining (adv (tagLen List p) s)"
    using ListOf_enc [OF assms(2-4)] by blast
  have "innerLeft (length p) s1" using s1(5) by (simp add: innerLeft_def)
  with assms(1) s1(2-4) obtain s2 where s2: "d s1 = Some (Inr vs, s2)" "kind s2 = None" "eqv s2 (adv (length p) s1)"
    unfolding fills_def by blast
  note fin = ListEnd_enc [OF _ s1(5,6,7) assms(3) s1(3)]
  obtain s3 where s3: "ListEnd s2 = (Inr (), s3)" "kind s3 = None" "eqv s3 (adv (length (encList p)) s)"
    using fin [OF s2(3)] by blast
  have lt: "length p < 2 ^ 64" using s1(4) by (simp add: avail_def)
  have "eqv s1 (adv (length p) s1)" if "p = []" using adv_0 [of s1] that by (auto intro: eqv_sym)
  from that [OF s1(1) s2(1) s3 lt fin [OF this]] show ?thesis by blast
qed

lemma listEndWith_ok: "ListEnd s = (Inr (), s') \<Longrightarrow> listEndWith v s = (Inr v, s')"
  by (simp add: listEndWith_def sbind_def)

lemma dgives_listSlice:
  assumes "fills (decodeSliceElems fuel d) vs p" "p = [] \<Longrightarrow> vs = []"
  shows "dgives (decodeListSlice fuel d) (VList vs) (encList p)"
  unfolding dgives_def
proof (intro allI impI, elim conjE)
  fix s rest
  assume a: "kind s = None" "input s = encList p @ rest" "avail (length (encList p)) s"
  show "\<exists>s'. decodeListSlice fuel d s = Some (Inr (VList vs), s') \<and> kind s' = None \<and>
      eqv s' (adv (length (encList p)) s)"
  proof (rule inside_list [OF assms(1) a])
    fix s1 s2 s3
    assume l: "ListOf s = (Inr (word_of_nat (length p)), s1)" "decodeSliceElems fuel d s1 = Some (Inr vs, s2)"
      "ListEnd s2 = (Inr (), s3)" "kind s3 = None" "eqv s3 (adv (length (encList p)) s)" "length p < 2 ^ 64"
      "p = [] \<Longrightarrow> \<exists>s3. ListEnd s1 = (Inr (), s3) \<and> kind s3 = None \<and> eqv s3 (adv (length (encList p)) s)"
    have zero: "(word_of_nat (length p) :: u64) = 0 \<longleftrightarrow> p = []"
      using l(6) by (simp add: word_unat_eq_iff unat_of_nat)
    show ?thesis
    proof (cases "p = []")
      case True
      with l(1,7) assms(2) show ?thesis
        by (fastforce simp: decodeListSlice_def andThen_def mapErr_def listEndWith_ok)
    next
      case False
      with l zero show ?thesis
        by (simp add: decodeListSlice_def andThen_def mapErr_def thenOp_def listEndWith_ok)
    qed
  qed
qed

lemma dgives_listArray:
  assumes "fills (decodeArrayElems n d) vs p" "length vs = n"
  shows "dgives (decodeListArray n d) (VList vs) (encList p)"
  unfolding dgives_def
proof (intro allI impI, elim conjE)
  fix s rest
  assume a: "kind s = None" "input s = encList p @ rest" "avail (length (encList p)) s"
  show "\<exists>s'. decodeListArray n d s = Some (Inr (VList vs), s') \<and> kind s' = None \<and>
      eqv s' (adv (length (encList p)) s)"
    by (rule inside_list [OF assms(1) a])
      (simp add: decodeListArray_def andThen_def mapErr_def thenOp_def listEndWith_ok assms(2))
qed

lemma dgives_struct:
  assumes "fills (decodeFields dec ts) vs p"
  shows "dgives (decodeStruct dec ts) (VList vs) (encList p)"
  unfolding dgives_def
proof (intro allI impI, elim conjE)
  fix s rest
  assume a: "kind s = None" "input s = encList p @ rest" "avail (length (encList p)) s"
  show "\<exists>s'. decodeStruct dec ts s = Some (Inr (VList vs), s') \<and> kind s' = None \<and>
      eqv s' (adv (length (encList p)) s)"
    by (rule inside_list [OF assms(1) a])
      (simp add: decodeStruct_def andThen_def mapErr_def thenOp_def listEndWith_ok)
qed

lemma fills_Cons:
  assumes "dgives (dec t) v b" "fills (decodeFields dec ts) vs p"
  shows "fills (decodeFields dec (t # ts)) (v # vs) (b @ p)"
  unfolding fills_def
proof (intro allI impI, elim conjE)
  fix s rest
  assume "kind s = None" "input s = (b @ p) @ rest" "avail (length (b @ p)) s" "innerLeft (length (b @ p)) s"
  then obtain s1 where s1: "dec t s = Some (Inr v, s1)" "kind s1 = None" "eqv s1 (adv (length b) s)"
    "input s1 = p @ rest" "avail (length p) s1" "innerLeft (length p) s1"
    using dgives_step [OF assms(1), of s p rest] by auto
  with assms(2) obtain s' where "decodeFields dec ts s1 = Some (Inr vs, s')" "kind s' = None" "eqv s' (adv (length p) s1)"
    unfolding fills_def by blast
  with s1 show "\<exists>s'. decodeFields dec (t # ts) s = Some (Inr (v # vs), s') \<and> kind s' = None \<and>
      eqv s' (adv (length (b @ p)) s)"
    by (auto simp: thenOp_def intro: eqv_adv_step)
qed

section \<open>Decodable values\<close>

text \<open>
  The values a type's decoder can return: pointers are set (a nil pointer is read back only
  through the tag \<open>nil\<close>), an interface holds bytes or a list of interfaces, a raw value is one
  encoded value. The byte array of length one that holds zero is left out: see below.
\<close>

fun okElem :: "rtype \<Rightarrow> bool" where
  "okElem (TTail t) = False"
| "okElem (TPtr t) = okElem t"
| "okElem (TOptPtr t) = okElem t"
| "okElem t = True"

definition isItem :: "bytes \<Rightarrow> bool" where
  "isItem b \<longleftrightarrow> (case Split b of Inl e \<Rightarrow> False | Inr (k, c, rest) \<Rightarrow> rest = [])"

definition isEmptyItem :: "bytes \<Rightarrow> bool" where
  "isEmptyItem b \<longleftrightarrow> b = [0x80] \<or> b = [0xC0]"

fun dok :: "rtype \<Rightarrow> rval \<Rightarrow> bool"
  and dokElems :: "rtype \<Rightarrow> rval list \<Rightarrow> bool"
  and dokFields :: "rtype list \<Rightarrow> rval list \<Rightarrow> bool" where
  "dok t (VBytes b) = (case t of TString \<Rightarrow> True | TBytes \<Rightarrow> True | TRaw \<Rightarrow> isItem b
                       | TByteArray n \<Rightarrow> length b = n \<and> b \<noteq> [0] | _ \<Rightarrow> False)"
| "dok t (VUint i) = (case t of TUint n \<Rightarrow> n \<in> {8, 16, 32, 64} \<and> unat i < 2 ^ n | _ \<Rightarrow> False)"
| "dok t (VBool b) = (t = TBool)"
| "dok t (VBig p) = (t = TBig \<and> (case p of None \<Rightarrow> False | Some i \<Rightarrow> 0 \<le> i))"
| "dok t (VList vs) =
     (case t of
        TSlice et \<Rightarrow> okElem et \<and> dokElems et vs
      | TArray n et \<Rightarrow> okElem et \<and> length vs = n \<and> dokElems et vs
      | TTail et \<Rightarrow> okElem et \<and> dokElems et vs
      | TStruct ts \<Rightarrow> dokFields ts vs
      | _ \<Rightarrow> False)"
| "dok t (VPtr None) = (case t of TOptPtr et \<Rightarrow> okElem et \<and> encNil et \<noteq> [] | _ \<Rightarrow> False)"
| "dok t (VPtr (Some v)) =
     (case t of TPtr et \<Rightarrow> okElem et \<and> dok et v
      | TOptPtr et \<Rightarrow> okElem et \<and> dok et v \<and> \<not> isEmptyItem (encv et v) | _ \<Rightarrow> False)"
| "dok t (VIface None) = False"
| "dok t (VIface (Some (et, v))) =
     (t = TIface \<and> (et = TBytes \<or> et = TSlice TIface) \<and> dok et v)"
| "dokElems t [] = True"
| "dokElems t (v # vs) = (dok t v \<and> dokElems t vs)"
| "dokFields ts [] = (ts = [])"
| "dokFields ts (v # vs) =
     (case ts of [] \<Rightarrow> False | t # ts' \<Rightarrow> dok t v \<and> (okElem t \<or> ts' = []) \<and> dokFields ts' vs)"

lemma isItem_iff: "length b < 2 ^ 64 \<Longrightarrow> isItem b \<longleftrightarrow> (\<exists>k c. kindFits k c \<and> b = encKind k c)"
proof
  assume b: "length b < 2 ^ 64" "isItem b"
  then obtain k c where "Split b = Inr (k, c, [])" by (auto simp: isItem_def split: sum.splits prod.splits)
  with Split_canonical [OF b(1)] show "\<exists>k c. kindFits k c \<and> b = encKind k c" by fastforce
next
  assume "length b < 2 ^ 64" "\<exists>k c. kindFits k c \<and> b = encKind k c"
  then obtain k c where "kindFits k c" "b = encKind k c" by blast
  with Split_encKind [of k c "[]"] \<open>length b < 2 ^ 64\<close> show "isItem b" by (simp add: isItem_def)
qed

lemma item_str: "\<exists>k c. kindFits k c \<and> encStr b = encKind k c"
  using strKind [of b] by blast

lemma item_list: "\<exists>k c. kindFits k c \<and> encList p = encKind k c"
  by (intro exI [of _ List] exI [of _ p]) (simp add: kindFits_def encKind_def)

lemma dok_item:
  assumes "dok t v" "okElem t" "length (encv t v) < 2 ^ 64"
  shows "\<exists>k c. kindFits k c \<and> encv t v = encKind k c"
  using assms
proof (induction t v rule: encv_encElems_encFields.induct(1) [where Q = "\<lambda>_ _. True" and R = "\<lambda>_ _. True"])
  case (1 t b)
  then show ?case by (auto simp: item_str isItem_iff split: rtype.splits)
next
  case (6 t)
  then obtain et where t: "t = TOptPtr et" "okElem et" "encNil et \<noteq> []" by (auto split: rtype.splits)
  have "\<exists>k c. kindFits k c \<and> encNil et = encKind k c"
    using t(2,3) by (induction et) (auto simp: item_list item_str simp del: encStr_Nil encList_Nil)
  with t show ?case by simp
qed (auto simp: item_str item_list split: rtype.splits)

section \<open>Reading the kind twice\<close>

definition peeks :: "(Stream \<Rightarrow> 'a) \<Rightarrow> bool" where
  "peeks f \<longleftrightarrow> (\<forall>s s' r. KindOf s = (Inr r, s') \<longrightarrow> f s' = f s)"

lemma peeksD: "peeks f \<Longrightarrow> KindOf s = (Inr r, s') \<Longrightarrow> f s' = f s"
  unfolding peeks_def by blast

lemma peeks_KindOf: "peeks (sbind KindOf g)"
  by (auto simp: peeks_def sbind_def dest: KindOf_again)

lemma peeks_sbind: "peeks f \<Longrightarrow> peeks (sbind f g)" and peeks_mapErr: "peeks f \<Longrightarrow> peeks (mapErr h f)"
  and peeks_Some: "peeks f \<Longrightarrow> peeks (\<lambda>s. Some (f s))"
  by (simp_all add: peeks_def sbind_def mapErr_def)

lemma peeks_ops: "peeks Bytes" "peeks Raw" "peeks (uintOf n)" "peeks BoolOf" "peeks ListOf"
  "peeks decodeBigInt" "peeks (decodeByteArray n)"
  unfolding Bytes_def Raw_def uintOf_def BoolOf_def ListOf_def decodeBigInt_def decodeByteArray_def
  by (intro peeks_KindOf peeks_sbind peeks_mapErr)+

lemma peeks_simple: "peeks (decodeSimple TRaw)" "peeks (decodeSimple (TUint n))" "peeks (decodeSimple TBool)"
  "peeks (decodeSimple TBig)" "peeks (decodeSimple TString)" "peeks (decodeSimple TBytes)"
  "peeks (decodeSimple (TByteArray n))"
  unfolding decodeSimple_def rtype.simps by (intro peeks_sbind peeks_mapErr peeks_ops)+

lemma peeks_decodeVal: "peeks (decodeVal fuel t)"
proof (induction fuel arbitrary: t)
  case (Suc fuel)
  have again: "KindOf s = (Inr r, s') \<Longrightarrow> KindOf s' = KindOf s" for s r s'
    using KindOf_again by simp
  have elems: "peeks (decodeSliceElems f (decodeVal fuel et))" for f et
    using Suc [of et] by (cases f) (auto simp: peeks_def)
  have aelems: "KindOf s = (Inr r, s') \<Longrightarrow> andThen (mapErr h ListOf) s' g = andThen (mapErr h ListOf) s g" for s r s' h and g :: "u64 \<Rightarrow> Stream \<Rightarrow> ((rlp_error + rval) \<times> Stream) option"
    by (simp add: andThen_def peeksD [OF peeks_mapErr [OF peeks_ops(5)]])
  have "decodeVal (Suc fuel) t s' = decodeVal (Suc fuel) t s" if k: "KindOf s = (Inr r, s')" for s r s'
    using peeksD [OF elems k] peeksD [OF Suc k] aelems [OF k] again [OF k] peeks_simple [THEN peeksD, OF k]
    by (cases t) (simp_all add: decodeStep_def decodeListSlice_def decodeListArray_def decodeStruct_def
        decodePtr_def decodeOptionalPtr_def decodeInterface_def)
  then show ?case unfolding peeks_def by blast
qed (simp add: peeks_def)

lemma eol_KindOf:
  assumes "kind s = None" "stack s = (p, p) # st"
  shows "KindOf s = (Inl EOL, s\<lparr>kinderr := None\<rparr>)"
  using assms by (simp add: KindOf_def)

lemma wrap_EOL [simp]: "wrapStreamError EOL = EOL"
  by (simp add: wrapStreamError_def)

lemma eol_decodeVal: "okElem t \<Longrightarrow> \<exists>N. \<forall>fuel\<ge>N. eol (decodeVal fuel t)"
proof (induction t)
  case (TPtr t)
  then obtain N where "\<forall>fuel\<ge>N. eol (decodeVal fuel t)" by auto
  then have "eol (decodeVal fuel (TPtr t))" if "Suc N \<le> fuel" for fuel
    using that by (cases fuel) (auto simp: eol_def decodeStep_def decodePtr_def thenOp_def, fastforce)
  then show ?case by blast
qed (auto simp: eol_def decodeStep_def decodeSimple_def decodeListSlice_def decodeListArray_def decodeStruct_def
    decodeOptionalPtr_def decodeInterface_def andThen_def mapErr_def sbind_def ListOf_def Raw_def uintOf_def BoolOf_def
    Bytes_def decodeBigInt_def decodeByteArray_def eol_KindOf Suc_le_D
    intro!: exI [of _ "Suc 0"] dest!: Suc_le_D)

section \<open>Decoding an encoded value\<close>

abbreviation enough :: "(nat \<Rightarrow> bool) \<Rightarrow> bool" where
  "enough P \<equiv> eventually P sequentially"

lemma enough_step:
  "enough (\<lambda>f. Q (decodeStep f (decodeVal f) t)) \<Longrightarrow> enough (\<lambda>f. Q (decodeVal f t))"
  using eventually_sequentially_Suc [of "\<lambda>f. Q (decodeVal f t)"] by simp

lemma enough_eol: "okElem t \<Longrightarrow> enough (\<lambda>f. eol (decodeVal f t))"
  using eol_decodeVal by (simp add: eventually_sequentially)

lemma enough_less: "enough (\<lambda>f. n < f)"
  by (auto simp: eventually_sequentially intro: exI [of _ "Suc n"])

lemma encElems_concat: "encElems t vs = concat (map (encv t) vs)"
  by (induction vs) auto

lemma enough_slice:
  assumes "okElem t" "enough (\<lambda>f. list_all2 (dgives (decodeVal f t)) vs (map (encv t) vs))"
  shows "enough (\<lambda>f. fills (decodeSliceElems f (decodeVal f t)) vs (encElems t vs))"
  using assms(2) enough_eol [OF assms(1)] enough_less [of "length vs"]
  by eventually_elim (auto simp: fills_def encElems_concat intro: sliceElems_give)

lemma encElems_nonempty:
  assumes "okElem t" "dokElems t vs" "encElems t vs = []"
  shows "vs = []"
proof (cases vs)
  case (Cons v vs')
  with assms have "dok t v" "encv t v = []" by auto
  with dok_item [of t v] assms(1) encKind_length(2) show ?thesis by fastforce
qed

lemma enough_listSlice:
  assumes "okElem t" "dokElems t vs" "enough (\<lambda>f. list_all2 (dgives (decodeVal f t)) vs (map (encv t) vs))"
  shows "enough (\<lambda>f. dgives (decodeListSlice f (decodeVal f t)) (VList vs) (encList (encElems t vs)))"
  using enough_slice [OF assms(1,3)]
  by eventually_elim (rule dgives_listSlice, assumption, rule encElems_nonempty [OF assms(1,2)])

lemma enough_listArray:
  assumes "enough (\<lambda>f. list_all2 (dgives (decodeVal f t)) vs (map (encv t) vs))"
  shows "enough (\<lambda>f. dgives (decodeListArray (length vs) (decodeVal f t)) (VList vs) (encList (encElems t vs)))"
  using assms
  by eventually_elim (rule dgives_listArray, auto simp: fills_def encElems_concat intro: arrayElems_give)

lemma dgives_ptr: "dgives d v b \<Longrightarrow> dgives (decodePtr d) (VPtr (Some v)) b"
  unfolding dgives_def decodePtr_def thenOp_def by fastforce

text \<open>A set pointer with the tag \<open>nil\<close>, and an interface: the kind is read first.\<close>

lemma dgives_peek:
  assumes "dgives d v b" "peeks d" "kindFits k c" "b = encKind k c"
    and "\<And>s s'. KindOf s = (Inr (k, sizeAhead k c), s') \<Longrightarrow> d' s = thenOp (d s') (\<lambda>v s. (Inr (g v), s))"
  shows "dgives d' (g v) b"
  unfolding dgives_def
proof (intro allI impI, elim conjE)
  fix s rest
  assume a: "kind s = None" "input s = b @ rest" "avail (length b) s"
  then obtain s1 where s1: "KindOf s = (Inr (k, sizeAhead k c), s1)"
    using KindOf_enc [of s k c rest] assms(3,4) by auto
  obtain s' where "d s = Some (Inr v, s')" "kind s' = None" "eqv s' (adv (length b) s)"
    using dgivesD [OF assms(1) a] by blast
  moreover have "d s1 = d s" by (rule peeksD [OF assms(2) s1])
  ultimately show "\<exists>s'. d' s = Some (Inr (g v), s') \<and> kind s' = None \<and> eqv s' (adv (length b) s)"
    using assms(5) [OF s1] by (simp add: thenOp_def)
qed

lemma sizeAhead_zero:
  assumes "length c < 2 ^ 64" "k \<noteq> Byte" "kindFits k c" "sizeAhead k c = 0"
  shows "isEmptyItem (encKind k c)"
  using assms by (auto simp: sizeAhead_def isEmptyItem_def encKind_def kindFits_def word_unat_eq_iff unat_of_nat split: if_splits)

lemma dgives_optPtr_set:
  assumes "dgives (decodeVal f t) v b" "kindFits k c" "b = encKind k c" "\<not> isEmptyItem b" "length b < 2 ^ 64"
  shows "dgives (decodeOptionalPtr (decodeVal f t)) (VPtr (Some v)) b"
proof (rule dgives_peek [OF assms(1) peeks_decodeVal assms(2,3), where g = "\<lambda>v. VPtr (Some v)"])
  fix s s'
  assume k: "KindOf s = (Inr (k, sizeAhead k c), s')"
  have "length c < 2 ^ 64"
    using assms(3,5) by (auto simp: encKind_def encStr_def encList_def split: if_splits)
  with sizeAhead_zero [of c k] assms(2,3,4) have "\<not> (sizeAhead k c = 0 \<and> k \<noteq> Byte)" by blast
  with k show "decodeOptionalPtr (decodeVal f t) s = thenOp (decodeVal f t s') (\<lambda>v s. (Inr (VPtr (Some v)), s))"
    by (auto simp: decodeOptionalPtr_def)
qed

lemma dgives_optPtr_nil:
  assumes "b = encStr [] \<or> b = encList []"
  shows "dgives (decodeOptionalPtr d) (VPtr None) b"
  unfolding dgives_def
proof (intro allI impI, elim conjE)
  fix s rest
  assume a: "kind s = None" "input s = b @ rest" "avail (length b) s"
  obtain k where k: "b = encKind k []" "kindFits k []" "k \<noteq> Byte"
    using assms that [of String] that [of List]
    by (elim disjE) (simp_all add: isSingle_def encKind_def kindFits_def del: encStr_Nil encList_Nil)
  then obtain s1 where s1: "KindOf s = (Inr (k, sizeAhead k []), s1)" "eqv s1 (adv (tagLen k []) s)"
    using KindOf_enc [of s k "[]" rest] a(1) a(2,3) [unfolded k(1)] by blast
  have "tagLen k [] = length b" using encKind_length(1) [OF k(2)] k by (simp add: contentLen_def)
  with s1 k(3) show "\<exists>s'. decodeOptionalPtr d s = Some (Inr (VPtr None), s') \<and> kind s' = None \<and>
      eqv s' (adv (length b) s)"
    by (simp add: decodeOptionalPtr_def sizeAhead_def)
qed

lemma dgives_iface_bytes: "dgives (decodeInterface f d) (VIface (Some (TBytes, VBytes b))) (encStr b)"
proof (rule dgives_peek [OF dgives_op [OF gives_Bytes] peeks_Some [OF peeks_ops(1)] strKind(2,1),
      where g = "\<lambda>b. VIface (Some (TBytes, VBytes b))"])
  fix s s'
  assume "KindOf s = (Inr (strKind b, sizeAhead (strKind b) b), s')"
  then show "decodeInterface f d s = thenOp (Some (Bytes s')) (\<lambda>b s. (Inr (VIface (Some (TBytes, VBytes b))), s))"
    using strKind(3) [of b]
    by (auto simp: decodeInterface_def thenOp_def sbind_def split: sum.splits prod.splits)
qed

lemma peeks_listSlice: "peeks (decodeListSlice f d)"
  using peeksD [OF peeks_mapErr [OF peeks_ops(5)]]
  by (simp add: peeks_def decodeListSlice_def andThen_def)

lemma dgives_iface_list:
  assumes "dgives (decodeListSlice f d) v (encList p)"
  shows "dgives (decodeInterface f d) (VIface (Some (TSlice TIface, v))) (encList p)"
  by (rule dgives_peek [OF assms peeks_listSlice, where g = "\<lambda>v. VIface (Some (TSlice TIface, v))" and k = List and c = p])
    (simp_all add: kindFits_def encKind_def decodeInterface_def)

lemma fills_tail:
  assumes "fills (decodeSliceElems f (decodeVal f t)) vs p"
  shows "fills (decodeFields (decodeVal (Suc f)) [TTail t]) [VList vs] p"
  using assms unfolding fills_def by (fastforce simp: thenOp_def decodeStep_def)

lemma enough_simple:
  assumes "gives (decodeSimple t) v b" "\<And>f d. decodeStep f d t = (\<lambda>s. Some (decodeSimple t s))"
  shows "enough (\<lambda>f. dgives (decodeVal f t) v b)"
  by (rule enough_step) (simp add: assms dgives_op)

lemma gives_raw: "isItem b \<Longrightarrow> length b < 2 ^ 63 \<Longrightarrow> gives Raw b b"
  using gives_Raw isItem_iff [of b] by auto

lemma gives_simple:
  "dok t (VBytes b) \<Longrightarrow> length (encv t (VBytes b)) < 2 ^ 63 \<Longrightarrow> gives (decodeSimple t) (VBytes b) (encv t (VBytes b))"
  "dok t (VUint i) \<Longrightarrow> gives (decodeSimple t) (VUint i) (encv t (VUint i))"
  "dok t (VBool c) \<Longrightarrow> gives (decodeSimple t) (VBool c) (encv t (VBool c))"
  "dok t (VBig p) \<Longrightarrow> gives (decodeSimple t) (VBig p) (encv t (VBig p))"
  using gives_map [where g = "\<lambda>i. VBig (Some i)", OF gives_bigInt] gives_bool [of True] gives_bool [of False]
  by (auto simp: decodeSimple_def intro!: gives_map gives_mapErr gives_Bytes gives_uint gives_bool
      gives_byteArray gives_raw simp del: encStr_Nil split: rtype.splits option.splits)

lemma simple_step:
  "dok t (VBytes b) \<Longrightarrow> okElem t \<and> decodeStep f d t = (\<lambda>s. Some (decodeSimple t s))"
  "dok t (VUint i) \<Longrightarrow> okElem t \<and> decodeStep f d t = (\<lambda>s. Some (decodeSimple t s))"
  "dok t (VBool c) \<Longrightarrow> okElem t \<and> decodeStep f d t = (\<lambda>s. Some (decodeSimple t s))"
  "dok t (VBig p) \<Longrightarrow> okElem t \<and> decodeStep f d t = (\<lambda>s. Some (decodeSimple t s))"
  by (auto simp: decodeStep_def split: rtype.splits)

lemma enough_dgives:
  "enough (\<lambda>f. dgives (decodeStep f (decodeVal f) t) v b) \<longleftrightarrow> enough (\<lambda>f. dgives (decodeVal f t) v b)"
  using eventually_sequentially_Suc [of "\<lambda>f. dgives (decodeVal f t) v b"] by simp

lemma enough_fields:
  assumes "enough (\<lambda>f. dgives (decodeVal f t) v b)" "enough (\<lambda>f. fills (decodeFields (decodeVal f) ts) vs p)"
  shows "enough (\<lambda>f. fills (decodeFields (decodeVal f) (t # ts)) (v # vs) (b @ p))"
  using assms by eventually_elim (rule fills_Cons)

lemma dok_shape: "dok TBytes v \<Longrightarrow> \<exists>b. v = VBytes b" "dok (TSlice t) v \<Longrightarrow> \<exists>vs. v = VList vs"
  by (erule dok.elims(2); simp split: rtype.splits)+

lemma encNil_cases: "encNil t \<noteq> [] \<Longrightarrow> okElem t \<Longrightarrow> encNil t = encStr [] \<or> encNil t = encList []"
  by (induction t) simp_all

text \<open>Every decodable value is read back from its encoding, given enough fuel.\<close>

lemma decode_encoded:
  shows "dok t v \<Longrightarrow> length (encv t v) < 2 ^ 63 \<Longrightarrow>
      (if okElem t then enough (\<lambda>f. dgives (decodeVal f t) v (encv t v))
       else enough (\<lambda>f. fills (decodeFields (decodeVal f) [t]) [v] (encv t v)))"
    and "dokElems t vs \<Longrightarrow> length (encElems t vs) < 2 ^ 63 \<Longrightarrow> okElem t \<Longrightarrow>
      enough (\<lambda>f. list_all2 (dgives (decodeVal f t)) vs (map (encv t) vs))"
    and "dokFields ts vs \<Longrightarrow> length (encFields ts vs) < 2 ^ 63 \<Longrightarrow>
      enough (\<lambda>f. fills (decodeFields (decodeVal f) ts) vs (encFields ts vs))"
proof (induction t v and t vs and ts vs rule: encv_encElems_encFields.induct)
  case (1 t b)
  then show ?case using simple_step(1) [OF 1(1)] gives_simple(1) [OF 1] by (auto intro: enough_simple)
next
  case (2 t i)
  then show ?case using simple_step(2) [OF 2(1)] gives_simple(2) [OF 2(1)] by (auto intro: enough_simple)
next
  case (3 t b)
  then show ?case using simple_step(3) [OF 3(1)] gives_simple(3) [OF 3(1)] by (auto intro: enough_simple)
next
  case (4 t p)
  then show ?case using simple_step(4) [OF 4(1)] gives_simple(4) [OF 4(1)] by (auto intro: enough_simple)
next
  case (5 t vs)
  have len: "length p < 2 ^ 63" if "length (encList p) < 2 ^ 63" for p
    using that by (simp add: encList_def)
  from 5(5) consider et where "t = TSlice et" "okElem et" "dokElems et vs" | et where "t = TArray (length vs) et" "okElem et" "dokElems et vs"
    | et where "t = TTail et" "okElem et" "dokElems et vs" | ts where "t = TStruct ts" "dokFields ts vs"
    by (auto split: rtype.splits)
  then show ?case
  proof cases
    case 1
    with 5(1) [OF 1(1,3) len] 5(6) have "enough (\<lambda>f. dgives (decodeListSlice f (decodeVal f et)) (VList vs) (encList (encElems et vs)))"
      by (intro enough_listSlice) simp_all
    with 1 show ?thesis by (simp add: decodeStep_def enough_dgives [symmetric])
  next
    case 2
    with 5(2) [OF 2(1,3) len] 5(6) have "enough (\<lambda>f. dgives (decodeListArray (length vs) (decodeVal f et)) (VList vs) (encList (encElems et vs)))"
      by (intro enough_listArray) simp_all
    with 2 show ?thesis by (simp add: decodeStep_def enough_dgives [symmetric])
  next
    case 3
    with 5(4) [OF 3(1,3)] 5(6) have "enough (\<lambda>f. fills (decodeSliceElems f (decodeVal f et)) vs (encElems et vs))"
      by (intro enough_slice) simp_all
    then have "enough (\<lambda>f. fills (decodeFields (decodeVal (Suc f)) [TTail et]) [VList vs] (encElems et vs))"
      by eventually_elim (rule fills_tail)
    with 3 show ?thesis
      using eventually_sequentially_Suc [of "\<lambda>f. fills (decodeFields (decodeVal f) [TTail et]) [VList vs] (encElems et vs)"]
      by simp
  next
    case 4
    with 5(3) [OF 4(1,2) len] 5(6) have "enough (\<lambda>f. fills (decodeFields (decodeVal f) ts) vs (encFields ts vs))" by simp
    then have "enough (\<lambda>f. dgives (decodeStruct (decodeVal f) ts) (VList vs) (encList (encFields ts vs)))"
      by eventually_elim (rule dgives_struct)
    with 4 show ?thesis by (simp add: decodeStep_def enough_dgives [symmetric])
  qed
next
  case (6 t)
  then obtain et where t: "t = TOptPtr et" "okElem et" "encNil et \<noteq> []" by (auto split: rtype.splits)
  then show ?case using dgives_optPtr_nil [OF encNil_cases [OF t(3,2)]] by (simp add: decodeStep_def enough_dgives [symmetric])
next
  case (7 t v)
  from 7(3) consider et where "t = TPtr et" "okElem et" "dok et v"
    | et where "t = TOptPtr et" "okElem et" "dok et v" "\<not> isEmptyItem (encv et v)" by (auto split: rtype.splits)
  then show ?case
  proof cases
    case 1
    with 7(1) [OF 1(1,3)] 7(4) have "enough (\<lambda>f. dgives (decodeVal f et) v (encv et v))" by simp
    then have "enough (\<lambda>f. dgives (decodePtr (decodeVal f et)) (VPtr (Some v)) (encv et v))"
      by eventually_elim (rule dgives_ptr)
    with 1 show ?thesis by (simp add: decodeStep_def enough_dgives [symmetric])
  next
    case 2
    have len: "length (encv et v) < 2 ^ 64" using 2 7(4) by simp
    obtain k c where kc: "kindFits k c" "encv et v = encKind k c" using dok_item [OF 2(3,2) len] by blast
    from 2 7(2) [OF 2(1,3)] 7(4) have "enough (\<lambda>f. dgives (decodeVal f et) v (encv et v))" by simp
    then have "enough (\<lambda>f. dgives (decodeOptionalPtr (decodeVal f et)) (VPtr (Some v)) (encv et v))"
      by eventually_elim (rule dgives_optPtr_set [OF _ kc 2(4) len])
    with 2 show ?thesis by (simp add: decodeStep_def enough_dgives [symmetric])
  qed
next
  case (8 t)
  then show ?case by simp
next
  case (9 t et v)
  then have t: "t = TIface" "dok et v" and et: "et = TBytes \<or> et = TSlice TIface" by auto
  from et show ?case
  proof
    assume "et = TBytes"
    with t obtain b where "et = TBytes" "v = VBytes b" using dok_shape(1) by blast
    with t show ?thesis by (simp add: decodeStep_def enough_dgives [symmetric] dgives_iface_bytes)
  next
    assume et: "et = TSlice TIface"
    with t obtain vs where vs: "v = VList vs" using dok_shape(2) by blast
    from et 9 t have "enough (\<lambda>f. dgives (decodeVal f (TSlice TIface)) v (encv (TSlice TIface) v))" by simp
    then have "enough (\<lambda>f. dgives (decodeListSlice f (decodeVal f TIface)) v (encList (encElems TIface vs)))"
      using vs by (simp add: decodeStep_def enough_dgives [symmetric])
    then have "enough (\<lambda>f. dgives (decodeInterface f (decodeVal f TIface)) (VIface (Some (TSlice TIface, v))) (encList (encElems TIface vs)))"
      by eventually_elim (rule dgives_iface_list)
    with t et vs show ?thesis by (simp add: decodeStep_def enough_dgives [symmetric])
  qed
next
  case (12 ts)
  then show ?case by (simp add: fills_def adv_0 eqv_sym)
next
  case (13 ts v vs)
  then obtain t ts' where ts: "ts = t # ts'" and ok: "dok t v" "okElem t \<or> ts' = []" "dokFields ts' vs"
    by (auto split: list.splits)
  have len: "length (encv t v) < 2 ^ 63" "length (encFields ts' vs) < 2 ^ 63" using 13(4) ts by simp_all
  show ?case
  proof (cases "okElem t")
    case True
    then show ?thesis using 13(1) [OF ts ok(1) len(1)] 13(2) [OF ts ok(3) len(2)] ts enough_fields [of t v "encv t v" ts' vs "encFields ts' vs"] by (simp del: decodeFields.simps)
  next
    case False
    with ok have "ts' = []" "vs = []" by (cases vs; simp)+
    with False show ?thesis using 13(1) [OF ts ok(1) len(1)] ts by (simp del: decodeFields.simps)
  qed
next
  case (10 t)
  then show ?case by simp
next
  case (11 t v vs)
  then have "enough (\<lambda>f. dgives (decodeVal f t) v (encv t v))"
    "enough (\<lambda>f. list_all2 (dgives (decodeVal f t)) vs (map (encv t) vs))" by simp_all
  then show ?case by eventually_elim simp
qed

lemma dok_wt:
  "dok t v \<Longrightarrow> wt t v" "dokElems t vs \<Longrightarrow> wtElems t vs" "dokFields ts vs \<Longrightarrow> wtFields ts vs"
  by (induction t v and t vs and ts vs rule: encv_encElems_encFields.induct)
    (auto split: rtype.splits list.splits option.splits)

lemma DecodeBytes_gives:
  assumes "dgives (decodeVal fuel t) v b" "b \<noteq> []" "length b < 2 ^ 64"
  shows "DecodeBytes fuel t b = Some (Inr v)"
proof -
  let ?s = "NewStream b (word_of_nat (length b))"
  have "unat (word_of_nat (length b) :: u64) = length b" using assms(3) by (simp add: unat_of_nat)
  then have "kind ?s = None" "input ?s = b @ []" "avail (length b) ?s"
    using assms by (simp_all add: NewStream_def Reset_def zeroStream_def avail_def)
  with assms(1) obtain s' where "decodeVal fuel t ?s = Some (Inr v, s')" "eqv s' (adv (length b) ?s)"
    by (rule dgivesD)
  then show ?thesis by (simp add: DecodeBytes_def eqv_def NewStream_def Reset_def)
qed


definition exTx :: rtype where
  "exTx = TStruct [TUint 64, TBig, TOptPtr (TByteArray 2), TBytes, TTail TIface]"

definition exTxValue :: rval where
  "exTxValue = VList [VUint 1024, VBig (Some 300), VPtr None, VBytes [7],
                      VList [VIface (Some (TBytes, VBytes [200])), VIface (Some (TSlice TIface, VList []))]]"


section \<open>The byte array of length one\<close>

lemma sliceElems_stuck: "d s = Some (Inr v, s) \<Longrightarrow> decodeSliceElems fuel d s = None"
  by (induction fuel) (simp_all add: thenOp_def)

lemma byteArray_stuck:
  assumes "kind s = Some Byte" "byteval s = 0" "kinderr s = None"
  shows "decodeVal (Suc f) (TByteArray 1) s = Some (Inr (VBytes [0]), s)"
proof -
  have "KindOf s = (Inr (Byte, vsize s), s)" using assms by (simp add: KindOf_def kindResult_def)
  then show ?thesis using assms(2)
    by (simp add: decodeStep_def decodeSimple_def decodeByteArray_def sbind_def Uint_def uintOf_def)
qed

text \<open>C38. The array of length one that holds a zero byte cannot be read back. The decoder asks for
  an unsigned integer, gets the error for a leading zero, ignores it and leaves the byte in the
  stream, so that the loop over a slice of such arrays reads the same byte for ever: for every
  fuel there is no result, although the encoder accepts the value.\<close>

theorem byte_array_hangs:
  "EncodeToBytes (TSlice (TByteArray 1)) (VList [VBytes [0]]) = Inr [0xC1, 0] \<and>
   DecodeBytes fuel (TSlice (TByteArray 1)) [0xC1, 0] = None"
proof
  show "EncodeToBytes (TSlice (TByteArray 1)) (VList [VBytes [0]]) = Inr [0xC1, 0]"
    using EncodeToBytes_encv [of "TSlice (TByteArray 1)" "VList [VBytes [0]]"]
    by (simp add: encStr_def encList_def rlpHead_def)
  define s0 where "s0 = NewStream [0xC1, 0] 2"
  have "\<exists>s1. ListOf s0 = (Inr 1, s1) \<and> kind s1 = None \<and> input s1 = [0] \<and> stack s1 = [(0, 1)] \<and> limited s1 \<and> remaining s1 = 1"
    by (simp add: s0_def NewStream_def Reset_def zeroStream_def ListOf_def sbind_def KindOf_def readKindOf_def readByte_def willRead_def kindResult_def)
  then obtain s1 where s1: "ListOf s0 = (Inr 1, s1)" "kind s1 = None" "input s1 = [0]" "stack s1 = [(0, 1)]"
    "limited s1" "remaining s1 = 1" by blast
  obtain s2 where s2: "KindOf s1 = (Inr (Byte, 0), s2)" "kind s2 = Some Byte" "byteval s2 = 0" "kinderr s2 = None"
    using s1 by (simp add: KindOf_def readKindOf_def sbind_def readByte_def willRead_def kindResult_def)
  have stuck: "decodeVal f (TByteArray 1) s1 = (if f = 0 then None else Some (Inr (VBytes [0]), s2))" for f
    using byteArray_stuck [OF s2(2,3,4)] peeksD [OF peeks_decodeVal s2(1)] by (cases f) (simp, metis nat.distinct(1))
  have "decodeSliceElems f (decodeVal f' (TByteArray 1)) s1 = None" for f f'
  proof (cases f)
    case (Suc g)
    have "decodeSliceElems g (decodeVal f' (TByteArray 1)) s2 = None" if "f' \<noteq> 0"
      using that byteArray_stuck [OF s2(2,3,4)] by (intro sliceElems_stuck [where v = "VBytes [0]"]) (cases f'; simp)
    with Suc stuck show ?thesis by (simp add: thenOp_def)
  qed simp
  then have "decodeVal fuel (TSlice (TByteArray 1)) s0 = None"
    using s1(1) by (cases fuel) (simp_all add: decodeStep_def decodeListSlice_def andThen_def mapErr_def thenOp_def)
  then show "DecodeBytes fuel (TSlice (TByteArray 1)) [0xC1, 0] = None"
    by (simp add: DecodeBytes_def s0_def)
qed

end
