(* ===== verification/TrieKeys.thy ===== *)
theory TrieKeys
  imports RlpRaw
begin

text \<open>
  The key encodings of \<open>trie/encoding.go\<close>: key bytes, one byte per nibble with an optional
  terminator (hex), and the packed form that is stored (compact).
\<close>

definition hasTerm :: "bytes \<Rightarrow> bool" where
  "hasTerm s \<longleftrightarrow> length s > 0 \<and> s ! (length s - 1) = 16"

text \<open>\<open>decodeNibbles\<close> returns the bytes it writes; the callers pass an even number of nibbles.\<close>

fun decodeNibbles :: "bytes \<Rightarrow> bytes" where
  "decodeNibbles (a # b # r) = (push_bit 4 a OR b) # decodeNibbles r"
| "decodeNibbles _ = []"

definition keybytesToHex :: "bytes \<Rightarrow> bytes" where
  "keybytesToHex key = concat (map (\<lambda>b. [b div 16, b mod 16]) key) @ [16]"

definition hexToKeybytes :: "bytes \<Rightarrow> go_panic + bytes" where
  "hexToKeybytes hex =
     (let hex = (if hasTerm hex then take (length hex - 1) hex else hex)
      in if odd (length hex) then Inl (ExplicitPanic ''can't convert hex key of odd length'')
         else Inr (decodeNibbles hex))"

definition hexToCompact :: "bytes \<Rightarrow> bytes" where
  "hexToCompact hex =
     (let terminator = (if hasTerm hex then 1 else 0 :: u8);
          hex = (if hasTerm hex then take (length hex - 1) hex else hex);
          flag = push_bit 5 terminator
      in if odd (length hex) then (flag OR push_bit 4 1 OR hex ! 0) # decodeNibbles (drop 1 hex)
         else flag # decodeNibbles hex)"

definition compactToHex :: "bytes \<Rightarrow> go_panic + bytes" where
  "compactToHex compact =
     (let base = keybytesToHex compact;
          base = take (length base - 1) base
      in if base = [] then Inl IndexOutOfRange
         else (let b0 = base ! 0;
                   base = (if b0 \<ge> 2 then base @ [16] else base)
               in Inr (drop (2 - unat (b0 AND 1)) base)))"

definition prefixLen :: "bytes \<Rightarrow> bytes \<Rightarrow> nat" where
  "prefixLen a b = length (takeWhile (\<lambda>(x, y). x = y) (zip a b))"

section \<open>Nibbles\<close>

definition nibbles :: "bytes \<Rightarrow> bool" where
  "nibbles ns \<longleftrightarrow> (\<forall>n \<in> set ns. n < 16)"

text \<open>The hex form of a whole key: nibbles and the terminator.\<close>

definition hexkey :: "bytes \<Rightarrow> bool" where
  "hexkey k \<longleftrightarrow> k \<noteq> [] \<and> last k = 16 \<and> nibbles (butlast k)"

lemma nibbles_simps [simp]:
  "nibbles []" "nibbles (n # ns) \<longleftrightarrow> n < 16 \<and> nibbles ns" "nibbles (a @ b) \<longleftrightarrow> nibbles a \<and> nibbles b"
  by (auto simp: nibbles_def)

lemma nibble_join:
  assumes "b < (16 :: u8)"
  shows "push_bit 4 a OR b = 16 * a + b"
proof -
  have "\<not> bit b n" if "4 \<le> n" for n
  proof -
    have "take_bit 4 b = b" using assms by (simp add: take_bit_eq_mod word_mod_less_divisor word_less_nat_alt mod_word_less)
    then show ?thesis using that by (metis bit_take_bit_iff not_less)
  qed
  then have "push_bit 4 a + b = push_bit 4 a OR b"
    by (intro disjunctive_add) (auto simp: bit_simps not_le)
  then show ?thesis by (simp add: push_bit_eq_mult mult.commute)
qed

lemma nibble_parts:
  assumes "a < (16 :: u8)" "b < 16"
  shows "(push_bit 4 a OR b) div 16 = a" "(push_bit 4 a OR b) mod 16 = b"
proof -
  have "unat (16 * a + b) = 16 * unat a + unat b"
    using assms by (simp add: unat_word_ariths word_less_nat_alt)
  then show "(push_bit 4 a OR b) div 16 = a" "(push_bit 4 a OR b) mod 16 = b"
    using assms unfolding nibble_join [OF assms(2)] by (simp_all add: word_unat_eq_iff unat_div unat_mod word_less_nat_alt)
qed

lemma byte_nibbles: "(b :: u8) div 16 < 16" "b mod 16 < 16" "push_bit 4 (b div 16) OR (b mod 16) = b"
proof -
  show d: "b div 16 < 16" and m: "b mod 16 < 16"
    using unat_byte_lt [of b] by (simp_all add: word_less_nat_alt unat_div unat_mod del: unat_byte_lt)
  show "push_bit 4 (b div 16) OR (b mod 16) = b"
    unfolding nibble_join [OF m] by (rule mult_div_mod_eq)
qed

lemma hexkey_simps [simp]:
  "\<not> hexkey []" "hexkey [16]" "nibbles a \<Longrightarrow> b \<noteq> [] \<Longrightarrow> hexkey (a @ b) \<longleftrightarrow> hexkey b"
  by (auto simp: hexkey_def butlast_append)

lemma hexkey_Cons: "hexkey (n # k) \<longleftrightarrow> (n = 16 \<and> k = []) \<or> (n < 16 \<and> hexkey k)"
  by (auto simp: hexkey_def)

lemma hexkey_cases:
  assumes "hexkey k"
  obtains ns where "nibbles ns" "k = ns @ [16]"
  using assms append_butlast_last_id [of k] unfolding hexkey_def by metis

lemma hexkey_drop: "hexkey k \<Longrightarrow> n < length k \<Longrightarrow> hexkey (drop n k)"
  by (erule hexkey_cases) (auto simp: nibbles_def hexkey_def butlast_append dest: in_set_dropD)

lemma hexkey_take: "hexkey k \<Longrightarrow> n < length k \<Longrightarrow> nibbles (take n k)"
  by (erule hexkey_cases) (auto simp: nibbles_def dest: in_set_takeD)

lemma hexkey_nth: "hexkey k \<Longrightarrow> n < length k \<Longrightarrow> k ! n \<le> 16 \<and> (k ! n = 16 \<longleftrightarrow> n = length k - 1)"
  by (erule hexkey_cases) (auto simp: nibbles_def nth_append word_le_less_eq dest: nth_mem less_imp_neq)

lemma hexkey_prefix: "hexkey (a @ b) \<Longrightarrow> hexkey a \<Longrightarrow> b = []"
  using last_in_set [of a] by (rule_tac ccontr) (auto simp: hexkey_def butlast_append nibbles_def)

section \<open>Round trips\<close>

lemma decodeNibbles_split: "decodeNibbles (concat (map (\<lambda>b. [b div 16, b mod 16]) k)) = k"
  by (induction k) (simp_all add: byte_nibbles)

lemma nibbles_split: "nibbles (concat (map (\<lambda>b. [b div 16, b mod 16]) k))"
  by (induction k) (simp_all add: byte_nibbles)

lemma length_split: "length (concat (map (\<lambda>b. [b div 16, b mod (16 :: u8)]) k)) = 2 * length k"
  by (induction k) simp_all

lemma split_decodeNibbles:
  "nibbles ns \<Longrightarrow> even (length ns) \<Longrightarrow> concat (map (\<lambda>b. [b div 16, b mod 16]) (decodeNibbles ns)) = ns"
  by (induction ns rule: decodeNibbles.induct) (simp_all add: nibble_parts)

lemma hexkey_keybytesToHex: "hexkey (keybytesToHex k)"
  by (simp add: keybytesToHex_def nibbles_split)

lemma hexToKeybytes_keybytesToHex: "hexToKeybytes (keybytesToHex k) = Inr k"
  by (simp add: hexToKeybytes_def keybytesToHex_def hasTerm_def decodeNibbles_split nth_append length_split)

lemma keybytesToHex_inject: "keybytesToHex a = keybytesToHex b \<longleftrightarrow> a = b"
  by (metis hexToKeybytes_keybytesToHex sum.inject(2))

lemma hasTerm_nibbles: "nibbles ns \<Longrightarrow> \<not> hasTerm ns"
  using nth_mem [of "length ns - 1" ns] by (fastforce simp: hasTerm_def nibbles_def)

lemma hasTerm_hexkey: "hexkey k \<Longrightarrow> hasTerm k"
  by (erule hexkey_cases) (simp add: hasTerm_def)

lemma compactToHex_Cons:
  "compactToHex (f # r) = Inr (drop (2 - unat (f div 16 AND 1))
     (f div 16 # f mod 16 # concat (map (\<lambda>b. [b div 16, b mod 16]) r) @ (if 2 \<le> f div 16 then [16] else [])))"
  by (simp add: compactToHex_def keybytesToHex_def Let_def)

text \<open>The flag nibble: bit 1 for the terminator, bit 0 for an odd number of nibbles.\<close>

lemma compactToHex_body:
  assumes "nibbles ns" "t \<in> {0, 1 :: u8}"
  shows "compactToHex (if odd (length ns)
       then (push_bit 5 t OR push_bit 4 1 OR ns ! 0) # decodeNibbles (drop 1 ns)
       else push_bit 5 t # decodeNibbles ns) = Inr (if t = 1 then ns @ [16] else ns)"
proof (cases "odd (length ns)")
  case True
  then obtain n ns' where ns: "ns = n # ns'" by (cases ns) auto
  with assms have n: "n < 16" "nibbles ns'" by auto
  have flag: "push_bit 5 t OR push_bit 4 1 OR n = push_bit 4 (2 * t + 1) OR n"
  proof -
    have "push_bit 5 t OR push_bit 4 1 = push_bit 4 (2 * t + 1)" using assms(2) by auto
    then show ?thesis by (simp only: or.assoc [symmetric])
  qed
  have "2 * t + 1 < 16" using assms(2) by auto
  note parts = nibble_parts [OF this n(1)]
  have "2 \<le> 2 * t + 1 \<longleftrightarrow> t = 1" "unat ((2 * t + 1) AND 1) = 1"
    using assms(2) by (auto simp: word_le_nat_alt)
  then have "compactToHex ((push_bit 4 (2 * t + 1) OR n) # decodeNibbles ns') = Inr (n # ns' @ (if t = 1 then [16] else []))"
    unfolding compactToHex_Cons parts using True ns n(2) by (simp add: split_decodeNibbles)
  with True ns show ?thesis unfolding flag [symmetric] by simp
next
  case False
  have flag: "push_bit 5 t div 16 = 2 * t" "push_bit 5 t mod 16 = 0" using assms(2) by auto
  have "2 \<le> 2 * t \<longleftrightarrow> t = 1" "unat (2 * t AND 1) = 0" using assms(2) by (auto simp: word_le_nat_alt)
  with False assms(1) flag show ?thesis
    by (simp add: compactToHex_def keybytesToHex_def split_decodeNibbles Let_def)
qed

lemma compactToHex_hexToCompact:
  assumes "nibbles h \<or> hexkey h"
  shows "compactToHex (hexToCompact h) = Inr h"
  using assms
proof
  assume "nibbles h"
  then show ?thesis using compactToHex_body [of h 0] hasTerm_nibbles [of h]
    by (simp add: hexToCompact_def split: if_splits)
next
  assume "hexkey h"
  then obtain ns where "nibbles ns" "h = ns @ [16]" by (rule hexkey_cases)
  then show ?thesis using compactToHex_body [of ns 1] hasTerm_hexkey [OF \<open>hexkey h\<close>]
    by (simp add: hexToCompact_def Let_def)
qed

section \<open>Common prefixes\<close>

lemma prefixLen_Cons [simp]:
  "prefixLen [] b = 0" "prefixLen a [] = 0"
  "prefixLen (x # a) (y # b) = (if x = y then Suc (prefixLen a b) else 0)"
  by (simp_all add: prefixLen_def)

lemma prefixLen_le: "prefixLen a b \<le> length a" "prefixLen a b \<le> length b"
  by (induction a b rule: list_induct2') auto

lemma take_prefixLen: "take (prefixLen a b) a = take (prefixLen a b) b"
  by (induction a b rule: list_induct2') auto

lemma prefixLen_differ: "prefixLen a b < length a \<Longrightarrow> prefixLen a b < length b \<Longrightarrow> a ! prefixLen a b \<noteq> b ! prefixLen a b"
  by (induction a b rule: list_induct2') auto

lemma prefixLen_full: "prefixLen a b = length b \<longleftrightarrow> (\<exists>r. a = b @ r)"
  by (induction a b rule: list_induct2') auto

lemma prefixLen_self: "prefixLen (b @ r) b = length b"
  using prefixLen_full by blast

end
