(* ===== verification/TrieSpec.thy ===== *)
theory TrieSpec
  imports TrieKeys
begin

text \<open>
  The tries that \<open>trie/trie.go\<close> keeps in memory and in its data base, without the caching:
  branches with 17 children, short nodes for shared key parts, values. A canonical trie is
  determined by the map from keys to values it stands for.
\<close>

datatype ptrie = PNil | PVal bytes | PShort bytes ptrie | PFull "ptrie list"

lemma size_child [termination_simp]: "c \<in> set cs \<Longrightarrow> size c < Suc (size_list size cs)"
  by (induction cs) auto

lemma size_nth [termination_simp]: "i < length cs \<Longrightarrow> size (cs ! i) < Suc (size_list size cs)"
  by (intro size_child) simp

lemma size_take [termination_simp]: "c \<in> set (take n cs) \<Longrightarrow> size c < Suc (size_list size cs)"
  by (intro size_child) (rule in_set_takeD)

fun plookup :: "ptrie \<Rightarrow> bytes \<Rightarrow> bytes option" where
  "plookup PNil k = None"
| "plookup (PVal v) k = (if k = [] then Some v else None)"
| "plookup (PShort sk c) k =
     (if take (length sk) k = sk then plookup c (drop (length sk) k) else None)"
| "plookup (PFull cs) k =
     (case k of [] \<Rightarrow> None
      | x # k' \<Rightarrow> if unat x < length cs then plookup (cs ! unat x) k' else None)"

definition branchOf :: "u8 \<Rightarrow> ptrie \<Rightarrow> u8 \<Rightarrow> ptrie \<Rightarrow> ptrie" where
  "branchOf x a y b = PFull ((replicate 17 PNil)[unat x := a, unat y := b])"

definition leafAt :: "bytes \<Rightarrow> ptrie \<Rightarrow> ptrie" where
  "leafAt k v = (if k = [] then v else PShort k v)"

fun pinsert :: "ptrie \<Rightarrow> bytes \<Rightarrow> ptrie \<Rightarrow> ptrie" where
  "pinsert PNil k v = leafAt k v"
| "pinsert (PVal w) k v = v"
| "pinsert (PShort sk c) k v =
     (let m = prefixLen k sk in
      if m = length sk then PShort sk (pinsert c (drop m k) v)
      else (let b = branchOf (sk ! m) (leafAt (drop (m + 1) sk) c) (k ! m) (leafAt (drop (m + 1) k) v)
            in if m = 0 then b else PShort (take m k) b))"
| "pinsert (PFull cs) k v =
     (case k of [] \<Rightarrow> v
      | x # k' \<Rightarrow> if unat x < length cs then PFull (cs[unat x := pinsert (cs ! unat x) k' v]) else PFull cs)"

fun joinShort :: "bytes \<Rightarrow> ptrie \<Rightarrow> ptrie" where
  "joinShort sk (PShort k c) = PShort (sk @ k) c"
| "joinShort sk c = PShort sk c"

definition reduceFull :: "ptrie list \<Rightarrow> ptrie" where
  "reduceFull cs =
     (case filter (\<lambda>i. cs ! i \<noteq> PNil) [0..<length cs] of
        [i] \<Rightarrow> if i \<noteq> 16 then joinShort [word_of_nat i] (cs ! i) else PShort [word_of_nat i] (cs ! i)
      | _ \<Rightarrow> PFull cs)"

text \<open>\<open>None\<close>: the key is not in the trie.\<close>

fun pdelete :: "ptrie \<Rightarrow> bytes \<Rightarrow> ptrie option" where
  "pdelete PNil k = None"
| "pdelete (PVal v) k = Some PNil"
| "pdelete (PShort sk c) k =
     (let m = prefixLen k sk in
      if m < length sk then None
      else if m = length k then Some PNil
      else map_option (joinShort sk) (pdelete c (drop (length sk) k)))"
| "pdelete (PFull cs) k =
     (case k of [] \<Rightarrow> None
      | x # k' \<Rightarrow> if unat x < length cs
                 then map_option (\<lambda>n. reduceFull (cs[unat x := n])) (pdelete (cs ! unat x) k') else None)"

section \<open>Canonical tries\<close>

definition isValue :: "ptrie \<Rightarrow> bool" where
  "isValue T \<longleftrightarrow> (case T of PVal v \<Rightarrow> v \<noteq> [] | _ \<Rightarrow> False)"

fun isFull :: "ptrie \<Rightarrow> bool" where
  "isFull (PFull cs) = True"
| "isFull _ = False"

fun wft :: "ptrie \<Rightarrow> bool" where
  "wft PNil = False"
| "wft (PVal v) = False"
| "wft (PShort k c) = (if isValue c then hexkey k else k \<noteq> [] \<and> nibbles k \<and> isFull c \<and> wft c)"
| "wft (PFull cs) =
     (length cs = 17 \<and> (\<forall>c \<in> set (take 16 cs). c = PNil \<or> wft c) \<and>
      (cs ! 16 = PNil \<or> isValue (cs ! 16)) \<and> 2 \<le> length (filter (\<lambda>c. c \<noteq> PNil) cs))"

definition canonical :: "ptrie \<Rightarrow> bool" where
  "canonical T \<longleftrightarrow> T = PNil \<or> wft T"

text \<open>What may stand at the end of a key part.\<close>

definition slot :: "bytes \<Rightarrow> ptrie \<Rightarrow> bool" where
  "slot k T \<longleftrightarrow> (if k = [] then T = PNil \<or> isValue T else hexkey k \<and> canonical T)"

lemma isValue_simps [simp]: "\<not> isValue PNil" "isValue (PVal v) \<longleftrightarrow> v \<noteq> []" "\<not> isValue (PShort k c)" "\<not> isValue (PFull cs)"
  by (simp_all add: isValue_def)

lemma isValueE: "isValue T \<Longrightarrow> (\<And>v. T = PVal v \<Longrightarrow> v \<noteq> [] \<Longrightarrow> P) \<Longrightarrow> P"
  by (cases T) simp_all

lemma full_child:
  assumes "wft (PFull cs)" "x \<le> (16 :: u8)"
  shows "unat x < length cs" "x < 16 \<Longrightarrow> canonical (cs ! unat x)" "x = 16 \<Longrightarrow> cs ! unat x = PNil \<or> isValue (cs ! unat x)"
proof -
  show lt: "unat x < length cs" using assms by (simp add: word_le_nat_alt)
  show "canonical (cs ! unat x)" if "x < 16"
  proof -
    have "unat x < 16" using that by (simp add: word_less_nat_alt)
    then have "cs ! unat x \<in> set (take 16 cs)" using lt assms(1) by (auto simp: in_set_conv_nth intro!: exI [of _ "unat x"])
    then show ?thesis using assms(1) by (auto simp: canonical_def)
  qed
  show "cs ! unat x = PNil \<or> isValue (cs ! unat x)" if "x = 16" using assms(1) that by simp
qed

lemma full_slot:
  assumes "wft (PFull cs)" "hexkey (x # k)"
  shows "unat x < length cs" "slot k (cs ! unat x)"
proof -
  have "x \<le> 16" using assms(2) by (auto simp: hexkey_Cons)
  note child = full_child [OF assms(1) this]
  show "unat x < length cs" by (rule child(1))
  show "slot k (cs ! unat x)" using assms(2) child(2,3) by (auto simp: hexkey_Cons slot_def)
qed

lemma short_slot:
  assumes "wft (PShort sk c)" "hexkey (sk @ r)"
  shows "slot r c"
  using assms hexkey_prefix [of sk r] hexkey_simps(3) [of sk r]
  by (cases "r = []") (auto simp: slot_def canonical_def hasTerm_nibbles dest: hasTerm_hexkey split: if_splits)

lemma plookup_take: "take (length sk) k = sk \<longleftrightarrow> (\<exists>r. k = sk @ r)"
  by (metis append_eq_conv_conj append_take_drop_id)

lemma plookup_leafAt: "isValue v \<Longrightarrow> plookup (leafAt a v) b = (if a = b then plookup v [] else None)"
  by (auto simp: leafAt_def plookup_take elim!: isValueE split: if_splits)


section \<open>Insertion\<close>

lemma branch_children:
  assumes "x \<noteq> y" "x \<le> 16" "y \<le> 16"
  shows "plookup (branchOf x a y b) (z # k) = (if z = y then plookup b k else if z = x then plookup a k else None)"
proof -
  have "unat x \<noteq> unat y" "unat x < 17" "unat y < 17" using assms by (simp_all add: word_unat_eq_iff word_le_nat_alt)
  then show ?thesis by (auto simp: branchOf_def nth_list_update nth_replicate word_unat_eq_iff)
qed

lemma filter_branch:
  assumes "i \<noteq> j" "i < n" "j < n" "a \<noteq> PNil" "b \<noteq> PNil"
  shows "length (filter (\<lambda>c. c \<noteq> PNil) ((replicate n PNil)[i := a, j := b])) = 2"
proof -
  have "length (filter (\<lambda>c. c \<noteq> PNil) ((replicate n PNil)[i := a, j := b])) =
      card {k. k < n \<and> (replicate n PNil)[i := a, j := b] ! k \<noteq> PNil}"
    by (simp add: length_filter_conv_card)
  also have "{k. k < n \<and> (replicate n PNil)[i := a, j := b] ! k \<noteq> PNil} = {i, j}"
    using assms by (auto simp: nth_list_update split: if_splits)
  finally show ?thesis using assms(1) by simp
qed

lemma wf_branch:
  assumes "x \<noteq> y" "x \<le> 16" "y \<le> 16" "a \<noteq> PNil" "b \<noteq> PNil"
    and "if x = 16 then isValue a else wft a" "if y = 16 then isValue b else wft b"
  shows "wft (branchOf x a y b)"
proof -
  have lt: "unat x \<noteq> unat y" "unat x < 17" "unat y < 17" using assms by (simp_all add: word_unat_eq_iff word_le_nat_alt)
  have sixteen: "z = 16 \<longleftrightarrow> unat z = 16" for z :: u8 by (simp add: word_unat_eq_iff)
  have "c = PNil \<or> wft c" if "c \<in> set (take 16 ((replicate 17 PNil)[unat x := a, unat y := b]))" for c
  proof -
    from that obtain i where "i < 16" "c = (replicate 17 PNil)[unat x := a, unat y := b] ! i"
      by (auto simp: in_set_conv_nth)
    then show ?thesis using assms(6,7) lt by (auto simp: nth_list_update sixteen split: if_splits)
  qed
  moreover have "(replicate 17 PNil)[unat x := a, unat y := b] ! 16 = PNil \<or> isValue ((replicate 17 PNil)[unat x := a, unat y := b] ! 16)"
    using assms(6,7) lt by (auto simp: nth_list_update sixteen split: if_splits)
  ultimately show ?thesis
    using filter_branch [OF lt assms(4,5)] by (simp add: branchOf_def)
qed

lemma filter_update_le:
  assumes "i < length cs" "c \<noteq> PNil"
  shows "length (filter (\<lambda>c. c \<noteq> PNil) cs) \<le> length (filter (\<lambda>c. c \<noteq> PNil) (cs[i := c]))"
  unfolding length_filter_conv_card using assms
  by (intro card_mono) (auto simp: nth_list_update)

lemma wf_update:
  assumes "wft (PFull cs)" "x \<le> (16 :: u8)" "if x = 16 then isValue c else wft c"
  shows "wft (PFull (cs[unat x := c]))"
proof -
  have lt: "unat x < length cs" using full_child(1) [OF assms(1,2)] .
  have ne: "c \<noteq> PNil" using assms(3) by (auto split: if_splits)
  have sixteen: "x = 16 \<longleftrightarrow> unat x = 16" by (simp add: word_unat_eq_iff)
  have "c' = PNil \<or> wft c'" if "c' \<in> set (take 16 (cs[unat x := c]))" for c'
  proof -
    from that obtain i where i: "i < 16" "i < length cs" "c' = cs[unat x := c] ! i"
      by (auto simp: in_set_conv_nth)
    then have "cs ! i \<in> set (take 16 cs)" by (auto simp: in_set_conv_nth intro!: exI [of _ i])
    then show ?thesis using assms(1,3) i by (cases "i = unat x") (auto simp: sixteen split: if_splits)
  qed
  then show ?thesis
    using assms(1,3) filter_update_le [OF lt ne] lt by (auto simp: nth_list_update sixteen split: if_splits)
qed

lemma wf_leafAt: "isValue v \<Longrightarrow> hexkey k \<Longrightarrow> wft (leafAt k v)"
  by (auto simp: leafAt_def)

text \<open>What is left of a short node's key behind the branch.\<close>

lemma wf_rest:
  assumes "wft (PShort sk c)" "m < length sk"
  shows "sk ! m \<le> 16" "leafAt (drop (m + 1) sk) c \<noteq> PNil"
    "if sk ! m = 16 then isValue (leafAt (drop (m + 1) sk) c) else wft (leafAt (drop (m + 1) sk) c)"
proof -
  have c: "isValue c \<and> hexkey sk \<or> nibbles sk \<and> isFull c \<and> wft c" using assms(1) by (auto split: if_splits)
  then have nth: "sk ! m \<le> 16 \<and> (sk ! m = 16 \<longrightarrow> isValue c \<and> drop (m + 1) sk = [])"
  proof
    assume "isValue c \<and> hexkey sk"
    with hexkey_nth [of sk m] assms(2) show ?thesis by auto
  next
    assume "nibbles sk \<and> isFull c \<and> wft c"
    with assms(2) have "sk ! m < 16" by (auto simp: nibbles_def)
    then show ?thesis by (auto simp: less_imp_le)
  qed
  then show "sk ! m \<le> 16" by simp
  show "leafAt (drop (m + 1) sk) c \<noteq> PNil" using c by (cases c) (auto simp: leafAt_def)
  show "if sk ! m = 16 then isValue (leafAt (drop (m + 1) sk) c) else wft (leafAt (drop (m + 1) sk) c)"
  proof (cases "drop (m + 1) sk = []")
    case True
    then have "m = length sk - 1" using assms(2) by simp
    with c nth hexkey_nth [of sk m] assms(2) True show ?thesis
      by (auto simp: leafAt_def hasTerm_def isFull.simps elim!: isValueE)
  next
    case False
    have "hexkey sk \<Longrightarrow> hexkey (drop (m + 1) sk)" using False by (intro hexkey_drop) auto
    moreover have "nibbles sk \<Longrightarrow> nibbles (drop (m + 1) sk)" by (auto simp: nibbles_def dest: in_set_dropD)
    moreover have "isFull c \<Longrightarrow> \<not> isValue c" by (cases c) auto
    ultimately show ?thesis using c nth False by (auto simp: leafAt_def)
  qed
qed

lemma isFull_pinsert: "isFull c \<Longrightarrow> k \<noteq> [] \<Longrightarrow> isFull (pinsert c k v)"
  by (cases c; cases k) auto

text \<open>A short node and a key that leaves its path.\<close>

lemma diverge:
  assumes "wft (PShort sk c)" "hexkey k" "prefixLen k sk \<noteq> length sk"
  defines "m \<equiv> prefixLen k sk"
  shows "m < length sk" "m < length k" "k ! m \<noteq> sk ! m" "take m k = take m sk" "nibbles (take m k)" "k ! m \<le> 16"
    "hexkey (drop (m + 1) k) \<or> k ! m = 16 \<and> drop (m + 1) k = []"
proof -
  have le: "m \<le> length sk" "m \<le> length k" using prefixLen_le by (simp_all add: m_def)
  show sk: "m < length sk" using le(1) assms(3) by (simp add: m_def)
  show same: "take m k = take m sk" using take_prefixLen by (simp add: m_def)
  show k: "m < length k"
  proof (rule ccontr)
    assume "\<not> m < length k"
    with le same have "k = take m sk" by simp
    moreover have "nibbles (take m sk)"
      using assms(1) hexkey_take [OF _ sk] by (auto simp: nibbles_def dest: in_set_takeD split: if_splits)
    ultimately show False using assms(2) hasTerm_hexkey hasTerm_nibbles by metis
  qed
  show "k ! m \<noteq> sk ! m" using prefixLen_differ k sk by (simp add: m_def)
  show "nibbles (take m k)" by (rule hexkey_take [OF assms(2) k])
  show "k ! m \<le> 16" using hexkey_nth [OF assms(2) k] by simp
  show "hexkey (drop (m + 1) k) \<or> k ! m = 16 \<and> drop (m + 1) k = []"
  proof (cases "m + 1 < length k")
    case True
    then show ?thesis using hexkey_drop [OF assms(2)] by simp
  next
    case False
    then show ?thesis using hexkey_nth [OF assms(2) k] k by simp
  qed
qed

lemma diverge_branch:
  assumes "wft (PShort sk c)" "hexkey k" "prefixLen k sk \<noteq> length sk" "isValue v"
  defines "m \<equiv> prefixLen k sk"
  shows "wft (branchOf (sk ! m) (leafAt (drop (m + 1) sk) c) (k ! m) (leafAt (drop (m + 1) k) v))"
proof (rule wf_branch)
  note d = diverge [OF assms(1-3), folded m_def]
  note r = wf_rest [OF assms(1) d(1)]
  show "sk ! m \<noteq> k ! m" "sk ! m \<le> 16" "k ! m \<le> 16" "leafAt (drop (m + 1) sk) c \<noteq> PNil" using d r by auto
  show "if sk ! m = 16 then isValue (leafAt (drop (m + 1) sk) c) else wft (leafAt (drop (m + 1) sk) c)" by (rule r(3))
  show "leafAt (drop (m + 1) k) v \<noteq> PNil" using assms(4) by (auto simp: leafAt_def)
  show "if k ! m = 16 then isValue (leafAt (drop (m + 1) k) v) else wft (leafAt (drop (m + 1) k) v)"
    using d(7) assms(4) hexkey_nth [OF assms(2) d(2)] by (auto simp: leafAt_def)
qed

lemma wft_pinsert:
  assumes "slot k T" "isValue v"
  shows "if k = [] then pinsert T k v = v else wft (pinsert T k v)"
  using assms
proof (induction T k v rule: pinsert.induct)
  case (1 k v)
  then show ?case by (auto simp: slot_def leafAt_def)
next
  case (2 w k v)
  then show ?case by (auto simp: slot_def canonical_def split: if_splits)
next
  case (3 sk c k v)
  then have wf: "wft (PShort sk c)" "hexkey k" by (auto simp: slot_def canonical_def split: if_splits)
  show ?case
  proof (cases "prefixLen k sk = length sk")
    case True
    then obtain r where k: "k = sk @ r" using prefixLen_full by blast
    have r: "slot r c" using short_slot [OF wf(1)] wf(2) k by simp
    note IH = 3(1) [OF refl True]
    show ?thesis
    proof (cases "r = []")
      case True
      then show ?thesis using IH r k wf 3(3) \<open>prefixLen k sk = length sk\<close> by auto
    next
      case False
      then have c: "isFull c" "sk \<noteq> []" "nibbles sk"
        using wf k hexkey_prefix [of sk r] by (auto split: if_splits)
      have "wft (pinsert c r v)" using IH r k False 3(3) True by simp
      then have "wft (PShort sk (pinsert c r v))" using c isFull_pinsert [OF c(1) False, of v] by (cases "pinsert c r v") auto
      then show ?thesis using k True False by simp
    qed
  next
    case False
    note d = diverge [OF wf False] and b = diverge_branch [OF wf False 3(3)]
    show ?thesis using False d b wf by (auto simp: Let_def branchOf_def)
  qed
next
  case (4 cs k v)
  then have wf: "wft (PFull cs)" "hexkey k" by (auto simp: slot_def canonical_def split: if_splits)
  then obtain x k' where k: "k = x # k'" by (cases k) auto
  note s = full_slot [OF wf(1) wf(2) [unfolded k]]
  have "if k' = [] then pinsert (cs ! unat x) k' v = v else wft (pinsert (cs ! unat x) k' v)"
    using 4(1) [OF k s(1) s(2) 4(3)] .
  moreover have "x \<le> 16" "x = 16 \<longleftrightarrow> k' = []" using wf(2) k by (auto simp: hexkey_Cons)
  ultimately have "wft (PFull (cs[unat x := pinsert (cs ! unat x) k' v]))"
    using 4(3) by (intro wf_update [OF wf(1)]) (auto split: if_splits)
  then show ?case using k s(1) by simp
qed

lemma plookup_short_append: "plookup (PShort (p @ a) c) (p @ r) = plookup (PShort a c) r"
  by (simp add: plookup_take)

lemma plookup_leafAt_short: "plookup (leafAt a c) r = plookup (PShort a c) r"
  by (simp add: leafAt_def)

lemma plookup_short_other: "\<nexists>r. k = p @ r \<Longrightarrow> plookup (PShort (p @ a) c) k = None"
  by (metis append.assoc plookup.simps(3) plookup_take)

lemma plookup_split:
  assumes "hexkey k'" "m < length k" "m < length sk" "take m k = take m sk" "k ! m \<noteq> sk ! m"
    and "isValue v" "k ! m \<le> 16" "sk ! m \<le> 16" "nibbles (take m k)"
  shows "plookup (PShort (take m k) (branchOf (sk ! m) (leafAt (drop (m + 1) sk) c) (k ! m) (leafAt (drop (m + 1) k) v))) k' =
    (if k' = k then plookup v [] else plookup (PShort sk c) k')"
proof -
  define p where "p = take m k"
  have k: "k = p @ k ! m # drop (m + 1) k" and sk: "sk = p @ sk ! m # drop (m + 1) sk"
    using id_take_nth_drop [OF assms(2)] id_take_nth_drop [OF assms(3)] assms(4) by (simp_all add: p_def)
  show ?thesis
  proof (cases "\<exists>r. k' = p @ r")
    case True
    then obtain r where "k' = p @ r" by blast
    moreover have "r \<noteq> []" using assms(1,9) hasTerm_hexkey [of k'] hasTerm_nibbles [of p] \<open>k' = p @ r\<close> by (auto simp: p_def)
    ultimately obtain z r' where k': "k' = p @ z # r'" by (cases r) auto
    have "plookup (PShort sk c) k' = (if z = sk ! m then plookup (leafAt (drop (m + 1) sk) c) r' else None)"
      by (subst sk) (simp add: k' plookup_short_append plookup_leafAt_short plookup_take)
    moreover have "k' = k \<longleftrightarrow> z = k ! m \<and> r' = drop (m + 1) k" using k k' by (metis append_same_eq list.inject same_append_eq)
    moreover have "plookup (leafAt (drop (m + 1) k) v) r' = (if drop (m + 1) k = r' then plookup v [] else None)"
      by (rule plookup_leafAt [OF assms(6)])
    ultimately show ?thesis
      using assms(5,7,8) by (auto simp: k' p_def [symmetric] branch_children)
  next
    case False
    then show ?thesis using k plookup_short_other [OF False, of "[]"] plookup_short_other [OF False, of "sk ! m # drop (m + 1) sk" c] sk
      by (metis append_Nil2 p_def)
  qed
qed

lemma plookup_pinsert:
  assumes "slot k T" "isValue v" "k = [] \<longleftrightarrow> k' = []" "k' \<noteq> [] \<longrightarrow> hexkey k'"
  shows "plookup (pinsert T k v) k' = (if k' = k then plookup v [] else plookup T k')"
  using assms
proof (induction T k v arbitrary: k' rule: pinsert.induct)
  case (1 k v)
  then show ?case by (auto simp: plookup_leafAt)
next
  case (2 w k v)
  then show ?case by (auto simp: slot_def canonical_def split: if_splits)
next
  case (3 sk c k v)
  then have wf: "wft (PShort sk c)" "hexkey k" by (auto simp: slot_def canonical_def split: if_splits)
  show ?case
  proof (cases "prefixLen k sk = length sk")
    case True
    then obtain r where k: "k = sk @ r" using prefixLen_full by blast
    have r: "slot r c" using short_slot [OF wf(1)] wf(2) k by simp
    show ?thesis
    proof (cases "\<exists>r'. k' = sk @ r'")
      case True
      then obtain r' where k': "k' = sk @ r'" by blast
      have "r = [] \<longleftrightarrow> r' = []"
        using hexkey_prefix 3(4,5) k k' wf(2) by auto
      moreover have "r' \<noteq> [] \<longrightarrow> hexkey r'"
        using 3(4,5) k' wf(2) hexkey_drop [of k' "length sk"] by auto
      ultimately have "plookup (pinsert c r v) r' = (if r' = r then plookup v [] else plookup c r')"
        using 3(1) [OF refl \<open>prefixLen k sk = length sk\<close>, of r'] r k 3(3) \<open>prefixLen k sk = length sk\<close> by simp
      then show ?thesis using k k' \<open>prefixLen k sk = length sk\<close> by simp
    next
      case False
      then show ?thesis using k True by (auto simp: plookup_take)
    qed
  next
    case False
    let ?m = "prefixLen k sk"
    let ?b = "branchOf (sk ! ?m) (leafAt (drop (?m + 1) sk) c) (k ! ?m) (leafAt (drop (?m + 1) k) v)"
    note d = diverge [OF wf False] and rest = wf_rest(1) [OF wf(1)]
    have "plookup (pinsert (PShort sk c) k v) k' = plookup (PShort (take ?m k) ?b) k'"
      using False by (simp add: Let_def)
    also have "\<dots> = (if k' = k then plookup v [] else plookup (PShort sk c) k')"
    proof (rule plookup_split [OF _ d(2,1) d(4) d(3)])
      show "hexkey k'" using 3(4,5) wf(2) by auto
      show "isValue v" "k ! ?m \<le> 16" "sk ! ?m \<le> 16" "nibbles (take ?m k)" using 3(3) d rest by simp_all
    qed
    finally show ?thesis .
  qed
next
  case (4 cs k v)
  then have wf: "wft (PFull cs)" "hexkey k" by (auto simp: slot_def canonical_def split: if_splits)
  then obtain x k1 where k: "k = x # k1" by (cases k) auto
  with 4(4,5) wf obtain y k2 where k': "k' = y # k2" by (cases k') auto
  note s = full_slot [OF wf(1) wf(2) [unfolded k]]
  have hk: "hexkey (x # k1)" "hexkey (y # k2)" using wf(2) k k' 4(5) by auto
  show ?case
  proof (cases "y = x")
    case True
    then have "k1 = [] \<longleftrightarrow> k2 = []" "k2 \<noteq> [] \<longrightarrow> hexkey k2" using hk by (auto simp: hexkey_Cons)
    from 4(1) [OF k s(1) s(2) 4(3) this] show ?thesis using k k' s(1) True by simp
  next
    case False
    then have "unat x \<noteq> unat y" by (simp add: word_unat_eq_iff)
    then show ?thesis using k k' s(1) False by simp
  qed
qed

section \<open>Deletion\<close>

lemma plookup_joinShort: "plookup (joinShort p T) k = plookup (PShort p T) k"
proof (cases T)
  case (PShort a c)
  show ?thesis
  proof (cases "\<exists>r. k = p @ r")
    case True
    with PShort show ?thesis using plookup_short_append by auto
  next
    case False
    with PShort show ?thesis using plookup_short_other [OF False, of a c] by (auto simp: plookup_take)
  qed
qed simp_all

lemma hexkey_append: "nibbles a \<Longrightarrow> hexkey b \<Longrightarrow> hexkey (a @ b)"
  by (cases "b = []") auto

lemma wft_joinShort:
  assumes "wft T" "nibbles p" "p \<noteq> []"
  shows "wft (joinShort p T)"
  using assms by (cases T) (auto simp: hexkey_append)

lemma one_child:
  assumes "filter P [0..<n] = [i]"
  shows "i < n" "P i" "\<And>j. j < n \<Longrightarrow> j \<noteq> i \<Longrightarrow> \<not> P j"
proof -
  have "{j. j < n \<and> P j} = {i}" using arg_cong [OF assms, of set] by auto
  then show "i < n" "P i" "\<And>j. j < n \<Longrightarrow> j \<noteq> i \<Longrightarrow> \<not> P j" by auto
qed

lemma count_positions: "length (filter (\<lambda>c. c \<noteq> PNil) cs) = length (filter (\<lambda>i. cs ! i \<noteq> PNil) [0..<length cs])"
proof -
  have "filter (\<lambda>c. c \<noteq> PNil) cs = filter (\<lambda>c. c \<noteq> PNil) (map ((!) cs) [0..<length cs])" by (simp add: map_nth)
  then show ?thesis by (simp add: filter_map comp_def)
qed

text \<open>A branch either keeps two children or becomes a short node that stands for its one child.\<close>

lemma reduceFull_cases:
  assumes "length cs = 17" "filter (\<lambda>c. c \<noteq> PNil) cs \<noteq> []"
  obtains (short) i where "i < 17" "cs ! i \<noteq> PNil" "\<And>j. j < 17 \<Longrightarrow> j \<noteq> i \<Longrightarrow> cs ! j = PNil"
      "reduceFull cs = (if i \<noteq> 16 then joinShort [word_of_nat i] (cs ! i) else PShort [word_of_nat i] (cs ! i))"
    | (full) "reduceFull cs = PFull cs" "2 \<le> length (filter (\<lambda>c. c \<noteq> PNil) cs)"
proof (cases "filter (\<lambda>i. cs ! i \<noteq> PNil) [0..<length cs]")
  case Nil
  then show ?thesis using assms(2) count_positions [of cs] by (simp del: upt_conv_Nil)
next
  case (Cons i rest)
  show ?thesis
  proof (cases rest)
    case Nil
    with Cons have one: "filter (\<lambda>i. cs ! i \<noteq> PNil) [0..<length cs] = [i]" by simp
    have "reduceFull cs = (if i \<noteq> 16 then joinShort [word_of_nat i] (cs ! i) else PShort [word_of_nat i] (cs ! i))"
      unfolding reduceFull_def one by simp
    then show ?thesis using one_child [OF one] assms(1) short by auto
  next
    case (Cons j js)
    with \<open>filter _ [0..<length cs] = i # rest\<close> have two: "filter (\<lambda>i. cs ! i \<noteq> PNil) [0..<length cs] = i # j # js" by simp
    have "reduceFull cs = PFull cs" unfolding reduceFull_def two by simp
    moreover have "2 \<le> length (filter (\<lambda>c. c \<noteq> PNil) cs)" unfolding count_positions two by simp
    ultimately show ?thesis by (rule full)
  qed
qed

text \<open>The children of a branch that may have lost its second one.\<close>

definition openFull :: "ptrie list \<Rightarrow> bool" where
  "openFull cs \<longleftrightarrow> length cs = 17 \<and> (\<forall>c \<in> set (take 16 cs). c = PNil \<or> wft c) \<and>
     (cs ! 16 = PNil \<or> isValue (cs ! 16)) \<and> filter (\<lambda>c. c \<noteq> PNil) cs \<noteq> []"

lemma openFull_nth: "openFull cs \<Longrightarrow> i < 16 \<Longrightarrow> cs ! i = PNil \<or> wft (cs ! i)"
proof -
  assume a: "openFull cs" "i < 16"
  then have "cs ! i \<in> set (take 16 cs)" by (auto simp: openFull_def in_set_conv_nth intro!: exI [of _ i])
  with a show ?thesis by (auto simp: openFull_def)
qed

lemma small_index: "i < 256 \<Longrightarrow> unat (word_of_nat i :: u8) = i"
  by (simp add: unat_of_nat)

lemma wft_reduceFull:
  assumes "openFull cs"
  shows "wft (reduceFull cs)"
proof -
  have c: "length cs = 17" "filter (\<lambda>c. c \<noteq> PNil) cs \<noteq> []" using assms by (simp_all add: openFull_def)
  show ?thesis
  proof (cases rule: reduceFull_cases [OF c])
    case (1 i)
    show ?thesis
    proof (cases "i = 16")
      case True
      with 1 assms show ?thesis by (auto simp: openFull_def)
    next
      case False
      with 1(1) have "i < 16" by simp
      moreover have "(word_of_nat i :: u8) < 16" using \<open>i < 16\<close> by (simp add: word_less_nat_alt small_index)
      ultimately show ?thesis using 1 openFull_nth [OF assms, of i] False wft_joinShort [of "cs ! i" "[word_of_nat i]"] by auto
    qed
  next
    case 2
    then show ?thesis using assms by (auto simp: openFull_def)
  qed
qed

lemma plookup_reduceFull:
  assumes "openFull cs" "hexkey k"
  shows "plookup (reduceFull cs) k = plookup (PFull cs) k"
proof -
  have c: "length cs = 17" "filter (\<lambda>c. c \<noteq> PNil) cs \<noteq> []" using assms by (simp_all add: openFull_def)
  obtain x r where k: "k = x # r" using assms(2) by (cases k) auto
  have x: "unat x < 17" using assms(2) k by (auto simp: hexkey_Cons word_less_nat_alt)
  show ?thesis
  proof (cases rule: reduceFull_cases [OF c])
    case (1 i)
    have "plookup (reduceFull cs) k = plookup (PShort [word_of_nat i] (cs ! i)) k"
      using 1(4) by (simp add: plookup_joinShort del: plookup.simps)
    moreover have "word_of_nat i = x \<longleftrightarrow> i = unat x" using 1(1) by (auto simp: word_unat_eq_iff small_index)
    ultimately show ?thesis using 1(3) [OF x] x k c(1) by auto
  next
    case 2
    then show ?thesis by simp
  qed
qed

lemma openFull_update:
  assumes "wft (PFull cs)" "x \<le> (16 :: u8)" "if x = 16 then c = PNil \<or> isValue c else canonical c"
  shows "openFull (cs[unat x := c])"
proof -
  have len: "length cs = 17" and lt: "unat x < length cs" using assms(1) full_child(1) [OF assms(1,2)] by auto
  have sixteen: "x = 16 \<longleftrightarrow> unat x = 16" by (simp add: word_unat_eq_iff)
  have "c' = PNil \<or> wft c'" if "c' \<in> set (take 16 (cs[unat x := c]))" for c'
  proof -
    from that obtain i where i: "i < 16" "i < length cs" "c' = cs[unat x := c] ! i" by (auto simp: in_set_conv_nth)
    then have "cs ! i \<in> set (take 16 cs)" by (auto simp: in_set_conv_nth intro!: exI [of _ i])
    then show ?thesis using assms(1,3) i by (cases "i = unat x") (auto simp: sixteen canonical_def split: if_splits)
  qed
  moreover have "filter (\<lambda>c. c \<noteq> PNil) (cs[unat x := c]) \<noteq> []"
  proof
    assume "filter (\<lambda>c. c \<noteq> PNil) (cs[unat x := c]) = []"
    then have nil: "\<forall>i<length cs. i \<noteq> unat x \<longrightarrow> cs ! i = PNil"
      by (simp add: filter_empty_conv) (metis length_list_update nth_list_update_neq nth_mem)
    then have "{i. i < length cs \<and> cs ! i \<noteq> PNil} \<subseteq> {unat x}" by auto
    then have "length (filter (\<lambda>c. c \<noteq> PNil) cs) \<le> 1"
      unfolding length_filter_conv_card using card_mono [of "{unat x}"] by simp
    then show False using assms(1) by simp
  qed
  ultimately show ?thesis
    using assms(1,3) len lt by (auto simp: openFull_def nth_list_update sixteen split: if_splits)
qed

definition deletes :: "ptrie \<Rightarrow> bytes \<Rightarrow> ptrie \<Rightarrow> bool" where
  "deletes T k T' \<longleftrightarrow> plookup T k \<noteq> None \<and> (if k = [] then T' = PNil else canonical T') \<and>
     (isFull T \<and> k \<noteq> [] \<longrightarrow> wft T') \<and>
     (\<forall>k'. hexkey k' \<and> k \<noteq> [] \<longrightarrow> plookup T' k' = (if k' = k then None else plookup T k'))"

lemma pdelete_spec:
  assumes "slot k T"
  shows "case pdelete T k of None \<Rightarrow> plookup T k = None | Some T' \<Rightarrow> deletes T k T'"
  using assms
proof (induction T k rule: pdelete.induct)
  case (3 sk c k)
  then have wf: "wft (PShort sk c)" "hexkey k" by (auto simp: slot_def canonical_def split: if_splits)
  show ?case
  proof (cases "prefixLen k sk < length sk")
    case True
    then have "\<nexists>r. k = sk @ r" using prefixLen_self by fastforce
    then show ?thesis using True by (auto simp: plookup_take)
  next
    case False
    then obtain r where k: "k = sk @ r" using prefixLen_full [of k sk] prefixLen_le(2) [of k sk] by force
    have m: "prefixLen k sk = length sk" using k prefixLen_self by simp
    have r: "slot r c" using short_slot [OF wf(1)] wf(2) k by simp
    show ?thesis
    proof (cases "r = []")
      case True
      then have "isValue c" using wf k r by (auto dest: hasTerm_hexkey hasTerm_nibbles split: if_splits)
      moreover have "plookup (PShort sk c) k' = None" if "k' \<noteq> k" for k'
        using that k True calculation by (auto simp: plookup_take elim!: isValueE split: if_splits)
      ultimately have "deletes (PShort sk c) k PNil" using k True wf(2) by (auto simp: deletes_def canonical_def elim!: isValueE)
      then show ?thesis using m k True by simp
    next
      case False
      then have c: "isFull c" "sk \<noteq> []" "nibbles sk" using wf k hexkey_prefix [of sk r] by (auto split: if_splits)
      have IH: "case pdelete c r of None \<Rightarrow> plookup c r = None | Some T' \<Rightarrow> deletes c r T'"
        using 3(1) [OF refl] r m False unfolding k by (simp split: option.splits)
      show ?thesis
      proof (cases "pdelete c r")
        case None
        then show ?thesis using IH m k False by simp
      next
        case (Some T')
        then have T': "deletes c r T'" using IH by simp
        have look: "plookup (joinShort sk T') k' = (if k' = k then None else plookup (PShort sk c) k')" if hk: "hexkey k'" for k'
        proof (cases "\<exists>r'. k' = sk @ r'")
          case True
          then obtain r' where k': "k' = sk @ r'" by blast
          then have "hexkey r'" using hk c(3) hasTerm_nibbles [OF c(3)] hasTerm_hexkey [OF hk] by (cases "r' = []") auto
          then show ?thesis using T' k k' False by (simp add: plookup_joinShort deletes_def)
        next
          case False
          then show ?thesis using k by (auto simp: plookup_joinShort plookup_take)
        qed
        have "wft (joinShort sk T')" using T' c False by (simp add: wft_joinShort deletes_def)
        moreover have "plookup (PShort sk c) k \<noteq> None" using T' k by (simp add: deletes_def)
        ultimately have "deletes (PShort sk c) k (joinShort sk T')"
          using look wf(2) by (auto simp: deletes_def canonical_def simp del: plookup.simps)
        then show ?thesis using m k False Some by simp
      qed
    qed
  qed
next
  case (4 cs k)
  then have wf: "wft (PFull cs)" "hexkey k" by (auto simp: slot_def canonical_def split: if_splits)
  then obtain x r where k: "k = x # r" by (cases k) auto
  note s = full_slot [OF wf(1) wf(2) [unfolded k]]
  have x: "x \<le> 16" "x = 16 \<longleftrightarrow> r = []" using wf(2) k by (auto simp: hexkey_Cons)
  note IH = 4(1) [OF k s(1) s(2)]
  show ?case
  proof (cases "pdelete (cs ! unat x) r")
    case None
    then show ?thesis using IH k s(1) by simp
  next
    case (Some n)
    then have n: "deletes (cs ! unat x) r n" using IH by simp
    have op: "openFull (cs[unat x := n])" using n x by (intro openFull_update [OF wf(1)]) (auto simp: deletes_def)
    have look: "plookup (reduceFull (cs[unat x := n])) k' = (if k' = k then None else plookup (PFull cs) k')" if hk: "hexkey k'" for k'
    proof -
      obtain y r' where k': "k' = y # r'" using hk by (cases k') auto
      show ?thesis
      proof (cases "y = x")
        case True
        have "plookup n r' = (if r' = r then None else plookup (cs ! unat x) r')"
          using n hk k' True x by (auto simp: hexkey_Cons deletes_def)
        then show ?thesis using plookup_reduceFull [OF op hk] k k' True s(1) by simp
      next
        case False
        then have "unat x \<noteq> unat y" by (simp add: word_unat_eq_iff)
        then show ?thesis using plookup_reduceFull [OF op hk] k k' False by simp
      qed
    qed
    have "plookup (PFull cs) k \<noteq> None" using n k s(1) by (simp add: deletes_def)
    then have "deletes (PFull cs) k (reduceFull (cs[unat x := n]))"
      using look wft_reduceFull [OF op] wf(2) by (auto simp: deletes_def canonical_def simp del: plookup.simps)
    then show ?thesis using k s(1) Some by simp
  qed
qed (auto simp: slot_def canonical_def deletes_def split: if_splits)
section \<open>A canonical trie is determined by its map\<close>

definition hasKey :: "ptrie \<Rightarrow> bytes \<Rightarrow> bool" where
  "hasKey T k \<longleftrightarrow> hexkey k \<and> plookup T k \<noteq> None"

lemma full_two_children:
  assumes "wft (PFull cs)"
  obtains i j where "i < 17" "j < 17" "i \<noteq> j" "cs ! i \<noteq> PNil" "cs ! j \<noteq> PNil"
proof -
  let ?A = "{i. i < 17 \<and> cs ! i \<noteq> PNil}"
  have "2 \<le> card ?A" using assms by (simp add: length_filter_conv_card) (elim conjE, simp)
  moreover have "finite ?A" by simp
  ultimately obtain i j where "i \<in> ?A" "j \<in> ?A" "i \<noteq> j"
    using card_le_Suc0_iff_eq [of ?A] by fastforce
  then show ?thesis using that by blast
qed

lemma wft_nonempty: "wft T \<Longrightarrow> \<exists>k. hasKey T k"
proof (induction T)
  case (PShort sk c)
  show ?case
  proof (cases "isValue c")
    case True
    then show ?thesis using PShort.prems by (intro exI [of _ sk]) (auto simp: hasKey_def elim!: isValueE)
  next
    case False
    then obtain r where "hasKey c r" "nibbles sk" using PShort by (auto split: if_splits)
    then show ?thesis by (intro exI [of _ "sk @ r"]) (auto simp: hasKey_def hexkey_append)
  qed
next
  case (PFull cs)
  obtain i where i: "i < 17" "cs ! i \<noteq> PNil" using full_two_children [OF PFull.prems] by blast
  have ix: "unat (word_of_nat i :: u8) = i" using i(1) by (simp add: small_index)
  show ?case
  proof (cases "i = 16")
    case True
    then show ?thesis using PFull.prems i by (intro exI [of _ "[16]"]) (auto simp: hasKey_def elim!: isValueE)
  next
    case False
    then have "i < 16" using i(1) by simp
    have c: "wft (cs ! i)" "cs ! i \<in> set cs"
      using full_child(2) [OF PFull.prems, of "word_of_nat i"] i False \<open>i < 16\<close> PFull.prems
      by (auto simp: ix canonical_def word_less_nat_alt word_le_nat_alt)
    from PFull.IH [OF c(2,1)] obtain k where "hasKey (cs ! i) k" by blast
    then show ?thesis using PFull.prems i(1) \<open>i < 16\<close>
      by (intro exI [of _ "word_of_nat i # k"]) (auto simp: hasKey_def hexkey_Cons ix word_less_nat_alt)
  qed
qed simp_all

lemma full_key:
  assumes "wft (PFull cs)" "i < 17" "cs ! i \<noteq> PNil"
  obtains k where "hasKey (PFull cs) (word_of_nat i # k)"
proof -
  have ix: "unat (word_of_nat i :: u8) = i" using assms(2) by (simp add: small_index)
  show ?thesis
  proof (cases "i = 16")
    case True
    then show ?thesis using assms that [of "[]"] by (auto simp: hasKey_def elim!: isValueE)
  next
    case False
    then have "i < 16" using assms(2) by simp
    have "wft (cs ! i)"
      using full_child(2) [OF assms(1), of "word_of_nat i"] assms \<open>i < 16\<close>
      by (auto simp: ix canonical_def word_less_nat_alt word_le_nat_alt)
    then obtain k where "hasKey (cs ! i) k" using wft_nonempty by blast
    then show ?thesis using assms(1) \<open>i < 16\<close>
      by (intro that [of k]) (auto simp: hasKey_def hexkey_Cons ix word_less_nat_alt)
  qed
qed

lemma full_two_keys:
  assumes "wft (PFull cs)"
  obtains x y k l where "x \<noteq> y" "hasKey (PFull cs) (x # k)" "hasKey (PFull cs) (y # l)"
proof -
  obtain i j where ij: "i < 17" "j < 17" "i \<noteq> j" "cs ! i \<noteq> PNil" "cs ! j \<noteq> PNil" using full_two_children [OF assms] .
  obtain k where "hasKey (PFull cs) (word_of_nat i # k)" using full_key [OF assms ij(1,4)] .
  moreover obtain l where "hasKey (PFull cs) (word_of_nat j # l)" using full_key [OF assms ij(2,5)] .
  moreover have "(word_of_nat i :: u8) \<noteq> word_of_nat j" using ij(1-3) by (auto simp: word_unat_eq_iff small_index)
  ultimately show ?thesis using that by blast
qed

lemma short_keys: "hasKey (PShort sk c) k \<Longrightarrow> \<exists>r. k = sk @ r \<and> plookup c r \<noteq> None"
  by (auto simp: hasKey_def plookup_take split: if_splits)

lemma short_full_keys:
  assumes "wft (PShort sk c)" "isFull c"
  obtains x y k l where "x \<noteq> y" "hasKey (PShort sk c) (sk @ x # k)" "hasKey (PShort sk c) (sk @ y # l)"
proof -
  have sk: "nibbles sk" and c: "wft c" using assms by (cases c; auto)+
  obtain cs where cs: "c = PFull cs" using assms(2) by (cases c) auto
  obtain x y k l where "x \<noteq> y" "hasKey c (x # k)" "hasKey c (y # l)" using full_two_keys c unfolding cs by metis
  then show ?thesis using sk by (intro that [of x y k l]) (auto simp: hasKey_def hexkey_append)
qed

lemma short_path_le:
  assumes "wft (PShort a c)" "isFull c" "wft (PShort b d)" "\<And>k. hasKey (PShort a c) k = hasKey (PShort b d) k"
  shows "\<exists>e. a = b @ e"
proof -
  obtain x y k l where xy: "x \<noteq> y" "hasKey (PShort a c) (a @ x # k)" "hasKey (PShort a c) (a @ y # l)"
    using short_full_keys [OF assms(1,2)] .
  obtain r s where rs: "a @ x # k = b @ r" "a @ y # l = b @ s" using xy assms(4) short_keys by metis
  show ?thesis
  proof (cases "length b \<le> length a")
    case True
    then show ?thesis using rs(1) by (metis append_eq_append_conv_if append_take_drop_id)
  next
    case False
    then obtain e z where "b = a @ z # e" using rs(1)
      by (metis append_eq_append_conv2 le_refl length_append list.exhaust append_Nil2 trans_le_add1)
    with rs have "x = z" "y = z" by auto
    with xy(1) show ?thesis by simp
  qed
qed

lemma canonical_unique:
  assumes "canonical S" "canonical T" "\<And>k. hexkey k \<Longrightarrow> plookup S k = plookup T k"
  shows "S = T"
  using assms
proof (induction S arbitrary: T)
  case PNil
  then show ?case using wft_nonempty [of T] by (auto simp: canonical_def hasKey_def)
next
  case (PVal v)
  then show ?case by (simp add: canonical_def)
next
  case (PShort a c)
  have wa: "wft (PShort a c)" using PShort.prems(1) by (simp add: canonical_def)
  have same: "hasKey (PShort a c) k = hasKey T k" for k using PShort.prems(3) by (auto simp: hasKey_def simp del: plookup.simps)
  then have wT: "wft T" using wft_nonempty [OF wa] PShort.prems(2) by (auto simp: canonical_def hasKey_def)
  show ?case
  proof (cases T)
    case (PShort b d)
    then have wb: "wft (PShort b d)" using wT by simp
    have sameb: "hasKey (PShort a c) k = hasKey (PShort b d) k" for k using same PShort by simp
    show ?thesis
    proof (cases "isValue c")
      case True
      have "hasKey (PShort a c) a" using True wa by (auto simp: hasKey_def elim!: isValueE)
      moreover have only: "k = a" if "hasKey (PShort a c) k" for k
        using that short_keys True by (fastforce elim!: isValueE split: if_splits)
      have "isValue d"
      proof (rule ccontr)
        assume "\<not> isValue d"
        then have "isFull d" using wb by (simp split: if_splits)
        with short_full_keys [OF wb] sameb only show False by (metis list.inject same_append_eq)
      qed
      ultimately have "hasKey (PShort b d) b" using wb by (auto simp: hasKey_def elim!: isValueE)
      then have "b = a" using sameb only by blast
      moreover have "plookup (PShort a c) a = plookup (PShort b d) a" using PShort.prems(3) [of a] PShort \<open>hasKey (PShort a c) a\<close>
        by (simp only: hasKey_def)
      ultimately show ?thesis using True \<open>isValue d\<close> PShort by (auto elim!: isValueE)
    next
      case False
      then have fc: "isFull c" using wa by (simp split: if_splits)
      have fd: "isFull d"
      proof (rule ccontr)
        assume "\<not> isFull d"
        then have "isValue d" using wb by (simp split: if_splits)
        then have "k = b" if "hasKey (PShort b d) k" for k
          using that short_keys by (fastforce elim!: isValueE split: if_splits)
        with short_full_keys [OF wa fc] sameb show False by (metis list.inject same_append_eq)
      qed
      obtain e where "a = b @ e" using short_path_le [OF wa fc wb sameb] by blast
      moreover obtain e' where "b = a @ e'" using short_path_le [OF wb fd wa] sameb by blast
      ultimately have ab: "b = a" by simp
      have "c = d"
      proof (rule PShort.IH)
        show "canonical c" "canonical d" using wa wb fc fd False by (auto simp: canonical_def split: if_splits elim: isValueE)
        fix k assume "hexkey k"
        moreover have "nibbles a" using wa False by (simp split: if_splits)
        ultimately have "plookup (PShort a c) (a @ k) = plookup T (a @ k)" by (intro PShort.prems(3) hexkey_append)
        then show "plookup c k = plookup d k" using PShort ab by simp
      qed
      then show ?thesis using PShort ab by simp
    qed
  next
    case (PFull ds)
    obtain x y k l where "x \<noteq> y" "hasKey T (x # k)" "hasKey T (y # l)" using full_two_keys wT unfolding PFull by metis
    moreover obtain z a' where "a = z # a'" using wa by (cases a) (auto split: if_splits)
    ultimately show ?thesis using same short_keys [of a c] by (metis append_Cons list.inject)
  qed (use wT in simp_all)
next
  case (PFull cs)
  have wc: "wft (PFull cs)" using PFull.prems(1) by (simp add: canonical_def)
  have same: "hasKey (PFull cs) k = hasKey T k" for k using PFull.prems(3) by (auto simp: hasKey_def simp del: plookup.simps)
  then have wT: "wft T" using wft_nonempty [OF wc] PFull.prems(2) by (auto simp: canonical_def hasKey_def)
  show ?case
  proof (cases T)
    case (PShort b d)
    obtain x y k l where "x \<noteq> y" "hasKey (PFull cs) (x # k)" "hasKey (PFull cs) (y # l)" using full_two_keys [OF wc] by metis
    moreover obtain z b' where "b = z # b'" using wT PShort by (cases b) (auto split: if_splits)
    ultimately show ?thesis using same short_keys [of b d] PShort by (metis append_Cons list.inject)
  next
    case (PFull ds)
    have wd: "wft (PFull ds)" using wT PFull by simp
    have "cs ! i = ds ! i" if i: "i < 17" for i
    proof -
      have ix: "unat (word_of_nat i :: u8) = i" using i by (simp add: small_index)
      have le: "word_of_nat i \<le> (16 :: u8)" using i by (simp add: word_le_nat_alt ix)
      have look: "plookup (cs ! i) k = plookup (ds ! i) k" if "hexkey (word_of_nat i # k)" for k
        using PFull.prems(3) [OF that] PFull wc wd i by (simp add: ix)
      show ?thesis
      proof (cases "i = 16")
        case True
        then have "plookup (cs ! 16) [] = plookup (ds ! 16) []" using look [of "[]"] by simp
        then show ?thesis using wc wd True by (auto elim!: isValueE)
      next
        case False
        then have lt: "(word_of_nat i :: u8) < 16" using i by (simp add: word_less_nat_alt ix)
        show ?thesis
        proof (rule PFull.IH)
          show "cs ! i \<in> set cs" using wc i by simp
          show "canonical (cs ! i)" "canonical (ds ! i)"
            using full_child(2) [OF wc le lt] full_child(2) [OF wd le lt] by (simp_all add: ix)
          show "plookup (cs ! i) k = plookup (ds ! i) k" if "hexkey k" for k
            using that lt by (intro look) (simp add: hexkey_Cons)
        qed
      qed
    qed
    then show ?thesis using wc wd PFull by (auto intro: nth_equalityI)
  qed (use wT in simp_all)
qed
end
