(* ===== verification/Trie.thy ===== *)
theory Trie
  imports Common TrieSpec
begin

unbundle bit_operations_syntax

text \<open>
  The trie of \<open>trie/trie.go\<close> and the decoder of its stored nodes (\<open>trie/node.go\<close>). Nodes that are
  not loaded are \<open>HashNode\<close>s, which the operations replace on their way by what the data base
  holds under the hash; the data base is the function \<open>db\<close> (\<open>Database.Node\<close>). Recursion runs on
  fuel, because a data base could hold a cycle; \<open>None\<close> is running out of fuel.
\<close>

type_synonym u16 = "16 word"
type_synonym nodeDb = "hash256 \<Rightarrow> bytes option"

record nodeFlag =
  fhash :: "bytes option"
  fgen :: u16
  fdirty :: bool

datatype node = NilNode | ValueNode bytes | HashNode bytes | ShortNode bytes node nodeFlag
  | FullNode "node list" nodeFlag

datatype decode_error = NodeEOF | NodeRlp rlp_error | BadElemCount int | OversizedNode nat | BadRefSize nat
  | NodePanic go_panic

datatype trie_error = MissingNodeError hash256 bytes | TriePanic string | TrieIndexPanic

type_synonym 'a tres = "(trie_error + 'a) option"

definition tbind :: "'a tres \<Rightarrow> ('a \<Rightarrow> 'b) \<Rightarrow> 'b tres" where
  "tbind r g = (case r of None \<Rightarrow> None | Some (Inl e) \<Rightarrow> Some (Inl e) | Some (Inr x) \<Rightarrow> Some (Inr (g x)))"

definition newFlag :: "u16 \<Rightarrow> nodeFlag" where
  "newFlag cachegen = \<lparr>fhash = None, fgen = cachegen, fdirty = True\<rparr>"

section \<open>Stored nodes\<close>

text \<open>
  The decoders take the decoder of embedded nodes; \<open>decodeNodeN\<close> bounds the nesting. An embedded
  node is shorter than the node around it, so that the length of the input is a bound.
\<close>

definition decodeRef ::
  "(bytes \<Rightarrow> decode_error + node) \<Rightarrow> bytes \<Rightarrow> decode_error + node \<times> bytes" where
  "decodeRef dec buf =
     (case Split buf of
        Inl e \<Rightarrow> Inl (NodeRlp e)
      | Inr (k, val, rest) \<Rightarrow>
          if k = List then
            (if length buf - length rest > 32 then Inl (OversizedNode (length buf - length rest))
             else (case dec buf of Inl e \<Rightarrow> Inl e | Inr n \<Rightarrow> Inr (n, rest)))
          else if k = String \<and> length val = 0 then Inr (NilNode, rest)
          else if k = String \<and> length val = 32 then Inr (HashNode val, rest)
          else Inl (BadRefSize (length val)))"

definition decodeShort ::
  "(bytes \<Rightarrow> decode_error + node) \<Rightarrow> nodeFlag \<Rightarrow> bytes \<Rightarrow> decode_error + node" where
  "decodeShort dec flag elems =
     (case SplitString elems of
        Inl e \<Rightarrow> Inl (NodeRlp e)
      | Inr (kbuf, rest) \<Rightarrow>
          (case compactToHex kbuf of
             Inl p \<Rightarrow> Inl (NodePanic p)
           | Inr key \<Rightarrow>
               if hasTerm key then
                 (case SplitString rest of
                    Inl e \<Rightarrow> Inl (NodeRlp e)
                  | Inr (val, _) \<Rightarrow> Inr (ShortNode key (ValueNode val) flag))
               else (case decodeRef dec rest of
                       Inl e \<Rightarrow> Inl e
                     | Inr (r, _) \<Rightarrow> Inr (ShortNode key r flag))))"

fun decodeChildren ::
  "(bytes \<Rightarrow> decode_error + node) \<Rightarrow> nat \<Rightarrow> bytes \<Rightarrow> decode_error + node list \<times> bytes" where
  "decodeChildren dec 0 elems = Inr ([], elems)"
| "decodeChildren dec (Suc n) elems =
     (case decodeRef dec elems of
        Inl e \<Rightarrow> Inl e
      | Inr (cld, rest) \<Rightarrow>
          (case decodeChildren dec n rest of Inl e \<Rightarrow> Inl e | Inr (clds, r) \<Rightarrow> Inr (cld # clds, r)))"

definition decodeFull ::
  "(bytes \<Rightarrow> decode_error + node) \<Rightarrow> nodeFlag \<Rightarrow> bytes \<Rightarrow> decode_error + node" where
  "decodeFull dec flag elems =
     (case decodeChildren dec 16 elems of
        Inl e \<Rightarrow> Inl e
      | Inr (clds, rest) \<Rightarrow>
          (case SplitString rest of
             Inl e \<Rightarrow> Inl (NodeRlp e)
           | Inr (val, _) \<Rightarrow>
               Inr (FullNode (clds @ [if length val > 0 then ValueNode val else NilNode]) flag)))"

primrec decodeNodeN :: "nat \<Rightarrow> bytes option \<Rightarrow> u16 \<Rightarrow> bytes \<Rightarrow> decode_error + node" where
  "decodeNodeN 0 hash gen buf = Inl NodeEOF"
| "decodeNodeN (Suc d) hash gen buf =
     (if length buf = 0 then Inl NodeEOF
      else (case SplitList buf of
              Inl e \<Rightarrow> Inl (NodeRlp e)
            | Inr (elems, _) \<Rightarrow>
                (let c = (case CountValues elems of Inl e \<Rightarrow> 0 | Inr c \<Rightarrow> c);
                     flag = \<lparr>fhash = hash, fgen = gen, fdirty = False\<rparr>
                 in if c = 2 then decodeShort (decodeNodeN d None gen) flag elems
                    else if c = 17 then decodeFull (decodeNodeN d None gen) flag elems
                    else Inl (BadElemCount c))))"

definition decodeNode :: "bytes option \<Rightarrow> bytes \<Rightarrow> u16 \<Rightarrow> decode_error + node" where
  "decodeNode hash buf gen = decodeNodeN (Suc (length buf)) hash gen buf"

definition resolveHash :: "nodeDb \<Rightarrow> u16 \<Rightarrow> bytes \<Rightarrow> bytes \<Rightarrow> trie_error + node" where
  "resolveHash db cachegen n prefix =
     (let hash = BytesToHash n in
      case db hash of
        None \<Rightarrow> Inl (MissingNodeError hash prefix)
      | Some enc \<Rightarrow>
          (case decodeNode (Some n) enc cachegen of
             Inl e \<Rightarrow> Inl (TriePanic ''node'')
           | Inr nd \<Rightarrow> Inr nd))"

definition resolve :: "nodeDb \<Rightarrow> u16 \<Rightarrow> node \<Rightarrow> bytes \<Rightarrow> trie_error + node" where
  "resolve db cachegen n prefix =
     (case n of HashNode h \<Rightarrow> resolveHash db cachegen h prefix | _ \<Rightarrow> Inr n)"

section \<open>Reading, writing and deleting\<close>

text \<open>\<open>tryGet\<close> returns the value (\<open>None\<close> for nil), the new node and whether a node was loaded.\<close>

fun tryGet :: "nodeDb \<Rightarrow> u16 \<Rightarrow> nat \<Rightarrow> node \<Rightarrow> bytes \<Rightarrow> nat \<Rightarrow> (bytes option \<times> node \<times> bool) tres" where
  "tryGet db gen 0 origNode key pos = None"
| "tryGet db gen (Suc fuel) origNode key pos =
     (case origNode of
        NilNode \<Rightarrow> Some (Inr (None, NilNode, False))
      | ValueNode v \<Rightarrow> Some (Inr (Some v, origNode, False))
      | ShortNode k val fl \<Rightarrow>
          if length key < pos + length k \<or> k \<noteq> take (length k) (drop pos key)
          then Some (Inr (None, origNode, False))
          else tbind (tryGet db gen fuel val key (pos + length k)) (\<lambda>(v, nn, didResolve).
                 (v, if didResolve then ShortNode k nn (fl\<lparr>fgen := gen\<rparr>) else origNode, didResolve))
      | FullNode cs fl \<Rightarrow>
          if pos < length key \<and> unat (key ! pos) < length cs
          then tbind (tryGet db gen fuel (cs ! unat (key ! pos)) key (pos + 1)) (\<lambda>(v, nn, didResolve).
                 (v, if didResolve then FullNode (cs[unat (key ! pos) := nn]) (fl\<lparr>fgen := gen\<rparr>) else origNode,
                  didResolve))
          else Some (Inl TrieIndexPanic)
      | HashNode h \<Rightarrow>
          (case resolveHash db gen h (take pos key) of
             Inl e \<Rightarrow> Some (Inl e)
           | Inr child \<Rightarrow> tbind (tryGet db gen fuel child key pos) (\<lambda>(v, nn, _). (v, nn, True))))"

text \<open>\<open>insert\<close> and \<open>delete\<close> return whether the node changed, and the new node.\<close>

fun insertNode :: "nodeDb \<Rightarrow> u16 \<Rightarrow> nat \<Rightarrow> node \<Rightarrow> bytes \<Rightarrow> bytes \<Rightarrow> node \<Rightarrow> (bool \<times> node) tres" where
  "insertNode db gen 0 n prefix key val = None"
| "insertNode db gen (Suc fuel) n prefix key val =
     (if length key = 0 then
        Some (Inr (case n of ValueNode v \<Rightarrow> (ValueNode v \<noteq> val, val) | _ \<Rightarrow> (True, val)))
      else case n of
        ShortNode k v fl \<Rightarrow>
          (let matchlen = prefixLen key k in
           if matchlen = length k then
             tbind (insertNode db gen fuel v (prefix @ take matchlen key) (drop matchlen key) val)
               (\<lambda>(dirty, nn). if dirty then (True, ShortNode k nn (newFlag gen)) else (False, n))
           else if matchlen \<ge> length key \<or> unat (k ! matchlen) \<ge> 17 \<or> unat (key ! matchlen) \<ge> 17
           then Some (Inl TrieIndexPanic)
           else
             (case insertNode db gen fuel NilNode (prefix @ take (matchlen + 1) k) (drop (matchlen + 1) k) v of
                None \<Rightarrow> None
              | Some (Inl e) \<Rightarrow> Some (Inl e)
              | Some (Inr (_, a)) \<Rightarrow>
                  tbind (insertNode db gen fuel NilNode (prefix @ take (matchlen + 1) key) (drop (matchlen + 1) key) val)
                    (\<lambda>(_, b).
                      let branch = FullNode ((replicate 17 NilNode)[unat (k ! matchlen) := a, unat (key ! matchlen) := b])
                                     (newFlag gen)
                      in if matchlen = 0 then (True, branch)
                         else (True, ShortNode (take matchlen key) branch (newFlag gen)))))
      | FullNode cs fl \<Rightarrow>
          if unat (key ! 0) < length cs
          then tbind (insertNode db gen fuel (cs ! unat (key ! 0)) (prefix @ [key ! 0]) (drop 1 key) val)
                 (\<lambda>(dirty, nn). if dirty then (True, FullNode (cs[unat (key ! 0) := nn]) (newFlag gen)) else (False, n))
          else Some (Inl TrieIndexPanic)
      | NilNode \<Rightarrow> Some (Inr (True, ShortNode key val (newFlag gen)))
      | HashNode h \<Rightarrow>
          (case resolveHash db gen h prefix of
             Inl e \<Rightarrow> Some (Inl e)
           | Inr rn \<Rightarrow> tbind (insertNode db gen fuel rn prefix key val)
                         (\<lambda>(dirty, nn). if dirty then (True, nn) else (False, rn)))
      | ValueNode v \<Rightarrow> Some (Inl (TriePanic ''invalid node'')))"

text \<open>The loop that looks for a single remaining child: \<open>Some pos\<close>, or \<open>None\<close> for -1 and -2.\<close>

definition singleChild :: "node list \<Rightarrow> nat option" where
  "singleChild cs =
     (case filter (\<lambda>i. cs ! i \<noteq> NilNode) [0..<length cs] of [pos] \<Rightarrow> Some pos | _ \<Rightarrow> None)"

fun deleteNode :: "nodeDb \<Rightarrow> u16 \<Rightarrow> nat \<Rightarrow> node \<Rightarrow> bytes \<Rightarrow> bytes \<Rightarrow> (bool \<times> node) tres" where
  "deleteNode db gen 0 n prefix key = None"
| "deleteNode db gen (Suc fuel) n prefix key =
     (case n of
        ShortNode k v fl \<Rightarrow>
          (let matchlen = prefixLen key k in
           if matchlen < length k then Some (Inr (False, n))
           else if matchlen = length key then Some (Inr (True, NilNode))
           else tbind (deleteNode db gen fuel v (prefix @ take (length k) key) (drop (length k) key))
                  (\<lambda>(dirty, child).
                    if \<not> dirty then (False, n)
                    else (case child of
                            ShortNode ck cv cfl \<Rightarrow> (True, ShortNode (k @ ck) cv (newFlag gen))
                          | _ \<Rightarrow> (True, ShortNode k child (newFlag gen)))))
      | FullNode cs fl \<Rightarrow>
          if length key = 0 \<or> unat (key ! 0) \<ge> length cs then Some (Inl TrieIndexPanic)
          else (case deleteNode db gen fuel (cs ! unat (key ! 0)) (prefix @ [key ! 0]) (drop 1 key) of
                  None \<Rightarrow> None
                | Some (Inl e) \<Rightarrow> Some (Inl e)
                | Some (Inr (dirty, nn)) \<Rightarrow>
                    if \<not> dirty then Some (Inr (False, n))
                    else
                      (let cs' = cs[unat (key ! 0) := nn] in
                       case singleChild cs' of
                         None \<Rightarrow> Some (Inr (True, FullNode cs' (newFlag gen)))
                       | Some pos \<Rightarrow>
                           if pos \<noteq> 16 then
                             (case resolve db gen (cs' ! pos) prefix of
                                Inl e \<Rightarrow> Some (Inl e)
                              | Inr cnode \<Rightarrow>
                                  Some (Inr (True,
                                    case cnode of
                                      ShortNode ck cv cfl \<Rightarrow> ShortNode (word_of_nat pos # ck) cv (newFlag gen)
                                    | _ \<Rightarrow> ShortNode [word_of_nat pos] (cs' ! pos) (newFlag gen))))
                           else Some (Inr (True, ShortNode [word_of_nat pos] (cs' ! pos) (newFlag gen)))))
      | ValueNode v \<Rightarrow> Some (Inr (True, NilNode))
      | NilNode \<Rightarrow> Some (Inr (False, NilNode))
      | HashNode h \<Rightarrow>
          (case resolveHash db gen h prefix of
             Inl e \<Rightarrow> Some (Inl e)
           | Inr rn \<Rightarrow> tbind (deleteNode db gen fuel rn prefix key)
                         (\<lambda>(dirty, nn). if dirty then (True, nn) else (False, rn))))"

declare tryGet.simps(2) [simp del] insertNode.simps(2) [simp del] deleteNode.simps(2) [simp del]

section \<open>Operations on tries\<close>

record Trie =
  root :: node
  originalRoot :: hash256
  cachegen :: u16
  cachelimit :: u16

definition SetCacheLimit :: "u16 \<Rightarrow> Trie \<Rightarrow> Trie" where
  "SetCacheLimit l t = t\<lparr>cachelimit := l\<rparr>"

definition emptyRoot :: hash256 where
  "emptyRoot = 0x56e81f171bcc55a6ff8345e692c0f86e5b48e01b996cadc001622fb5e363b421"

definition newTrie :: "nodeDb \<Rightarrow> hash256 \<Rightarrow> trie_error + Trie" where
  "newTrie db rt =
     (let t = \<lparr>root = NilNode, originalRoot = rt, cachegen = 0, cachelimit = 0\<rparr> in
      if rt \<noteq> 0 \<and> rt \<noteq> emptyRoot
      then (case resolveHash db 0 (hash_bytes rt) [] of Inl e \<Rightarrow> Inl e | Inr n \<Rightarrow> Inr (t\<lparr>root := n\<rparr>))
      else Inr t)"

definition TryGet :: "nodeDb \<Rightarrow> nat \<Rightarrow> bytes \<Rightarrow> Trie \<Rightarrow> (bytes option \<times> Trie) tres" where
  "TryGet db fuel key t =
     tbind (tryGet db (cachegen t) fuel (root t) (keybytesToHex key) 0)
       (\<lambda>(v, newroot, didResolve). (v, if didResolve then t\<lparr>root := newroot\<rparr> else t))"

definition TryDelete :: "nodeDb \<Rightarrow> nat \<Rightarrow> bytes \<Rightarrow> Trie \<Rightarrow> Trie tres" where
  "TryDelete db fuel key t =
     tbind (deleteNode db (cachegen t) fuel (root t) [] (keybytesToHex key)) (\<lambda>(_, n). t\<lparr>root := n\<rparr>)"

definition TryUpdate :: "nodeDb \<Rightarrow> nat \<Rightarrow> bytes \<Rightarrow> bytes \<Rightarrow> Trie \<Rightarrow> Trie tres" where
  "TryUpdate db fuel key val t =
     (if length val \<noteq> 0
      then tbind (insertNode db (cachegen t) fuel (root t) [] (keybytesToHex key) (ValueNode val))
             (\<lambda>(_, n). t\<lparr>root := n\<rparr>)
      else tbind (deleteNode db (cachegen t) fuel (root t) [] (keybytesToHex key)) (\<lambda>(_, n). t\<lparr>root := n\<rparr>))"

end
