(* ===== verification/TrieEnc.thy ===== *)
theory TrieEnc
  imports Trie RlpRoundtrip
begin

text \<open>
  The stored form of canonical tries: the bytes of a node (\<open>penc\<close>), in which a child stands as its
  own bytes when they are shorter than a hash and as its hash otherwise (\<open>pitem\<close>), and what the
  decoder of \<open>trie/node.go\<close> makes of these bytes (\<open>pload\<close>). The hash function is a parameter.
\<close>

type_synonym hashfun = "bytes \<Rightarrow> hash256"

fun penc :: "hashfun \<Rightarrow> ptrie \<Rightarrow> bytes" and pitem :: "hashfun \<Rightarrow> ptrie \<Rightarrow> bytes" where
  "penc kec PNil = []"
| "penc kec (PVal v) = encStr v"
| "penc kec (PShort k c) = encList (encStr (hexToCompact k) @ pitem kec c)"
| "penc kec (PFull cs) = encList (concat (map (pitem kec) cs))"
| "pitem kec PNil = encStr []"
| "pitem kec (PVal v) = encStr v"
| "pitem kec (PShort k c) =
     (let e = penc kec (PShort k c) in if length e < 32 then e else encStr (hash_bytes (kec e)))"
| "pitem kec (PFull cs) =
     (let e = penc kec (PFull cs) in if length e < 32 then e else encStr (hash_bytes (kec e)))"

fun pload :: "hashfun \<Rightarrow> u16 \<Rightarrow> bytes option \<Rightarrow> ptrie \<Rightarrow> node" and pref :: "hashfun \<Rightarrow> u16 \<Rightarrow> ptrie \<Rightarrow> node" where
  "pload kec gen h PNil = NilNode"
| "pload kec gen h (PVal v) = ValueNode v"
| "pload kec gen h (PShort k c) = ShortNode k (pref kec gen c) \<lparr>fhash = h, fgen = gen, fdirty = False\<rparr>"
| "pload kec gen h (PFull cs) = FullNode (map (pref kec gen) cs) \<lparr>fhash = h, fgen = gen, fdirty = False\<rparr>"
| "pref kec gen PNil = NilNode"
| "pref kec gen (PVal v) = ValueNode v"
| "pref kec gen (PShort k c) =
     (let e = penc kec (PShort k c)
      in if length e < 32 then pload kec gen None (PShort k c) else HashNode (hash_bytes (kec e)))"
| "pref kec gen (PFull cs) =
     (let e = penc kec (PFull cs)
      in if length e < 32 then pload kec gen None (PFull cs) else HashNode (hash_bytes (kec e)))"

text \<open>Values and keys of a size that fits Go's slices.\<close>

fun psmall :: "ptrie \<Rightarrow> bool" where
  "psmall PNil = True"
| "psmall (PVal v) = (length v < 2 ^ 61)"
| "psmall (PShort k c) = (length k < 2 ^ 61 \<and> psmall c)"
| "psmall (PFull cs) = (\<forall>c \<in> set cs. psmall c)"

lemma pitem_node: "wft T \<Longrightarrow> pitem kec T = (if length (penc kec T) < 32 then penc kec T else encStr (hash_bytes (kec (penc kec T))))"
  and pref_node: "wft T \<Longrightarrow> pref kec gen T = (if length (penc kec T) < 32 then pload kec gen None T else HashNode (hash_bytes (kec (penc kec T))))"
  by (cases T; simp add: Let_def)+

lemma pitem_value: "isValue T \<Longrightarrow> pitem kec T = penc kec T"
  by (auto elim: isValueE)

section \<open>Sizes\<close>

lemma length_be_bytes_small: "n < 2 ^ 64 \<Longrightarrow> length (be_bytes n) \<le> 8"
  using length_be_bytes_le [of n 8] by simp

lemma length_encStr_le: "length b < 2 ^ 62 \<Longrightarrow> length (encStr b) \<le> length b + 9"
  using length_be_bytes_small [of "length b"] by (simp add: encStr_def rlpHead_def)

lemma length_encList_le: "length p < 2 ^ 63 \<Longrightarrow> length (encList p) \<le> length p + 9"
  using length_be_bytes_small [of "length p"] by (simp add: encList_def rlpHead_def)

lemma length_decodeNibbles: "length (decodeNibbles ns) = length ns div 2"
  by (induction ns rule: decodeNibbles.induct) auto

lemma length_hexToCompact: "length (hexToCompact k) \<le> length k + 1"
  by (auto simp: hexToCompact_def Let_def length_decodeNibbles)

lemma length_hash_item: "length (encStr (hash_bytes h)) = 33"
  by (simp add: encStr_def rlpHead_def length_hash_bytes)

lemma length_pitem_node: "wft T \<Longrightarrow> length (pitem kec T) \<le> 33"
  by (simp add: pitem_node length_hash_item)

lemma length_pitem: "psmall T \<Longrightarrow> T = PNil \<or> isValue T \<or> wft T \<Longrightarrow> length (pitem kec T) \<le> 2 ^ 61 + 42"
proof (elim disjE)
  assume "psmall T" "isValue T"
  then obtain v where "T = PVal v" "length v < 2 ^ 61" by (auto elim: isValueE)
  then show ?thesis using length_encStr_le [of v] by simp
next
  assume "wft T"
  then show ?thesis using length_pitem_node [of T kec] by simp
qed (simp add: encStr_def rlpHead_def)

lemma full_cases: "wft (PFull cs) \<Longrightarrow> c \<in> set cs \<Longrightarrow> c = PNil \<or> isValue c \<or> wft c"
proof -
  assume a: "wft (PFull cs)" "c \<in> set cs"
  then obtain i where i: "i < 17" "c = cs ! i" by (auto simp: in_set_conv_nth)
  show ?thesis
  proof (cases "i = 16")
    case False
    with i have "c \<in> set (take 16 cs)" using a(1) by (auto simp: in_set_conv_nth intro!: exI [of _ i])
    then show ?thesis using a(1) by auto
  qed (use a(1) i in auto)
qed

lemma short_child: "wft (PShort k c) \<Longrightarrow> isValue c \<or> wft c"
  by (auto split: if_splits)

lemma split_17: "length cs = 17 \<Longrightarrow> cs = take 16 cs @ [cs ! 16]"
  using id_take_nth_drop [of 16 cs] by simp

lemma length_penc:
  assumes "wft T" "psmall T"
  shows "length (penc kec T) < 2 ^ 62 + 2 ^ 61"
proof (cases T)
  case (PShort k c)
  have "length (pitem kec c) \<le> 2 ^ 61 + 42" using assms short_child length_pitem [of c kec] PShort by auto
  moreover have "length (encStr (hexToCompact k)) \<le> length k + 10"
    using length_hexToCompact [of k] length_encStr_le [of "hexToCompact k"] assms(2) PShort by simp
  ultimately show ?thesis
    using assms(2) PShort length_encList_le [of "encStr (hexToCompact k) @ pitem kec c"] by simp
next
  case (PFull cs)
  have len: "length cs = 17" using assms(1) PFull by simp
  have "length (concat (map (pitem kec) (take 16 cs))) \<le> 16 * 33"
  proof -
    have "length (pitem kec c) \<le> 33" if "c \<in> set (take 16 cs)" for c
      using that assms(1) PFull length_pitem_node [of c kec] by (auto simp: encStr_def rlpHead_def)
    then have "sum_list (map (length \<circ> pitem kec) (take 16 cs)) \<le> sum_list (map (\<lambda>_. 33) (take 16 cs))"
      by (intro sum_list_mono) simp
    then show ?thesis using len by (simp add: length_concat sum_list_triv o_def)
  qed
  moreover have "length (pitem kec (cs ! 16)) \<le> 2 ^ 61 + 42"
    using length_pitem [of "cs ! 16" kec] assms PFull len by auto
  moreover have "concat (map (pitem kec) cs) = concat (map (pitem kec) (take 16 cs)) @ pitem kec (cs ! 16)"
    using arg_cong [OF split_17 [OF len], of "\<lambda>cs. concat (map (pitem kec) cs)"] by simp
  ultimately have "length (concat (map (pitem kec) cs)) \<le> 2 ^ 61 + 570" by simp
  then show ?thesis using length_encList_le [of "concat (map (pitem kec) cs)"] PFull by simp
qed (use assms in simp_all)

section \<open>Decoding a stored node\<close>

definition item :: "bytes \<Rightarrow> bool" where
  "item b \<longleftrightarrow> (\<exists>k c. kindFits k c \<and> b = encKind k c)"

lemma item_encStr: "item (encStr b)" and item_encList: "item (encList b)"
  using item_str [of b] item_list [of b] by (auto simp: item_def)

lemma item_pitem: "T = PNil \<or> isValue T \<or> wft T \<Longrightarrow> item (pitem kec T)"
  by (cases T) (auto simp: item_encStr item_encList Let_def simp del: encStr_Nil)

lemma CountValues_items:
  assumes "\<forall>b \<in> set bs. item b" "length (concat bs) < 2 ^ 64"
  shows "CountValues (concat bs) = Inr (int (length bs))"
proof -
  have "\<forall>b \<in> set bs. \<exists>kc. kindFits (fst kc) (snd kc) \<and> encKind (fst kc) (snd kc) = b"
    using assms(1) unfolding item_def by fastforce
  then obtain f where f: "\<forall>b \<in> set bs. kindFits (fst (f b)) (snd (f b)) \<and> encKind (fst (f b)) (snd (f b)) = b"
    by metis
  then have eq: "map (\<lambda>(k, c). encKind k c) (map f bs) = bs"
    by (simp add: case_prod_beta map_idI)
  have "\<forall>(k, c) \<in> set (map f bs). kindFits k c" using f by auto
  from countFrom_encoded [OF this, of 0] show ?thesis
    unfolding eq CountValues_def using assms(2) by simp
qed

lemma Split_encList: "length (encList c @ rest) < 2 ^ 64 \<Longrightarrow> Split (encList c @ rest) = Inr (List, c, rest)"
  using Split_encKind [of List c rest] by (simp add: encKind_def kindFits_def)

lemma Split_encStr: "length (encStr c @ rest) < 2 ^ 64 \<Longrightarrow> Split (encStr c @ rest) = Inr (strKind c, c, rest)"
  using Split_encKind [of "strKind c" c rest] strKind(1,2) [of c] by simp

lemma SplitString_encStr: "length (encStr c @ rest) < 2 ^ 64 \<Longrightarrow> SplitString (encStr c @ rest) = Inr (c, rest)"
  using Split_encStr [of c rest] strKind(3) [of c] by (simp add: SplitString_def)

lemma encList_nonempty: "0 < length (encList c)"
  by (simp add: encList_def rlpHead_def)

lemma decode_list:
  assumes "length (encList c @ rest) < 2 ^ 64" "CountValues c = Inr n"
  shows "decodeNodeN (Suc d) h gen (encList c @ rest) =
    (if n = 2 then decodeShort (decodeNodeN d None gen) \<lparr>fhash = h, fgen = gen, fdirty = False\<rparr> c
     else if n = 17 then decodeFull (decodeNodeN d None gen) \<lparr>fhash = h, fgen = gen, fdirty = False\<rparr> c
     else Inl (BadElemCount n))"
  using assms Split_encList [OF assms(1)] encList_nonempty [of c] by (simp add: SplitList_def Let_def)

text \<open>A child that was written is read back.\<close>

definition readsBack :: "hashfun \<Rightarrow> u16 \<Rightarrow> (bytes \<Rightarrow> decode_error + node) \<Rightarrow> ptrie \<Rightarrow> bool" where
  "readsBack kec gen dec T \<longleftrightarrow> (\<forall>rest. length (pitem kec T @ rest) < 2 ^ 64 \<longrightarrow>
     decodeRef dec (pitem kec T @ rest) = Inr (pref kec gen T, rest))"

lemma readsBack_nil: "readsBack kec gen dec PNil"
  using Split_encStr [of "[]"] by (simp add: readsBack_def decodeRef_def strKind_def isSingle_def)

lemma readsBack_node:
  assumes "wft T" "\<And>rest. length (penc kec T) < 32 \<Longrightarrow> length (penc kec T @ rest) < 2 ^ 64 \<Longrightarrow>
    dec (penc kec T @ rest) = Inr (pload kec gen None T)"
  shows "readsBack kec gen dec T"
proof (cases "length (penc kec T) < 32")
  case True
  have "\<exists>c. penc kec T = encList c" using assms(1) by (cases T) auto
  then show ?thesis
    using assms True Split_encList unfolding readsBack_def decodeRef_def
    by (auto simp: pitem_node [OF assms(1)] pref_node [OF assms(1)])
next
  case False
  have "strKind (hash_bytes h) = String" for h by (simp add: strKind_def isSingle_def)
  moreover have "hash_bytes h \<noteq> []" for h by (metis length_hash_bytes list.size(3) zero_neq_numeral)
  ultimately show ?thesis
    using False Split_encStr unfolding readsBack_def decodeRef_def
    by (auto simp: pitem_node [OF assms(1)] pref_node [OF assms(1)] length_hash_bytes)
qed

lemma decodeChildren_back:
  assumes "\<forall>c \<in> set cs. readsBack kec gen dec c" "length (concat (map (pitem kec) cs) @ rest) < 2 ^ 64"
  shows "decodeChildren dec (length cs) (concat (map (pitem kec) cs) @ rest) = Inr (map (pref kec gen) cs, rest)"
  using assms by (induction cs) (auto simp: readsBack_def)

lemma penc_item: "item (penc kec T) \<or> T = PNil"
  by (cases T) (auto simp: item_encStr item_encList)

lemma child_shorter: "c \<in> set cs \<Longrightarrow> length (pitem kec c) \<le> length (concat (map (pitem kec) cs))"
  by (induction cs) auto

lemma length_less_encList: "length p < length (encList p)"
  by (simp add: encList_def rlpHead_def)

lemma embedded_shorter: "wft c \<Longrightarrow> length (penc kec c) < 32 \<Longrightarrow> length (penc kec c) = length (pitem kec c)"
  by (simp add: pitem_node)

lemma decode_penc:
  assumes "wft T" "psmall T" "length (penc kec T @ rest) < 2 ^ 64" "length (penc kec T) < d"
  shows "decodeNodeN d h gen (penc kec T @ rest) = Inr (pload kec gen h T)"
  using assms
proof (induction T arbitrary: rest d h)
  case (PShort k c)
  obtain e where d: "d = Suc e" using PShort.prems(4) by (cases d) auto
  let ?p = "encStr (hexToCompact k) @ pitem kec c"
  have len: "length ?p < 2 ^ 64" using length_penc [OF PShort.prems(1,2), of kec] length_less_encList [of ?p] by simp
  have "CountValues (concat [encStr (hexToCompact k), pitem kec c]) = Inr (int (length [encStr (hexToCompact k), pitem kec c]))"
    using len short_child [OF PShort.prems(1)] by (intro CountValues_items) (auto simp: item_encStr item_pitem)
  then have count: "CountValues ?p = Inr 2" by simp
  have key: "SplitString ?p = Inr (hexToCompact k, pitem kec c)" "compactToHex (hexToCompact k) = Inr k"
    using SplitString_encStr len compactToHex_hexToCompact [of k] PShort.prems(1) by (auto split: if_splits)
  have "decodeShort (decodeNodeN e None gen) \<lparr>fhash = h, fgen = gen, fdirty = False\<rparr> ?p = Inr (pload kec gen h (PShort k c))"
  proof (cases "isValue c")
    case True
    then obtain v where v: "c = PVal v" by (auto elim: isValueE)
    have "SplitString (encStr v) = Inr (v, [])" using SplitString_encStr [of v "[]"] len v by simp
    then show ?thesis using key v True hasTerm_hexkey [of k] PShort.prems(1) by (simp add: decodeShort_def)
  next
    case False
    then have c: "wft c" "nibbles k" "psmall c" using PShort.prems(1,2) by (auto split: if_splits)
    have "readsBack kec gen (decodeNodeN e None gen) c"
    proof (rule readsBack_node [OF c(1)])
      fix rest assume a: "length (penc kec c) < 32" "length (penc kec c @ rest) < 2 ^ 64"
      have "length (penc kec c) < e"
        using embedded_shorter [OF c(1) a(1)] length_less_encList [of ?p] PShort.prems(4) d by simp
      then show "decodeNodeN e None gen (penc kec c @ rest) = Inr (pload kec gen None c)"
        by (rule PShort.IH [OF c(1,3) a(2)])
    qed
    then have "decodeRef (decodeNodeN e None gen) (pitem kec c) = Inr (pref kec gen c, [])"
      using len unfolding readsBack_def by (metis append_Nil2 length_append add_lessD1 add.commute)
    then show ?thesis using key False hasTerm_nibbles [OF c(2)] by (simp add: decodeShort_def)
  qed
  then show ?case using decode_list [OF _ count, of rest e h gen] PShort.prems(3) d by simp
next
  case (PFull cs)
  obtain e where d: "d = Suc e" using PFull.prems(4) by (cases d) auto
  let ?p = "concat (map (pitem kec) cs)"
  have len: "length ?p < 2 ^ 64" using length_penc [OF PFull.prems(1,2), of kec] length_less_encList [of ?p] by simp
  have l17: "length cs = 17" using PFull.prems(1) by simp
  have "CountValues ?p = Inr (int (length (map (pitem kec) cs)))"
    using len full_cases [OF PFull.prems(1)] by (intro CountValues_items) (auto simp: item_pitem)
  then have count: "CountValues ?p = Inr 17" using l17 by simp
  have rb: "readsBack kec gen (decodeNodeN e None gen) c" if c: "c \<in> set (take 16 cs)" for c
  proof (cases "c = PNil")
    case False
    then have wc: "wft c" "c \<in> set cs" "psmall c"
      using c PFull.prems(1,2) by (auto dest: in_set_takeD)
    show ?thesis
    proof (rule readsBack_node [OF wc(1)])
      fix rest assume a: "length (penc kec c) < 32" "length (penc kec c @ rest) < 2 ^ 64"
      have "length (penc kec c) < e"
        using embedded_shorter [OF wc(1) a(1)] child_shorter [OF wc(2), of kec] length_less_encList [of ?p] PFull.prems(4) d by simp
      then show "decodeNodeN e None gen (penc kec c @ rest) = Inr (pload kec gen None c)"
        by (rule PFull.IH [OF wc(2,1,3) a(2)])
    qed
  qed (simp add: readsBack_nil)
  have split: "?p = concat (map (pitem kec) (take 16 cs)) @ pitem kec (cs ! 16)"
    using arg_cong [OF split_17 [OF l17], of "\<lambda>cs. concat (map (pitem kec) cs)"] by simp
  have kids: "decodeChildren (decodeNodeN e None gen) 16 ?p = Inr (map (pref kec gen) (take 16 cs), pitem kec (cs ! 16))"
    using decodeChildren_back [of "take 16 cs" kec gen "decodeNodeN e None gen" "pitem kec (cs ! 16)"] rb len l17
    unfolding split by simp
  have "\<exists>v. pitem kec (cs ! 16) = encStr v \<and> pref kec gen (cs ! 16) = (if length v > 0 then ValueNode v else NilNode)"
    using PFull.prems(1) by (auto elim!: isValueE simp del: encStr_Nil)
  then obtain v where v: "pitem kec (cs ! 16) = encStr v" "pref kec gen (cs ! 16) = (if length v > 0 then ValueNode v else NilNode)"
    by blast
  have "SplitString (encStr v) = Inr (v, [])" using SplitString_encStr [of v "[]"] len v(1) split by simp
  moreover have "map (pref kec gen) cs = map (pref kec gen) (take 16 cs) @ [pref kec gen (cs ! 16)]"
    using arg_cong [OF split_17 [OF l17], of "map (pref kec gen)"] by simp
  ultimately have "decodeFull (decodeNodeN e None gen) \<lparr>fhash = h, fgen = gen, fdirty = False\<rparr> ?p = Inr (pload kec gen h (PFull cs))"
    using kids v by (simp add: decodeFull_def)
  then show ?case using decode_list [OF _ count, of rest e h gen] PFull.prems(3) d by simp
qed simp_all

lemma decodeNode_penc:
  assumes "wft T" "psmall T"
  shows "decodeNode h (penc kec T) gen = Inr (pload kec gen h T)"
  using decode_penc [OF assms, of kec "[]" "Suc (length (penc kec T))" h gen] length_penc [OF assms, of kec]
  by (simp add: decodeNode_def del: decodeNodeN.simps)
end
