(* ===== verification/TrieMap.thy ===== *)
theory TrieMap
  imports TrieEnc
begin

text \<open>
  The trie of \<open>trie/trie.go\<close> is a map: its nodes, loaded or not, stand for a canonical trie
  (\<open>rep\<close>), on which reading, inserting and deleting are the operations of \<open>TrieSpec\<close>.
\<close>

section \<open>What a node stands for\<close>

text \<open>What the data base must hold of a trie: the bytes of every node that is not embedded in the
  node above it, under their hash.\<close>

fun kidsStored :: "hashfun \<Rightarrow> nodeDb \<Rightarrow> ptrie \<Rightarrow> bool" and itemStored :: "hashfun \<Rightarrow> nodeDb \<Rightarrow> ptrie \<Rightarrow> bool" where
  "kidsStored kec db PNil = True"
| "kidsStored kec db (PVal v) = True"
| "kidsStored kec db (PShort k c) = itemStored kec db c"
| "kidsStored kec db (PFull cs) = (\<forall>c \<in> set cs. itemStored kec db c)"
| "itemStored kec db PNil = True"
| "itemStored kec db (PVal v) = True"
| "itemStored kec db (PShort k c) =
     (let e = penc kec (PShort k c)
      in (32 \<le> length e \<longrightarrow> db (kec e) = Some e) \<and> kidsStored kec db (PShort k c))"
| "itemStored kec db (PFull cs) =
     (let e = penc kec (PFull cs)
      in (32 \<le> length e \<longrightarrow> db (kec e) = Some e) \<and> kidsStored kec db (PFull cs))"

definition stored :: "hashfun \<Rightarrow> nodeDb \<Rightarrow> ptrie \<Rightarrow> bool" where
  "stored kec db T \<longleftrightarrow> db (kec (penc kec T)) = Some (penc kec T) \<and> kidsStored kec db T \<and> psmall T"

definition hashOf :: "hashfun \<Rightarrow> ptrie \<Rightarrow> bytes" where
  "hashOf kec T = hash_bytes (kec (penc kec T))"

text \<open>A cached hash is the hash of the node; it is there only for the root (\<open>rt\<close>) and for nodes that
  are not embedded; a node that is not dirty is in the data base or embedded.\<close>

definition flagOk :: "hashfun \<Rightarrow> nodeDb \<Rightarrow> bool \<Rightarrow> nodeFlag \<Rightarrow> ptrie \<Rightarrow> bool" where
  "flagOk kec db rt fl T \<longleftrightarrow>
     (case fhash fl of
        None \<Rightarrow> fdirty fl \<or> \<not> rt \<and> length (penc kec T) < 32
      | Some h \<Rightarrow> h = hashOf kec T \<and> (rt \<or> 32 \<le> length (penc kec T)) \<and> (\<not> fdirty fl \<longrightarrow> stored kec db T))"

text \<open>A node and the canonical trie it stands for: nodes that are not loaded stand for what the data
  base holds.\<close>

inductive rep :: "hashfun \<Rightarrow> nodeDb \<Rightarrow> bool \<Rightarrow> node \<Rightarrow> ptrie \<Rightarrow> bool" for kec :: hashfun and db :: nodeDb where
  rep_nil: "rep kec db rt NilNode PNil"
| rep_value: "rep kec db rt (ValueNode v) (PVal v)"
| rep_short: "rep kec db False c T \<Longrightarrow> flagOk kec db rt fl (PShort k T) \<Longrightarrow> rep kec db rt (ShortNode k c fl) (PShort k T)"
| rep_full: "list_all2 (rep kec db False) cs Ts \<Longrightarrow> flagOk kec db rt fl (PFull Ts) \<Longrightarrow> rep kec db rt (FullNode cs fl) (PFull Ts)"
| rep_hash: "h = hashOf kec T \<Longrightarrow> rt \<or> 32 \<le> length (penc kec T) \<Longrightarrow> wft T \<Longrightarrow> stored kec db T \<Longrightarrow> rep kec db rt (HashNode h) T"

inductive_simps rep_simps [simp]:
  "rep kec db rt NilNode T" "rep kec db rt (ValueNode v) T" "rep kec db rt (ShortNode k c fl) T"
  "rep kec db rt (FullNode cs fl) T" "rep kec db rt (HashNode h) T"

definition isHash :: "node \<Rightarrow> bool" where
  "isHash n \<longleftrightarrow> (case n of HashNode h \<Rightarrow> True | _ \<Rightarrow> False)"

lemma isHash_simps [simp]: "\<not> isHash NilNode" "\<not> isHash (ValueNode v)" "isHash (HashNode h)"
  "\<not> isHash (ShortNode k c fl)" "\<not> isHash (FullNode cs fl)"
  by (simp_all add: isHash_def)

lemma flagOk_new [simp]: "flagOk kec db rt (newFlag gen) T"
  by (simp add: flagOk_def newFlag_def)

lemma flagOk_gen [simp]: "flagOk kec db rt (fl\<lparr>fgen := gen\<rparr>) T = flagOk kec db rt fl T"
  by (simp add: flagOk_def split: option.splits)

lemma itemStored_node: "wft T \<Longrightarrow> itemStored kec db T \<Longrightarrow> psmall T \<Longrightarrow>
    kidsStored kec db T \<and> (32 \<le> length (penc kec T) \<longrightarrow> stored kec db T)"
  by (cases T) (auto simp: stored_def Let_def)

text \<open>What the decoder makes of a stored node stands for it.\<close>

lemma rep_pload:
  "wft T \<Longrightarrow> psmall T \<Longrightarrow> kidsStored kec db T \<Longrightarrow>
   flagOk kec db rt \<lparr>fhash = h, fgen = gen, fdirty = False\<rparr> T \<Longrightarrow> rep kec db rt (pload kec gen h T) T"
proof (induction T arbitrary: rt h)
  case (PShort k c)
  have "rep kec db False (pref kec gen c) c"
  proof (cases "isValue c")
    case True
    then show ?thesis by (auto elim: isValueE)
  next
    case False
    then have c: "wft c" "psmall c" "itemStored kec db c" using PShort.prems by (auto split: if_splits)
    note s = itemStored_node [OF c(1,3,2)]
    then show ?thesis
      using c(1) PShort.IH [OF c(1,2), of False None] s by (auto simp: pref_node hashOf_def flagOk_def not_less)
  qed
  then show ?case using PShort.prems(4) by simp
next
  case (PFull cs)
  have "rep kec db False (pref kec gen c) c" if c: "c \<in> set cs" for c
    using full_cases [OF PFull.prems(1) c]
  proof (elim disjE)
    assume w: "wft c"
    have ps: "psmall c" "itemStored kec db c" using PFull.prems c by auto
    note s = itemStored_node [OF w ps(2,1)]
    then show ?thesis
      using w PFull.IH [OF c w ps(1), of False None] s by (auto simp: pref_node hashOf_def flagOk_def not_less)
  qed (auto elim: isValueE)
  then have "list_all2 (rep kec db False) (map (pref kec gen) cs) cs"
    by (simp add: list_all2_conv_all_nth)
  then show ?case using PFull.prems(4) by simp
qed simp_all

lemma resolveHash_stored:
  assumes "wft T" "stored kec db T"
  shows "resolveHash db gen (hashOf kec T) p = Inr (pload kec gen (Some (hashOf kec T)) T)"
  using assms decodeNode_penc [of T "Some (hashOf kec T)" kec gen]
  by (simp add: resolveHash_def hashOf_def stored_def BytesToHash_hash_bytes Let_def)

lemma rep_hashD:
  assumes "rep kec db rt (HashNode h) T"
  obtains n where "resolveHash db gen h p = Inr n" "rep kec db rt n T" "\<not> isHash n" "n \<noteq> NilNode"
proof -
  have T: "h = hashOf kec T" "rt \<or> 32 \<le> length (penc kec T)" "wft T" "stored kec db T" using assms by simp_all
  have "rep kec db rt (pload kec gen (Some h) T) T"
    using T by (intro rep_pload) (auto simp: stored_def flagOk_def)
  moreover have "\<not> isHash (pload kec gen (Some h) T)" "pload kec gen (Some h) T \<noteq> NilNode" using T(3) by (cases T; simp)+
  ultimately show ?thesis using that resolveHash_stored [OF T(3,4), of gen p] T(1) by metis
qed

lemma rep_nil_iff: "rep kec db rt n T \<Longrightarrow> n = NilNode \<longleftrightarrow> T = PNil"
  by (cases n) auto

lemma rep_value_iff: "rep kec db rt n (PVal v) \<longleftrightarrow> n = ValueNode v"
  by (cases n) auto

lemma rep_cases:
  assumes "rep kec db rt n T" "\<not> isHash n"
  shows "T = PNil \<Longrightarrow> n = NilNode" "T = PVal v \<Longrightarrow> n = ValueNode v"
    "T = PShort k S \<Longrightarrow> \<exists>c fl. n = ShortNode k c fl \<and> rep kec db False c S"
    "T = PFull Ts \<Longrightarrow> \<exists>cs fl. n = FullNode cs fl \<and> list_all2 (rep kec db False) cs Ts"
  using assms by (cases n; auto)+

lemma tbind_simps [simp]:
  "tbind None g = None" "tbind (Some (Inl e)) g = Some (Inl e)" "tbind (Some (Inr x)) g = Some (Inr (g x))"
  by (simp_all add: tbind_def)

lemma tbind_Inr: "r = Some (Inr x) \<Longrightarrow> tbind r g = Some (Inr (g x))"
  by simp

text \<open>Fuel for an operation on a key with \<open>m\<close> nibbles left: two steps a level, one more to load.\<close>

definition fuelFor :: "nat \<Rightarrow> node \<Rightarrow> nat" where
  "fuelFor m n = 2 * m + (if isHash n then 2 else 1)"

lemma fuelFor_le: "fuelFor m n \<le> 2 * m + 2" "0 < fuelFor m n"
  by (simp_all add: fuelFor_def)

text \<open>An operation that is right on loaded nodes, and loads a node first otherwise, is right.\<close>

lemma load_first:
  assumes "rep kec db rt n T" "fuelFor m n \<le> fuel"
    and "\<And>f n. rep kec db rt n T \<Longrightarrow> \<not> isHash n \<Longrightarrow> 2 * m \<le> f \<Longrightarrow> Q (Suc f) n"
    and "\<And>f h n. resolveHash db gen h p = Inr n \<Longrightarrow> n \<noteq> NilNode \<Longrightarrow> \<not> isHash n \<Longrightarrow> rep kec db rt n T \<Longrightarrow> Q (Suc f) n \<Longrightarrow> Q (Suc (Suc f)) (HashNode h)"
  shows "Q fuel n"
proof (cases "isHash n")
  case False
  then obtain f where "fuel = Suc f" "2 * m \<le> f" using assms(2) by (cases fuel) (auto simp: fuelFor_def)
  then show ?thesis using assms(1,3) False by simp
next
  case True
  then obtain h where n: "n = HashNode h" by (auto simp: isHash_def split: node.splits)
  obtain n' where n': "resolveHash db gen h p = Inr n'" "rep kec db rt n' T" "\<not> isHash n'" "n' \<noteq> NilNode"
    using rep_hashD assms(1) n by metis
  obtain f where "fuel = Suc (Suc f)" "2 * m \<le> f"
    using assms(2) n by (cases fuel; cases "fuel - 1") (auto simp: fuelFor_def)
  then show ?thesis using assms(3) [OF n'(2,3)] assms(4) [OF n'(1,4,3,2)] n by simp
qed

lemma rep_child: "list_all2 (rep kec db False) cs Ts \<Longrightarrow> i < length Ts \<Longrightarrow> rep kec db False (cs ! i) (Ts ! i)"
  by (simp add: list_all2_conv_all_nth)

lemma rep_update: "list_all2 (rep kec db False) cs Ts \<Longrightarrow> rep kec db False n T \<Longrightarrow> list_all2 (rep kec db False) (cs[i := n]) (Ts[i := T])"
  by (rule list_all2_update_cong)

lemma fuelFor_step: "2 * m \<le> f \<Longrightarrow> m' < m \<Longrightarrow> fuelFor m' n \<le> f"
  by (simp add: fuelFor_def)

section \<open>Reading\<close>

definition gets :: "hashfun \<Rightarrow> nodeDb \<Rightarrow> bool \<Rightarrow> u16 \<Rightarrow> bytes \<Rightarrow> nat \<Rightarrow> ptrie \<Rightarrow> nat \<Rightarrow> node \<Rightarrow> bool" where
  "gets kec db rt gen key pos T fuel n \<longleftrightarrow>
     (\<exists>n' did. tryGet db gen fuel n key pos = Some (Inr (plookup T (drop pos key), n', did)) \<and> rep kec db rt n' T)"

lemma tryGet_node [simp]:
  "tryGet db gen (Suc f) NilNode key pos = Some (Inr (None, NilNode, False))"
  "tryGet db gen (Suc f) (ValueNode v) key pos = Some (Inr (Some v, ValueNode v, False))"
  "tryGet db gen (Suc f) (ShortNode k val fl) key pos =
     (if length key < pos + length k \<or> k \<noteq> take (length k) (drop pos key)
      then Some (Inr (None, ShortNode k val fl, False))
      else tbind (tryGet db gen f val key (pos + length k)) (\<lambda>(v, nn, didResolve).
             (v, if didResolve then ShortNode k nn (fl\<lparr>fgen := gen\<rparr>) else ShortNode k val fl, didResolve)))"
  "pos < length key \<Longrightarrow> unat (key ! pos) < length cs \<Longrightarrow>
   tryGet db gen (Suc f) (FullNode cs fl) key pos =
     tbind (tryGet db gen f (cs ! unat (key ! pos)) key (pos + 1)) (\<lambda>(v, nn, didResolve).
       (v, if didResolve then FullNode (cs[unat (key ! pos) := nn]) (fl\<lparr>fgen := gen\<rparr>) else FullNode cs fl,
        didResolve))"
  "resolveHash db gen h (take pos key) = Inr child \<Longrightarrow>
   tryGet db gen (Suc f) (HashNode h) key pos =
     tbind (tryGet db gen f child key pos) (\<lambda>(v, nn, _). (v, nn, True))"
  by (simp_all add: tryGet.simps)

lemma getsI:
  "tryGet db gen fuel n key pos = Some (Inr (v, n', did)) \<Longrightarrow> v = plookup T (drop pos key) \<Longrightarrow> rep kec db rt n' T \<Longrightarrow>
   gets kec db rt gen key pos T fuel n"
  unfolding gets_def by blast

lemma gets_load:
  "resolveHash db gen h (take pos key) = Inr n \<Longrightarrow> gets kec db rt gen key pos T (Suc f) n \<Longrightarrow>
   gets kec db rt gen key pos T (Suc (Suc f)) (HashNode h)"
  unfolding gets_def by auto

lemma tryGet_spec:
  assumes "slot (drop pos key) T" "rep kec db rt n T" "fuelFor (length key - pos) n \<le> fuel" "pos \<le> length key"
  shows "gets kec db rt gen key pos T fuel n"
  using assms
proof (induction T "drop pos key" arbitrary: pos n fuel rt rule: plookup.induct)
  case (1 pos)
  show ?case
  proof (rule load_first [OF 1(2,3), where gen = gen and p = "take pos key"])
    fix f n assume "rep kec db rt n PNil" "\<not> isHash n"
    then have "n = NilNode" by (rule rep_cases(1)) simp
    then show "gets kec db rt gen key pos PNil (Suc f) n" by (intro getsI [of _ _ _ _ _ _ None NilNode False]) simp_all
  qed (rule gets_load)
next
  case (2 v pos)
  then have "drop pos key = []" by (auto simp: slot_def canonical_def split: if_splits)
  show ?case
  proof (rule load_first [OF 2(2,3), where gen = gen and p = "take pos key"])
    fix f n assume "rep kec db rt n (PVal v)" "\<not> isHash n"
    then have "n = ValueNode v" by (rule rep_cases(2)) simp
    then show "gets kec db rt gen key pos (PVal v) (Suc f) n" using \<open>drop pos key = []\<close>
      by (intro getsI [of _ _ _ _ _ _ "Some v" "ValueNode v" False]) simp_all
  qed (rule gets_load)
next
  case (3 sk c pos)
  show ?case
  proof (rule load_first [OF 3(3,4), where gen = gen and p = "take pos key"])
    fix f n assume n: "rep kec db rt n (PShort sk c)" "\<not> isHash n" "2 * (length key - pos) \<le> f"
    then obtain d fl where d: "n = ShortNode sk d fl" "rep kec db False d c" using rep_cases(3) by blast
    then have fl: "flagOk kec db rt fl (PShort sk c)" using n(1) by simp
    have wf: "wft (PShort sk c)" "hexkey (drop pos key)" using 3(2) by (auto simp: slot_def canonical_def split: if_splits)
    show "gets kec db rt gen key pos (PShort sk c) (Suc f) n"
    proof (cases "\<exists>r. drop pos key = sk @ r")
      case True
      then obtain r where r: "drop pos key = sk @ r" by blast
      have "length key - pos = length sk + length r" using arg_cong [OF r, of length] by simp
      then have len: "pos + length sk \<le> length key" "drop (pos + length sk) key = r"
        using 3(5) arg_cong [OF r, of "drop (length sk)"] by (simp_all add: add.commute)
      have slot: "slot r c" using short_slot [OF wf(1)] wf(2) r by simp
      have sk: "0 < length sk" using wf(1) by (auto split: if_splits)
      have take: "take (length sk) (drop pos key) = sk" "drop (length sk) (drop pos key) = drop (pos + length sk) key"
        using r len(2) by simp_all
      have less: "length key - (pos + length sk) < length key - pos" using sk len(1) by linarith
      have "gets kec db False gen key (pos + length sk) c f d"
        using slot len less by (intro 3(1) [OF take] d(2) fuelFor_step [OF n(3)]) simp_all
      then obtain n' did where "tryGet db gen f d key (pos + length sk) = Some (Inr (plookup c r, n', did))" "rep kec db False n' c"
        unfolding gets_def len(2) by blast
      then show ?thesis using d r len fl
        by (intro getsI [of _ _ _ _ _ _ "plookup c r" "if did then ShortNode sk n' (fl\<lparr>fgen := gen\<rparr>) else n" did]) simp_all
    next
      case False
      then have "sk \<noteq> take (length sk) (drop pos key)" using plookup_take by metis
      then show ?thesis using d fl by (intro getsI [of _ _ _ _ _ _ None n False]) (simp_all add: eq_commute)
    qed
  qed (rule gets_load)
next
  case (4 cs pos)
  show ?case
  proof (rule load_first [OF 4(3,4), where gen = gen and p = "take pos key"])
    fix f n assume n: "rep kec db rt n (PFull cs)" "\<not> isHash n" "2 * (length key - pos) \<le> f"
    then obtain ds fl where d: "n = FullNode ds fl" "list_all2 (rep kec db False) ds cs" using rep_cases(4) by blast
    then have fl: "flagOk kec db rt fl (PFull cs)" using n(1) by simp
    have wf: "wft (PFull cs)" "hexkey (drop pos key)" using 4(2) by (auto simp: slot_def canonical_def split: if_splits)
    then have lt: "pos < length key" by (cases "pos < length key") auto
    then have k: "drop pos key = key ! pos # drop (pos + 1) key" using Cons_nth_drop_Suc [OF lt] by simp
    note s = full_slot [OF wf(1) wf(2) [unfolded k]]
    have len: "length ds = length cs" using d(2) by (rule list_all2_lengthD)
    have "gets kec db False gen key (pos + 1) (cs ! unat (key ! pos)) f (ds ! unat (key ! pos))"
      using s lt n(3) rep_child [OF d(2) s(1)] by (intro 4(1) [OF k] fuelFor_step [OF n(3)]) simp_all
    then obtain n' did where "tryGet db gen f (ds ! unat (key ! pos)) key (pos + 1) =
        Some (Inr (plookup (cs ! unat (key ! pos)) (drop (pos + 1) key), n', did))" "rep kec db False n' (cs ! unat (key ! pos))"
      unfolding gets_def by blast
    then show "gets kec db rt gen key pos (PFull cs) (Suc f) n"
      using d fl lt s(1) len rep_update [OF d(2), of n' "cs ! unat (key ! pos)" "unat (key ! pos)"]
      by (intro getsI [of _ _ _ _ _ _ "plookup (cs ! unat (key ! pos)) (drop (pos + 1) key)"
            "if did then FullNode (ds[unat (key ! pos) := n']) (fl\<lparr>fgen := gen\<rparr>) else n" did])
        (simp_all add: k del: drop_drop)
  qed (rule gets_load)
qed

section \<open>Writing\<close>

lemma pinsert_same:
  "slot k T \<Longrightarrow> plookup T k = Some v \<Longrightarrow> pinsert T k (PVal v) = T"
proof (induction T k "PVal v" rule: pinsert.induct)
  case (2 w k)
  then show ?case by (simp split: if_splits)
next
  case (3 sk c k)
  then have wf: "wft (PShort sk c)" "hexkey k" by (auto simp: slot_def canonical_def split: if_splits)
  obtain r where k: "k = sk @ r" using 3(3) by (auto simp: plookup_take split: if_splits)
  then have "slot r c" using short_slot [OF wf(1)] wf(2) by simp
  then show ?case using 3(1) [OF refl, of] 3(3) k prefixLen_self by simp
next
  case (4 cs k)
  then have wf: "wft (PFull cs)" "hexkey k" by (auto simp: slot_def canonical_def split: if_splits)
  then obtain x r where k: "k = x # r" by (cases k) auto
  note s = full_slot [OF wf(1) wf(2) [unfolded k]]
  then have "pinsert (cs ! unat x) r (PVal v) = cs ! unat x" using 4(1) [OF k s] 4(3) k by simp
  then show ?case using k s(1) by simp
qed simp

definition puts :: "hashfun \<Rightarrow> nodeDb \<Rightarrow> bool \<Rightarrow> u16 \<Rightarrow> bytes \<Rightarrow> bytes \<Rightarrow> bytes \<Rightarrow> ptrie \<Rightarrow> nat \<Rightarrow> node \<Rightarrow> bool" where
  "puts kec db rt gen p k v T fuel n \<longleftrightarrow>
     (\<exists>n'. insertNode db gen fuel n p k (ValueNode v) = Some (Inr (plookup T k \<noteq> Some v, n')) \<and>
           rep kec db rt n' (pinsert T k (PVal v)))"

lemma putsI:
  "insertNode db gen fuel n p k (ValueNode v) = Some (Inr (dirty, n')) \<Longrightarrow> dirty \<longleftrightarrow> plookup T k \<noteq> Some v \<Longrightarrow>
   rep kec db rt n' (pinsert T k (PVal v)) \<Longrightarrow> puts kec db rt gen p k v T fuel n"
  unfolding puts_def by blast

lemma putsE:
  assumes "puts kec db rt gen p k v T fuel n"
  obtains dirty n' where "insertNode db gen fuel n p k (ValueNode v) = Some (Inr (dirty, n'))"
    "dirty \<longleftrightarrow> plookup T k \<noteq> Some v" "rep kec db rt n' (pinsert T k (PVal v))"
  using assms unfolding puts_def by blast

lemma insertNode_node:
  "insertNode db gen (Suc f) NilNode p k val =
     Some (Inr (True, if k = [] then val else ShortNode k val (newFlag gen)))"
  "insertNode db gen (Suc f) (ValueNode w) p [] val = Some (Inr (ValueNode w \<noteq> val, val))"
  "k \<noteq> [] \<Longrightarrow> prefixLen k sk = length sk \<Longrightarrow>
   insertNode db gen (Suc f) (ShortNode sk c fl) p k val =
     tbind (insertNode db gen f c (p @ take (length sk) k) (drop (length sk) k) val)
       (\<lambda>(dirty, nn). if dirty then (True, ShortNode sk nn (newFlag gen)) else (False, ShortNode sk c fl))"
  "x # r = k \<Longrightarrow> unat x < length cs \<Longrightarrow>
   insertNode db gen (Suc f) (FullNode cs fl) p k val =
     tbind (insertNode db gen f (cs ! unat x) (p @ [x]) r val)
       (\<lambda>(dirty, nn). if dirty then (True, FullNode (cs[unat x := nn]) (newFlag gen)) else (False, FullNode cs fl))"
  "k \<noteq> [] \<Longrightarrow> resolveHash db gen h p = Inr rn \<Longrightarrow>
   insertNode db gen (Suc f) (HashNode h) p k val =
     tbind (insertNode db gen f rn p k val) (\<lambda>(dirty, nn). if dirty then (True, nn) else (False, rn))"
  by (auto simp: insertNode.simps Let_def cong: if_cong)

lemma insertNode_branch:
  assumes "prefixLen k sk = m" "m < length k" "m < length sk" "unat (sk ! m) < 17" "unat (k ! m) < 17"
  shows "insertNode db gen (Suc (Suc f)) (ShortNode sk c fl) p k val =
    Some (Inr (True,
      let branch = FullNode ((replicate 17 NilNode)
                     [unat (sk ! m) := if drop (m + 1) sk = [] then c else ShortNode (drop (m + 1) sk) c (newFlag gen),
                      unat (k ! m) := if drop (m + 1) k = [] then val else ShortNode (drop (m + 1) k) val (newFlag gen)])
                     (newFlag gen)
      in if m = 0 then branch else ShortNode (take m k) branch (newFlag gen)))"
proof -
  have "k \<noteq> []" using assms(2) by auto
  then show ?thesis using assms
    by (subst insertNode.simps(2)) (simp add: insertNode_node(1) Let_def not_le)
qed

lemma rep_leafAt: "rep kec db False c T \<Longrightarrow> rep kec db False (if k = [] then c else ShortNode k c (newFlag gen)) (leafAt k T)"
  by (simp add: leafAt_def)

lemma rep_if: "rep kec db rt a A \<Longrightarrow> rep kec db rt b B \<Longrightarrow> rep kec db rt (if c then a else b) (if c then A else B)"
  by simp

lemma rep_branch:
  "rep kec db False a A \<Longrightarrow> rep kec db False b B \<Longrightarrow>
   list_all2 (rep kec db False) ((replicate n NilNode)[i := a, j := b]) ((replicate n PNil)[i := A, j := B])"
  by (intro rep_update) (simp_all add: list_all2_conv_all_nth)

lemma puts_load:
  assumes "k \<noteq> []" "slot k T" "resolveHash db gen h p = Inr n" "rep kec db rt n T" "puts kec db rt gen p k v T (Suc f) n"
  shows "puts kec db rt gen p k v T (Suc (Suc f)) (HashNode h)"
proof -
  from assms(5) obtain dirty n' where "insertNode db gen (Suc f) n p k (ValueNode v) = Some (Inr (dirty, n'))"
    "dirty \<longleftrightarrow> plookup T k \<noteq> Some v" "rep kec db rt n' (pinsert T k (PVal v))" by (rule putsE)
  then show ?thesis
    using assms by (intro putsI [where dirty = dirty and n' = "if dirty then n' else n"]) (auto simp: insertNode_node pinsert_same)
qed

lemma insertNode_spec:
  assumes "slot k T" "v \<noteq> []" "rep kec db rt n T" "fuelFor (length k) n \<le> fuel"
  shows "puts kec db rt gen p k v T fuel n"
  using assms
proof (induction T k "PVal v" arbitrary: n p fuel rt rule: pinsert.induct)
  case (1 k)
  then obtain f where "fuel = Suc f" by (cases fuel) (auto simp: fuelFor_def split: if_splits)
  moreover have "n = NilNode" using 1(3) rep_nil_iff by blast
  ultimately show ?case
    by (intro putsI [where dirty = True and n' = "if k = [] then ValueNode v else ShortNode k (ValueNode v) (newFlag gen)"])
      (simp_all add: insertNode_node leafAt_def)
next
  case (2 w k)
  then obtain f where "fuel = Suc f" by (cases fuel) (auto simp: fuelFor_def split: if_splits)
  moreover have "n = ValueNode w" using 2(3) by (simp add: rep_value_iff)
  moreover have "k = []" using 2(1) by (auto simp: slot_def canonical_def split: if_splits)
  ultimately show ?case
    by (intro putsI [where dirty = "w \<noteq> v" and n' = "ValueNode v"]) (simp_all add: insertNode_node)
next
  case (3 sk c k)
  then have wf: "wft (PShort sk c)" "hexkey k" by (auto simp: slot_def canonical_def split: if_splits)
  then have ne: "k \<noteq> []" "sk \<noteq> []" by (auto split: if_splits)
  show ?case
  proof (rule load_first [OF 3(4,5), where gen = gen and p = p])
    fix f n assume n: "rep kec db rt n (PShort sk c)" "\<not> isHash n" "2 * length k \<le> f"
    then obtain d fl where d: "n = ShortNode sk d fl" "rep kec db False d c" using rep_cases(3) by blast
    then have fl: "flagOk kec db rt fl (PShort sk c)" using n(1) by simp
    show "puts kec db rt gen p k v (PShort sk c) (Suc f) n"
    proof (cases "prefixLen k sk = length sk")
      case True
      then obtain r where k: "k = sk @ r" using prefixLen_full by blast
      have slot: "slot r c" using short_slot [OF wf(1)] wf(2) k by simp
      have "length r < length k" using k ne(2) by simp
      then have "puts kec db False gen (p @ sk) r v c f d"
        using 3(1) [OF refl True] slot 3(3) d(2) k True by (simp add: fuelFor_step [OF n(3)])
      then obtain dirty n' where "insertNode db gen f d (p @ sk) r (ValueNode v) = Some (Inr (dirty, n'))"
        "dirty \<longleftrightarrow> plookup c r \<noteq> Some v" "rep kec db False n' (pinsert c r (PVal v))" by (rule putsE)
      then show ?thesis using d k True ne slot fl
        by (intro putsI [where dirty = dirty and n' = "if dirty then ShortNode sk n' (newFlag gen) else n"])
          (auto simp: insertNode_node pinsert_same)
    next
      case False
      let ?m = "prefixLen k sk"
      note dv = diverge [OF wf False] and rest = wf_rest(1) [OF wf(1)]
      have lt: "unat (sk ! ?m) < 17" "unat (k ! ?m) < 17"
        using dv(6) rest [OF dv(1)] by (simp_all add: word_le_nat_alt)
      obtain g where g: "f = Suc g" using n(3) ne(1) by (cases f) auto
      let ?a = "if drop (?m + 1) sk = [] then d else ShortNode (drop (?m + 1) sk) d (newFlag gen)"
      let ?b = "if drop (?m + 1) k = [] then ValueNode v else ShortNode (drop (?m + 1) k) (ValueNode v) (newFlag gen)"
      let ?branch = "FullNode ((replicate 17 NilNode)[unat (sk ! ?m) := ?a, unat (k ! ?m) := ?b]) (newFlag gen)"
      let ?B = "branchOf (sk ! ?m) (leafAt (drop (?m + 1) sk) c) (k ! ?m) (leafAt (drop (?m + 1) k) (PVal v))"
      have "rep kec db rt ?branch ?B" for rt
        unfolding branchOf_def by (intro rep_full rep_branch rep_leafAt d(2) rep_value flagOk_new)
      then have "rep kec db rt (if ?m = 0 then ?branch else ShortNode (take ?m k) ?branch (newFlag gen))
          (if ?m = 0 then ?B else PShort (take ?m k) ?B)"
        by (intro rep_if rep_short flagOk_new)
      moreover have "pinsert (PShort sk c) k (PVal v) = (if ?m = 0 then ?B else PShort (take ?m k) ?B)"
        using False by (simp add: Let_def)
      moreover have "plookup (PShort sk c) k = None" using False prefixLen_self by (auto simp: plookup_take)
      ultimately show ?thesis unfolding d g
        by (intro putsI [OF insertNode_branch [OF refl dv(2,1) lt]]) (simp_all only: Let_def option.distinct simp_thms)
    qed
  qed (rule puts_load [OF ne(1) 3(2)])
next
  case (4 cs k)
  then have wf: "wft (PFull cs)" "hexkey k" by (auto simp: slot_def canonical_def split: if_splits)
  then obtain x r where k: "k = x # r" by (cases k) auto
  note s = full_slot [OF wf(1) wf(2) [unfolded k]]
  show ?case
  proof (rule load_first [OF 4(4,5), where gen = gen and p = p])
    fix f n assume n: "rep kec db rt n (PFull cs)" "\<not> isHash n" "2 * length k \<le> f"
    then obtain ds fl where d: "n = FullNode ds fl" "list_all2 (rep kec db False) ds cs" using rep_cases(4) by blast
    then have fl: "flagOk kec db rt fl (PFull cs)" using n(1) by simp
    have len: "length ds = length cs" using d(2) by (rule list_all2_lengthD)
    have "puts kec db False gen (p @ [x]) r v (cs ! unat x) f (ds ! unat x)"
      using 4(1) [OF k s 4(3) rep_child [OF d(2) s(1)] fuelFor_step [OF n(3)]] k by simp
    then obtain dirty n' where n': "insertNode db gen f (ds ! unat x) (p @ [x]) r (ValueNode v) = Some (Inr (dirty, n'))"
      "dirty \<longleftrightarrow> plookup (cs ! unat x) r \<noteq> Some v" "rep kec db False n' (pinsert (cs ! unat x) r (PVal v))" by (rule putsE)
    have "rep kec db rt n (PFull (cs[unat x := pinsert (cs ! unat x) r (PVal v)]))" if "\<not> dirty"
      using n(1) n'(2) that pinsert_same [OF s(2), of v] by simp
    then show "puts kec db rt gen p k v (PFull cs) (Suc f) n"
      using d fl n' k s len rep_update [OF d(2) n'(3), of "unat x"]
      by (intro putsI [where dirty = dirty and n' = "if dirty then FullNode (ds[unat x := n']) (newFlag gen) else n"])
        (auto simp: insertNode_node(4) [OF refl])
  qed (rule puts_load [OF _ 4(2)], use k in auto)
qed

section \<open>Deleting\<close>

definition dels :: "hashfun \<Rightarrow> nodeDb \<Rightarrow> bool \<Rightarrow> u16 \<Rightarrow> bytes \<Rightarrow> bytes \<Rightarrow> ptrie \<Rightarrow> nat \<Rightarrow> node \<Rightarrow> bool" where
  "dels kec db rt gen p k T fuel n \<longleftrightarrow>
     (\<exists>n'. deleteNode db gen fuel n p k = Some (Inr (pdelete T k \<noteq> None, n')) \<and>
           rep kec db rt n' (case pdelete T k of None \<Rightarrow> T | Some T' \<Rightarrow> T') \<and> (pdelete T k \<noteq> None \<longrightarrow> \<not> isHash n'))"

lemma delsI:
  "deleteNode db gen fuel n p k = Some (Inr (dirty, n')) \<Longrightarrow> dirty \<longleftrightarrow> pdelete T k \<noteq> None \<Longrightarrow>
   rep kec db rt n' (case pdelete T k of None \<Rightarrow> T | Some T' \<Rightarrow> T') \<Longrightarrow> dirty \<longrightarrow> \<not> isHash n' \<Longrightarrow> dels kec db rt gen p k T fuel n"
  unfolding dels_def by blast

lemma delsE:
  assumes "dels kec db rt gen p k T fuel n"
  obtains dirty n' where "deleteNode db gen fuel n p k = Some (Inr (dirty, n'))" "dirty \<longleftrightarrow> pdelete T k \<noteq> None"
    "rep kec db rt n' (case pdelete T k of None \<Rightarrow> T | Some T' \<Rightarrow> T')" "dirty \<longrightarrow> \<not> isHash n'"
  using assms unfolding dels_def by blast

lemma deleteNode_node:
  "deleteNode db gen (Suc f) NilNode p k = Some (Inr (False, NilNode))"
  "deleteNode db gen (Suc f) (ValueNode w) p k = Some (Inr (True, NilNode))"
  "deleteNode db gen (Suc f) (ShortNode sk c fl) p k =
     (if prefixLen k sk < length sk then Some (Inr (False, ShortNode sk c fl))
      else if prefixLen k sk = length k then Some (Inr (True, NilNode))
      else tbind (deleteNode db gen f c (p @ take (length sk) k) (drop (length sk) k))
             (\<lambda>(dirty, child).
               if \<not> dirty then (False, ShortNode sk c fl)
               else (case child of
                       ShortNode ck cv cfl \<Rightarrow> (True, ShortNode (sk @ ck) cv (newFlag gen))
                     | _ \<Rightarrow> (True, ShortNode sk child (newFlag gen)))))"
  "resolveHash db gen h p = Inr rn \<Longrightarrow>
   deleteNode db gen (Suc f) (HashNode h) p k =
     tbind (deleteNode db gen f rn p k) (\<lambda>(dirty, nn). if dirty then (True, nn) else (False, rn))"
  by (simp_all add: deleteNode.simps Let_def)

lemma dels_load:
  assumes "resolveHash db gen h p = Inr n" "rep kec db rt n T" "dels kec db rt gen p k T (Suc f) n"
  shows "dels kec db rt gen p k T (Suc (Suc f)) (HashNode h)"
proof -
  from assms(3) obtain dirty n' where "deleteNode db gen (Suc f) n p k = Some (Inr (dirty, n'))"
    "dirty \<longleftrightarrow> pdelete T k \<noteq> None" "rep kec db rt n' (case pdelete T k of None \<Rightarrow> T | Some T' \<Rightarrow> T')"
    "dirty \<longrightarrow> \<not> isHash n'" by (rule delsE)
  then show ?thesis using assms(1,2)
    by (intro delsI [where dirty = dirty and n' = "if dirty then n' else n"]) (auto simp: deleteNode_node)
qed

lemma rep_joinShort:
  assumes "rep kec db False n T" "\<not> isHash n"
  shows "rep kec db rt (case n of ShortNode ck cv cfl \<Rightarrow> ShortNode (k @ ck) cv (newFlag gen) | _ \<Rightarrow> ShortNode k n (newFlag gen)) (joinShort k T)"
  using assms by (cases n) auto

lemma resolve_rep:
  assumes "rep kec db rt n T"
  obtains n' where "resolve db gen n p = Inr n'" "rep kec db rt n' T" "\<not> isHash n'"
proof (cases "isHash n")
  case True
  then obtain h where "n = HashNode h" by (auto simp: isHash_def split: node.splits)
  then show ?thesis using assms rep_hashD [of kec db rt h T gen p] that by (auto simp: resolve_def)
next
  case False
  then show ?thesis using assms that [of n] by (cases n) (auto simp: resolve_def)
qed

lemma positions_rep:
  assumes "list_all2 (rep kec db False) cs Ts"
  shows "filter (\<lambda>i. cs ! i \<noteq> NilNode) [0..<length cs] = filter (\<lambda>i. Ts ! i \<noteq> PNil) [0..<length Ts]"
proof -
  have "length cs = length Ts" using assms by (rule list_all2_lengthD)
  moreover have "cs ! i = NilNode \<longleftrightarrow> Ts ! i = PNil" if "i < length Ts" for i
    using rep_nil_iff [OF rep_child [OF assms that]] .
  ultimately show ?thesis by (auto intro: filter_cong)
qed

text \<open>The reduction of a branch after a deletion.\<close>

lemma deleteNode_full:
  assumes "k = x # r" "unat x < length cs" "deleteNode db gen f (cs ! unat x) (p @ [x]) r = Some (Inr (True, nn))"
    and "list_all2 (rep kec db False) (cs[unat x := nn]) Ts"
  shows "\<exists>n'. deleteNode db gen (Suc f) (FullNode cs fl) p k = Some (Inr (True, n')) \<and> rep kec db rt n' (reduceFull Ts) \<and> \<not> isHash n'"
proof -
  let ?cs = "cs[unat x := nn]"
  have len: "length ?cs = length Ts" using assms(4) by (rule list_all2_lengthD)
  have step: "deleteNode db gen (Suc f) (FullNode cs fl) p k =
      (case singleChild ?cs of
         None \<Rightarrow> Some (Inr (True, FullNode ?cs (newFlag gen)))
       | Some pos \<Rightarrow>
           if pos \<noteq> 16 then
             (case resolve db gen (?cs ! pos) p of
                Inl e \<Rightarrow> Some (Inl e)
              | Inr cnode \<Rightarrow>
                  Some (Inr (True,
                    case cnode of
                      ShortNode ck cv cfl \<Rightarrow> ShortNode (word_of_nat pos # ck) cv (newFlag gen)
                    | _ \<Rightarrow> ShortNode [word_of_nat pos] (?cs ! pos) (newFlag gen))))
           else Some (Inr (True, ShortNode [word_of_nat pos] (?cs ! pos) (newFlag gen))))"
    using assms(1-3) by (simp add: deleteNode.simps Let_def)
  show ?thesis
  proof (cases "filter (\<lambda>i. Ts ! i \<noteq> PNil) [0..<length Ts]" rule: list.exhaust)
    case Nil
    then have "singleChild ?cs = None" "reduceFull Ts = PFull Ts"
      unfolding singleChild_def positions_rep [OF assms(4)] reduceFull_def Nil by simp_all
    then show ?thesis using step assms(4) by simp
  next
    case (Cons pos rest)
    show ?thesis
    proof (cases rest)
      case Nil
      with Cons have one: "filter (\<lambda>i. Ts ! i \<noteq> PNil) [0..<length Ts] = [pos]" by simp
      have sc: "singleChild ?cs = Some pos" unfolding singleChild_def positions_rep [OF assms(4)] one by simp
      have red: "reduceFull Ts = (if pos \<noteq> 16 then joinShort [word_of_nat pos] (Ts ! pos) else PShort [word_of_nat pos] (Ts ! pos))"
        unfolding reduceFull_def one by simp
      have c: "rep kec db False (?cs ! pos) (Ts ! pos)" using rep_child [OF assms(4) one_child(1) [OF one]] .
      obtain cn where cn: "resolve db gen (?cs ! pos) p = Inr cn" "rep kec db False cn (Ts ! pos)" "\<not> isHash cn"
        using resolve_rep [OF c] by blast
      have "rep kec db rt (case cn of ShortNode ck cv cfl \<Rightarrow> ShortNode (word_of_nat pos # ck) cv (newFlag gen)
          | _ \<Rightarrow> ShortNode [word_of_nat pos] (?cs ! pos) (newFlag gen)) (joinShort [word_of_nat pos] (Ts ! pos))"
        using cn(2,3) c by (cases cn) auto
      then show ?thesis using step sc red cn c by (auto split: node.splits)
    next
      case (Cons j js)
      with \<open>filter _ [0..<length Ts] = pos # rest\<close>
      have two: "filter (\<lambda>i. Ts ! i \<noteq> PNil) [0..<length Ts] = pos # j # js" by simp
      then have "singleChild ?cs = None" "reduceFull Ts = PFull Ts"
        unfolding singleChild_def positions_rep [OF assms(4)] reduceFull_def two by simp_all
      then show ?thesis using step assms(4) by simp
    qed
  qed
qed

lemma deleteNode_spec:
  assumes "slot k T" "rep kec db rt n T" "fuelFor (length k) n \<le> fuel"
  shows "dels kec db rt gen p k T fuel n"
  using assms
proof (induction T k arbitrary: n p fuel rt rule: pdelete.induct)
  case (1 k)
  then obtain f where "fuel = Suc f" by (cases fuel) (auto simp: fuelFor_def split: if_splits)
  moreover have "n = NilNode" using 1(2) rep_nil_iff by blast
  ultimately show ?case by (intro delsI [where dirty = False and n' = NilNode]) (simp_all add: deleteNode_node)
next
  case (2 w k)
  then obtain f where "fuel = Suc f" by (cases fuel) (auto simp: fuelFor_def split: if_splits)
  moreover have "n = ValueNode w" using 2(2) by (simp add: rep_value_iff)
  ultimately show ?case by (intro delsI [where dirty = True and n' = NilNode]) (simp_all add: deleteNode_node)
next
  case (3 sk c k)
  then have wf: "wft (PShort sk c)" "hexkey k" by (auto simp: slot_def canonical_def split: if_splits)
  then have ne: "sk \<noteq> []" by (auto split: if_splits)
  show ?case
  proof (rule load_first [OF 3(3,4), where gen = gen and p = p])
    fix f n assume n: "rep kec db rt n (PShort sk c)" "\<not> isHash n" "2 * length k \<le> f"
    then obtain d fl where d: "n = ShortNode sk d fl" "rep kec db False d c" using rep_cases(3) by blast
    then have fl: "flagOk kec db rt fl (PShort sk c)" using n(1) by simp
    consider "prefixLen k sk < length sk" | "\<not> prefixLen k sk < length sk" "prefixLen k sk = length k"
      | "\<not> prefixLen k sk < length sk" "prefixLen k sk \<noteq> length k" by blast
    then show "dels kec db rt gen p k (PShort sk c) (Suc f) n"
    proof cases
      case 1
      then show ?thesis using d n(1) by (intro delsI [where dirty = False and n' = n]) (simp_all add: deleteNode_node)
    next
      case 2
      then show ?thesis using d by (intro delsI [where dirty = True and n' = NilNode]) (simp_all add: deleteNode_node)
    next
      case 3
      then obtain r where k: "k = sk @ r" using prefixLen_full [of k sk] prefixLen_le(2) [of k sk] by force
      have slot: "slot r c" using short_slot [OF wf(1)] wf(2) k by simp
      have "length r < length k" using k ne by simp
      then have "dels kec db False gen (p @ sk) r c f d"
        using "3.IH" [OF refl 3] slot d(2) k by (simp add: fuelFor_step [OF n(3)])
      then obtain dirty n' where n': "deleteNode db gen f d (p @ sk) r = Some (Inr (dirty, n'))"
        "dirty \<longleftrightarrow> pdelete c r \<noteq> None" "rep kec db False n' (case pdelete c r of None \<Rightarrow> c | Some T' \<Rightarrow> T')"
        "dirty \<longrightarrow> \<not> isHash n'" by (rule delsE)
      show ?thesis
      proof (cases dirty)
        case False
        then show ?thesis using n' 3 d k n(1) fl
          by (intro delsI [where dirty = False and n' = n]) (auto simp: deleteNode_node split: option.splits)
      next
        case True
        then obtain T' where T': "pdelete c r = Some T'" using n'(2) by auto
        have "rep kec db False n' T'" "\<not> isHash n'" using n' True T' by auto
        note j = rep_joinShort [OF this, of rt sk gen]
        have "deleteNode db gen (Suc f) n p k =
            Some (Inr (True, case n' of ShortNode ck cv cfl \<Rightarrow> ShortNode (sk @ ck) cv (newFlag gen) | _ \<Rightarrow> ShortNode sk n' (newFlag gen)))"
          using n'(1) 3 d k True by (auto simp: deleteNode_node split: node.splits)
        then show ?thesis using j 3 k T' by (elim delsI) (auto split: node.splits)
      qed
    qed
  qed (rule dels_load)
next
  case (4 cs k)
  then have wf: "wft (PFull cs)" "hexkey k" by (auto simp: slot_def canonical_def split: if_splits)
  then obtain x r where k: "k = x # r" by (cases k) auto
  note s = full_slot [OF wf(1) wf(2) [unfolded k]]
  show ?case
  proof (rule load_first [OF 4(3,4), where gen = gen and p = p])
    fix f n assume n: "rep kec db rt n (PFull cs)" "\<not> isHash n" "2 * length k \<le> f"
    then obtain ds fl where d: "n = FullNode ds fl" "list_all2 (rep kec db False) ds cs" using rep_cases(4) by blast
    then have fl: "flagOk kec db rt fl (PFull cs)" using n(1) by simp
    have len: "length ds = length cs" using d(2) by (rule list_all2_lengthD)
    have "dels kec db False gen (p @ [x]) r (cs ! unat x) f (ds ! unat x)"
      using 4(1) [OF k s rep_child [OF d(2) s(1)] fuelFor_step [OF n(3)]] k by simp
    then obtain dirty n' where n': "deleteNode db gen f (ds ! unat x) (p @ [x]) r = Some (Inr (dirty, n'))"
      "dirty \<longleftrightarrow> pdelete (cs ! unat x) r \<noteq> None"
      "rep kec db False n' (case pdelete (cs ! unat x) r of None \<Rightarrow> cs ! unat x | Some T' \<Rightarrow> T')"
      "dirty \<longrightarrow> \<not> isHash n'" by (rule delsE)
    show "dels kec db rt gen p k (PFull cs) (Suc f) n"
    proof (cases dirty)
      case False
      then have "deleteNode db gen (Suc f) n p k = Some (Inr (False, n))"
        using n'(1) d k s(1) len by (simp add: deleteNode.simps)
      then show ?thesis using False n' k s(1) n(1) by (elim delsI) auto
    next
      case True
      then obtain T' where T': "pdelete (cs ! unat x) r = Some T'" using n'(2) by auto
      have "list_all2 (rep kec db False) (ds[unat x := n']) (cs[unat x := T'])" using d(2) n'(3) T' by (intro rep_update) simp_all
      from deleteNode_full [OF k _ n'(1) [unfolded True[THEN eqTrueI]] this, of fl] s(1) len obtain m where
        "deleteNode db gen (Suc f) n p k = Some (Inr (True, m))" "rep kec db rt m (reduceFull (cs[unat x := T']))" "\<not> isHash m"
        using True n'(1) d by auto
      then show ?thesis using k s(1) T' by (elim delsI) auto
    qed
  qed (rule dels_load)
qed

section \<open>Tries as maps\<close>

text \<open>A trie that stands for a map from keys to values.\<close>

definition stands :: "hashfun \<Rightarrow> nodeDb \<Rightarrow> Trie \<Rightarrow> (bytes \<Rightarrow> bytes option) \<Rightarrow> bool" where
  "stands kec db t m \<longleftrightarrow>
     (\<exists>T. canonical T \<and> rep kec db True (root t) T \<and> (\<forall>key. plookup T (keybytesToHex key) = m key) \<and>
          (\<forall>k. hexkey k \<and> k \<notin> range keybytesToHex \<longrightarrow> plookup T k = None))"

lemma slot_key: "canonical T \<Longrightarrow> slot (keybytesToHex key) T"
  using hexkey_keybytesToHex [of key] by (auto simp: slot_def)

lemma key_nonempty: "keybytesToHex key \<noteq> []"
  by (simp add: keybytesToHex_def)

lemma length_keybytesToHex: "length (keybytesToHex key) = 2 * length key + 1"
  by (simp add: keybytesToHex_def length_split)

lemma fuel_key: "4 * length key + 4 \<le> fuel \<Longrightarrow> fuelFor (length (keybytesToHex key)) n \<le> fuel"
  unfolding length_keybytesToHex fuelFor_def by simp

lemma TryGet_stands:
  assumes "stands kec db t m" "4 * length key + 4 \<le> fuel"
  shows "\<exists>t'. TryGet db fuel key t = Some (Inr (m key, t')) \<and> stands kec db t' m"
proof -
  from assms(1) obtain T where T: "canonical T" "rep kec db True (root t) T" "\<forall>key. plookup T (keybytesToHex key) = m key"
    "\<forall>k. hexkey k \<and> k \<notin> range keybytesToHex \<longrightarrow> plookup T k = None" unfolding stands_def by blast
  have "gets kec db True (cachegen t) (keybytesToHex key) 0 T fuel (root t)"
    using slot_key [OF T(1)] T(2) fuel_key [OF assms(2)] by (intro tryGet_spec) simp_all
  then obtain n did where "tryGet db (cachegen t) fuel (root t) (keybytesToHex key) 0 = Some (Inr (m key, n, did))" "rep kec db True n T"
    unfolding gets_def using T(3) by auto
  then show ?thesis using T unfolding stands_def TryGet_def
    by (intro exI [of _ "if did then t\<lparr>root := n\<rparr> else t"]) auto
qed

lemma insert_stands:
  assumes "stands kec db t m" "val \<noteq> []" "4 * length key + 4 \<le> fuel"
  shows "\<exists>t'. TryUpdate db fuel key val t = Some (Inr t') \<and> stands kec db t' (m(key \<mapsto> val))"
proof -
  from assms(1) obtain T where T: "canonical T" "rep kec db True (root t) T" "\<forall>key. plookup T (keybytesToHex key) = m key"
    "\<forall>k. hexkey k \<and> k \<notin> range keybytesToHex \<longrightarrow> plookup T k = None" unfolding stands_def by blast
  let ?k = "keybytesToHex key" and ?T = "pinsert T (keybytesToHex key) (PVal val)"
  have "puts kec db True (cachegen t) [] ?k val T fuel (root t)"
    using slot_key [OF T(1)] T(2) fuel_key [OF assms(3)] assms(2) by (intro insertNode_spec)
  then obtain dirty n where n: "insertNode db (cachegen t) fuel (root t) [] ?k (ValueNode val) = Some (Inr (dirty, n))"
    "rep kec db True n ?T" by (rule putsE)
  have "canonical ?T"
    using wft_pinsert [OF slot_key [OF T(1)], of "PVal val"] assms(2) key_nonempty by (simp add: canonical_def)
  moreover have look: "plookup ?T k = (if k = ?k then Some val else plookup T k)" if "hexkey k" for k
    using plookup_pinsert [OF slot_key [OF T(1), of key], of "PVal val" k] assms(2) key_nonempty that by (cases k) auto
  ultimately have "stands kec db (t\<lparr>root := n\<rparr>) (m(key \<mapsto> val))"
    using T(3,4) n(2) unfolding stands_def
    by (intro exI [of _ ?T]) (auto simp: look hexkey_keybytesToHex keybytesToHex_inject)
  then show ?thesis using n(1) assms(2) by (simp add: TryUpdate_def)
qed

lemma delete_stands:
  assumes "stands kec db t m" "4 * length key + 4 \<le> fuel"
  shows "\<exists>t'. TryDelete db fuel key t = Some (Inr t') \<and> stands kec db t' (m(key := None))"
proof -
  from assms(1) obtain T where T: "canonical T" "rep kec db True (root t) T" "\<forall>key. plookup T (keybytesToHex key) = m key"
    "\<forall>k. hexkey k \<and> k \<notin> range keybytesToHex \<longrightarrow> plookup T k = None" unfolding stands_def by blast
  let ?k = "keybytesToHex key"
  let ?T = "case pdelete T ?k of None \<Rightarrow> T | Some T' \<Rightarrow> T'"
  have "dels kec db True (cachegen t) [] ?k T fuel (root t)"
    using slot_key [OF T(1)] T(2) fuel_key [OF assms(2)] by (intro deleteNode_spec)
  then obtain dirty n where n: "deleteNode db (cachegen t) fuel (root t) [] ?k = Some (Inr (dirty, n))" "rep kec db True n ?T"
    by (rule delsE)
  have look: "canonical ?T \<and> (\<forall>k. hexkey k \<longrightarrow> plookup ?T k = (if k = ?k then None else plookup T k))"
    using pdelete_spec [OF slot_key [OF T(1)], of key] T(1) key_nonempty
    by (auto simp: deletes_def split: option.splits)
  then have "stands kec db (t\<lparr>root := n\<rparr>) (m(key := None))"
    using T(3,4) n(2) unfolding stands_def
    by (intro exI [of _ ?T]) (auto simp: hexkey_keybytesToHex keybytesToHex_inject)
  then show ?thesis using n(1) by (simp add: TryDelete_def)
qed

text \<open>C7. The trie is a map. On a trie that stands for the map m, whether its nodes are in memory or
  still in the data base, reading a key gives m at the key, updating gives a trie for the updated
  map (an empty value deletes), deleting gives a trie for the map without the key; no operation
  panics or misses a node. Two steps per nibble of the key, and one more to load a node, are enough
  fuel.\<close>

theorem trie_refines_map:
  assumes "stands kec db t m" "4 * length key + 4 \<le> fuel"
  shows "(\<exists>t'. TryGet db fuel key t = Some (Inr (m key, t')) \<and> stands kec db t' m) \<and>
         (\<exists>t'. TryUpdate db fuel key val t = Some (Inr t') \<and>
               stands kec db t' (if val = [] then m(key := None) else m(key \<mapsto> val))) \<and>
         (\<exists>t'. TryDelete db fuel key t = Some (Inr t') \<and> stands kec db t' (m(key := None)))"
proof (intro conjI)
  show "\<exists>t'. TryGet db fuel key t = Some (Inr (m key, t')) \<and> stands kec db t' m" by (rule TryGet_stands [OF assms])
  show del: "\<exists>t'. TryDelete db fuel key t = Some (Inr t') \<and> stands kec db t' (m(key := None))" by (rule delete_stands [OF assms])
  show "\<exists>t'. TryUpdate db fuel key val t = Some (Inr t') \<and>
      stands kec db t' (if val = [] then m(key := None) else m(key \<mapsto> val))"
    using del insert_stands [OF assms(1) _ assms(2), of val] by (cases "val = []") (auto simp: TryUpdate_def TryDelete_def)
qed

definition exEmpty :: Trie where
  "exEmpty = \<lparr>root = NilNode, originalRoot = 0, cachegen = 0, cachelimit = 0\<rparr>"

lemma exEmpty_stands: "stands kec db exEmpty (\<lambda>_. None)"
  unfolding stands_def exEmpty_def by (intro exI [of _ PNil]) (simp add: canonical_def)

theorem trie_refines_map_witness:
  "\<exists>t'. TryUpdate (\<lambda>_. None) 8 [0x12] [7] exEmpty = Some (Inr t') \<and> stands (\<lambda>_. 0) (\<lambda>_. None) t' [[0x12] \<mapsto> [7]]"
  using trie_refines_map [where key = "[0x12]" and fuel = 8 and val = "[7]", OF exEmpty_stands [of "\<lambda>_. 0" "\<lambda>_. None"]] by simp

text \<open>The shape of a trie does not depend on how it was made.\<close>

lemma stands_unique:
  assumes "stands kec db t m" "stands kec' db' t' m"
  shows "\<exists>T. canonical T \<and> rep kec db True (root t) T \<and> rep kec' db' True (root t') T"
proof -
  from assms(1) obtain T where T: "canonical T" "rep kec db True (root t) T" "\<forall>key. plookup T (keybytesToHex key) = m key"
    "\<forall>k. hexkey k \<and> k \<notin> range keybytesToHex \<longrightarrow> plookup T k = None" unfolding stands_def by blast
  from assms(2) obtain T' where T': "canonical T'" "rep kec' db' True (root t') T'" "\<forall>key. plookup T' (keybytesToHex key) = m key"
    "\<forall>k. hexkey k \<and> k \<notin> range keybytesToHex \<longrightarrow> plookup T' k = None" unfolding stands_def by blast
  have "plookup T k = plookup T' k" if "hexkey k" for k
    using that T(3,4) T'(3,4) by (cases "k \<in> range keybytesToHex") auto
  then have "T = T'" by (rule canonical_unique [OF T(1) T'(1)])
  with T T' show ?thesis by blast
qed

end
