(* ===== verification/TrieHash.thy ===== *)
theory TrieHash
  imports Trie
begin

text \<open>
  The hasher of \<open>trie/hasher.go\<close>, which collapses a trie to its root hash and writes its nodes to the
  memory data base, and the parts of \<open>trie/database.go\<close> it uses. The Keccak hash is the parameter
  \<open>kec\<close>. A panic of the code is \<open>None\<close>.
\<close>

section \<open>The memory data base\<close>

record cachedNode =
  blob :: bytes
  parents :: int
  refs :: "hash256 \<Rightarrow> int option"

record Database =
  dbNodes :: "hash256 \<Rightarrow> cachedNode option"
  dbPreimages :: "hash256 \<Rightarrow> bytes option"
  diskdb :: "bytes \<Rightarrow> bytes option"

definition NewDatabase :: "(bytes \<Rightarrow> bytes option) \<Rightarrow> Database" where
  "NewDatabase disk =
     \<lparr>dbNodes = [0 \<mapsto> \<lparr>blob = [], parents = 0, refs = Map.empty\<rparr>], dbPreimages = Map.empty, diskdb = disk\<rparr>"

definition dbInsert :: "hash256 \<Rightarrow> bytes \<Rightarrow> Database \<Rightarrow> Database" where
  "dbInsert hash b db =
     (case dbNodes db hash of
        Some _ \<Rightarrow> db
      | None \<Rightarrow> db\<lparr>dbNodes := (dbNodes db)(hash \<mapsto> \<lparr>blob = b, parents = 0, refs = Map.empty\<rparr>)\<rparr>)"

definition insertPreimage :: "hash256 \<Rightarrow> bytes \<Rightarrow> Database \<Rightarrow> Database" where
  "insertPreimage hash preimage db =
     (case dbPreimages db hash of
        Some _ \<Rightarrow> db
      | None \<Rightarrow> db\<lparr>dbPreimages := (dbPreimages db)(hash \<mapsto> preimage)\<rparr>)"

text \<open>\<open>Node\<close> as its caller sees it: an empty blob (the meta node of the roots) is as good as none.\<close>

definition dbNode :: "Database \<Rightarrow> nodeDb" where
  "dbNode db hash =
     (case dbNodes db hash of
        Some c \<Rightarrow> if blob c = [] then None else Some (blob c)
      | None \<Rightarrow> diskdb db (hash_bytes hash))"

definition reference :: "hash256 \<Rightarrow> hash256 \<Rightarrow> Database \<Rightarrow> Database option" where
  "reference child parent db =
     (case dbNodes db child of
        None \<Rightarrow> Some db
      | Some nd \<Rightarrow>
          (case dbNodes db parent of
             None \<Rightarrow> None
           | Some pn \<Rightarrow>
               if refs pn child \<noteq> None \<and> parent \<noteq> 0 then Some db
               else
                 (let db1 = db\<lparr>dbNodes := (dbNodes db)(child \<mapsto> nd\<lparr>parents := parents nd + 1\<rparr>)\<rparr> in
                  case dbNodes db1 parent of
                    None \<Rightarrow> None
                  | Some p1 \<Rightarrow>
                      Some (db1\<lparr>dbNodes := (dbNodes db1)(parent \<mapsto>
                        p1\<lparr>refs := (refs p1)(child \<mapsto> (case refs p1 child of None \<Rightarrow> 0 | Some c \<Rightarrow> c) + 1)\<rparr>)\<rparr>))))"

fun referenceAll :: "node list \<Rightarrow> hash256 \<Rightarrow> Database \<Rightarrow> Database option" where
  "referenceAll [] hash db = Some db"
| "referenceAll (n # ns) hash db =
     (case n of
        HashNode h \<Rightarrow>
          (case reference (BytesToHash h) hash db of None \<Rightarrow> None | Some db' \<Rightarrow> referenceAll ns hash db')
      | _ \<Rightarrow> referenceAll ns hash db)"

section \<open>The encoding of a node\<close>

text \<open>
  What \<open>rlp.Encode\<close> sees of a node: a short node is a pointer to a struct of key and value (its
  flags are not exported), a full node writes its array of 17 children.
\<close>

fun nodeType :: "node \<Rightarrow> rtype" where
  "nodeType (ShortNode k v fl) = TPtr (TStruct [TBytes, TIface])"
| "nodeType (FullNode cs fl) = TArray 17 TIface"
| "nodeType _ = TBytes"

fun nodeVal :: "node \<Rightarrow> rval" and ifaceVal :: "node \<Rightarrow> rval" where
  "nodeVal (ShortNode k v fl) = VPtr (Some (VList [VBytes k, ifaceVal v]))"
| "nodeVal (FullNode cs fl) = VList (map ifaceVal cs)"
| "nodeVal (ValueNode b) = VBytes b"
| "nodeVal (HashNode b) = VBytes b"
| "nodeVal NilNode = VBytes []"
| "ifaceVal n = (if n = NilNode then VIface None else VIface (Some (nodeType n, nodeVal n)))"

definition nodeRlp :: "node \<Rightarrow> rlp_error + bytes" where
  "nodeRlp n = EncodeToBytes (nodeType n) (nodeVal n)"

section \<open>The hasher\<close>

text \<open>A callback gives \<open>None\<close> when it panics; the error it returns is ignored.\<close>

type_synonym leafCallback = "bytes \<Rightarrow> hash256 \<Rightarrow> Database \<Rightarrow> Database option"

fun leafCalls :: "leafCallback \<Rightarrow> bytes list \<Rightarrow> hash256 \<Rightarrow> Database \<Rightarrow> Database option" where
  "leafCalls cb [] hash db = Some db"
| "leafCalls cb (v # vs) hash db = (case cb v hash db of None \<Rightarrow> None | Some db' \<Rightarrow> leafCalls cb vs hash db')"

definition cacheOf :: "node \<Rightarrow> bytes option \<times> bool" where
  "cacheOf n = (case n of ShortNode k v fl \<Rightarrow> (fhash fl, fdirty fl) | FullNode cs fl \<Rightarrow> (fhash fl, fdirty fl) | _ \<Rightarrow> (None, True))"

definition canUnload :: "u16 \<Rightarrow> u16 \<Rightarrow> node \<Rightarrow> bool" where
  "canUnload gen lim n =
     (case n of
        ShortNode k v fl \<Rightarrow> \<not> fdirty fl \<and> gen - fgen fl \<ge> lim
      | FullNode cs fl \<Rightarrow> \<not> fdirty fl \<and> gen - fgen fl \<ge> lim
      | _ \<Rightarrow> False)"

definition isHashNode :: "node \<Rightarrow> bool" where
  "isHashNode n = (case n of HashNode h \<Rightarrow> True | _ \<Rightarrow> False)"

definition isValueNode :: "node \<Rightarrow> bool" where
  "isValueNode n = (case n of ValueNode h \<Rightarrow> True | _ \<Rightarrow> False)"

definition leavesOf :: "node \<Rightarrow> bytes list" where
  "leavesOf n =
     (case n of
        ShortNode k (ValueNode v) fl \<Rightarrow> [v]
      | FullNode cs fl \<Rightarrow> [v. ValueNode v \<leftarrow> take 16 cs]
      | _ \<Rightarrow> [])"

definition childrenOf :: "node \<Rightarrow> node list" where
  "childrenOf n = (case n of ShortNode k v fl \<Rightarrow> [v] | FullNode cs fl \<Rightarrow> take 16 cs | _ \<Rightarrow> [])"

definition store ::
  "(bytes \<Rightarrow> hash256) \<Rightarrow> leafCallback option \<Rightarrow> node \<Rightarrow> Database option \<Rightarrow> bool \<Rightarrow> (node \<times> Database option) option" where
  "store kec onleaf n db force =
     (if n = NilNode \<or> isHashNode n then Some (n, db)
      else
        (case nodeRlp n of
           Inl e \<Rightarrow> None
         | Inr enc \<Rightarrow>
             if length enc < 32 \<and> \<not> force then Some (n, db)
             else
               (let hn = (case fst (cacheOf n) of Some h \<Rightarrow> h | None \<Rightarrow> hash_bytes (kec enc)) in
                case db of
                  None \<Rightarrow> Some (HashNode hn, None)
                | Some d \<Rightarrow>
                    (let hash = BytesToHash hn in
                     case referenceAll (childrenOf n) hash (dbInsert hash enc d) of
                       None \<Rightarrow> None
                     | Some d1 \<Rightarrow>
                         map_option (\<lambda>d2. (HashNode hn, Some d2))
                           (case onleaf of
                              None \<Rightarrow> Some d1
                            | Some cb \<Rightarrow> leafCalls cb (leavesOf n) hash d1)))))"

text \<open>The flags of the cached node after hashing.\<close>

definition setCache :: "node \<Rightarrow> bool \<Rightarrow> node \<Rightarrow> node" where
  "setCache hashed committed cached =
     (let ch = (case hashed of HashNode h \<Rightarrow> Some h | _ \<Rightarrow> None);
          upd = (\<lambda>fl. fl\<lparr>fhash := ch, fdirty := (if committed then False else fdirty fl)\<rparr>)
      in case cached of
           ShortNode k v fl \<Rightarrow> ShortNode k v (upd fl)
         | FullNode cs fl \<Rightarrow> FullNode cs (upd fl)
         | _ \<Rightarrow> cached)"

definition orEmpty :: "node \<Rightarrow> node" where
  "orEmpty n = (if n = NilNode then ValueNode [] else n)"

text \<open>\<open>hash\<close> returns the collapsed form, the node to keep and the data base; \<open>hashKids\<close> is the loop over
  the first 16 children of a full node.\<close>

function hashN ::
  "(bytes \<Rightarrow> hash256) \<Rightarrow> u16 \<Rightarrow> u16 \<Rightarrow> leafCallback option \<Rightarrow> bool \<Rightarrow> node \<Rightarrow> Database option \<Rightarrow>
   (node \<times> node \<times> Database option) option"
  and hashChildren ::
  "(bytes \<Rightarrow> hash256) \<Rightarrow> u16 \<Rightarrow> u16 \<Rightarrow> leafCallback option \<Rightarrow> node \<Rightarrow> Database option \<Rightarrow>
   (node \<times> node \<times> Database option) option"
  and hashKids ::
  "(bytes \<Rightarrow> hash256) \<Rightarrow> u16 \<Rightarrow> u16 \<Rightarrow> leafCallback option \<Rightarrow> nat \<Rightarrow> node list \<Rightarrow> Database option \<Rightarrow>
   (node list \<times> node list \<times> Database option) option" where
  "hashN kec gen lim onleaf force n db =
     (if n = NilNode then None
      else if fst (cacheOf n) \<noteq> None \<and> (db = None \<or> canUnload gen lim n \<or> \<not> snd (cacheOf n)) then
        (let h = HashNode (the (fst (cacheOf n)))
         in if db = None then Some (h, n, db) else if canUnload gen lim n then Some (h, h, db) else Some (h, n, db))
      else
        (case hashChildren kec gen lim onleaf n db of
           None \<Rightarrow> None
         | Some (collapsed, cached, db1) \<Rightarrow>
             (case store kec onleaf collapsed db1 force of
                None \<Rightarrow> None
              | Some (hashed, db2) \<Rightarrow> Some (hashed, setCache hashed (db \<noteq> None) cached, db2))))"
| "hashChildren kec gen lim onleaf n db =
     (case n of
        ShortNode k v fl \<Rightarrow>
          (if isValueNode v then Some (ShortNode (hexToCompact k) v fl, ShortNode k v fl, db)
           else (case hashN kec gen lim onleaf False v db of
                   None \<Rightarrow> None
                 | Some (cv, kv, db1) \<Rightarrow>
                     Some (ShortNode (hexToCompact k) (orEmpty cv) fl, ShortNode k kv fl, db1)))
      | FullNode cs fl \<Rightarrow>
          (case hashKids kec gen lim onleaf 16 cs db of
             None \<Rightarrow> None
           | Some (ccs, kcs, db1) \<Rightarrow> Some (FullNode ccs fl, FullNode kcs fl, db1))
      | _ \<Rightarrow> Some (n, n, db))"
| "hashKids kec gen lim onleaf i [] db = Some ([], [], db)"
| "hashKids kec gen lim onleaf i (c # cs) db =
     (if i = 0 \<or> c = NilNode then
        (case hashKids kec gen lim onleaf (i - 1) cs db of
           None \<Rightarrow> None
         | Some (ccs, kcs, db1) \<Rightarrow> Some (orEmpty c # ccs, c # kcs, db1))
      else
        (case hashN kec gen lim onleaf False c db of
           None \<Rightarrow> None
         | Some (cc, kc, db1) \<Rightarrow>
             (case hashKids kec gen lim onleaf (i - 1) cs db1 of
                None \<Rightarrow> None
              | Some (ccs, kcs, db2) \<Rightarrow> Some (cc # ccs, kc # kcs, db2))))"
  by pat_completeness auto

termination
  by (relation "measure (\<lambda>x. case x of
        Inl (kec, gen, lim, onleaf, force, n, db) \<Rightarrow> 2 * size n + 1
      | Inr (Inl (kec, gen, lim, onleaf, n, db)) \<Rightarrow> 2 * size n
      | Inr (Inr (kec, gen, lim, onleaf, i, cs, db)) \<Rightarrow> 2 * size_list size cs + 1)") auto

declare hashN.simps [simp del] hashChildren.simps [simp del]

section \<open>Root hash and commit\<close>

definition hashRoot ::
  "(bytes \<Rightarrow> hash256) \<Rightarrow> leafCallback option \<Rightarrow> Database option \<Rightarrow> Trie \<Rightarrow> (node \<times> node \<times> Database option) option" where
  "hashRoot kec onleaf db t =
     (if root t = NilNode then Some (HashNode (hash_bytes emptyRoot), NilNode, db)
      else hashN kec (cachegen t) (cachelimit t) onleaf True (root t) db)"

text \<open>The type assertion of the root hash panics on another node.\<close>

definition asHash :: "node \<Rightarrow> hash256 option" where
  "asHash n = (case n of HashNode h \<Rightarrow> Some (BytesToHash h) | _ \<Rightarrow> None)"

definition HashOf :: "(bytes \<Rightarrow> hash256) \<Rightarrow> Trie \<Rightarrow> (hash256 \<times> Trie) option" where
  "HashOf kec t =
     (case hashRoot kec None None t of
        None \<Rightarrow> None
      | Some (hash, cached, _) \<Rightarrow> map_option (\<lambda>h. (h, t\<lparr>root := cached\<rparr>)) (asHash hash))"

definition CommitTrie ::
  "(bytes \<Rightarrow> hash256) \<Rightarrow> leafCallback option \<Rightarrow> Database \<Rightarrow> Trie \<Rightarrow> (hash256 \<times> Trie \<times> Database) option" where
  "CommitTrie kec onleaf db t =
     (case hashRoot kec onleaf (Some db) t of
        Some (hash, cached, Some db') \<Rightarrow>
          map_option (\<lambda>h. (h, t\<lparr>root := cached, cachegen := cachegen t + 1\<rparr>, db')) (asHash hash)
      | _ \<Rightarrow> None)"
end
