(* ===== verification/TrieCommit.thy ===== *)
theory TrieCommit
  imports TrieMap TrieHash
begin

text \<open>Hashing and committing a trie (the hasher, \<open>Trie.Hash\<close> and \<open>Trie.Commit\<close>) against the pure
  tries: the hash of a node is the hash of its encoding, a commit leaves every node of the trie in the
  data base under its hash, and the root hash is a function of the contents that binds them.\<close>


section \<open>The bytes of a node\<close>

definition nenc :: "node \<Rightarrow> bytes" where
  "nenc n = encv (nodeType n) (nodeVal n)"

definition ienc :: "node \<Rightarrow> bytes" where
  "ienc n = encv TIface (ifaceVal n)"

fun fullOk :: "node \<Rightarrow> bool" where
  "fullOk (ShortNode k v fl) = fullOk v"
| "fullOk (FullNode cs fl) = (length cs = 17 \<and> (\<forall>c \<in> set cs. fullOk c))"
| "fullOk _ = True"

lemma ienc_node: "n \<noteq> NilNode \<Longrightarrow> ienc n = nenc n"
  by (simp add: ienc_def nenc_def)

lemma encElems_iface: "encElems TIface (map ifaceVal cs) = concat (map ienc cs)"
  by (induction cs) (auto simp: ienc_def)

lemma nenc_simps [simp]:
  "nenc (ValueNode b) = encStr b" "nenc (HashNode b) = encStr b"
  "nenc (ShortNode k v fl) = encList (encStr k @ ienc v)" "nenc (FullNode cs fl) = encList (concat (map ienc cs))"
  by (simp_all add: nenc_def encElems_iface ienc_def del: ifaceVal.simps)

lemma wtElems_map: "wtElems t (map f cs) \<longleftrightarrow> (\<forall>c \<in> set cs. wt t (f c))"
  by (induction cs) auto

lemma fullOk_wt: "fullOk n \<Longrightarrow> wt (nodeType n) (nodeVal n) \<and> wt TIface (ifaceVal n)"
  by (induction n rule: fullOk.induct) (auto simp: wtElems_map simp del: ifaceVal.simps, auto simp: wtElems_map)

lemma nodeRlp_nenc: "fullOk n \<Longrightarrow> length (nenc n) < 2 ^ 63 \<Longrightarrow> nodeRlp n = Inr (nenc n)"
  using fullOk_wt [of n] by (simp add: nodeRlp_def nenc_def EncodeToBytes_encv)

section \<open>Writing to the data base\<close>

text \<open>The data base holds bytes of the set \<open>B\<close> under their hashes.\<close>

definition consistent :: "hashfun \<Rightarrow> bytes set \<Rightarrow> Database \<Rightarrow> bool" where
  "consistent kec B d \<longleftrightarrow> (\<forall>h b. dbNode d h = Some b \<longrightarrow> b \<in> B \<and> kec b = h) \<and>
     (\<forall>h c. dbNodes d h = Some c \<and> blob c = [] \<longrightarrow> h = 0)"

definition hashOk :: "hashfun \<Rightarrow> bytes set \<Rightarrow> bool" where
  "hashOk kec B \<longleftrightarrow> inj_on kec B \<and> (\<forall>b \<in> B. kec b \<noteq> 0 \<and> b \<noteq> [])"

lemma dbInsert_node:
  assumes "hashOk kec B" "consistent kec B d" "e \<in> B"
  shows "dbNode (dbInsert (kec e) e d) = (dbNode d)(kec e \<mapsto> e)" "consistent kec B (dbInsert (kec e) e d)"
    "dbNodes (dbInsert (kec e) e d) (kec e) \<noteq> None"
proof -
  have e: "kec e \<noteq> 0" "e \<noteq> []" using assms(1,3) by (auto simp: hashOk_def)
  show node: "dbNode (dbInsert (kec e) e d) = (dbNode d)(kec e \<mapsto> e)"
  proof (cases "dbNodes d (kec e)")
    case None
    then show ?thesis using e by (auto simp: dbInsert_def dbNode_def fun_eq_iff split: option.splits)
  next
    case (Some c)
    then have "dbNode d (kec e) = Some (blob c)" using assms(2) e(1) by (auto simp: dbNode_def consistent_def)
    moreover from this have "blob c = e"
      using assms by (auto simp: consistent_def hashOk_def dest: inj_onD)
    ultimately show ?thesis using Some by (auto simp: dbInsert_def fun_eq_iff)
  qed
  show "consistent kec B (dbInsert (kec e) e d)"
    using assms(2,3) e unfolding consistent_def node
    by (auto simp: dbInsert_def split: option.splits if_splits)
  show "dbNodes (dbInsert (kec e) e d) (kec e) \<noteq> None"
    by (auto simp: dbInsert_def split: option.splits)
qed

lemma reference_keeps:
  assumes "dbNodes d p \<noteq> None" "consistent kec B d"
  obtains d' where "reference c p d = Some d'" "dbNode d' = dbNode d" "dbNodes d' p \<noteq> None" "consistent kec B d'"
proof -
  from assms(1) obtain pn where pn: "dbNodes d p = Some pn" by auto
  have "\<exists>d'. reference c p d = Some d' \<and> diskdb d' = diskdb d \<and> dom (dbNodes d') = dom (dbNodes d) \<and>
      (\<forall>h. map_option blob (dbNodes d' h) = map_option blob (dbNodes d h))"
    using pn by (auto simp: reference_def Let_def split: option.splits)
  then obtain d' where d': "reference c p d = Some d'" "diskdb d' = diskdb d" "dom (dbNodes d') = dom (dbNodes d)"
    "\<forall>h. map_option blob (dbNodes d' h) = map_option blob (dbNodes d h)" by blast
  have node: "dbNode d' = dbNode d"
  proof
    fix h show "dbNode d' h = dbNode d h"
      using d'(2) d'(4) [rule_format, of h] by (auto simp: dbNode_def split: option.splits)
  qed
  moreover have same: "\<exists>c'. dbNodes d h = Some c' \<and> blob c' = blob c" if "dbNodes d' h = Some c" for h c
    using d'(4) [rule_format, of h] that by (cases "dbNodes d h") auto
  have "consistent kec B d'"
    using assms(2) unfolding consistent_def node by (auto dest: same)
  moreover have "dbNodes d' p \<noteq> None" using d'(3) pn by (metis domIff option.distinct(1))
  ultimately show ?thesis using that d'(1) \<open>consistent kec B d'\<close> by blast
qed

lemma referenceAll_keeps:
  assumes "dbNodes d p \<noteq> None" "consistent kec B d"
  shows "\<exists>d'. referenceAll ns p d = Some d' \<and> dbNode d' = dbNode d \<and> dbNodes d' p \<noteq> None \<and> consistent kec B d'"
  using assms
proof (induction ns arbitrary: d)
  case (Cons n ns)
  show ?case
  proof (cases "isHash n")
    case True
    then obtain h where n: "n = HashNode h" by (auto simp: isHash_def split: node.splits)
    obtain d1 where d1: "reference (BytesToHash h) p d = Some d1" "dbNode d1 = dbNode d" "dbNodes d1 p \<noteq> None" "consistent kec B d1"
      using reference_keeps [OF Cons.prems] by metis
    show ?thesis using Cons.IH [OF d1(3,4)] d1(1,2) n by auto
  next
    case False
    then have "referenceAll (n # ns) p d = referenceAll ns p d" by (cases n) auto
    then show ?thesis using Cons by simp
  qed
qed simp


section \<open>Hashing\<close>

fun encs :: "hashfun \<Rightarrow> ptrie \<Rightarrow> bytes set" where
  "encs kec PNil = {}"
| "encs kec (PVal v) = {}"
| "encs kec (PShort k c) = insert (penc kec (PShort k c)) (encs kec c)"
| "encs kec (PFull cs) = insert (penc kec (PFull cs)) (\<Union>c \<in> set cs. encs kec c)"

lemma penc_encs: "wft T \<Longrightarrow> penc kec T \<in> encs kec T"
  by (cases T) auto

text \<open>The nodes that can be loaded: from the data base that is written, or from the one behind the trie.\<close>

definition view :: "nodeDb \<Rightarrow> Database option \<Rightarrow> nodeDb" where
  "view f db = (case db of None \<Rightarrow> f | Some d \<Rightarrow> dbNode d)"

definition dbOk :: "hashfun \<Rightarrow> bytes set \<Rightarrow> Database option \<Rightarrow> bool" where
  "dbOk kec B db \<longleftrightarrow> (case db of None \<Rightarrow> True | Some d \<Rightarrow> hashOk kec B \<and> consistent kec B d)"

definition keepsNodes :: "hashfun \<Rightarrow> bytes set \<Rightarrow> leafCallback option \<Rightarrow> bool" where
  "keepsNodes kec B onleaf \<longleftrightarrow>
     (\<forall>cb v h d. onleaf = Some cb \<and> consistent kec B d \<and> dbNodes d h \<noteq> None \<longrightarrow>
        (\<exists>d'. cb v h d = Some d' \<and> dbNode d' = dbNode d \<and> consistent kec B d' \<and> dbNodes d' h \<noteq> None))"

lemma leafCalls_keep:
  assumes "keepsNodes kec B (Some cb)" "consistent kec B d" "dbNodes d h \<noteq> None"
  shows "\<exists>d'. leafCalls cb vs h d = Some d' \<and> dbNode d' = dbNode d \<and> consistent kec B d'"
  using assms
proof (induction vs arbitrary: d)
  case (Cons v vs)
  then obtain d1 where "cb v h d = Some d1" "dbNode d1 = dbNode d" "consistent kec B d1" "dbNodes d1 h \<noteq> None"
    unfolding keepsNodes_def by metis
  then show ?case using Cons.IH [OF Cons.prems(1), of d1] by auto
qed simp

lemma store_small: "n \<noteq> NilNode \<Longrightarrow> \<not> isHashNode n \<Longrightarrow> nodeRlp n = Inr e \<Longrightarrow> length e < 32 \<Longrightarrow> store kec onleaf n db False = Some (n, db)"
  by (simp add: store_def)

lemma store_spec:
  assumes "n \<noteq> NilNode" "\<not> isHashNode n" "nodeRlp n = Inr e" "force \<or> 32 \<le> length e"
    and "fst (cacheOf n) \<in> {None, Some (hash_bytes (kec e))}"
    and "e \<in> B" "dbOk kec B db" "keepsNodes kec B onleaf"
  shows "\<exists>db'. store kec onleaf n db force = Some (HashNode (hash_bytes (kec e)), db') \<and> dbOk kec B db' \<and>
    (db' = None \<longleftrightarrow> db = None) \<and> (db \<noteq> None \<longrightarrow> view f db' = (view f db)(kec e \<mapsto> e))"
proof (cases db)
  case None
  then show ?thesis using assms(1-5) by (auto simp: store_def dbOk_def)
next
  case (Some d)
  let ?h = "kec e"
  have d: "hashOk kec B" "consistent kec B d" using assms(7) Some by (simp_all add: dbOk_def)
  note ins = dbInsert_node [OF d assms(6)]
  obtain d1 where d1: "referenceAll (childrenOf n) ?h (dbInsert ?h e d) = Some d1" "dbNode d1 = dbNode (dbInsert ?h e d)"
    "consistent kec B d1" "dbNodes d1 ?h \<noteq> None"
    using referenceAll_keeps [OF ins(3,2)] by blast
  obtain d2 where d2: "(case onleaf of None \<Rightarrow> Some d1 | Some cb \<Rightarrow> leafCalls cb (leavesOf n) ?h d1) = Some d2"
    "dbNode d2 = dbNode d1" "consistent kec B d2"
    using d1(3,4) assms(8) leafCalls_keep [of kec B _ d1 ?h "leavesOf n"] by (cases onleaf) auto
  have hn: "(case fst (cacheOf n) of Some h \<Rightarrow> h | None \<Rightarrow> hash_bytes ?h) = hash_bytes ?h" using assms(5) by auto
  have "store kec onleaf n db force = Some (HashNode (hash_bytes ?h), Some d2)"
    using assms(1-4) d1(1) d2(1) unfolding store_def Some by (auto simp: hn BytesToHash_hash_bytes not_less Let_def split: option.splits)
  then show ?thesis using d d2 d1 ins(1) Some by (auto simp: dbOk_def view_def)
qed

lemma kidsStored_mono:
  "f \<subseteq>\<^sub>m g \<Longrightarrow> kidsStored kec f T \<Longrightarrow> kidsStored kec g T" "f \<subseteq>\<^sub>m g \<Longrightarrow> itemStored kec f T \<Longrightarrow> itemStored kec g T"
  by (induction kec f T and kec f T rule: kidsStored_itemStored.induct)
    (auto simp: Let_def map_le_def dom_def)

lemma stored_mono: "f \<subseteq>\<^sub>m g \<Longrightarrow> stored kec f T \<Longrightarrow> stored kec g T"
  using kidsStored_mono(1) by (auto simp: stored_def map_le_def dom_def)

lemma flagOk_mono: "f \<subseteq>\<^sub>m g \<Longrightarrow> flagOk kec f rt fl T \<Longrightarrow> flagOk kec g rt fl T"
  using stored_mono by (auto simp: flagOk_def split: option.splits)

lemma rep_mono: "rep kec f rt n T \<Longrightarrow> f \<subseteq>\<^sub>m g \<Longrightarrow> rep kec g rt n T"
proof (induction rule: rep.induct)
  case (rep_full cs Ts rt fl)
  then have "list_all2 (rep kec g False) cs Ts" by (auto simp: list_all2_conv_all_nth)
  with rep_full show ?case by (auto intro: flagOk_mono)
qed (auto intro: flagOk_mono stored_mono)

text \<open>What hashing a node gives: the form its parent holds, a node to keep that stands for the same
  trie, and a data base with the nodes of the trie.\<close>

definition collapses ::
  "hashfun \<Rightarrow> bytes set \<Rightarrow> nodeDb \<Rightarrow> Database option \<Rightarrow> ptrie \<Rightarrow> (node \<times> node \<times> Database option) option \<Rightarrow> bool \<Rightarrow> bool" where
  "collapses kec B f db T r force \<longleftrightarrow>
     (\<exists>hashed cached db'. r = Some (hashed, cached, db') \<and> dbOk kec B db' \<and> (db' = None \<longleftrightarrow> db = None) \<and>
        view f db \<subseteq>\<^sub>m view f db' \<and> rep kec (view f db') force cached T \<and> fullOk hashed \<and> hashed \<noteq> NilNode \<and>
        (if force \<or> 32 \<le> length (penc kec T)
         then hashed = HashNode (hashOf kec T) \<and> (db \<noteq> None \<longrightarrow> stored kec (view f db') T)
         else nenc hashed = penc kec T \<and> (db \<noteq> None \<longrightarrow> kidsStored kec (view f db') T)))"

lemma view_mono:
  assumes "dbOk kec B db" "db \<noteq> None \<longrightarrow> view f db' = (view f db)(kec e \<mapsto> e)" "db' = None \<longleftrightarrow> db = None"
    "e \<in> B"
  shows "view f db \<subseteq>\<^sub>m view f db'"
proof (cases db)
  case (Some d)
  have "b = e" if "dbNode d (kec e) = Some b" for b
    using that assms(1,4) Some inj_onD [of kec B b e] by (auto simp: dbOk_def consistent_def hashOk_def)
  then show ?thesis using assms(2) Some by (auto simp: map_le_def view_def)
qed (use assms(3) in simp)

text \<open>One node, given that its children are done.\<close>

lemma cacheOf_flag: "cacheOf (ShortNode k v fl) = (fhash fl, fdirty fl)" "cacheOf (FullNode cs fl) = (fhash fl, fdirty fl)"
  by (simp_all add: cacheOf_def)

definition withFlag :: "nodeFlag \<Rightarrow> node \<Rightarrow> bool" where
  "withFlag fl n \<longleftrightarrow> (\<exists>k v. n = ShortNode k v fl) \<or> (\<exists>cs. n = FullNode cs fl)"

lemma setCache_rep:
  assumes "withFlag fl cached" "rep kec f rt cached T" "f \<subseteq>\<^sub>m g"
    and "flagOk kec g rt (fl\<lparr>fhash := (case hashed of HashNode h \<Rightarrow> Some h | _ \<Rightarrow> None), fdirty := (if c then False else fdirty fl)\<rparr>) T"
  shows "rep kec g rt (setCache hashed c cached) T"
  using assms rep_mono [OF assms(2,3)] by (auto simp: withFlag_def setCache_def Let_def)

lemma hashN_step:
  assumes node: "rep kec (view f db) force n T" "withFlag fl n" "wft T" "psmall T" "penc kec T \<in> B"
    and ok: "dbOk kec B db" "keepsNodes kec B onleaf"
    and kids: "hashChildren kec gen lim onleaf n db = Some (collapsed, cached, db1)"
      "dbOk kec B db1" "db1 = None \<longleftrightarrow> db = None" "view f db \<subseteq>\<^sub>m view f db1"
      "withFlag fl collapsed" "nenc collapsed = penc kec T" "fullOk collapsed"
      "withFlag fl cached" "\<And>fl'. flagOk kec (view f db1) force fl' T \<Longrightarrow> fl' = fl \<Longrightarrow> rep kec (view f db1) force cached T"
      "db \<noteq> None \<longrightarrow> kidsStored kec (view f db1) T"
  shows "collapses kec B f db T (hashN kec gen lim onleaf force n db) force"
proof (cases "fhash fl \<noteq> None \<and> (db = None \<or> canUnload gen lim n \<or> \<not> fdirty fl)")
  case True
  have fl: "flagOk kec (view f db) force fl T" using node(1,2) by (auto simp: withFlag_def)
  with True obtain h where h: "fhash fl = Some h" "h = hashOf kec T" "force \<or> 32 \<le> length (penc kec T)"
    "\<not> fdirty fl \<longrightarrow> stored kec (view f db) T" by (auto simp: flagOk_def)
  have unl: "canUnload gen lim n \<Longrightarrow> \<not> fdirty fl" using node(2) by (auto simp: withFlag_def canUnload_def)
  have eval: "hashN kec gen lim onleaf force n db =
      Some (HashNode h, if db \<noteq> None \<and> canUnload gen lim n then HashNode h else n, db)"
    using True node(2) h(1) by (auto simp: hashN.simps withFlag_def cacheOf_flag Let_def)
  have "rep kec (view f db) force (if db \<noteq> None \<and> canUnload gen lim n then HashNode h else n) T"
    using node(1,3) h unl by auto
  then show ?thesis unfolding collapses_def eval
    using ok(1) h True unl by auto
next
  case False
  have nn: "n \<noteq> NilNode" "cacheOf n = (fhash fl, fdirty fl)" using node(2) by (auto simp: withFlag_def cacheOf_flag)
  have fl: "flagOk kec (view f db) force fl T" using node(1,2) by (auto simp: withFlag_def)
  have rlp: "nodeRlp collapsed = Inr (penc kec T)"
    using nodeRlp_nenc [OF kids(7)] kids(6) length_penc [OF node(3,4), of kec] by simp
  have cn: "collapsed \<noteq> NilNode" "\<not> isHashNode collapsed" "cacheOf collapsed = (fhash fl, fdirty fl)"
    using kids(5) by (auto simp: withFlag_def cacheOf_flag isHashNode_def)
  have cached: "rep kec (view f db1) force cached T" using kids(9) flagOk_mono [OF kids(4) fl] by simp
  have eval: "hashN kec gen lim onleaf force n db =
      (case store kec onleaf collapsed db1 force of
         None \<Rightarrow> None
       | Some (hashed, db2) \<Rightarrow> Some (hashed, setCache hashed (db \<noteq> None) cached, db2))"
    using False nn kids(1) by (auto simp: hashN.simps)
  show ?thesis
  proof (cases "force \<or> 32 \<le> length (penc kec T)")
    case big: True
    have "fst (cacheOf collapsed) \<in> {None, Some (hash_bytes (kec (penc kec T)))}"
      using cn(3) fl by (auto simp: flagOk_def hashOf_def split: option.splits)
    from store_spec [OF cn(1,2) rlp big this node(5) kids(2) ok(2), of f] obtain db2 where
      db2: "store kec onleaf collapsed db1 force = Some (HashNode (hashOf kec T), db2)" "dbOk kec B db2"
        "db2 = None \<longleftrightarrow> db1 = None" "db1 \<noteq> None \<longrightarrow> view f db2 = (view f db1)(kec (penc kec T) \<mapsto> penc kec T)"
      unfolding hashOf_def by blast
    have mono: "view f db1 \<subseteq>\<^sub>m view f db2" by (rule view_mono [OF kids(2) db2(4,3) node(5)])
    have st: "stored kec (view f db2) T" if "db \<noteq> None"
      using that kids(3,10) db2(4) kidsStored_mono(1) [OF mono] node(4) by (auto simp: stored_def)
    have "fdirty fl" if "db = None" using that False fl big by (auto simp: flagOk_def split: option.splits)
    then have "flagOk kec (view f db2) force (fl\<lparr>fhash := Some (hashOf kec T), fdirty := (if db \<noteq> None then False else fdirty fl)\<rparr>) T"
      using big st by (auto simp: flagOk_def)
    then have "rep kec (view f db2) force (setCache (HashNode (hashOf kec T)) (db \<noteq> None) cached) T"
      by (intro setCache_rep [OF kids(8) cached mono]) simp
    then show ?thesis unfolding collapses_def eval db2(1)
      using db2 kids(3) map_le_trans [OF kids(4) mono] big st by auto
  next
    case small: False
    then have "store kec onleaf collapsed db1 force = Some (collapsed, db1)"
      using store_small [OF cn(1,2) rlp] by simp
    moreover have "rep kec (view f db1) force (setCache collapsed (db \<noteq> None) cached) T"
      using small cn(2) by (intro setCache_rep [OF kids(8) cached]) (auto simp: flagOk_def isHashNode_def split: node.splits)
    ultimately show ?thesis unfolding collapses_def eval
      using small kids cn by auto
  qed
qed


text \<open>The children of a full node, given that each of them is done.\<close>

definition hashesOk ::
  "hashfun \<Rightarrow> bytes set \<Rightarrow> nodeDb \<Rightarrow> u16 \<Rightarrow> u16 \<Rightarrow> leafCallback option \<Rightarrow> ptrie \<Rightarrow> bool" where
  "hashesOk kec B f gen lim onleaf T \<longleftrightarrow>
     (\<forall>n db. rep kec (view f db) False n T \<and> dbOk kec B db \<longrightarrow>
        collapses kec B f db T (hashN kec gen lim onleaf False n db) False)"

lemma ienc_collapsed:
  assumes "hashed \<noteq> NilNode" "wft T"
    "if 32 \<le> length (penc kec T) then hashed = HashNode (hashOf kec T) else nenc hashed = penc kec T"
  shows "ienc hashed = pitem kec T"
  using assms by (auto simp: ienc_node pitem_node hashOf_def split: if_splits)

lemma itemStored_collapsed:
  assumes "wft T" "psmall T" "if 32 \<le> length (penc kec T) then stored kec g T else kidsStored kec g T"
  shows "itemStored kec g T"
  using assms by (cases T) (auto simp: stored_def Let_def split: if_splits)

lemma hashesOkE:
  assumes "hashesOk kec B f gen lim onleaf T" "rep kec (view f db) False n T" "dbOk kec B db" "wft T" "psmall T"
  obtains hashed cached db' where "hashN kec gen lim onleaf False n db = Some (hashed, cached, db')"
    "dbOk kec B db'" "db' = None \<longleftrightarrow> db = None" "view f db \<subseteq>\<^sub>m view f db'"
    "rep kec (view f db') False cached T" "fullOk hashed" "hashed \<noteq> NilNode" "ienc hashed = pitem kec T"
    "db \<noteq> None \<longrightarrow> itemStored kec (view f db') T"
proof -
  from assms(1-3) obtain hashed cached db' where h: "hashN kec gen lim onleaf False n db = Some (hashed, cached, db')"
    "dbOk kec B db'" "db' = None \<longleftrightarrow> db = None" "view f db \<subseteq>\<^sub>m view f db'"
    "rep kec (view f db') False cached T" "fullOk hashed" "hashed \<noteq> NilNode"
    and s: "if 32 \<le> length (penc kec T)
         then hashed = HashNode (hashOf kec T) \<and> (db \<noteq> None \<longrightarrow> stored kec (view f db') T)
         else nenc hashed = penc kec T \<and> (db \<noteq> None \<longrightarrow> kidsStored kec (view f db') T)"
    unfolding hashesOk_def collapses_def by (auto 0 5)
  show ?thesis
  proof (rule that [OF h])
    show "ienc hashed = pitem kec T" using s h(7) assms(4) by (intro ienc_collapsed) (auto split: if_splits)
    show "db \<noteq> None \<longrightarrow> itemStored kec (view f db') T"
      using s assms(4,5) by (auto intro!: itemStored_collapsed split: if_splits)
  qed
qed

definition kidOk :: "hashfun \<Rightarrow> bytes set \<Rightarrow> nodeDb \<Rightarrow> u16 \<Rightarrow> u16 \<Rightarrow> leafCallback option \<Rightarrow> nat \<Rightarrow> ptrie \<Rightarrow> bool" where
  "kidOk kec B f gen lim onleaf i T \<longleftrightarrow>
     T = PNil \<or> (if i = 0 then isValue T else wft T \<and> psmall T \<and> hashesOk kec B f gen lim onleaf T)"

lemma hashKids_spec:
  assumes "list_all2 (rep kec (view f db) False) cs Ts" "dbOk kec B db"
    and "\<forall>j < length Ts. kidOk kec B f gen lim onleaf (i - j) (Ts ! j)"
  shows "\<exists>ccs kcs db'. hashKids kec gen lim onleaf i cs db = Some (ccs, kcs, db') \<and> dbOk kec B db' \<and>
    (db' = None \<longleftrightarrow> db = None) \<and> view f db \<subseteq>\<^sub>m view f db' \<and> list_all2 (rep kec (view f db') False) kcs Ts \<and>
    (\<forall>c \<in> set ccs. fullOk c) \<and> map ienc ccs = map (pitem kec) Ts \<and>
    (db \<noteq> None \<longrightarrow> (\<forall>T \<in> set Ts. itemStored kec (view f db') T))"
  using assms
proof (induction cs arbitrary: Ts db i)
  case Nil
  then show ?case by simp
next
  case (Cons c cs)
  then obtain T Us where Ts: "Ts = T # Us" and r: "rep kec (view f db) False c T" "list_all2 (rep kec (view f db) False) cs Us"
    by (auto simp: list_all2_Cons1)
  have k: "kidOk kec B f gen lim onleaf i T" "\<forall>j < length Us. kidOk kec B f gen lim onleaf (i - 1 - j) (Us ! j)"
    using Cons.prems(3) unfolding Ts by (auto dest: spec [of _ 0] spec [of _ "Suc _"])
  show ?case
  proof (cases "i = 0 \<or> c = NilNode")
    case True
    then have T: "T = PNil \<or> isValue T" using k(1) rep_nil_iff [OF r(1)] by (auto simp: kidOk_def split: if_splits)
    have c: "ienc (orEmpty c) = pitem kec T" "fullOk (orEmpty c)" "itemStored kec g T" "rep kec g False c T" for g
      using T r(1) rep_nil_iff [OF r(1)]
      by (auto simp: orEmpty_def ienc_node rep_value_iff simp del: encStr_Nil elim!: isValueE)
    obtain ccs kcs db' where IH: "hashKids kec gen lim onleaf (i - 1) cs db = Some (ccs, kcs, db')" "dbOk kec B db'"
      "db' = None \<longleftrightarrow> db = None" "view f db \<subseteq>\<^sub>m view f db'" "list_all2 (rep kec (view f db') False) kcs Us"
      "\<forall>c \<in> set ccs. fullOk c" "map ienc ccs = map (pitem kec) Us"
      "db \<noteq> None \<longrightarrow> (\<forall>T \<in> set Us. itemStored kec (view f db') T)"
      using Cons.IH [OF r(2) Cons.prems(2) k(2)] by blast
    show ?thesis unfolding Ts using True c IH by auto
  next
    case False
    then have T: "wft T" "psmall T" "hashesOk kec B f gen lim onleaf T"
      using k(1) rep_nil_iff [OF r(1)] by (auto simp: kidOk_def split: if_splits)
    obtain hc kc db1 where h: "hashN kec gen lim onleaf False c db = Some (hc, kc, db1)"
      "dbOk kec B db1" "db1 = None \<longleftrightarrow> db = None" "view f db \<subseteq>\<^sub>m view f db1"
      "rep kec (view f db1) False kc T" "fullOk hc" "hc \<noteq> NilNode" "ienc hc = pitem kec T"
      "db \<noteq> None \<longrightarrow> itemStored kec (view f db1) T"
      using hashesOkE [OF T(3) r(1) Cons.prems(2) T(1,2)] by metis
    have "list_all2 (rep kec (view f db1) False) cs Us"
      using r(2) rep_mono [OF _ h(4)] by (auto simp: list_all2_conv_all_nth)
    from Cons.IH [OF this h(2) k(2)] obtain ccs kcs db2 where IH:
      "hashKids kec gen lim onleaf (i - 1) cs db1 = Some (ccs, kcs, db2)" "dbOk kec B db2"
      "db2 = None \<longleftrightarrow> db1 = None" "view f db1 \<subseteq>\<^sub>m view f db2" "list_all2 (rep kec (view f db2) False) kcs Us"
      "\<forall>c \<in> set ccs. fullOk c" "map ienc ccs = map (pitem kec) Us"
      "db1 \<noteq> None \<longrightarrow> (\<forall>T \<in> set Us. itemStored kec (view f db2) T)" by blast
    show ?thesis unfolding Ts
      using False h IH rep_mono [OF h(5) IH(4)] map_le_trans [OF h(4) IH(4)] kidsStored_mono(2) [OF IH(4), of kec T] by auto
  qed
qed

lemma hashN_hash:
  assumes "rep kec (view f db) force (HashNode h) T" "dbOk kec B db"
  shows "collapses kec B f db T (hashN kec gen lim onleaf force (HashNode h) db) force"
proof -
  have "hashN kec gen lim onleaf force (HashNode h) db = Some (HashNode h, HashNode h, db)"
    by (simp add: hashN.simps hashChildren.simps cacheOf_def store_def isHashNode_def setCache_def Let_def)
  then show ?thesis using assms by (auto simp: collapses_def stored_def)
qed

lemma hashN_short:
  assumes node: "rep kec (view f db) force (ShortNode k v fl) (PShort k c)" "wft (PShort k c)" "psmall (PShort k c)" "penc kec (PShort k c) \<in> B"
    and ok: "dbOk kec B db" "keepsNodes kec B onleaf" "wft c \<longrightarrow> hashesOk kec B f gen lim onleaf c"
  shows "collapses kec B f db (PShort k c) (hashN kec gen lim onleaf force (ShortNode k v fl) db) force"
proof -
  have v: "rep kec (view f db) False v c" and fl: "flagOk kec (view f db) force fl (PShort k c)" using node(1) by auto
  show ?thesis
  proof (cases "isValue c")
    case True
    then obtain b where b: "c = PVal b" "v = ValueNode b" using v by (auto simp: rep_value_iff elim!: isValueE)
    show ?thesis
    proof (rule hashN_step [OF node(1) _ node(2-4) ok(1,2)])
      show "hashChildren kec gen lim onleaf (ShortNode k v fl) db = Some (ShortNode (hexToCompact k) v fl, ShortNode k v fl, db)"
        by (simp add: hashChildren.simps b isValueNode_def)
    qed (use ok(1) b v node(1) in \<open>auto simp: withFlag_def ienc_node\<close>)
  next
    case False
    then have c: "wft c" "psmall c" using node(2,3) by (auto split: if_splits)
    have nv: "\<not> isValueNode v" using v c(1) by (auto simp: isValueNode_def split: node.splits)
    obtain hv kv db1 where h: "hashN kec gen lim onleaf False v db = Some (hv, kv, db1)"
      "dbOk kec B db1" "db1 = None \<longleftrightarrow> db = None" "view f db \<subseteq>\<^sub>m view f db1"
      "rep kec (view f db1) False kv c" "fullOk hv" "hv \<noteq> NilNode" "ienc hv = pitem kec c"
      "db \<noteq> None \<longrightarrow> itemStored kec (view f db1) c"
      using hashesOkE [OF _ v ok(1) c] ok(3) c(1) by metis
    show ?thesis
    proof (rule hashN_step [OF node(1) _ node(2-4) ok(1,2)])
      show "hashChildren kec gen lim onleaf (ShortNode k v fl) db = Some (ShortNode (hexToCompact k) hv fl, ShortNode k kv fl, db1)"
        using h(1,7) nv by (simp add: hashChildren.simps orEmpty_def)
    qed (use h in \<open>auto simp: withFlag_def\<close>)
  qed
qed

lemma hashN_full:
  assumes node: "rep kec (view f db) force (FullNode cs fl) (PFull Ts)" "wft (PFull Ts)" "psmall (PFull Ts)" "penc kec (PFull Ts) \<in> B"
    and ok: "dbOk kec B db" "keepsNodes kec B onleaf" "\<forall>c \<in> set Ts. wft c \<longrightarrow> hashesOk kec B f gen lim onleaf c"
  shows "collapses kec B f db (PFull Ts) (hashN kec gen lim onleaf force (FullNode cs fl) db) force"
proof -
  have v: "list_all2 (rep kec (view f db) False) cs Ts" and fl: "flagOk kec (view f db) force fl (PFull Ts)" using node(1) by auto
  have len: "length Ts = 17" using node(2) by simp
  have "kidOk kec B f gen lim onleaf (16 - j) (Ts ! j)" if j: "j < length Ts" for j
  proof (cases "j = 16")
    case True
    then show ?thesis using node(2) by (auto simp: kidOk_def)
  next
    case False
    then have "Ts ! j \<in> set (take 16 Ts)" using j len by (auto simp: in_set_conv_nth intro!: exI [of _ j])
    then have "Ts ! j = PNil \<or> wft (Ts ! j)" "psmall (Ts ! j)" "Ts ! j \<in> set Ts"
      using node(2,3) j by auto
    then show ?thesis using False j len ok(3) by (auto simp: kidOk_def)
  qed
  then obtain ccs kcs db1 where h: "hashKids kec gen lim onleaf 16 cs db = Some (ccs, kcs, db1)" "dbOk kec B db1"
    "db1 = None \<longleftrightarrow> db = None" "view f db \<subseteq>\<^sub>m view f db1" "list_all2 (rep kec (view f db1) False) kcs Ts"
    "\<forall>c \<in> set ccs. fullOk c" "map ienc ccs = map (pitem kec) Ts"
    "db \<noteq> None \<longrightarrow> (\<forall>T \<in> set Ts. itemStored kec (view f db1) T)"
    using hashKids_spec [OF v ok(1)] by blast
  have "length ccs = 17" using arg_cong [OF h(7), of length] len by simp
  show ?thesis
  proof (rule hashN_step [OF node(1) _ node(2-4) ok(1,2)])
    show "hashChildren kec gen lim onleaf (FullNode cs fl) db = Some (FullNode ccs fl, FullNode kcs fl, db1)"
      using h(1) by (simp add: hashChildren.simps)
  qed (use h \<open>length ccs = 17\<close> in \<open>auto simp: withFlag_def\<close>)
qed

lemma hashes_node:
  assumes "rep kec (view f db) force n T" "wft T" "psmall T" "encs kec T \<subseteq> B"
    and "dbOk kec B db" "keepsNodes kec B onleaf"
  shows "collapses kec B f db T (hashN kec gen lim onleaf force n db) force"
  using assms
proof (induction T arbitrary: n db force rule: ptrie.induct)
  case (PShort k c)
  have kids: "hashesOk kec B f gen lim onleaf c" if "wft c"
    unfolding hashesOk_def using PShort.IH that PShort.prems by auto
  show ?case
  proof (cases "isHash n")
    case True
    then show ?thesis using hashN_hash PShort.prems(1,5) by (auto simp: isHash_def split: node.splits)
  next
    case False
    then obtain v fl where n: "n = ShortNode k v fl" using rep_cases(3) [OF PShort.prems(1)] by blast
    show ?thesis unfolding n
      using PShort.prems kids n by (intro hashN_short) auto
  qed
next
  case (PFull Ts)
  have kids: "\<forall>c \<in> set Ts. wft c \<longrightarrow> hashesOk kec B f gen lim onleaf c"
    unfolding hashesOk_def using PFull.IH PFull.prems by fastforce
  show ?case
  proof (cases "isHash n")
    case True
    then show ?thesis using hashN_hash PFull.prems(1,5) by (auto simp: isHash_def split: node.splits)
  next
    case False
    then obtain cs fl where n: "n = FullNode cs fl" using rep_cases(4) [OF PFull.prems(1)] by blast
    show ?thesis unfolding n
      using PFull.prems kids n by (intro hashN_full) auto
  qed
qed simp_all


section \<open>The root hash of a trie\<close>

definition holds :: "ptrie \<Rightarrow> (bytes \<Rightarrow> bytes option) \<Rightarrow> bool" where
  "holds T m \<longleftrightarrow> canonical T \<and> (\<forall>key. plookup T (keybytesToHex key) = m key) \<and>
     (\<forall>k. hexkey k \<and> k \<notin> range keybytesToHex \<longrightarrow> plookup T k = None)"

lemma stands_holds: "stands kec f t m \<longleftrightarrow> (\<exists>T. holds T m \<and> rep kec f True (root t) T)"
  by (auto simp: stands_def holds_def)

lemma holds_unique:
  assumes "holds T m" "holds U m"
  shows "T = U"
proof (rule canonical_unique)
  show "plookup T k = plookup U k" if "hexkey k" for k
    using that assms unfolding holds_def by (cases "k \<in> range keybytesToHex") auto
qed (use assms in \<open>simp_all add: holds_def\<close>)

lemma holds_nil: "holds PNil m \<longleftrightarrow> m = (\<lambda>_. None)"
  by (auto simp: holds_def canonical_def)

definition smallMap :: "(bytes \<Rightarrow> bytes option) \<Rightarrow> bool" where
  "smallMap m \<longleftrightarrow> (\<forall>k v. m k = Some v \<longrightarrow> length k < 2 ^ 59 \<and> length v < 2 ^ 61)"

lemma psmall_entries:
  assumes "wft T" "\<And>k v. hexkey k \<Longrightarrow> plookup T k = Some v \<Longrightarrow> length k < 2 ^ 61 \<and> length v < 2 ^ 61"
  shows "psmall T"
  using assms
proof (induction T)
  case (PShort sk c)
  show ?case
  proof (cases "isValue c")
    case True
    then show ?thesis using PShort.prems(1) PShort.prems(2) [of sk] by (auto elim!: isValueE)
  next
    case False
    then have c: "wft c" "nibbles sk" using PShort.prems(1) by (auto split: if_splits)
    have ext: "length (sk @ k) < 2 ^ 61 \<and> length v < 2 ^ 61" if "hexkey k" "plookup c k = Some v" for k v
      using that c(2) by (intro PShort.prems(2)) (auto simp: hexkey_append)
    obtain k where "hasKey c k" using wft_nonempty [OF c(1)] by blast
    then have "length sk < 2 ^ 61" using ext [of k] by (auto simp: hasKey_def)
    moreover have "psmall c" using ext by (intro PShort.IH [OF c(1)]) force
    ultimately show ?thesis by simp
  qed
next
  case (PFull cs)
  have "psmall c" if c: "c \<in> set cs" for c
  proof -
    obtain i where i: "i < 17" "c = cs ! i" using c PFull.prems(1) by (auto simp: in_set_conv_nth)
    have ix: "unat (word_of_nat i :: u8) = i" using i(1) by (simp add: small_index)
    show ?thesis
    proof (cases "i = 16")
      case True
      then show ?thesis using PFull.prems(1) i PFull.prems(2) [of "[16]"] by (auto elim!: isValueE)
    next
      case False
      then have w: "c = PNil \<or> wft c" using full_child(2) [OF PFull.prems(1), of "word_of_nat i"] i
        by (auto simp: ix canonical_def word_less_nat_alt word_le_nat_alt)
      have "length k < 2 ^ 61 \<and> length v < 2 ^ 61" if "hexkey k" "plookup c k = Some v" for k v
        using PFull.prems(2) [of "word_of_nat i # k" v] that i False PFull.prems(1)
        by (auto simp: hexkey_Cons ix word_less_nat_alt)
      then show ?thesis using w PFull.IH [OF c] by auto
    qed
  qed
  then show ?case by simp
qed simp_all

lemma holds_psmall:
  assumes "holds T m" "smallMap m" "T \<noteq> PNil"
  shows "wft T" "psmall T"
proof -
  show w: "wft T" using assms by (auto simp: holds_def canonical_def)
  show "psmall T"
  proof (rule psmall_entries [OF w])
    fix k v assume k: "hexkey k" "plookup T k = Some v"
    then obtain key where "k = keybytesToHex key" "m key = Some v" using assms(1) unfolding holds_def by (metis imageE option.distinct(1))
    moreover from this have "length key < 2 ^ 59" "length v < 2 ^ 61" using assms(2) unfolding smallMap_def by blast+
    ultimately show "length k < 2 ^ 61 \<and> length v < 2 ^ 61" by (simp add: length_keybytesToHex)
  qed
qed

text \<open>The hash of the root as the pure trie has it.\<close>

definition rootHash :: "hashfun \<Rightarrow> ptrie \<Rightarrow> hash256" where
  "rootHash kec T = (if T = PNil then emptyRoot else kec (penc kec T))"

lemma HashOf_holds:
  assumes "rep kec f True (root t) T" "holds T m" "smallMap m"
  shows "\<exists>t'. HashOf kec t = Some (rootHash kec T, t') \<and> rep kec f True (root t') T"
proof (cases "T = PNil")
  case True
  then have "root t = NilNode" using rep_nil_iff [OF assms(1)] by simp
  then show ?thesis using True by (simp add: HashOf_def hashRoot_def asHash_def rootHash_def BytesToHash_hash_bytes)
next
  case False
  note T = holds_psmall [OF assms(2,3) False]
  have "root t \<noteq> NilNode" using rep_nil_iff [OF assms(1)] False by simp
  moreover have "collapses kec UNIV f None T (hashN kec (cachegen t) (cachelimit t) None True (root t) None) True"
    using assms(1) T by (intro hashes_node) (auto simp: view_def dbOk_def keepsNodes_def)
  ultimately show ?thesis using False
    by (auto simp: collapses_def HashOf_def hashRoot_def asHash_def rootHash_def hashOf_def BytesToHash_hash_bytes view_def)
qed

text \<open>The encodings of the nodes of the trie for a map.\<close>

definition nodesOf :: "hashfun \<Rightarrow> (bytes \<Rightarrow> bytes option) \<Rightarrow> bytes set" where
  "nodesOf kec m = \<Union> (encs kec ` {T. holds T m})"

lemma nodesOf_holds: "holds T m \<Longrightarrow> nodesOf kec m = encs kec T"
  using holds_unique by (auto simp: nodesOf_def)

lemma CommitTrie_holds:
  assumes "rep kec (dbNode d) True (root t) T" "holds T m" "smallMap m"
    and "hashOk kec B" "consistent kec B d" "nodesOf kec m \<subseteq> B" "keepsNodes kec B onleaf"
  shows "\<exists>t' d'. CommitTrie kec onleaf d t = Some (rootHash kec T, t', d') \<and> rep kec (dbNode d') True (root t') T \<and>
    dbNode d \<subseteq>\<^sub>m dbNode d' \<and> consistent kec B d' \<and> (T \<noteq> PNil \<longrightarrow> stored kec (dbNode d') T)"
proof (cases "T = PNil")
  case True
  then have "root t = NilNode" using rep_nil_iff [OF assms(1)] by simp
  then show ?thesis using True assms(5) by (simp add: CommitTrie_def hashRoot_def asHash_def rootHash_def BytesToHash_hash_bytes)
next
  case False
  note T = holds_psmall [OF assms(2,3) False]
  have "root t \<noteq> NilNode" using rep_nil_iff [OF assms(1)] False by simp
  moreover have "collapses kec B (dbNode d) (Some d) T (hashN kec (cachegen t) (cachelimit t) onleaf True (root t) (Some d)) True"
    using assms T nodesOf_holds [OF assms(2), of kec] by (intro hashes_node) (auto simp: view_def dbOk_def)
  then obtain cached d' where "hashN kec (cachegen t) (cachelimit t) onleaf True (root t) (Some d) =
      Some (HashNode (hashOf kec T), cached, Some d')" "dbOk kec B (Some d')" "dbNode d \<subseteq>\<^sub>m dbNode d'"
    "rep kec (dbNode d') True cached T" "stored kec (dbNode d') T"
    unfolding collapses_def by (auto simp: view_def)
  ultimately show ?thesis using False
    by (auto simp: CommitTrie_def hashRoot_def asHash_def rootHash_def hashOf_def BytesToHash_hash_bytes dbOk_def)
qed

lemma newTrie_stored:
  assumes "wft T" "stored kec f T" "kec (penc kec T) \<notin> {0, emptyRoot}"
  shows "\<exists>t. newTrie f (kec (penc kec T)) = Inr t \<and> rep kec f True (root t) T"
proof -
  have r: "resolveHash f 0 (hash_bytes (kec (penc kec T))) [] = Inr (pload kec 0 (Some (hashOf kec T)) T)"
    using resolveHash_stored [OF assms(1,2), of 0 "[]"] by (simp add: hashOf_def)
  have "rep kec f True (pload kec 0 (Some (hashOf kec T)) T) T"
    using assms(1,2) by (intro rep_pload) (auto simp: stored_def flagOk_def)
  then show ?thesis using assms(3) r by (simp add: newTrie_def Let_def)
qed

lemma pitem_nonempty: "pitem kec T \<noteq> []"
  by (cases T) (auto simp: encList_def encStr_def rlpHead_def Let_def)

lemma penc_not_empty: "wft T \<Longrightarrow> penc kec T \<noteq> [0x80]"
proof (cases T)
  case (PFull cs)
  moreover assume "wft T"
  ultimately have "cs \<noteq> []" by auto
  then show ?thesis using PFull pitem_nonempty [of kec "hd cs"] by (cases cs) (auto simp: encList_def rlpHead_def)
qed (use pitem_nonempty in \<open>auto simp: encList_def rlpHead_def\<close>)

lemma HashOf_same:
  assumes "stands kec f t m" "stands kec g u m" "smallMap m"
  shows "\<exists>h t' u'. HashOf kec t = Some (h, t') \<and> HashOf kec u = Some (h, u') \<and> stands kec f t' m \<and> stands kec g u' m"
proof -
  obtain T where T: "holds T m" "rep kec f True (root t) T" using assms(1) by (auto simp: stands_holds)
  moreover have U: "rep kec g True (root u) T" using assms(2) holds_unique [OF T(1)] by (auto simp: stands_holds)
  ultimately show ?thesis using HashOf_holds [OF T(2,1) assms(3)] HashOf_holds [OF U T(1) assms(3)] unfolding stands_holds by blast
qed

text \<open>C23. The root hash is a function of the contents. Two tries that stand for the same map, however
  they were made, updated, cached or committed, have the same root hash, hashing does not panic, and
  the tries still stand for the map afterwards.\<close>

theorem root_hash_of_contents:
  assumes "stands kec f t m" "stands kec g u m" "smallMap m"
  shows "\<exists>h t' u'. HashOf kec t = Some (h, t') \<and> HashOf kec u = Some (h, u') \<and> stands kec f t' m \<and> stands kec g u' m"
  by (rule HashOf_same [OF assms])

lemma stored_all:
  assumes "encs kec T \<subseteq> B" "\<forall>b \<in> B. f (kec b) = Some b"
  shows "kidsStored kec f T \<and> itemStored kec f T"
  using assms by (induction T) (auto simp: Let_def SUP_le_iff)

text \<open>Without collisions, nodes can be looked up by their hash, so a hash stands for one trie only.\<close>

lemma rep_same:
  assumes "rep kec f True n T" "rep kec f True n U" "holds T m" "holds U m'"
  shows "T = U"
proof -
  define t where "t = \<lparr>root = n, originalRoot = 0, cachegen = 0, cachelimit = 0\<rparr>"
  have "stands kec f t m" "stands kec f t m'" using assms by (auto simp: stands_holds t_def)
  then have "m key = m' key" for key
    using TryGet_stands [of kec f t m key "4 * length key + 4"] TryGet_stands [of kec f t m' key "4 * length key + 4"] by auto
  then have "m = m'" by blast
  then show ?thesis using holds_unique assms(3,4) by blast
qed

lemma rootHash_inj:
  assumes "holds T m" "holds U m'" "smallMap m" "smallMap m'"
    and "inj_on kec (insert [0x80] (encs kec T \<union> encs kec U))" "kec [0x80] = emptyRoot" "rootHash kec T = rootHash kec U"
  shows "T = U"
proof -
  let ?B = "insert [0x80] (encs kec T \<union> encs kec U)"
  have top: "rootHash kec V = kec (if V = PNil then [0x80] else penc kec V)" for V
    using assms(6) by (simp add: rootHash_def)
  have e: "(if V = PNil then [0x80] else penc kec V) \<in> ?B" if "V \<in> {T, U}" "V \<noteq> PNil \<longrightarrow> wft V" for V
    using that penc_encs [of V kec] by auto
  have w: "T \<noteq> PNil \<Longrightarrow> wft T \<and> psmall T" "U \<noteq> PNil \<Longrightarrow> wft U \<and> psmall U"
    using holds_psmall assms(1-4) by blast+
  have enc: "(if T = PNil then [0x80] else penc kec T) = (if U = PNil then [0x80] else penc kec U)"
    using assms(5,7) w by (intro inj_onD [OF assms(5)] e) (auto simp: top)
  show ?thesis
  proof (cases "T = PNil \<or> U = PNil")
    case True
    then show ?thesis using enc w penc_not_empty [of T kec] penc_not_empty [of U kec] by (auto split: if_splits)
  next
    case False
    define f where "f h = (if h \<in> kec ` ?B then Some (the_inv_into ?B kec h) else None)" for h
    have f: "\<forall>b \<in> ?B. f (kec b) = Some b" using the_inv_into_f_f [OF assms(5)] by (auto simp: f_def)
    have "stored kec f V" if "V \<in> {T, U}" for V
      using that False w stored_all [of kec V ?B f] f penc_encs [of V kec] unfolding stored_def by auto
    then have "rep kec f True (HashNode (hashOf kec T)) T" "rep kec f True (HashNode (hashOf kec T)) U"
      using False w enc by (auto simp: hashOf_def)
    then show ?thesis using rep_same assms(1,2) by blast
  qed
qed

text \<open>C8. The root hash binds the contents. When the hash function has no collision among the
  encodings of the nodes of two tries, and the hash of the empty trie is the constant the code has
  for it, two tries with the same root hash stand for the same map.\<close>

theorem root_hash_binds:
  assumes "stands kec f t m" "stands kec g u m'" "smallMap m" "smallMap m'"
    and "inj_on kec (nodesOf kec m \<union> nodesOf kec m' \<union> {[0x80]})" "kec [0x80] = emptyRoot"
    and "HashOf kec t = Some (h, t')" "HashOf kec u = Some (h, u')"
  shows "m = m'"
proof -
  obtain T where T: "holds T m" "rep kec f True (root t) T" using assms(1) by (auto simp: stands_holds)
  obtain U where U: "holds U m'" "rep kec g True (root u) U" using assms(2) by (auto simp: stands_holds)
  have h: "rootHash kec T = rootHash kec U"
    using HashOf_holds [OF T(2,1) assms(3)] HashOf_holds [OF U(2,1) assms(4)] assms(7,8) by auto
  have "inj_on kec (insert [0x80] (encs kec T \<union> encs kec U))"
    using assms(5) nodesOf_holds [OF T(1)] nodesOf_holds [OF U(1)] by simp
  then have "T = U" by (rule rootHash_inj [OF T(1) U(1) assms(3,4) _ assms(6) h])
  then show ?thesis using T(1) U(1) by (auto simp: holds_def)
qed

text \<open>C22. Committing and opening again. A trie that is committed to a data base in which every node is
  filed under its hash can be opened from the data base by the root hash that Commit returns, and
  stands for the same map; the committed trie goes on, and no node of the data base is lost.\<close>

theorem commit_reopens:
  assumes "stands kec (dbNode d) t m" "smallMap m"
    and "hashOk kec B" "kec [0x80] = emptyRoot" "insert [0x80] (nodesOf kec m) \<subseteq> B" "consistent kec B d" "keepsNodes kec B onleaf"
  shows "\<exists>h t' d' u. CommitTrie kec onleaf d t = Some (h, t', d') \<and> stands kec (dbNode d') t' m \<and>
    dbNode d \<subseteq>\<^sub>m dbNode d' \<and> consistent kec B d' \<and> newTrie (dbNode d') h = Inr u \<and> stands kec (dbNode d') u m"
proof -
  obtain T where T: "holds T m" "rep kec (dbNode d) True (root t) T" using assms(1) by (auto simp: stands_holds)
  from CommitTrie_holds [OF T(2,1) assms(2,3,6) _ assms(7)] assms(5) obtain t' d' where
    c: "CommitTrie kec onleaf d t = Some (rootHash kec T, t', d')" "rep kec (dbNode d') True (root t') T"
      "dbNode d \<subseteq>\<^sub>m dbNode d'" "consistent kec B d'" "T \<noteq> PNil \<longrightarrow> stored kec (dbNode d') T" by blast
  have "\<exists>u. newTrie (dbNode d') (rootHash kec T) = Inr u \<and> rep kec (dbNode d') True (root u) T"
  proof (cases "T = PNil")
    case False
    note w = holds_psmall [OF T(1) assms(2) False]
    have "penc kec T \<in> B" using penc_encs [OF w(1)] nodesOf_holds [OF T(1)] assms(5) by blast
    then have "kec (penc kec T) \<notin> {0, emptyRoot}"
      using assms(3,4,5) penc_not_empty [OF w(1), of kec] inj_onD [of kec B "penc kec T" "[0x80]"] by (auto simp: hashOk_def)
    then show ?thesis using newTrie_stored w(1) c(5) False by (simp add: rootHash_def)
  qed (simp add: rootHash_def newTrie_def)
  then show ?thesis using c T(1) unfolding stands_holds by blast
qed

definition exMap :: "bytes \<Rightarrow> bytes option" where
  "exMap = [[0x12] \<mapsto> [7]]"

definition exKec :: hashfun where
  "exKec b = (if b = [0x80] then emptyRoot else 1)"

definition exTrie :: ptrie where
  "exTrie = PShort [1, 2, 16] (PVal [7])"

definition exRoot :: "node \<Rightarrow> Trie" where
  "exRoot n = exEmpty\<lparr>root := n\<rparr>"

definition exLeaf :: node where
  "exLeaf = ShortNode [1, 2, 16] (ValueNode [7]) (newFlag 0)"

lemma exTrie_enc: "penc kec exTrie = [0xc4, 0x82, 0x20, 0x12, 7]" "encs kec exTrie = {[0xc4, 0x82, 0x20, 0x12, 7]}"
  by (simp_all add: exTrie_def encList_def encStr_def rlpHead_def hexToCompact_def hasTerm_def Let_def)

lemma exTrie_holds: "holds exTrie exMap"
proof -
  have k: "keybytesToHex [0x12] = [1, 2, 16]" by code_simp
  have look: "plookup exTrie k = (if k = [1, 2, 16] then Some [7] else None)" for k
    using append_take_drop_id [of 3 k] by (auto simp: exTrie_def)
  have "hexkey [1, 2, 16]" using hexkey_keybytesToHex [of "[0x12]"] by (simp add: k)
  moreover have "[1, 2, 16] \<in> range keybytesToHex" unfolding k [symmetric] by blast
  moreover have "keybytesToHex key = [1, 2, 16] \<longleftrightarrow> key = [0x12]" for key
    using keybytesToHex_inject [of key "[0x12]"] by (simp add: k)
  ultimately show ?thesis unfolding holds_def look by (auto simp: canonical_def exTrie_def exMap_def)
qed

lemma exMap_small: "smallMap exMap"
  by (simp add: smallMap_def exMap_def)

lemma exMap_nodes: "nodesOf kec exMap = {[0xc4, 0x82, 0x20, 0x12, 7]}"
  using nodesOf_holds [OF exTrie_holds] exTrie_enc(2) by simp

lemma exLeaf_stands: "stands kec f (exRoot exLeaf) exMap"
  unfolding stands_holds using exTrie_holds by (intro exI [of _ exTrie]) (simp add: exRoot_def exLeaf_def exTrie_def)

definition exStored :: nodeDb where
  "exStored = [1 \<mapsto> [0xc4, 0x82, 0x20, 0x12, 7]]"

lemma exStored_stands: "stands exKec exStored (exRoot (HashNode (hash_bytes 1))) exMap"
proof -
  have "hashOf exKec exTrie = hash_bytes 1" by (simp add: hashOf_def exTrie_enc exKec_def)
  moreover have "stored exKec exStored exTrie"
    unfolding stored_def exTrie_enc by (simp add: exTrie_def exStored_def exKec_def)
  moreover have "wft exTrie" using exTrie_holds by (auto simp: holds_def canonical_def exTrie_def)
  ultimately show ?thesis unfolding stands_holds using exTrie_holds by (intro exI [of _ exTrie]) (simp add: exRoot_def)
qed

theorem root_hash_of_contents_witness:
  "\<exists>h t' u'. HashOf exKec (exRoot exLeaf) = Some (h, t') \<and> HashOf exKec (exRoot (HashNode (hash_bytes 1))) = Some (h, u') \<and>
     stands exKec (\<lambda>_. None) t' exMap \<and> stands exKec exStored u' exMap"
  by (rule root_hash_of_contents [OF exLeaf_stands exStored_stands exMap_small])

theorem root_hash_binds_witness:
  "\<exists>h t' u'. HashOf exKec (exRoot exLeaf) = Some (h, t') \<and> HashOf exKec (exRoot (HashNode (hash_bytes 1))) = Some (h, u') \<and>
     exMap = (\<lambda>k. if k = [0x12] then Some [7] else None)"
proof -
  have m: "exMap = (\<lambda>k. if k = [0x12] then Some [7] else None)" by (auto simp: exMap_def)
  obtain h t' u' where h: "HashOf exKec (exRoot exLeaf) = Some (h, t')" "HashOf exKec (exRoot (HashNode (hash_bytes 1))) = Some (h, u')"
    using HashOf_same [OF exLeaf_stands exStored_stands exMap_small] by blast
  have "inj_on exKec (nodesOf exKec exMap \<union> nodesOf exKec exMap \<union> {[0x80]})" "exKec [0x80] = emptyRoot"
    by (simp_all add: exMap_nodes exKec_def emptyRoot_def)
  from root_hash_binds [OF exLeaf_stands exStored_stands [unfolded m] exMap_small exMap_small [unfolded m] _ this(2) h]
    this(1) h show ?thesis unfolding m by blast
qed

lemma exDb_consistent: "consistent kec B (NewDatabase (\<lambda>_. None))"
  by (simp add: consistent_def NewDatabase_def dbNode_def)

theorem commit_reopens_witness:
  "\<exists>h t' d' u. CommitTrie exKec None (NewDatabase (\<lambda>_. None)) (exRoot exLeaf) = Some (h, t', d') \<and>
     newTrie (dbNode d') h = Inr u \<and> stands exKec (dbNode d') u exMap"
proof -
  let ?B = "{[0x80], [0xc4, 0x82, 0x20, 0x12, 7]} :: bytes set"
  have "hashOk exKec ?B" by (simp add: hashOk_def exKec_def emptyRoot_def)
  moreover have "exKec [0x80] = emptyRoot" by (simp add: exKec_def)
  moreover have "insert [0x80] (nodesOf exKec exMap) \<subseteq> ?B" by (simp add: exMap_nodes)
  moreover have "keepsNodes exKec ?B None" by (simp add: keepsNodes_def)
  ultimately obtain h t' d' u where "CommitTrie exKec None (NewDatabase (\<lambda>_. None)) (exRoot exLeaf) = Some (h, t', d')"
    "newTrie (dbNode d') h = Inr u" "stands exKec (dbNode d') u exMap"
    using commit_reopens [where B = ?B and onleaf = None, OF exLeaf_stands exMap_small _ _ _ exDb_consistent] by metis
  then show ?thesis by blast
qed

end
