(* ===== verification/SecureTrie.thy ===== *)
theory SecureTrie
  imports TrieCommit "HOL-Library.Monad_Syntax"
begin

text \<open>
  Tries with hashed keys (\<open>trie/secure_trie.go\<close>) and the data base behind the state
  (\<open>core/state/database.go\<close>). Every operation gives \<open>None\<close> when it panics. A value that is reached
  through a pointer in the code is passed and returned; whether the key cache of a trie belongs to the
  trie itself or to the one it was copied from is the flag \<open>secOwned\<close>.
\<close>

section \<open>Secure tries\<close>

record SecureTrie =
  secTrie :: Trie
  secKeyCache :: "bytes \<Rightarrow> bytes option"
  secOwned :: bool

definition triePanics :: "trie_error \<Rightarrow> bool" where
  "triePanics e = (case e of MissingNodeError h p \<Rightarrow> False | _ \<Rightarrow> True)"

definition trieRes :: "'a tres \<Rightarrow> 'a tres" where
  "trieRes r = (case r of Some (Inl e) \<Rightarrow> if triePanics e then None else r | _ \<Rightarrow> r)"

text \<open>All keys are hashes, of 32 bytes.\<close>

definition keyFuel :: nat where
  "keyFuel = 132"

definition hashKey :: "hashfun \<Rightarrow> bytes \<Rightarrow> bytes" where
  "hashKey kec key = hash_bytes (kec key)"

definition getSecKeyCache :: "SecureTrie \<Rightarrow> SecureTrie" where
  "getSecKeyCache t = (if secOwned t then t else t\<lparr>secKeyCache := Map.empty, secOwned := True\<rparr>)"

definition NewSecure :: "hash256 \<Rightarrow> Database \<Rightarrow> u16 \<Rightarrow> SecureTrie tres" where
  "NewSecure rt db limit =
     (case trieRes (Some (newTrie (dbNode db) rt)) of
        None \<Rightarrow> None
      | Some (Inl e) \<Rightarrow> Some (Inl e)
      | Some (Inr t) \<Rightarrow> Some (Inr \<lparr>secTrie = SetCacheLimit limit t, secKeyCache = Map.empty, secOwned = False\<rparr>))"

definition secTryGet :: "hashfun \<Rightarrow> Database \<Rightarrow> bytes \<Rightarrow> SecureTrie \<Rightarrow> ((trie_error + bytes option) \<times> SecureTrie) option" where
  "secTryGet kec db key t =
     (case trieRes (TryGet (dbNode db) keyFuel (hashKey kec key) (secTrie t)) of
        None \<Rightarrow> None
      | Some (Inl e) \<Rightarrow> Some (Inl e, t)
      | Some (Inr (v, tr)) \<Rightarrow> Some (Inr v, t\<lparr>secTrie := tr\<rparr>))"

definition secTryUpdate :: "hashfun \<Rightarrow> Database \<Rightarrow> bytes \<Rightarrow> bytes \<Rightarrow> SecureTrie \<Rightarrow> (trie_error option \<times> SecureTrie) option" where
  "secTryUpdate kec db key val t =
     (let hk = hashKey kec key in
      case trieRes (TryUpdate (dbNode db) keyFuel hk val (secTrie t)) of
        None \<Rightarrow> None
      | Some (Inl e) \<Rightarrow> Some (Some e, t)
      | Some (Inr tr) \<Rightarrow>
          (let t1 = getSecKeyCache (t\<lparr>secTrie := tr\<rparr>)
           in Some (None, t1\<lparr>secKeyCache := (secKeyCache t1)(hk \<mapsto> key)\<rparr>)))"

definition secTryDelete :: "hashfun \<Rightarrow> Database \<Rightarrow> bytes \<Rightarrow> SecureTrie \<Rightarrow> (trie_error option \<times> SecureTrie) option" where
  "secTryDelete kec db key t =
     (let hk = hashKey kec key;
          t0 = getSecKeyCache t;
          t1 = t0\<lparr>secKeyCache := (secKeyCache t0)(hk := None)\<rparr>
      in case trieRes (TryDelete (dbNode db) keyFuel hk (secTrie t1)) of
           None \<Rightarrow> None
         | Some (Inl e) \<Rightarrow> Some (Some e, t1)
         | Some (Inr tr) \<Rightarrow> Some (None, t1\<lparr>secTrie := tr\<rparr>))"

definition secureKey :: "bytes \<Rightarrow> bytes" where
  "secureKey key = map of_char ''secure-key-'' @ key"

definition preimage :: "Database \<Rightarrow> hash256 \<Rightarrow> bytes option" where
  "preimage db hash =
     (case dbPreimages db hash of Some p \<Rightarrow> Some p | None \<Rightarrow> diskdb db (secureKey (hash_bytes hash)))"

definition GetKey :: "Database \<Rightarrow> bytes \<Rightarrow> SecureTrie \<Rightarrow> bytes option \<times> SecureTrie" where
  "GetKey db shaKey t =
     (let t1 = getSecKeyCache t in
      case secKeyCache t1 shaKey of
        Some key \<Rightarrow> (Some key, t1)
      | None \<Rightarrow> (preimage db (BytesToHash shaKey), t1))"

text \<open>The cached keys are hashes, so that inserting them one by one inserts each under itself.\<close>

definition insertPreimages :: "(bytes \<Rightarrow> bytes option) \<Rightarrow> Database \<Rightarrow> Database" where
  "insertPreimages cache db =
     db\<lparr>dbPreimages := (\<lambda>h. case dbPreimages db h of Some p \<Rightarrow> Some p | None \<Rightarrow> cache (hash_bytes h))\<rparr>"

definition secCommit ::
  "hashfun \<Rightarrow> leafCallback option \<Rightarrow> Database \<Rightarrow> SecureTrie \<Rightarrow> (hash256 \<times> SecureTrie \<times> Database) option" where
  "secCommit kec onleaf db t =
     (let t1 = getSecKeyCache t in
      case CommitTrie kec onleaf (insertPreimages (secKeyCache t1) db) (secTrie t1) of
        None \<Rightarrow> None
      | Some (rt, tr, db') \<Rightarrow> Some (rt, t1\<lparr>secTrie := tr, secKeyCache := Map.empty\<rparr>, db'))"

definition secHash :: "hashfun \<Rightarrow> SecureTrie \<Rightarrow> (hash256 \<times> SecureTrie) option" where
  "secHash kec t = map_option (\<lambda>(h, tr). (h, t\<lparr>secTrie := tr\<rparr>)) (HashOf kec (secTrie t))"

definition secCopy :: "SecureTrie \<Rightarrow> SecureTrie" where
  "secCopy t = t\<lparr>secOwned := False\<rparr>"

section \<open>The data base of the state\<close>

text \<open>
  The cache of code sizes holds sizes of codes that were read by their hash; it is left out, a size is
  always read. A past trie is kept as it was when it was committed.
\<close>

record cachingDB =
  trieDB :: Database
  pastTries :: "SecureTrie list"

definition MaxTrieCacheGen :: u16 where
  "MaxTrieCacheGen = 120"

definition maxPastTries :: nat where
  "maxPastTries = 12"

text \<open>The loop over the past tries, the youngest first; it caches their hashes.\<close>

fun findPast :: "hashfun \<Rightarrow> hash256 \<Rightarrow> SecureTrie list \<Rightarrow> (SecureTrie option \<times> SecureTrie list) option" where
  "findPast kec rt [] = Some (None, [])"
| "findPast kec rt (t # ts) =
     do { (h, t') \<leftarrow> secHash kec t;
          if h = rt then Some (Some (secCopy t'), t' # ts)
          else do { (r, ts') \<leftarrow> findPast kec rt ts; Some (r, t' # ts') } }"

definition OpenTrie :: "hashfun \<Rightarrow> hash256 \<Rightarrow> cachingDB \<Rightarrow> ((trie_error + SecureTrie) \<times> cachingDB) option" where
  "OpenTrie kec rt db =
     do { (found, ts) \<leftarrow> findPast kec rt (rev (pastTries db));
          let db1 = db\<lparr>pastTries := rev ts\<rparr>;
          case found of
            Some t \<Rightarrow> Some (Inr t, db1)
          | None \<Rightarrow> do { r \<leftarrow> NewSecure rt (trieDB db1) MaxTrieCacheGen; Some (r, db1) } }"

definition pushTrie :: "SecureTrie \<Rightarrow> cachingDB \<Rightarrow> cachingDB" where
  "pushTrie t db =
     db\<lparr>pastTries :=
       (if length (pastTries db) \<ge> maxPastTries then drop 1 (pastTries db) @ [t] else pastTries db @ [t])\<rparr>"

definition OpenStorageTrie :: "hash256 \<Rightarrow> cachingDB \<Rightarrow> SecureTrie tres" where
  "OpenStorageTrie rt db = NewSecure rt (trieDB db) 0"

definition cachedCommit ::
  "hashfun \<Rightarrow> leafCallback option \<Rightarrow> SecureTrie \<Rightarrow> cachingDB \<Rightarrow> (hash256 \<times> SecureTrie \<times> cachingDB) option" where
  "cachedCommit kec onleaf t db =
     do { (rt, t', d) \<leftarrow> secCommit kec onleaf (trieDB db) t;
          Some (rt, t', pushTrie t' (db\<lparr>trieDB := d\<rparr>)) }"

text \<open>The code stored under a hash; \<open>None\<close> for the error that there is none.\<close>

definition ContractCode :: "cachingDB \<Rightarrow> hash256 \<Rightarrow> bytes option" where
  "ContractCode db hash =
     (case dbNodes (trieDB db) hash of Some c \<Rightarrow> Some (blob c) | None \<Rightarrow> diskdb (trieDB db) (hash_bytes hash))"

definition ContractCodeSize :: "cachingDB \<Rightarrow> hash256 \<Rightarrow> nat option" where
  "ContractCodeSize db hash = map_option length (ContractCode db hash)"

end
