(* ===== verification/StateObject.thy ===== *)
theory StateObject
  imports SecureTrie
begin

text \<open>
  The accounts of the state (\<open>core/state/state_object.go\<close>). The callback \<open>onDirty\<close> of an object is
  either the \<open>MarkStateObjectDirty\<close> of its state or nil; the flag \<open>onDirty\<close> says which. Methods that
  call it return whether they did.
\<close>

datatype stateErr = StTrie trie_error | StRlp rlp_error | StCode bytes

record Account =
  Nonce :: u64
  Balance :: int
  Root :: hash256
  CodeHash :: bytes

type_synonym Storage = "hash256 \<Rightarrow> hash256 option"

record stateObject =
  oaddr :: address
  addrHash :: hash256
  odata :: Account
  objErr :: "stateErr option"
  otrie :: "SecureTrie option"
  ocode :: "bytes option"
  cachedStorage :: Storage
  dirtyStorage :: Storage
  dirtyCode :: bool
  suicided :: bool
  touched :: bool
  deleted :: bool
  onDirty :: bool

definition emptyCodeHash :: "hashfun \<Rightarrow> bytes" where
  "emptyCodeHash kec = hash_bytes (kec [])"

definition objEmpty :: "hashfun \<Rightarrow> stateObject \<Rightarrow> bool" where
  "objEmpty kec c \<longleftrightarrow> Nonce (odata c) = 0 \<and> Balance (odata c) = 0 \<and> CodeHash (odata c) = emptyCodeHash kec"

text \<open>The zero account with what \<open>newObject\<close> puts for its nil balance and nil code hash.\<close>

definition zeroAccount :: "hashfun \<Rightarrow> Account" where
  "zeroAccount kec = \<lparr>Nonce = 0, Balance = 0, Root = 0, CodeHash = emptyCodeHash kec\<rparr>"

definition newObject :: "hashfun \<Rightarrow> address \<Rightarrow> Account \<Rightarrow> bool \<Rightarrow> stateObject" where
  "newObject kec addr d onD =
     \<lparr>oaddr = addr, addrHash = kec (addr_bytes addr), odata = d, objErr = None, otrie = None, ocode = None,
      cachedStorage = Map.empty, dirtyStorage = Map.empty, dirtyCode = False, suicided = False,
      touched = False, deleted = False, onDirty = onD\<rparr>"

section \<open>Accounts as bytes\<close>

definition accountType :: rtype where
  "accountType = TStruct [TUint 64, TBig, TByteArray 32, TBytes]"

definition accountVal :: "Account \<Rightarrow> rval" where
  "accountVal a = VList [VUint (Nonce a), VBig (Some (Balance a)), VBytes (hash_bytes (Root a)), VBytes (CodeHash a)]"

definition encodeAccount :: "Account \<Rightarrow> rlp_error + bytes" where
  "encodeAccount a = EncodeToBytes accountType (accountVal a)"

text \<open>An account has no slices; one step for the struct and one for its fields decode it.\<close>

definition decodeAccount :: "bytes \<Rightarrow> Account option" where
  "decodeAccount enc =
     (case DecodeBytes 2 accountType enc of
        Some (Inr (VList [VUint n, VBig (Some b), VBytes r, VBytes c])) \<Rightarrow>
          Some \<lparr>Nonce = n, Balance = b, Root = BytesToHash r, CodeHash = c\<rparr>
      | _ \<Rightarrow> None)"

section \<open>Methods\<close>

definition objSetError :: "stateErr option \<Rightarrow> stateObject \<Rightarrow> stateObject" where
  "objSetError err c = (if objErr c = None then c\<lparr>objErr := err\<rparr> else c)"

definition callDirty :: "stateObject \<Rightarrow> stateObject \<times> bool" where
  "callDirty c = (c\<lparr>onDirty := False\<rparr>, onDirty c)"

definition markSuicided :: "stateObject \<Rightarrow> stateObject \<times> bool" where
  "markSuicided c = callDirty (c\<lparr>suicided := True\<rparr>)"

definition setBalanceObj :: "int \<Rightarrow> stateObject \<Rightarrow> stateObject \<times> bool" where
  "setBalanceObj amount c = callDirty (c\<lparr>odata := (odata c)\<lparr>Balance := amount\<rparr>\<rparr>)"

definition setNonceObj :: "u64 \<Rightarrow> stateObject \<Rightarrow> stateObject \<times> bool" where
  "setNonceObj nonce c = callDirty (c\<lparr>odata := (odata c)\<lparr>Nonce := nonce\<rparr>\<rparr>)"

definition setCodeObj :: "hash256 \<Rightarrow> bytes option \<Rightarrow> stateObject \<Rightarrow> stateObject \<times> bool" where
  "setCodeObj codeHash code c =
     callDirty (c\<lparr>ocode := code, odata := (odata c)\<lparr>CodeHash := hash_bytes codeHash\<rparr>, dirtyCode := True\<rparr>)"

definition setStateObj :: "hash256 \<Rightarrow> hash256 \<Rightarrow> stateObject \<Rightarrow> stateObject \<times> bool" where
  "setStateObj key val c =
     callDirty (c\<lparr>cachedStorage := (cachedStorage c)(key \<mapsto> val), dirtyStorage := (dirtyStorage c)(key \<mapsto> val)\<rparr>)"

definition getTrie :: "cachingDB \<Rightarrow> stateObject \<Rightarrow> (SecureTrie \<times> stateObject) option" where
  "getTrie db c =
     (case otrie c of
        Some t \<Rightarrow> Some (t, c)
      | None \<Rightarrow>
          do { r \<leftarrow> OpenStorageTrie (Root (odata c)) db;
               case r of
                 Inr t \<Rightarrow> Some (t, c\<lparr>otrie := Some t\<rparr>)
               | Inl e \<Rightarrow>
                   do { r0 \<leftarrow> OpenStorageTrie 0 db;
                        case r0 of
                          Inl e0 \<Rightarrow> None
                        | Inr t \<Rightarrow> Some (t, objSetError (Some (StTrie e)) (c\<lparr>otrie := Some t\<rparr>)) } })"

definition storedValue :: "bytes \<Rightarrow> rlp_error option \<times> hash256" where
  "storedValue enc =
     (if enc = [] then (None, 0)
      else (case Split enc of Inl e \<Rightarrow> (Some e, 0) | Inr (k, content, rest) \<Rightarrow> (None, BytesToHash content)))"

definition GetStateObj :: "hashfun \<Rightarrow> cachingDB \<Rightarrow> hash256 \<Rightarrow> stateObject \<Rightarrow> (hash256 \<times> stateObject) option" where
  "GetStateObj kec db key c =
     (case cachedStorage c key of
        Some val \<Rightarrow> Some (val, c)
      | None \<Rightarrow>
          do { (t, c1) \<leftarrow> getTrie db c;
               (r, t') \<leftarrow> secTryGet kec (trieDB db) (hash_bytes key) t;
               let c2 = c1\<lparr>otrie := Some t'\<rparr>;
               case r of
                 Inl e \<Rightarrow> Some (0, objSetError (Some (StTrie e)) c2)
               | Inr v \<Rightarrow>
                   (let (err, val) = storedValue (case v of None \<Rightarrow> [] | Some enc \<Rightarrow> enc);
                        c3 = (case err of None \<Rightarrow> c2 | Some e \<Rightarrow> objSetError (Some (StRlp e)) c2)
                    in Some (val, if val \<noteq> 0 then c3\<lparr>cachedStorage := (cachedStorage c3)(key \<mapsto> val)\<rparr> else c3)) })"

text \<open>The loop over the dirty entries, in the order \<open>keys\<close> in which the map is traversed.\<close>

fun flushStorage ::
  "hashfun \<Rightarrow> Database \<Rightarrow> hash256 list \<Rightarrow> SecureTrie \<Rightarrow> stateObject \<Rightarrow> (SecureTrie \<times> stateObject) option" where
  "flushStorage kec d [] t c = Some (t, c)"
| "flushStorage kec d (key # keys) t c =
     (let c1 = c\<lparr>dirtyStorage := (dirtyStorage c)(key := None)\<rparr> in
      case dirtyStorage c key of
        None \<Rightarrow> flushStorage kec d keys t c
      | Some val \<Rightarrow>
          if val = 0 then
            do { (err, t') \<leftarrow> secTryDelete kec d (hash_bytes key) t;
                 flushStorage kec d keys t' (objSetError (map_option StTrie err) c1) }
          else
            (let v = (case EncodeToBytes TBytes (VBytes (dropWhile (\<lambda>b. b = 0) (hash_bytes val))) of Inl e \<Rightarrow> [] | Inr b \<Rightarrow> b)
             in do { (err, t') \<leftarrow> secTryUpdate kec d (hash_bytes key) v t;
                     flushStorage kec d keys t' (objSetError (map_option StTrie err) c1) }))"

definition updateTrie :: "hashfun \<Rightarrow> (Storage \<Rightarrow> hash256 list) \<Rightarrow> cachingDB \<Rightarrow> stateObject \<Rightarrow> stateObject option" where
  "updateTrie kec ord db c =
     do { (t, c1) \<leftarrow> getTrie db c;
          (t', c2) \<leftarrow> flushStorage kec (trieDB db) (ord (dirtyStorage c1)) t c1;
          Some (c2\<lparr>otrie := Some t'\<rparr>) }"

definition updateRoot :: "hashfun \<Rightarrow> (Storage \<Rightarrow> hash256 list) \<Rightarrow> cachingDB \<Rightarrow> stateObject \<Rightarrow> stateObject option" where
  "updateRoot kec ord db c =
     do { c1 \<leftarrow> updateTrie kec ord db c;
          t \<leftarrow> otrie c1;
          (h, t') \<leftarrow> secHash kec t;
          Some (c1\<lparr>otrie := Some t', odata := (odata c1)\<lparr>Root := h\<rparr>\<rparr>) }"

definition commitObj ::
  "hashfun \<Rightarrow> (Storage \<Rightarrow> hash256 list) \<Rightarrow> cachingDB \<Rightarrow> stateObject \<Rightarrow> ((stateErr option \<times> stateObject) \<times> cachingDB) option" where
  "commitObj kec ord db c =
     do { c1 \<leftarrow> updateTrie kec ord db c;
          if objErr c1 \<noteq> None then Some ((objErr c1, c1), db)
          else do { t \<leftarrow> otrie c1;
                    (h, t', d) \<leftarrow> secCommit kec None (trieDB db) t;
                    Some ((None, c1\<lparr>otrie := Some t', odata := (odata c1)\<lparr>Root := h\<rparr>\<rparr>), db\<lparr>trieDB := d\<rparr>) } }"

definition deepCopy :: "hashfun \<Rightarrow> bool \<Rightarrow> stateObject \<Rightarrow> stateObject" where
  "deepCopy kec onD c =
     (newObject kec (oaddr c) (odata c) onD)
       \<lparr>otrie := map_option secCopy (otrie c), ocode := ocode c, dirtyStorage := dirtyStorage c,
        cachedStorage := dirtyStorage c, suicided := suicided c, dirtyCode := dirtyCode c, deleted := deleted c\<rparr>"

definition CodeObj :: "hashfun \<Rightarrow> cachingDB \<Rightarrow> stateObject \<Rightarrow> bytes option \<times> stateObject" where
  "CodeObj kec db c =
     (case ocode c of
        Some code \<Rightarrow> (Some code, c)
      | None \<Rightarrow>
          if CodeHash (odata c) = emptyCodeHash kec then (None, c)
          else
            (case ContractCode db (BytesToHash (CodeHash (odata c))) of
               Some code \<Rightarrow> (Some code, c\<lparr>ocode := Some code\<rparr>)
             | None \<Rightarrow> (None, (objSetError (Some (StCode (CodeHash (odata c)))) c)\<lparr>ocode := None\<rparr>)))"

end
