(* ===== verification/StateDB.thy ===== *)
theory StateDB
  imports StateObject
begin

text \<open>
  The state (\<open>core/state/statedb.go\<close>) with its journal (\<open>core/state/journal.go\<close>). The objects are
  reached through pointers in the code; here an operation writes the object it changed back into the
  state. An operation gives \<open>None\<close> when it panics.
\<close>

record Log =
  logAddress :: address
  Topics :: "hash256 list"
  logData :: bytes
  BlockNumber :: u64
  logTxHash :: hash256
  logTxIndex :: u64
  logBlockHash :: hash256
  logIndex :: u64
  Removed :: bool

datatype journalEntry =
    createObjectChange address
  | resetObjectChange stateObject
  | suicideChange address bool int
  | balanceChange address int
  | nonceChange address u64
  | storageChange address hash256 hash256
  | codeChange address "bytes option" bytes
  | refundChange u64
  | addLogChange hash256
  | addPreimageChange hash256
  | touchChange address bool bool

record StateDB =
  sdb :: cachingDB
  accTrie :: SecureTrie
  stateObjects :: "address \<Rightarrow> stateObject option"
  stateObjectsDirty :: "address set"
  dbErr :: "stateErr option"
  refund :: u64
  thash :: hash256
  bhash :: hash256
  txIndex :: u64
  logs :: "hash256 \<Rightarrow> Log list option"
  logSize :: u64
  preimages :: "hash256 \<Rightarrow> bytes option"
  journal :: "journalEntry list"
  validRevisions :: "(nat \<times> nat) list"
  nextRevisionId :: nat

section \<open>Objects of the state\<close>

definition emptyStateDB :: "cachingDB \<Rightarrow> SecureTrie \<Rightarrow> StateDB" where
  "emptyStateDB db tr =
     \<lparr>sdb = db, accTrie = tr, stateObjects = Map.empty, stateObjectsDirty = {}, dbErr = None, refund = 0,
      thash = 0, bhash = 0, txIndex = 0, logs = Map.empty, logSize = 0, preimages = Map.empty, journal = [],
      validRevisions = [], nextRevisionId = 0\<rparr>"

definition newState :: "hashfun \<Rightarrow> hash256 \<Rightarrow> cachingDB \<Rightarrow> ((trie_error + StateDB) \<times> cachingDB) option" where
  "newState kec rt db =
     do { (r, db1) \<leftarrow> OpenTrie kec rt db;
          case r of
            Inl e \<Rightarrow> Some (Inl e, db1)
          | Inr tr \<Rightarrow> Some (Inr (emptyStateDB db1 tr), db1) }"

definition setError :: "stateErr option \<Rightarrow> StateDB \<Rightarrow> StateDB" where
  "setError err s = (if dbErr s = None then s\<lparr>dbErr := err\<rparr> else s)"

definition clearJournalAndRefund :: "StateDB \<Rightarrow> StateDB" where
  "clearJournalAndRefund s = s\<lparr>journal := [], validRevisions := [], refund := 0\<rparr>"

definition ResetState :: "hashfun \<Rightarrow> hash256 \<Rightarrow> StateDB \<Rightarrow> (trie_error option \<times> StateDB) option" where
  "ResetState kec rt s =
     do { (r, db1) \<leftarrow> OpenTrie kec rt (sdb s);
          case r of
            Inl e \<Rightarrow> Some (Some e, s\<lparr>sdb := db1\<rparr>)
          | Inr tr \<Rightarrow>
              Some (None, clearJournalAndRefund
                (s\<lparr>sdb := db1, accTrie := tr, stateObjects := Map.empty, stateObjectsDirty := {}, thash := 0, bhash := 0,
                   txIndex := 0, logs := Map.empty, logSize := 0, preimages := Map.empty\<rparr>)) }"

definition setStateObject :: "stateObject \<Rightarrow> StateDB \<Rightarrow> StateDB" where
  "setStateObject c s = s\<lparr>stateObjects := (stateObjects s)(oaddr c \<mapsto> c)\<rparr>"

definition MarkStateObjectDirty :: "address \<Rightarrow> StateDB \<Rightarrow> StateDB" where
  "MarkStateObjectDirty addr s = s\<lparr>stateObjectsDirty := insert addr (stateObjectsDirty s)\<rparr>"

definition addJournal :: "journalEntry \<Rightarrow> StateDB \<Rightarrow> StateDB" where
  "addJournal e s = s\<lparr>journal := journal s @ [e]\<rparr>"

text \<open>A method of an object with its callback, on the object and the state.\<close>

definition onObj :: "(stateObject \<Rightarrow> stateObject \<times> bool) \<Rightarrow> stateObject \<Rightarrow> StateDB \<Rightarrow> stateObject \<times> StateDB" where
  "onObj f c s = (let (c', called) = f c in (c', if called then MarkStateObjectDirty (oaddr c') s else s))"

definition getStateObject :: "hashfun \<Rightarrow> address \<Rightarrow> StateDB \<Rightarrow> (stateObject option \<times> StateDB) option" where
  "getStateObject kec addr s =
     (case stateObjects s addr of
        Some obj \<Rightarrow> Some (if deleted obj then None else Some obj, s)
      | None \<Rightarrow>
          do { (r, tr) \<leftarrow> secTryGet kec (trieDB (sdb s)) (addr_bytes addr) (accTrie s);
               let s1 = s\<lparr>accTrie := tr\<rparr>;
               case r of
                 Inl e \<Rightarrow> Some (None, setError (Some (StTrie e)) s1)
               | Inr v \<Rightarrow>
                   (let enc = (case v of None \<Rightarrow> [] | Some b \<Rightarrow> b) in
                    if enc = [] then Some (None, s1)
                    else (case decodeAccount enc of
                            None \<Rightarrow> Some (None, s1)
                          | Some d \<Rightarrow> (let obj = newObject kec addr d True in Some (Some obj, setStateObject obj s1)))) })"

definition createObject :: "hashfun \<Rightarrow> address \<Rightarrow> StateDB \<Rightarrow> (stateObject \<times> stateObject option \<times> StateDB) option" where
  "createObject kec addr s =
     do { (prev, s1) \<leftarrow> getStateObject kec addr s;
          let (newobj, s2) = onObj (setNonceObj 0) (newObject kec addr (zeroAccount kec) True) s1;
          let s3 = addJournal (case prev of None \<Rightarrow> createObjectChange addr | Some p \<Rightarrow> resetObjectChange p) s2;
          Some (newobj, prev, setStateObject newobj s3) }"

definition GetOrNewStateObject :: "hashfun \<Rightarrow> address \<Rightarrow> StateDB \<Rightarrow> (stateObject \<times> StateDB) option" where
  "GetOrNewStateObject kec addr s =
     do { (obj, s1) \<leftarrow> getStateObject kec addr s;
          case obj of
            None \<Rightarrow> do { (newobj, prev, s2) \<leftarrow> createObject kec addr s1; Some (newobj, s2) }
          | Some c \<Rightarrow> Some (c, s1) }"

definition CreateAccount :: "hashfun \<Rightarrow> address \<Rightarrow> StateDB \<Rightarrow> StateDB option" where
  "CreateAccount kec addr s =
     do { (newobj, prev, s1) \<leftarrow> createObject kec addr s;
          case prev of
            None \<Rightarrow> Some s1
          | Some p \<Rightarrow> (let (c, s2) = onObj (setBalanceObj (Balance (odata p))) newobj s1 in Some (setStateObject c s2)) }"

section \<open>Reading\<close>

definition Exist :: "hashfun \<Rightarrow> address \<Rightarrow> StateDB \<Rightarrow> (bool \<times> StateDB) option" where
  "Exist kec addr s = do { (obj, s1) \<leftarrow> getStateObject kec addr s; Some (obj \<noteq> None, s1) }"

definition EmptyAcc :: "hashfun \<Rightarrow> address \<Rightarrow> StateDB \<Rightarrow> (bool \<times> StateDB) option" where
  "EmptyAcc kec addr s =
     do { (obj, s1) \<leftarrow> getStateObject kec addr s;
          Some (case obj of None \<Rightarrow> True | Some c \<Rightarrow> objEmpty kec c, s1) }"

definition GetBalance :: "hashfun \<Rightarrow> address \<Rightarrow> StateDB \<Rightarrow> (int \<times> StateDB) option" where
  "GetBalance kec addr s =
     do { (obj, s1) \<leftarrow> getStateObject kec addr s;
          Some (case obj of None \<Rightarrow> 0 | Some c \<Rightarrow> Balance (odata c), s1) }"

definition GetNonce :: "hashfun \<Rightarrow> address \<Rightarrow> StateDB \<Rightarrow> (u64 \<times> StateDB) option" where
  "GetNonce kec addr s =
     do { (obj, s1) \<leftarrow> getStateObject kec addr s;
          Some (case obj of None \<Rightarrow> 0 | Some c \<Rightarrow> Nonce (odata c), s1) }"

definition GetCode :: "hashfun \<Rightarrow> address \<Rightarrow> StateDB \<Rightarrow> (bytes option \<times> StateDB) option" where
  "GetCode kec addr s =
     do { (obj, s1) \<leftarrow> getStateObject kec addr s;
          case obj of
            None \<Rightarrow> Some (None, s1)
          | Some c \<Rightarrow> (let (code, c') = CodeObj kec (sdb s1) c in Some (code, setStateObject c' s1)) }"

definition GetCodeSize :: "hashfun \<Rightarrow> address \<Rightarrow> StateDB \<Rightarrow> (nat \<times> StateDB) option" where
  "GetCodeSize kec addr s =
     do { (obj, s1) \<leftarrow> getStateObject kec addr s;
          case obj of
            None \<Rightarrow> Some (0, s1)
          | Some c \<Rightarrow>
              (case ocode c of
                 Some code \<Rightarrow> Some (length code, s1)
               | None \<Rightarrow>
                   (case ContractCodeSize (sdb s1) (BytesToHash (CodeHash (odata c))) of
                      Some n \<Rightarrow> Some (n, s1)
                    | None \<Rightarrow> Some (0, setError (Some (StCode (CodeHash (odata c)))) s1))) }"

definition GetCodeHash :: "hashfun \<Rightarrow> address \<Rightarrow> StateDB \<Rightarrow> (hash256 \<times> StateDB) option" where
  "GetCodeHash kec addr s =
     do { (obj, s1) \<leftarrow> getStateObject kec addr s;
          Some (case obj of None \<Rightarrow> 0 | Some c \<Rightarrow> BytesToHash (CodeHash (odata c)), s1) }"

definition GetState :: "hashfun \<Rightarrow> address \<Rightarrow> hash256 \<Rightarrow> StateDB \<Rightarrow> (hash256 \<times> StateDB) option" where
  "GetState kec addr key s =
     do { (obj, s1) \<leftarrow> getStateObject kec addr s;
          case obj of
            None \<Rightarrow> Some (0, s1)
          | Some c \<Rightarrow> do { (v, c') \<leftarrow> GetStateObj kec (sdb s1) key c; Some (v, setStateObject c' s1) } }"

definition HasSuicided :: "hashfun \<Rightarrow> address \<Rightarrow> StateDB \<Rightarrow> (bool \<times> StateDB) option" where
  "HasSuicided kec addr s =
     do { (obj, s1) \<leftarrow> getStateObject kec addr s;
          Some (case obj of None \<Rightarrow> False | Some c \<Rightarrow> suicided c, s1) }"

definition GetLogs :: "hash256 \<Rightarrow> StateDB \<Rightarrow> Log list" where
  "GetLogs hash s = (case logs s hash of None \<Rightarrow> [] | Some l \<Rightarrow> l)"

definition StorageTrie ::
  "hashfun \<Rightarrow> (Storage \<Rightarrow> hash256 list) \<Rightarrow> address \<Rightarrow> StateDB \<Rightarrow> (SecureTrie option \<times> StateDB) option" where
  "StorageTrie kec ord addr s =
     do { (obj, s1) \<leftarrow> getStateObject kec addr s;
          case obj of
            None \<Rightarrow> Some (None, s1)
          | Some c \<Rightarrow> do { c' \<leftarrow> updateTrie kec ord (sdb s1) (deepCopy kec False c); Some (otrie c', s1) } }"

section \<open>Writing\<close>

definition SetBalanceObj :: "int \<Rightarrow> stateObject \<Rightarrow> StateDB \<Rightarrow> stateObject \<times> StateDB" where
  "SetBalanceObj amount c s =
     onObj (setBalanceObj amount) c (addJournal (balanceChange (oaddr c) (Balance (odata c))) s)"

definition touchObj :: "stateObject \<Rightarrow> StateDB \<Rightarrow> stateObject \<times> StateDB" where
  "touchObj c s =
     (let (c', s') = onObj callDirty c (addJournal (touchChange (oaddr c) (touched c) (\<not> onDirty c)) s)
      in (c'\<lparr>touched := True\<rparr>, s'))"

definition AddBalanceObj :: "hashfun \<Rightarrow> int \<Rightarrow> stateObject \<Rightarrow> StateDB \<Rightarrow> stateObject \<times> StateDB" where
  "AddBalanceObj kec amount c s =
     (if amount = 0 then (if objEmpty kec c then touchObj c s else (c, s))
      else SetBalanceObj (Balance (odata c) + amount) c s)"

definition SubBalanceObj :: "int \<Rightarrow> stateObject \<Rightarrow> StateDB \<Rightarrow> stateObject \<times> StateDB" where
  "SubBalanceObj amount c s = (if amount = 0 then (c, s) else SetBalanceObj (Balance (odata c) - amount) c s)"

definition SetNonceObj :: "u64 \<Rightarrow> stateObject \<Rightarrow> StateDB \<Rightarrow> stateObject \<times> StateDB" where
  "SetNonceObj nonce c s =
     onObj (setNonceObj nonce) c (addJournal (nonceChange (oaddr c) (Nonce (odata c))) s)"

definition SetCodeObj :: "hashfun \<Rightarrow> hash256 \<Rightarrow> bytes option \<Rightarrow> stateObject \<Rightarrow> StateDB \<Rightarrow> stateObject \<times> StateDB" where
  "SetCodeObj kec codeHash code c s =
     (let (prevcode, c1) = CodeObj kec (sdb s) c
      in onObj (setCodeObj codeHash code) c1 (addJournal (codeChange (oaddr c1) prevcode (CodeHash (odata c1))) s))"

definition SetStateObj :: "hashfun \<Rightarrow> hash256 \<Rightarrow> hash256 \<Rightarrow> stateObject \<Rightarrow> StateDB \<Rightarrow> (stateObject \<times> StateDB) option" where
  "SetStateObj kec key val c s =
     do { (prev, c1) \<leftarrow> GetStateObj kec (sdb s) key c;
          Some (onObj (setStateObj key val) c1 (addJournal (storageChange (oaddr c1) key prev) s)) }"

definition writeObj ::
  "hashfun \<Rightarrow> address \<Rightarrow> (stateObject \<Rightarrow> StateDB \<Rightarrow> stateObject \<times> StateDB) \<Rightarrow> StateDB \<Rightarrow> StateDB option" where
  "writeObj kec addr f s =
     do { (c, s1) \<leftarrow> GetOrNewStateObject kec addr s;
          let (c', s2) = f c s1;
          Some (setStateObject c' s2) }"

definition AddBalance :: "hashfun \<Rightarrow> address \<Rightarrow> int \<Rightarrow> StateDB \<Rightarrow> StateDB option" where
  "AddBalance kec addr amount = writeObj kec addr (AddBalanceObj kec amount)"

definition SubBalance :: "hashfun \<Rightarrow> address \<Rightarrow> int \<Rightarrow> StateDB \<Rightarrow> StateDB option" where
  "SubBalance kec addr amount = writeObj kec addr (SubBalanceObj amount)"

definition SetBalance :: "hashfun \<Rightarrow> address \<Rightarrow> int \<Rightarrow> StateDB \<Rightarrow> StateDB option" where
  "SetBalance kec addr amount = writeObj kec addr (SetBalanceObj amount)"

definition SetNonce :: "hashfun \<Rightarrow> address \<Rightarrow> u64 \<Rightarrow> StateDB \<Rightarrow> StateDB option" where
  "SetNonce kec addr nonce = writeObj kec addr (SetNonceObj nonce)"

definition SetCode :: "hashfun \<Rightarrow> address \<Rightarrow> bytes option \<Rightarrow> StateDB \<Rightarrow> StateDB option" where
  "SetCode kec addr code =
     writeObj kec addr (SetCodeObj kec (kec (case code of None \<Rightarrow> [] | Some b \<Rightarrow> b)) code)"

definition SetState :: "hashfun \<Rightarrow> address \<Rightarrow> hash256 \<Rightarrow> hash256 \<Rightarrow> StateDB \<Rightarrow> StateDB option" where
  "SetState kec addr key val s =
     do { (c, s1) \<leftarrow> GetOrNewStateObject kec addr s;
          (c', s2) \<leftarrow> SetStateObj kec key val c s1;
          Some (setStateObject c' s2) }"

definition Suicide :: "hashfun \<Rightarrow> address \<Rightarrow> StateDB \<Rightarrow> (bool \<times> StateDB) option" where
  "Suicide kec addr s =
     do { (obj, s1) \<leftarrow> getStateObject kec addr s;
          case obj of
            None \<Rightarrow> Some (False, s1)
          | Some c \<Rightarrow>
              (let (c', s2) = onObj markSuicided c (addJournal (suicideChange addr (suicided c) (Balance (odata c))) s1)
               in Some (True, setStateObject (c'\<lparr>odata := (odata c')\<lparr>Balance := 0\<rparr>\<rparr>) s2)) }"

definition AddLog :: "Log \<Rightarrow> StateDB \<Rightarrow> StateDB" where
  "AddLog l s =
     (let s1 = addJournal (addLogChange (thash s)) s;
          l' = l\<lparr>logTxHash := thash s, logBlockHash := bhash s, logTxIndex := txIndex s, logIndex := logSize s\<rparr>
      in s1\<lparr>logs := (logs s)(thash s \<mapsto> GetLogs (thash s) s @ [l']), logSize := logSize s + 1\<rparr>)"

definition AddPreimage :: "hash256 \<Rightarrow> bytes \<Rightarrow> StateDB \<Rightarrow> StateDB" where
  "AddPreimage hash p s =
     (if preimages s hash \<noteq> None then s
      else (addJournal (addPreimageChange hash) s)\<lparr>preimages := (preimages s)(hash \<mapsto> p)\<rparr>)"

definition AddRefund :: "u64 \<Rightarrow> StateDB \<Rightarrow> StateDB" where
  "AddRefund gas s = (addJournal (refundChange (refund s)) s)\<lparr>refund := refund s + gas\<rparr>"

section \<open>Snapshots\<close>

definition ripemd :: address where
  "ripemd = 3"

text \<open>Undoing a change of an account that is not there dereferences nil.\<close>

definition undoObj :: "hashfun \<Rightarrow> address \<Rightarrow> (stateObject \<Rightarrow> stateObject \<times> bool) \<Rightarrow> StateDB \<Rightarrow> StateDB option" where
  "undoObj kec addr f s =
     do { (obj, s1) \<leftarrow> getStateObject kec addr s;
          case obj of
            None \<Rightarrow> None
          | Some c \<Rightarrow> (let (c', s2) = onObj f c s1 in Some (setStateObject c' s2)) }"

fun undo :: "hashfun \<Rightarrow> journalEntry \<Rightarrow> StateDB \<Rightarrow> StateDB option" where
  "undo kec (createObjectChange a) s =
     Some (s\<lparr>stateObjects := (stateObjects s)(a := None), stateObjectsDirty := stateObjectsDirty s - {a}\<rparr>)"
| "undo kec (resetObjectChange prev) s = Some (setStateObject prev s)"
| "undo kec (suicideChange a prev prevbalance) s =
     do { (obj, s1) \<leftarrow> getStateObject kec a s;
          case obj of
            None \<Rightarrow> Some s1
          | Some c \<Rightarrow>
              (let (c', s2) = onObj (setBalanceObj prevbalance) (c\<lparr>suicided := prev\<rparr>) s1
               in Some (setStateObject c' s2)) }"
| "undo kec (touchChange a prev prevDirty) s =
     (if \<not> prev \<and> a \<noteq> ripemd then
        do { (obj, s1) \<leftarrow> getStateObject kec a s;
             case obj of
               None \<Rightarrow> None
             | Some c \<Rightarrow>
                 (let s2 = setStateObject (c\<lparr>touched := prev\<rparr>) s1
                  in Some (if prevDirty then s2 else s2\<lparr>stateObjectsDirty := stateObjectsDirty s2 - {a}\<rparr>)) }
      else Some s)"
| "undo kec (balanceChange a prev) s = undoObj kec a (setBalanceObj prev) s"
| "undo kec (nonceChange a prev) s = undoObj kec a (setNonceObj prev) s"
| "undo kec (codeChange a prevcode prevhash) s = undoObj kec a (setCodeObj (BytesToHash prevhash) prevcode) s"
| "undo kec (storageChange a key prevalue) s = undoObj kec a (setStateObj key prevalue) s"
| "undo kec (refundChange prev) s = Some (s\<lparr>refund := prev\<rparr>)"
| "undo kec (addLogChange h) s =
     (let l = GetLogs h s in
      if length l = 1 then Some (s\<lparr>logs := (logs s)(h := None), logSize := logSize s - 1\<rparr>)
      else if length l = 0 then None
      else Some (s\<lparr>logs := (logs s)(h \<mapsto> butlast l), logSize := logSize s - 1\<rparr>))"
| "undo kec (addPreimageChange h) s = Some (s\<lparr>preimages := (preimages s)(h := None)\<rparr>)"

text \<open>Undoing a list of changes, the last one first.\<close>

fun undoAll :: "hashfun \<Rightarrow> journalEntry list \<Rightarrow> StateDB \<Rightarrow> StateDB option" where
  "undoAll kec [] s = Some s"
| "undoAll kec (e # es) s = do { s1 \<leftarrow> undo kec e s; undoAll kec es s1 }"

definition Snapshot :: "StateDB \<Rightarrow> nat \<times> StateDB" where
  "Snapshot s =
     (nextRevisionId s,
      s\<lparr>nextRevisionId := nextRevisionId s + 1,
        validRevisions := validRevisions s @ [(nextRevisionId s, length (journal s))]\<rparr>)"

text \<open>The binary search of \<open>sort.Search\<close>: the least index in \<open>[i, j)\<close> where the test holds, or \<open>j\<close>.\<close>

function searchFrom :: "(nat \<Rightarrow> bool) \<Rightarrow> nat \<Rightarrow> nat \<Rightarrow> nat" where
  "searchFrom P i j =
     (if i < j then
        (let h = (i + j) div 2 in if P h then searchFrom P i h else searchFrom P (h + 1) j)
      else i)"
  by pat_completeness auto

termination
  by (relation "measure (\<lambda>(P, i, j). j - i)") auto

declare searchFrom.simps [simp del]

definition RevertToSnapshot :: "hashfun \<Rightarrow> nat \<Rightarrow> StateDB \<Rightarrow> StateDB option" where
  "RevertToSnapshot kec revid s =
     (let n = length (validRevisions s);
          idx = searchFrom (\<lambda>i. fst (validRevisions s ! i) \<ge> revid) 0 n
      in if idx = n \<or> fst (validRevisions s ! idx) \<noteq> revid then None
         else
           (let snapshot = snd (validRevisions s ! idx)
            in do { s1 \<leftarrow> undoAll kec (rev (drop snapshot (journal s))) s;
                    Some (s1\<lparr>journal := take snapshot (journal s1), validRevisions := take idx (validRevisions s1)\<rparr>) }))"

section \<open>Finalising and committing\<close>

definition updateStateObject :: "hashfun \<Rightarrow> stateObject \<Rightarrow> StateDB \<Rightarrow> StateDB option" where
  "updateStateObject kec c s =
     (case encodeAccount (odata c) of
        Inl e \<Rightarrow> None
      | Inr d \<Rightarrow>
          do { (err, tr) \<leftarrow> secTryUpdate kec (trieDB (sdb s)) (addr_bytes (oaddr c)) d (accTrie s);
               Some (setError (map_option StTrie err) (s\<lparr>accTrie := tr\<rparr>)) })"

definition deleteStateObject :: "hashfun \<Rightarrow> stateObject \<Rightarrow> StateDB \<Rightarrow> StateDB option" where
  "deleteStateObject kec c s =
     do { (err, tr) \<leftarrow> secTryDelete kec (trieDB (sdb s)) (addr_bytes (oaddr c)) (accTrie s);
          Some (setError (map_option StTrie err) (setStateObject (c\<lparr>deleted := True\<rparr>) (s\<lparr>accTrie := tr\<rparr>))) }"

text \<open>The loop over the dirty accounts in the order in which the map is traversed.\<close>

fun finaliseAll ::
  "hashfun \<Rightarrow> (Storage \<Rightarrow> hash256 list) \<Rightarrow> bool \<Rightarrow> address list \<Rightarrow> StateDB \<Rightarrow> StateDB option" where
  "finaliseAll kec ord del [] s = Some s"
| "finaliseAll kec ord del (a # as) s =
     do { c \<leftarrow> stateObjects s a;
          s1 \<leftarrow> (if suicided c \<or> del \<and> objEmpty kec c then deleteStateObject kec c s
                 else do { c1 \<leftarrow> updateRoot kec ord (sdb s) c; updateStateObject kec c1 (setStateObject c1 s) });
          finaliseAll kec ord del as s1 }"

definition Finalise :: "hashfun \<Rightarrow> (Storage \<Rightarrow> hash256 list) \<Rightarrow> address list \<Rightarrow> bool \<Rightarrow> StateDB \<Rightarrow> StateDB option" where
  "Finalise kec ord addrs deleteEmptyObjects s =
     do { s1 \<leftarrow> finaliseAll kec ord deleteEmptyObjects addrs s; Some (clearJournalAndRefund s1) }"

definition IntermediateRoot ::
  "hashfun \<Rightarrow> (Storage \<Rightarrow> hash256 list) \<Rightarrow> address list \<Rightarrow> bool \<Rightarrow> StateDB \<Rightarrow> (hash256 \<times> StateDB) option" where
  "IntermediateRoot kec ord addrs deleteEmptyObjects s =
     do { s1 \<leftarrow> Finalise kec ord addrs deleteEmptyObjects s;
          (h, tr) \<leftarrow> secHash kec (accTrie s1);
          Some (h, s1\<lparr>accTrie := tr\<rparr>) }"

definition Prepare :: "hash256 \<Rightarrow> hash256 \<Rightarrow> u64 \<Rightarrow> StateDB \<Rightarrow> StateDB" where
  "Prepare th bh ti s = s\<lparr>thash := th, bhash := bh, txIndex := ti\<rparr>"

definition DeleteSuicides :: "StateDB \<Rightarrow> StateDB option" where
  "DeleteSuicides s =
     (if \<not> stateObjectsDirty s \<subseteq> dom (stateObjects s) then None
      else Some ((clearJournalAndRefund s)
       \<lparr>stateObjects := (\<lambda>a. case stateObjects s a of
          None \<Rightarrow> None
        | Some c \<Rightarrow> Some (if a \<in> stateObjectsDirty s \<and> suicided c then c\<lparr>deleted := True\<rparr> else c)),
        stateObjectsDirty := {}\<rparr>))"

text \<open>The callback of the commit: an account refers to its storage and to its code.\<close>

definition accountRefs :: "hashfun \<Rightarrow> leafCallback" where
  "accountRefs kec leaf parent d =
     (case decodeAccount leaf of
        None \<Rightarrow> Some d
      | Some a \<Rightarrow>
          do { d1 \<leftarrow> (if Root a \<noteq> kec [] then reference (Root a) parent d else Some d);
               if BytesToHash (CodeHash a) \<noteq> kec [] then reference (BytesToHash (CodeHash a)) parent d1 else Some d1 })"

fun commitAll ::
  "hashfun \<Rightarrow> (Storage \<Rightarrow> hash256 list) \<Rightarrow> bool \<Rightarrow> address list \<Rightarrow> StateDB \<Rightarrow> (stateErr option \<times> StateDB) option" where
  "commitAll kec ord del [] s = Some (None, s)"
| "commitAll kec ord del (a # as) s =
     do { c \<leftarrow> stateObjects s a;
          let isDirty = (a \<in> stateObjectsDirty s);
          (err, s1) \<leftarrow>
            (if suicided c \<or> isDirty \<and> del \<and> objEmpty kec c then map_option (Pair None) (deleteStateObject kec c s)
             else if isDirty then
               (let insertCode = (ocode c \<noteq> None \<and> dirtyCode c);
                    db1 = (if insertCode
                           then (sdb s)\<lparr>trieDB := dbInsert (BytesToHash (CodeHash (odata c))) (the (ocode c)) (trieDB (sdb s))\<rparr>
                           else sdb s);
                    c1 = (if insertCode then c\<lparr>dirtyCode := False\<rparr> else c)
                in do { ((err, c2), db2) \<leftarrow> commitObj kec ord db1 c1;
                        let s2 = setStateObject c2 (s\<lparr>sdb := db2\<rparr>);
                        if err \<noteq> None then Some (err, s2)
                        else map_option (Pair None) (updateStateObject kec c2 s2) })
             else Some (None, s));
          if err \<noteq> None then Some (err, s1)
          else commitAll kec ord del as (s1\<lparr>stateObjectsDirty := stateObjectsDirty s1 - {a}\<rparr>) }"

definition CommitState ::
  "hashfun \<Rightarrow> (Storage \<Rightarrow> hash256 list) \<Rightarrow> address list \<Rightarrow> bool \<Rightarrow> StateDB \<Rightarrow> ((stateErr + hash256) \<times> StateDB) option" where
  "CommitState kec ord addrs deleteEmptyObjects s =
     do { (err, s1) \<leftarrow> commitAll kec ord deleteEmptyObjects addrs s;
          case err of
            Some e \<Rightarrow> Some (Inl e, clearJournalAndRefund s1)
          | None \<Rightarrow>
              do { (rt, tr, db') \<leftarrow> cachedCommit kec (Some (accountRefs kec)) (accTrie s1) (sdb s1);
                   Some (Inr rt, clearJournalAndRefund (s1\<lparr>accTrie := tr, sdb := db'\<rparr>)) } }"

definition CopyState :: "hashfun \<Rightarrow> StateDB \<Rightarrow> StateDB option" where
  "CopyState kec s =
     (if \<not> stateObjectsDirty s \<subseteq> dom (stateObjects s) then None
      else Some \<lparr>sdb = sdb s, accTrie = secCopy (accTrie s),
        stateObjects = (\<lambda>a. if a \<in> stateObjectsDirty s then map_option (deepCopy kec True) (stateObjects s a) else None),
        stateObjectsDirty = stateObjectsDirty s, dbErr = None, refund = refund s, thash = 0, bhash = 0, txIndex = 0,
        logs = logs s, logSize = logSize s, preimages = preimages s, journal = [], validRevisions = [],
        nextRevisionId = 0\<rparr>)"

end
