(* ===== verification/StateView.thy ===== *)
theory StateView
  imports StateDB
begin

text \<open>What the state looks like to its readers.\<close>

section \<open>Stores\<close>

fun writes :: "('k \<Rightarrow> 'v \<Rightarrow> 't \<Rightarrow> 't option) \<Rightarrow> ('k \<Rightarrow> 't \<Rightarrow> 't option) \<Rightarrow> ('k \<times> 'v option) list \<Rightarrow> 't \<Rightarrow> 't option" where
  "writes upd del [] t = Some t"
| "writes upd del ((k, v) # ws) t =
     do { t1 \<leftarrow> (case v of None \<Rightarrow> del k t | Some x \<Rightarrow> upd k x t); writes upd del ws t1 }"

lemma fold_write_other: "k \<notin> fst ` set ws \<Longrightarrow> fold (\<lambda>(k, v) m. m(k := v)) ws m k = m k"
proof (induction ws arbitrary: m)
  case (Cons w ws)
  then show ?case by (cases w) simp
qed simp

locale kv_store =
  fixes ok :: "'t \<Rightarrow> bool" and rd :: "'t \<Rightarrow> 'k \<Rightarrow> 'v option" and valid :: "'v \<Rightarrow> bool"
    and get :: "'k \<Rightarrow> 't \<Rightarrow> ('v option \<times> 't) option"
    and upd :: "'k \<Rightarrow> 'v \<Rightarrow> 't \<Rightarrow> 't option" and del :: "'k \<Rightarrow> 't \<Rightarrow> 't option"
  assumes get_law: "ok t \<Longrightarrow> \<exists>t'. get k t = Some (rd t k, t') \<and> ok t' \<and> rd t' = rd t"
    and upd_law: "ok t \<Longrightarrow> valid v \<Longrightarrow> \<exists>t'. upd k v t = Some t' \<and> ok t' \<and> rd t' = (rd t)(k \<mapsto> v)"
    and del_law: "ok t \<Longrightarrow> \<exists>t'. del k t = Some t' \<and> ok t' \<and> rd t' = (rd t)(k := None)"
begin

lemma getE:
  assumes "ok t"
  obtains t' where "get k t = Some (rd t k, t')" "ok t'" "rd t' = rd t"
  using get_law [OF assms] by blast

lemma writes_law:
  assumes "ok t" "\<forall>(k, v) \<in> set ws. \<forall>x. v = Some x \<longrightarrow> valid x"
  shows "\<exists>t'. writes upd del ws t = Some t' \<and> ok t' \<and> rd t' = fold (\<lambda>(k, v) m. m(k := v)) ws (rd t)"
  using assms
proof (induction ws arbitrary: t)
  case (Cons w ws)
  obtain k v where w: "w = (k, v)" by (cases w)
  have "\<exists>t1. (case v of None \<Rightarrow> del k t | Some x \<Rightarrow> upd k x t) = Some t1 \<and> ok t1 \<and> rd t1 = (rd t)(k := v)"
  proof (cases v)
    case None
    then show ?thesis using del_law [OF Cons.prems(1), of k] by simp
  next
    case (Some x)
    then have "valid x" using Cons.prems(2) w by simp
    then show ?thesis using Some upd_law [OF Cons.prems(1), of x k] by simp
  qed
  then obtain t1 where t1: "(case v of None \<Rightarrow> del k t | Some x \<Rightarrow> upd k x t) = Some t1" "ok t1" "rd t1 = (rd t)(k := v)" by blast
  have "\<forall>(k, v) \<in> set ws. \<forall>x. v = Some x \<longrightarrow> valid x" using Cons.prems(2) by simp
  from Cons.IH [OF t1(2) this] show ?case using t1 w by simp
qed simp

lemma get_after_writes:
  assumes "ok t" "\<forall>(k, v) \<in> set ws. \<forall>x. v = Some x \<longrightarrow> valid x" "k \<notin> fst ` set ws"
  shows "\<exists>t' t''. writes upd del ws t = Some t' \<and> get k t' = Some (rd t k, t'')"
proof -
  obtain t' where t': "writes upd del ws t = Some t'" "ok t'" "rd t' = fold (\<lambda>(k, v) m. m(k := v)) ws (rd t)"
    using writes_law [OF assms(1,2)] by blast
  obtain t'' where "get k t' = Some (rd t' k, t'')" using get_law [OF t'(2)] by blast
  then show ?thesis using t' fold_write_other [OF assms(3)] by simp
qed
end

text \<open>A secure trie that stands for a map, read by hashed keys.\<close>

definition okTrie :: "hashfun \<Rightarrow> nodeDb \<Rightarrow> SecureTrie \<Rightarrow> bool" where
  "okTrie kec f t \<longleftrightarrow> (\<exists>m. stands kec f (secTrie t) m)"

definition trieRead :: "nodeDb \<Rightarrow> SecureTrie \<Rightarrow> hash256 \<Rightarrow> bytes option" where
  "trieRead f t h = (case TryGet f keyFuel (hash_bytes h) (secTrie t) of Some (Inr (v, _)) \<Rightarrow> v | _ \<Rightarrow> None)"

lemma keyFuel_enough: "4 * length (hash_bytes h) + 4 \<le> keyFuel"
  by (simp add: keyFuel_def)

lemma trieRead_stands: "stands kec f (secTrie t) m \<Longrightarrow> trieRead f t h = m (hash_bytes h)"
  using TryGet_stands [OF _ keyFuel_enough, of kec f "secTrie t" m h] by (auto simp: trieRead_def)

lemma trieRes_Inr [simp]: "trieRes (Some (Inr x)) = Some (Inr x)"
  by (simp add: trieRes_def)

text \<open>The operations on hashed keys, without the cache of keys.\<close>

definition hGet :: "nodeDb \<Rightarrow> hash256 \<Rightarrow> SecureTrie \<Rightarrow> (bytes option \<times> SecureTrie) option" where
  "hGet f h t = (case TryGet f keyFuel (hash_bytes h) (secTrie t) of Some (Inr (v, tr)) \<Rightarrow> Some (v, t\<lparr>secTrie := tr\<rparr>) | _ \<Rightarrow> None)"

definition hUpd :: "nodeDb \<Rightarrow> hash256 \<Rightarrow> bytes \<Rightarrow> SecureTrie \<Rightarrow> SecureTrie option" where
  "hUpd f h v t = (case TryUpdate f keyFuel (hash_bytes h) v (secTrie t) of Some (Inr tr) \<Rightarrow> Some (t\<lparr>secTrie := tr\<rparr>) | _ \<Rightarrow> None)"

definition hDel :: "nodeDb \<Rightarrow> hash256 \<Rightarrow> SecureTrie \<Rightarrow> SecureTrie option" where
  "hDel f h t = (case TryDelete f keyFuel (hash_bytes h) (secTrie t) of Some (Inr tr) \<Rightarrow> Some (t\<lparr>secTrie := tr\<rparr>) | _ \<Rightarrow> None)"

lemma hash_bytes_inject [simp]: "hash_bytes a = hash_bytes b \<longleftrightarrow> a = b"
  by (metis BytesToHash_hash_bytes)

interpretation tries: kv_store "okTrie kec f" "trieRead f" "\<lambda>v. v \<noteq> []" "hGet f" "hUpd f" "hDel f"
proof
  fix t k assume "okTrie kec f t"
  then obtain m where m: "stands kec f (secTrie t) m" by (auto simp: okTrie_def)
  obtain tr where tr: "TryGet f keyFuel (hash_bytes k) (secTrie t) = Some (Inr (m (hash_bytes k), tr))" "stands kec f tr m"
    using TryGet_stands [OF m keyFuel_enough] by blast
  then have "trieRead f (t\<lparr>secTrie := tr\<rparr>) = trieRead f t"
    using trieRead_stands [of kec f t m] trieRead_stands [of kec f "t\<lparr>secTrie := tr\<rparr>" m] m by auto
  then show "\<exists>t'. hGet f k t = Some (trieRead f t k, t') \<and> okTrie kec f t' \<and> trieRead f t' = trieRead f t"
    using tr trieRead_stands [OF m] by (auto simp: hGet_def okTrie_def)
next
  fix t k and v :: bytes assume "okTrie kec f t" "v \<noteq> []"
  then obtain m where m: "stands kec f (secTrie t) m" by (auto simp: okTrie_def)
  obtain tr where tr: "TryUpdate f keyFuel (hash_bytes k) v (secTrie t) = Some (Inr tr)" "stands kec f tr (m(hash_bytes k \<mapsto> v))"
    using insert_stands [OF m \<open>v \<noteq> []\<close> keyFuel_enough] by blast
  have "trieRead f (t\<lparr>secTrie := tr\<rparr>) = (trieRead f t)(k \<mapsto> v)"
  proof
    fix h show "trieRead f (t\<lparr>secTrie := tr\<rparr>) h = ((trieRead f t)(k \<mapsto> v)) h"
      using trieRead_stands [OF m] trieRead_stands [of kec f "t\<lparr>secTrie := tr\<rparr>" _ h] tr(2) by auto
  qed
  then show "\<exists>t'. hUpd f k v t = Some t' \<and> okTrie kec f t' \<and> trieRead f t' = (trieRead f t)(k \<mapsto> v)"
    using tr by (auto simp: hUpd_def okTrie_def)
next
  fix t k assume "okTrie kec f t"
  then obtain m where m: "stands kec f (secTrie t) m" by (auto simp: okTrie_def)
  obtain tr where tr: "TryDelete f keyFuel (hash_bytes k) (secTrie t) = Some (Inr tr)" "stands kec f tr (m(hash_bytes k := None))"
    using delete_stands [OF m keyFuel_enough] by blast
  have "trieRead f (t\<lparr>secTrie := tr\<rparr>) = (trieRead f t)(k := None)"
  proof
    fix h show "trieRead f (t\<lparr>secTrie := tr\<rparr>) h = ((trieRead f t)(k := None)) h"
      using trieRead_stands [OF m] trieRead_stands [of kec f "t\<lparr>secTrie := tr\<rparr>" _ h] tr(2) by auto
  qed
  then show "\<exists>t'. hDel f k t = Some t' \<and> okTrie kec f t' \<and> trieRead f t' = (trieRead f t)(k := None)"
    using tr by (auto simp: hDel_def okTrie_def)
qed

lemma okTrie_cong: "secTrie t' = secTrie t \<Longrightarrow> okTrie kec f t' = okTrie kec f t \<and> trieRead f t' = trieRead f t"
  by (auto simp: okTrie_def trieRead_def fun_eq_iff)

lemma secTryGet_ok:
  assumes "okTrie kec (dbNode db) t"
  obtains t' where "secTryGet kec db key t = Some (Inr (trieRead (dbNode db) t (kec key)), t')" "okTrie kec (dbNode db) t'"
    "trieRead (dbNode db) t' = trieRead (dbNode db) t"
proof -
  obtain t' where t': "hGet (dbNode db) (kec key) t = Some (trieRead (dbNode db) t (kec key), t')" "okTrie kec (dbNode db) t'"
    "trieRead (dbNode db) t' = trieRead (dbNode db) t" using tries.getE [OF assms] by blast
  then have "secTryGet kec db key t = Some (Inr (trieRead (dbNode db) t (kec key)), t')"
    unfolding hGet_def secTryGet_def hashKey_def by (auto split: option.splits sum.splits prod.splits)
  then show ?thesis using that t' by blast
qed

lemma secTryUpdate_ok:
  assumes "okTrie kec (dbNode db) t" "v \<noteq> []"
  obtains t' where "secTryUpdate kec db key v t = Some (None, t')" "okTrie kec (dbNode db) t'"
    "trieRead (dbNode db) t' = (trieRead (dbNode db) t)(kec key \<mapsto> v)"
proof -
  obtain t1 where t1: "hUpd (dbNode db) (kec key) v t = Some t1" "okTrie kec (dbNode db) t1"
    "trieRead (dbNode db) t1 = (trieRead (dbNode db) t)(kec key \<mapsto> v)" using tries.upd_law [OF assms] by blast
  then obtain tr where tr: "TryUpdate (dbNode db) keyFuel (hash_bytes (kec key)) v (secTrie t) = Some (Inr tr)" "t1 = t\<lparr>secTrie := tr\<rparr>"
    unfolding hUpd_def by (auto split: option.splits sum.splits)
  define t' where "t' = (let t2 = getSecKeyCache t1 in t2\<lparr>secKeyCache := (secKeyCache t2)(hash_bytes (kec key) \<mapsto> key)\<rparr>)"
  have "secTrie t' = secTrie t1" by (simp add: t'_def getSecKeyCache_def Let_def)
  moreover have "secTryUpdate kec db key v t = Some (None, t')"
    using tr by (simp add: secTryUpdate_def hashKey_def t'_def Let_def)
  ultimately show ?thesis using that okTrie_cong [of t' t1] t1 by metis
qed

lemma secTryDelete_ok:
  assumes "okTrie kec (dbNode db) t"
  obtains t' where "secTryDelete kec db key t = Some (None, t')" "okTrie kec (dbNode db) t'"
    "trieRead (dbNode db) t' = (trieRead (dbNode db) t)(kec key := None)"
proof -
  define t0 where "t0 = (let t2 = getSecKeyCache t in t2\<lparr>secKeyCache := (secKeyCache t2)(hash_bytes (kec key) := None)\<rparr>)"
  have same: "secTrie t0 = secTrie t" by (simp add: t0_def getSecKeyCache_def Let_def)
  then have "okTrie kec (dbNode db) t0" "trieRead (dbNode db) t0 = trieRead (dbNode db) t" using okTrie_cong assms by metis+
  then obtain t1 where t1: "hDel (dbNode db) (kec key) t0 = Some t1" "okTrie kec (dbNode db) t1"
    "trieRead (dbNode db) t1 = (trieRead (dbNode db) t)(kec key := None)" using tries.del_law by metis
  then obtain tr where tr: "TryDelete (dbNode db) keyFuel (hash_bytes (kec key)) (secTrie t0) = Some (Inr tr)" "t1 = t0\<lparr>secTrie := tr\<rparr>"
    unfolding hDel_def by (auto split: option.splits sum.splits)
  have "secTryDelete kec db key t =
      (case trieRes (TryDelete (dbNode db) keyFuel (hash_bytes (kec key)) (secTrie t0)) of
         None \<Rightarrow> None | Some (Inl e) \<Rightarrow> Some (Some e, t0) | Some (Inr tr) \<Rightarrow> Some (None, t0\<lparr>secTrie := tr\<rparr>))"
    by (simp only: secTryDelete_def hashKey_def t0_def Let_def)
  then have "secTryDelete kec db key t = Some (None, t1)" by (simp add: tr)
  then show ?thesis using that t1 by blast
qed

section \<open>Accounts\<close>

record account =
  aNonce :: u64
  aBalance :: int
  aCodeHash :: bytes
  aCode :: bytes
  aStorage :: "hash256 \<Rightarrow> hash256"
  aSuicided :: bool

definition codeView :: "hashfun \<Rightarrow> cachingDB \<Rightarrow> stateObject \<Rightarrow> bytes" where
  "codeView kec db c = (case fst (CodeObj kec db c) of None \<Rightarrow> [] | Some code \<Rightarrow> code)"

text \<open>The storage trie of an object, opened if it is not open yet.\<close>

definition storageOf :: "cachingDB \<Rightarrow> stateObject \<Rightarrow> SecureTrie option" where
  "storageOf db c =
     (case otrie c of
        Some t \<Rightarrow> Some t
      | None \<Rightarrow> (case OpenStorageTrie (Root (odata c)) db of Some (Inr t) \<Rightarrow> Some t | _ \<Rightarrow> None))"

definition storageView :: "hashfun \<Rightarrow> cachingDB \<Rightarrow> stateObject \<Rightarrow> hash256 \<Rightarrow> hash256" where
  "storageView kec db c key =
     (case cachedStorage c key of
        Some v \<Rightarrow> v
      | None \<Rightarrow>
          (case storageOf db c of
             None \<Rightarrow> 0
           | Some t \<Rightarrow>
               (case trieRead (dbNode (trieDB db)) t (kec (hash_bytes key)) of
                  None \<Rightarrow> 0 | Some enc \<Rightarrow> snd (storedValue enc))))"

definition objView :: "hashfun \<Rightarrow> cachingDB \<Rightarrow> stateObject \<Rightarrow> account" where
  "objView kec db c =
     \<lparr>aNonce = Nonce (odata c), aBalance = Balance (odata c), aCodeHash = CodeHash (odata c),
      aCode = codeView kec db c, aStorage = storageView kec db c, aSuicided = suicided c\<rparr>"

definition objOk :: "hashfun \<Rightarrow> cachingDB \<Rightarrow> stateObject \<Rightarrow> bool" where
  "objOk kec db c \<longleftrightarrow> length (CodeHash (odata c)) = 32 \<and>
     (\<exists>t. storageOf db c = Some t \<and> okTrie kec (dbNode (trieDB db)) t)"

text \<open>The account in the account trie.\<close>

definition readAccount :: "hashfun \<Rightarrow> StateDB \<Rightarrow> address \<Rightarrow> Account option" where
  "readAccount kec s a =
     (case trieRead (dbNode (trieDB (sdb s))) (accTrie s) (kec (addr_bytes a)) of
        None \<Rightarrow> None
      | Some enc \<Rightarrow> if enc = [] then None else decodeAccount enc)"

definition sview :: "hashfun \<Rightarrow> StateDB \<Rightarrow> address \<Rightarrow> account option" where
  "sview kec s a =
     (case stateObjects s a of
        Some c \<Rightarrow> if deleted c then None else Some (objView kec (sdb s) c)
      | None \<Rightarrow> map_option (\<lambda>d. objView kec (sdb s) (newObject kec a d True)) (readAccount kec s a))"

definition stateOk :: "hashfun \<Rightarrow> StateDB \<Rightarrow> bool" where
  "stateOk kec s \<longleftrightarrow> okTrie kec (dbNode (trieDB (sdb s))) (accTrie s) \<and>
     (\<forall>a c. stateObjects s a = Some c \<longrightarrow> oaddr c = a \<and> objOk kec (sdb s) c \<and> (deleted c \<longrightarrow> readAccount kec s a = None)) \<and>
     (\<forall>a d. stateObjects s a = None \<and> readAccount kec s a = Some d \<longrightarrow> objOk kec (sdb s) (newObject kec a d True)) \<and>
     stateObjectsDirty s \<subseteq> dom (stateObjects s)"
end
