(* ===== verification/StateRefine.thy ===== *)
theory StateRefine
  imports StateView
begin

text \<open>The refinement of \<^verbatim>\<open>core/state\<close> to its observable view: what every operation of the
  state does to the view, what it adds to the journal, and that undoing the entries it added gives back
  the view before it.\<close>

section \<open>What the state shows\<close>

record vstate =
  vAccts :: "address \<Rightarrow> account option"
  vRefund :: u64
  vLogs :: "hash256 \<Rightarrow> Log list"
  vLogSize :: u64
  vPreimages :: "hash256 \<Rightarrow> bytes option"

definition vabs :: "hashfun \<Rightarrow> StateDB \<Rightarrow> vstate" where
  "vabs kec s =
     \<lparr>vAccts = sview kec s, vRefund = refund s, vLogs = (\<lambda>h. GetLogs h s), vLogSize = logSize s, vPreimages = preimages s\<rparr>"

definition setAcct :: "address \<Rightarrow> account \<Rightarrow> vstate \<Rightarrow> vstate" where
  "setAcct a ac v = v\<lparr>vAccts := (vAccts v)(a \<mapsto> ac)\<rparr>"

text \<open>The parts of the state that the operations on accounts leave alone.\<close>

definition sameFrame :: "StateDB \<Rightarrow> StateDB \<Rightarrow> bool" where
  "sameFrame s s' \<longleftrightarrow> sdb s' = sdb s \<and> thash s' = thash s \<and> bhash s' = bhash s \<and> txIndex s' = txIndex s \<and>
     validRevisions s' = validRevisions s \<and> nextRevisionId s' = nextRevisionId s"

definition sameRest :: "StateDB \<Rightarrow> StateDB \<Rightarrow> bool" where
  "sameRest s s' \<longleftrightarrow> refund s' = refund s \<and> logs s' = logs s \<and> logSize s' = logSize s \<and> preimages s' = preimages s"

lemma sameFrame_refl [simp]: "sameFrame s s" by (simp add: sameFrame_def)
lemma sameRest_refl [simp]: "sameRest s s" by (simp add: sameRest_def)

lemma sameFrame_trans: "sameFrame a b \<Longrightarrow> sameFrame b c \<Longrightarrow> sameFrame a c" by (simp add: sameFrame_def)
lemma sameRest_trans: "sameRest a b \<Longrightarrow> sameRest b c \<Longrightarrow> sameRest a c" by (simp add: sameRest_def)

lemma vabs_sameRest: "sameRest s s' \<Longrightarrow> vabs kec s' = (vabs kec s)\<lparr>vAccts := sview kec s'\<rparr>"
  by (simp add: vabs_def sameRest_def GetLogs_def)

section \<open>Writing an object\<close>

text \<open>What the account trie shows does not depend on the objects.\<close>

lemma readAccount_simps [simp]:
  "readAccount kec (s\<lparr>stateObjects := x\<rparr>) = readAccount kec s" "readAccount kec (s\<lparr>stateObjectsDirty := D\<rparr>) = readAccount kec s"
  "readAccount kec (s\<lparr>journal := j\<rparr>) = readAccount kec s" "readAccount kec (s\<lparr>dbErr := e\<rparr>) = readAccount kec s"
  "readAccount kec (s\<lparr>refund := r\<rparr>) = readAccount kec s" "readAccount kec (s\<lparr>logs := l\<rparr>) = readAccount kec s"
  "readAccount kec (s\<lparr>logSize := z\<rparr>) = readAccount kec s" "readAccount kec (s\<lparr>preimages := p\<rparr>) = readAccount kec s"
  "readAccount kec (s\<lparr>validRevisions := rs\<rparr>) = readAccount kec s" "readAccount kec (s\<lparr>nextRevisionId := n\<rparr>) = readAccount kec s"
  by (simp_all add: readAccount_def fun_eq_iff)

lemma sview_simps [simp]:
  "sview kec (s\<lparr>stateObjectsDirty := D\<rparr>) = sview kec s"
  "sview kec (s\<lparr>journal := j\<rparr>) = sview kec s" "sview kec (s\<lparr>dbErr := e\<rparr>) = sview kec s"
  "sview kec (s\<lparr>refund := r\<rparr>) = sview kec s" "sview kec (s\<lparr>logs := l\<rparr>) = sview kec s"
  "sview kec (s\<lparr>logSize := z\<rparr>) = sview kec s" "sview kec (s\<lparr>preimages := p\<rparr>) = sview kec s"
  "sview kec (s\<lparr>validRevisions := rs\<rparr>) = sview kec s" "sview kec (s\<lparr>nextRevisionId := n\<rparr>) = sview kec s"
  by (simp_all add: sview_def fun_eq_iff split: option.split)

lemma stateOk_simps [simp]:
  "stateOk kec (s\<lparr>journal := j\<rparr>) = stateOk kec s" "stateOk kec (s\<lparr>dbErr := e\<rparr>) = stateOk kec s"
  "stateOk kec (s\<lparr>refund := r\<rparr>) = stateOk kec s" "stateOk kec (s\<lparr>logs := l\<rparr>) = stateOk kec s"
  "stateOk kec (s\<lparr>logSize := z\<rparr>) = stateOk kec s" "stateOk kec (s\<lparr>preimages := p\<rparr>) = stateOk kec s"
  "stateOk kec (s\<lparr>validRevisions := rs\<rparr>) = stateOk kec s" "stateOk kec (s\<lparr>nextRevisionId := n\<rparr>) = stateOk kec s"
  by (simp_all add: stateOk_def)

lemma sview_setStateObject:
  "\<not> deleted c \<Longrightarrow> sview kec (setStateObject c s) = (sview kec s)(oaddr c \<mapsto> objView kec (sdb s) c)"
  by (auto simp: sview_def setStateObject_def fun_eq_iff split: option.splits)

lemma stateOk_setStateObject:
  assumes "stateOk kec s" "objOk kec (sdb s) c" "\<not> deleted c"
  shows "stateOk kec (setStateObject c s)"
  using assms unfolding stateOk_def setStateObject_def by auto

lemma stateOk_dirty:
  assumes "stateOk kec s" "D \<subseteq> dom (stateObjects s)"
  shows "stateOk kec (s\<lparr>stateObjectsDirty := D\<rparr>)"
  using assms unfolding stateOk_def by simp

lemma setStateObject_simps [simp]:
  "sdb (setStateObject c s) = sdb s" "journal (setStateObject c s) = journal s" "readAccount kec (setStateObject c s) = readAccount kec s"
  "stateObjects (setStateObject c s) = (stateObjects s)(oaddr c \<mapsto> c)" "sameFrame s (setStateObject c s)" "sameRest s (setStateObject c s)"
  "stateObjectsDirty (setStateObject c s) = stateObjectsDirty s" "accTrie (setStateObject c s) = accTrie s"
  "dbErr (setStateObject c s) = dbErr s"
  by (simp_all add: setStateObject_def sameFrame_def sameRest_def)

section \<open>Reading an object\<close>

text \<open>An operation that only loads.\<close>

definition quiet :: "hashfun \<Rightarrow> StateDB \<Rightarrow> StateDB \<Rightarrow> bool" where
  "quiet kec s s' \<longleftrightarrow> stateOk kec s' \<and> sview kec s' = sview kec s \<and> readAccount kec s' = readAccount kec s \<and>
     journal s' = journal s \<and> stateObjectsDirty s' = stateObjectsDirty s \<and> sameFrame s s' \<and> sameRest s s'"

lemma quiet_refl: "stateOk kec s \<Longrightarrow> quiet kec s s"
  by (simp add: quiet_def)

lemma quiet_trans: "quiet kec a b \<Longrightarrow> quiet kec b c \<Longrightarrow> quiet kec a c"
  using sameFrame_trans sameRest_trans unfolding quiet_def by metis

lemma accTrie_quiet:
  assumes "stateOk kec s" "okTrie kec (dbNode (trieDB (sdb s))) t"
    "trieRead (dbNode (trieDB (sdb s))) t = trieRead (dbNode (trieDB (sdb s))) (accTrie s)"
  shows "quiet kec s (s\<lparr>accTrie := t\<rparr>)"
proof -
  have r: "readAccount kec (s\<lparr>accTrie := t\<rparr>) = readAccount kec s" using assms(3) by (simp add: readAccount_def fun_eq_iff)
  then have "sview kec (s\<lparr>accTrie := t\<rparr>) = sview kec s" by (auto simp: sview_def fun_eq_iff split: option.splits)
  moreover have "stateOk kec (s\<lparr>accTrie := t\<rparr>)" using assms(1,2) r unfolding stateOk_def by simp
  ultimately show ?thesis using r by (simp add: quiet_def sameFrame_def sameRest_def)
qed

definition liveAt :: "hashfun \<Rightarrow> StateDB \<Rightarrow> address \<Rightarrow> stateObject \<Rightarrow> bool" where
  "liveAt kec s a c \<longleftrightarrow> stateObjects s a = Some c \<and> \<not> deleted c \<and> oaddr c = a \<and> objOk kec (sdb s) c"

lemma liveAt_view: "liveAt kec s a c \<Longrightarrow> sview kec s a = Some (objView kec (sdb s) c)"
  by (simp add: liveAt_def sview_def)

lemma getStateObject_spec:
  assumes "stateOk kec s"
  shows "\<exists>obj s'. getStateObject kec a s = Some (obj, s') \<and> quiet kec s s' \<and>
    (case obj of None \<Rightarrow> sview kec s a = None \<and> readAccount kec s a = None | Some c \<Rightarrow> liveAt kec s' a c)"
proof (cases "stateObjects s a")
  case (Some c)
  then have "oaddr c = a" "objOk kec (sdb s) c" "deleted c \<longrightarrow> readAccount kec s a = None"
    using assms unfolding stateOk_def by blast+
  then show ?thesis using Some quiet_refl [OF assms]
    by (auto simp: getStateObject_def liveAt_def sview_def)
next
  case None
  have ok: "okTrie kec (dbNode (trieDB (sdb s))) (accTrie s)" using assms by (simp add: stateOk_def)
  obtain tr where tr: "secTryGet kec (trieDB (sdb s)) (addr_bytes a) (accTrie s) =
      Some (Inr (trieRead (dbNode (trieDB (sdb s))) (accTrie s) (kec (addr_bytes a))), tr)"
    "okTrie kec (dbNode (trieDB (sdb s))) tr" "trieRead (dbNode (trieDB (sdb s))) tr = trieRead (dbNode (trieDB (sdb s))) (accTrie s)"
    using secTryGet_ok [OF ok] by blast
  have q: "quiet kec s (s\<lparr>accTrie := tr\<rparr>)" by (rule accTrie_quiet [OF assms tr(2,3)])
  show ?thesis
  proof (cases "readAccount kec s a")
    case r: None
    then have "getStateObject kec a s = Some (None, s\<lparr>accTrie := tr\<rparr>)" using None tr(1)
      by (auto simp: getStateObject_def readAccount_def split: option.splits if_splits)
    then show ?thesis using q r None by (auto simp: sview_def)
  next
    case r: (Some d)
    let ?c = "newObject kec a d True" and ?s = "s\<lparr>accTrie := tr\<rparr>"
    have get: "getStateObject kec a s = Some (Some ?c, setStateObject ?c ?s)" using None tr(1) r
      by (auto simp: getStateObject_def readAccount_def Let_def split: option.splits if_splits)
    have c: "objOk kec (sdb s) ?c" using assms None r unfolding stateOk_def by blast
    have "sview kec ?s a = Some (objView kec (sdb s) ?c)" using q r None by (simp add: quiet_def sview_def)
    then have "sview kec (setStateObject ?c ?s) = sview kec s"
      using q sview_setStateObject [of ?c kec ?s] by (auto simp: quiet_def newObject_def)
    moreover have "stateOk kec (setStateObject ?c ?s)"
      using q c by (intro stateOk_setStateObject) (auto simp: quiet_def newObject_def)
    ultimately have "quiet kec s (setStateObject ?c ?s)"
      using q sameFrame_trans sameRest_trans setStateObject_simps(5,6) unfolding quiet_def by fastforce
    then show ?thesis using get c by (auto simp: liveAt_def newObject_def)
  qed
qed

section \<open>Views of changed objects\<close>

definition codeAt :: "hashfun \<Rightarrow> cachingDB \<Rightarrow> bytes option \<Rightarrow> bytes \<Rightarrow> bytes" where
  "codeAt kec db code h =
     (case code of
        Some b \<Rightarrow> b
      | None \<Rightarrow>
          if h = emptyCodeHash kec then []
          else (case ContractCode db (BytesToHash h) of Some b \<Rightarrow> b | None \<Rightarrow> []))"

lemma codeView_codeAt: "codeView kec db c = codeAt kec db (ocode c) (CodeHash (odata c))"
  by (simp add: codeView_def codeAt_def CodeObj_def split: option.splits)

lemma storageOf_simps [simp]:
  "storageOf db (c\<lparr>onDirty := b\<rparr>) = storageOf db c" "storageOf db (c\<lparr>touched := b\<rparr>) = storageOf db c"
  "storageOf db (c\<lparr>suicided := b\<rparr>) = storageOf db c" "storageOf db (c\<lparr>odata := (odata c)\<lparr>Balance := i\<rparr>\<rparr>) = storageOf db c"
  "storageOf db (c\<lparr>odata := (odata c)\<lparr>Nonce := n\<rparr>\<rparr>) = storageOf db c" "storageOf db (c\<lparr>odata := (odata c)\<lparr>CodeHash := h\<rparr>\<rparr>) = storageOf db c"
  "storageOf db (c\<lparr>cachedStorage := m\<rparr>) = storageOf db c" "storageOf db (c\<lparr>dirtyStorage := m\<rparr>) = storageOf db c"
  "storageOf db (c\<lparr>ocode := oc\<rparr>) = storageOf db c" "storageOf db (c\<lparr>dirtyCode := b\<rparr>) = storageOf db c"
  "storageOf db (c\<lparr>objErr := e\<rparr>) = storageOf db c" "storageOf db (c\<lparr>deleted := b\<rparr>) = storageOf db c"
  by (simp_all add: storageOf_def cong: option.case_cong)

lemma storageView_simps [simp]:
  "storageView kec db (c\<lparr>onDirty := b\<rparr>) = storageView kec db c" "storageView kec db (c\<lparr>touched := b\<rparr>) = storageView kec db c"
  "storageView kec db (c\<lparr>suicided := b\<rparr>) = storageView kec db c" "storageView kec db (c\<lparr>odata := (odata c)\<lparr>Balance := i\<rparr>\<rparr>) = storageView kec db c"
  "storageView kec db (c\<lparr>odata := (odata c)\<lparr>Nonce := n\<rparr>\<rparr>) = storageView kec db c" "storageView kec db (c\<lparr>odata := (odata c)\<lparr>CodeHash := h\<rparr>\<rparr>) = storageView kec db c"
  "storageView kec db (c\<lparr>dirtyStorage := m\<rparr>) = storageView kec db c"
  "storageView kec db (c\<lparr>ocode := oc\<rparr>) = storageView kec db c" "storageView kec db (c\<lparr>dirtyCode := b\<rparr>) = storageView kec db c"
  "storageView kec db (c\<lparr>objErr := e\<rparr>) = storageView kec db c" "storageView kec db (c\<lparr>deleted := b\<rparr>) = storageView kec db c"
  "storageView kec db (c\<lparr>cachedStorage := (cachedStorage c)(k \<mapsto> v)\<rparr>) = (storageView kec db c)(k := v)"
  by (auto simp: storageView_def fun_eq_iff cong: option.case_cong)

lemma objView_simps [simp]:
  "objView kec db (c\<lparr>onDirty := b\<rparr>) = objView kec db c" "objView kec db (c\<lparr>touched := b\<rparr>) = objView kec db c"
  "objView kec db (c\<lparr>objErr := e\<rparr>) = objView kec db c" "objView kec db (c\<lparr>dirtyStorage := m\<rparr>) = objView kec db c"
  "objView kec db (c\<lparr>dirtyCode := b\<rparr>) = objView kec db c"
  "objView kec db (c\<lparr>suicided := b\<rparr>) = (objView kec db c)\<lparr>aSuicided := b\<rparr>"
  "objView kec db (c\<lparr>odata := (odata c)\<lparr>Balance := i\<rparr>\<rparr>) = (objView kec db c)\<lparr>aBalance := i\<rparr>"
  "objView kec db (c\<lparr>odata := (odata c)\<lparr>Nonce := n\<rparr>\<rparr>) = (objView kec db c)\<lparr>aNonce := n\<rparr>"
  "objView kec db (c\<lparr>cachedStorage := (cachedStorage c)(k \<mapsto> v)\<rparr>) = (objView kec db c)\<lparr>aStorage := (aStorage (objView kec db c))(k := v)\<rparr>"
  "objView kec db (c\<lparr>ocode := oc, odata := (odata c)\<lparr>CodeHash := h\<rparr>\<rparr>) = (objView kec db c)\<lparr>aCodeHash := h, aCode := codeAt kec db oc h\<rparr>"
  by (simp_all add: objView_def codeView_codeAt storageView_def fun_eq_iff storageOf_def cong: option.case_cong)

lemma objView_sel [simp]:
  "aNonce (objView kec db c) = Nonce (odata c)" "aBalance (objView kec db c) = Balance (odata c)"
  "aCodeHash (objView kec db c) = CodeHash (odata c)" "aCode (objView kec db c) = codeView kec db c"
  "aStorage (objView kec db c) = storageView kec db c" "aSuicided (objView kec db c) = suicided c"
  by (simp_all add: objView_def)

lemma objOk_simps [simp]:
  "objOk kec db (c\<lparr>onDirty := b\<rparr>) = objOk kec db c" "objOk kec db (c\<lparr>touched := b\<rparr>) = objOk kec db c"
  "objOk kec db (c\<lparr>suicided := b\<rparr>) = objOk kec db c" "objOk kec db (c\<lparr>odata := (odata c)\<lparr>Balance := i\<rparr>\<rparr>) = objOk kec db c"
  "objOk kec db (c\<lparr>odata := (odata c)\<lparr>Nonce := n\<rparr>\<rparr>) = objOk kec db c"
  "objOk kec db (c\<lparr>cachedStorage := m\<rparr>) = objOk kec db c" "objOk kec db (c\<lparr>dirtyStorage := m\<rparr>) = objOk kec db c"
  "objOk kec db (c\<lparr>dirtyCode := b\<rparr>) = objOk kec db c" "objOk kec db (c\<lparr>objErr := e\<rparr>) = objOk kec db c"
  by (simp_all add: objOk_def)

lemma objOk_code: "objOk kec db c \<Longrightarrow> length h = 32 \<Longrightarrow> objOk kec db (c\<lparr>ocode := oc, odata := (odata c)\<lparr>CodeHash := h\<rparr>\<rparr>)"
  by (simp add: objOk_def storageOf_def cong: option.case_cong)

section \<open>Writing an account\<close>

definition putsAcct :: "hashfun \<Rightarrow> StateDB \<Rightarrow> address \<Rightarrow> account \<Rightarrow> StateDB \<Rightarrow> bool" where
  "putsAcct kec s a ac s' \<longleftrightarrow> stateOk kec s' \<and> sview kec s' = (sview kec s)(a \<mapsto> ac) \<and> readAccount kec s' = readAccount kec s \<and>
     sameFrame s s' \<and> sameRest s s'"

lemma putsAcct_vabs: "putsAcct kec s a ac s' \<Longrightarrow> vabs kec s' = setAcct a ac (vabs kec s)"
  using vabs_sameRest [of s s' kec] by (simp add: putsAcct_def setAcct_def) (simp add: vabs_def)

lemma onObj_put:
  assumes "stateOk kec s" "f c = callDirty d" "objOk kec (sdb s) d" "\<not> deleted d"
  shows "putsAcct kec s (oaddr d) (objView kec (sdb s) d) (let (c', s2) = onObj f c s in setStateObject c' s2)"
    "journal (let (c', s2) = onObj f c s in setStateObject c' s2) = journal s"
proof -
  let ?d = "d\<lparr>onDirty := False\<rparr>"
  let ?D = "if onDirty d then insert (oaddr d) (stateObjectsDirty s) else stateObjectsDirty s"
  have eq: "(let (c', s2) = onObj f c s in setStateObject c' s2) = (setStateObject ?d s)\<lparr>stateObjectsDirty := ?D\<rparr>"
    by (simp add: onObj_def assms(2) callDirty_def MarkStateObjectDirty_def setStateObject_def)
  have d: "objOk kec (sdb s) ?d" "\<not> deleted ?d" "oaddr ?d = oaddr d" "objView kec (sdb s) ?d = objView kec (sdb s) d"
    using assms(3,4) by simp_all
  have "?D \<subseteq> dom (stateObjects (setStateObject ?d s))" using assms(1) by (auto simp: stateOk_def)
  then have "stateOk kec ((setStateObject ?d s)\<lparr>stateObjectsDirty := ?D\<rparr>)"
    using stateOk_dirty stateOk_setStateObject assms(1) d(1,2) by blast
  then show "putsAcct kec s (oaddr d) (objView kec (sdb s) d) (let (c', s2) = onObj f c s in setStateObject c' s2)"
    unfolding eq putsAcct_def
    using sview_setStateObject [OF d(2), of kec s] d by (auto simp: sameFrame_def sameRest_def setStateObject_def)
  show "journal (let (c', s2) = onObj f c s in setStateObject c' s2) = journal s" unfolding eq by simp
qed

lemma putsAcct_trans: "quiet kec s s1 \<Longrightarrow> putsAcct kec s1 a ac s2 \<Longrightarrow> putsAcct kec s a ac s2"
  using sameFrame_trans sameRest_trans unfolding quiet_def putsAcct_def by metis

section \<open>Undoing\<close>

fun vundo :: "hashfun \<Rightarrow> cachingDB \<Rightarrow> (address \<Rightarrow> Account option) \<Rightarrow> journalEntry \<Rightarrow> vstate \<Rightarrow> vstate option" where
  "vundo kec db rdA (createObjectChange a) v = (if rdA a = None then Some (v\<lparr>vAccts := (vAccts v)(a := None)\<rparr>) else None)"
| "vundo kec db rdA (resetObjectChange p) v =
     (if objOk kec db p \<and> \<not> deleted p then Some (setAcct (oaddr p) (objView kec db p) v) else None)"
| "vundo kec db rdA (suicideChange a p b) v =
     Some (case vAccts v a of None \<Rightarrow> v | Some ac \<Rightarrow> setAcct a (ac\<lparr>aSuicided := p, aBalance := b\<rparr>) v)"
| "vundo kec db rdA (balanceChange a b) v = map_option (\<lambda>ac. setAcct a (ac\<lparr>aBalance := b\<rparr>) v) (vAccts v a)"
| "vundo kec db rdA (nonceChange a n) v = map_option (\<lambda>ac. setAcct a (ac\<lparr>aNonce := n\<rparr>) v) (vAccts v a)"
| "vundo kec db rdA (storageChange a k x) v =
     map_option (\<lambda>ac. setAcct a (ac\<lparr>aStorage := (aStorage ac)(k := x)\<rparr>) v) (vAccts v a)"
| "vundo kec db rdA (codeChange a pc ph) v =
     (if length ph = 32 then map_option (\<lambda>ac. setAcct a (ac\<lparr>aCodeHash := ph, aCode := codeAt kec db pc ph\<rparr>) v) (vAccts v a) else None)"
| "vundo kec db rdA (refundChange r) v = Some (v\<lparr>vRefund := r\<rparr>)"
| "vundo kec db rdA (addLogChange h) v =
     (if vLogs v h = [] then None else Some (v\<lparr>vLogs := (vLogs v)(h := butlast (vLogs v h)), vLogSize := vLogSize v - 1\<rparr>))"
| "vundo kec db rdA (addPreimageChange h) v = Some (v\<lparr>vPreimages := (vPreimages v)(h := None)\<rparr>)"
| "vundo kec db rdA (touchChange a p pd) v = (if p \<or> a = ripemd \<or> vAccts v a \<noteq> None then Some v else None)"

text \<open>Undoing an entry acts on what the state shows.\<close>

definition undone :: "hashfun \<Rightarrow> StateDB \<Rightarrow> vstate \<Rightarrow> StateDB \<Rightarrow> bool" where
  "undone kec s v s' \<longleftrightarrow> stateOk kec s' \<and> vabs kec s' = v \<and> readAccount kec s' = readAccount kec s \<and>
     journal s' = journal s \<and> sameFrame s s'"

lemma undone_putsAcct: "putsAcct kec s a ac s' \<Longrightarrow> journal s' = journal s \<Longrightarrow> undone kec s (setAcct a ac (vabs kec s)) s'"
  using putsAcct_vabs [of kec s a ac s'] by (simp add: undone_def putsAcct_def)

lemma undoObj_spec:
  assumes "stateOk kec s" "sview kec s a = Some ac"
    and "\<And>c. objOk kec (sdb s) c \<Longrightarrow> objView kec (sdb s) c = ac \<Longrightarrow> \<not> deleted c \<Longrightarrow>
       \<exists>d. f c = callDirty d \<and> oaddr d = oaddr c \<and> objOk kec (sdb s) d \<and> \<not> deleted d \<and> objView kec (sdb s) d = ac'"
  shows "\<exists>s'. undoObj kec a f s = Some s' \<and> undone kec s (setAcct a ac' (vabs kec s)) s'"
proof -
  obtain obj s1 where g: "getStateObject kec a s = Some (obj, s1)" "quiet kec s s1"
    "case obj of None \<Rightarrow> sview kec s a = None \<and> readAccount kec s a = None | Some c \<Rightarrow> liveAt kec s1 a c"
    using getStateObject_spec [OF assms(1)] by blast
  then obtain c where c: "obj = Some c" "liveAt kec s1 a c" using assms(2) by (cases obj) auto
  have s1: "stateOk kec s1" "sdb s1 = sdb s" "sview kec s1 a = Some ac" "journal s1 = journal s"
    using g(2) assms(2) by (auto simp: quiet_def sameFrame_def)
  then have v: "objView kec (sdb s) c = ac" using liveAt_view [OF c(2)] by simp
  have "objOk kec (sdb s) c" "\<not> deleted c" "oaddr c = a" using c(2) s1(2) by (simp_all add: liveAt_def)
  then obtain d where d: "f c = callDirty d" "oaddr d = a" "objOk kec (sdb s1) d" "\<not> deleted d" "objView kec (sdb s) d = ac'"
    using assms(3) v s1(2) by metis
  note put = onObj_put [where f = f, OF s1(1) d(1,3,4)]
  have "undoObj kec a f s = Some (let (c', s2) = onObj f c s1 in setStateObject c' s2)"
    using g(1) c(1) by (simp add: undoObj_def split: prod.splits)
  moreover have "putsAcct kec s a ac' (let (c', s2) = onObj f c s1 in setStateObject c' s2)"
    using putsAcct_trans [OF g(2)] put(1) d(2,5) s1(2) by simp
  ultimately show ?thesis using undone_putsAcct put(2) s1(4) by metis
qed

lemma digit_inj: "a * 256 + x = b * 256 + y \<Longrightarrow> x < 256 \<Longrightarrow> y < 256 \<Longrightarrow> a = b \<and> x = (y :: nat)"
proof -
  assume e: "a * 256 + x = b * 256 + y" "x < 256" "y < 256"
  have "(a * 256 + x) div 256 = a" "(b * 256 + y) div 256 = b" using e(2,3) by simp_all
  then have "a = b" using e(1) by simp
  then show ?thesis using e(1) by simp
qed

lemma be_val_inj: "length xs = length ys \<Longrightarrow> be_val xs = be_val ys \<Longrightarrow> xs = ys"
proof (induction xs arbitrary: ys rule: rev_induct)
  case (snoc x xs)
  then obtain y zs where ys: "ys = zs @ [y]" by (cases ys rule: rev_cases) auto
  have "unat x < 256" "unat y < 256" using unat_byte_lt by blast+
  moreover have "be_val xs * 256 + unat x = be_val zs * 256 + unat y" using snoc.prems(2) ys by simp
  ultimately have "be_val xs = be_val zs" "unat x = unat y" using digit_inj by blast+
  then have "x = y" "xs = zs" using snoc.IH [of zs] snoc.prems(1) ys by (simp_all add: word_unat_eq_iff)
  then show ?case using ys by simp
qed simp

lemma hash_bytes_BytesToHash: "length b = 32 \<Longrightarrow> hash_bytes (BytesToHash b) = b"
proof (rule be_val_inj)
  assume b: "length b = 32"
  then have "be_val b < 2 ^ 256" using be_val_lt [of b] by simp
  then show "be_val (hash_bytes (BytesToHash b)) = be_val b" using b
    by (simp add: hash_bytes_def BytesToHash_def unat_of_nat)
qed simp

lemma vabs_accts [simp]: "vAccts (vabs kec s) = sview kec s"
  by (simp add: vabs_def)

lemma undo_spec:
  assumes "stateOk kec s" "vundo kec (sdb s) (readAccount kec s) e (vabs kec s) = Some v"
  shows "\<exists>s'. undo kec e s = Some s' \<and> undone kec s v s'"
proof (cases e)
  case (createObjectChange a)
  let ?s = "s\<lparr>stateObjects := (stateObjects s)(a := None), stateObjectsDirty := stateObjectsDirty s - {a}\<rparr>"
  have v: "readAccount kec s a = None" "v = (vabs kec s)\<lparr>vAccts := (sview kec s)(a := None)\<rparr>"
    using assms(2) createObjectChange by (auto split: if_splits)
  then have "sview kec ?s = (sview kec s)(a := None)" by (auto simp: sview_def fun_eq_iff split: option.splits)
  moreover have "stateOk kec ?s" using assms(1) v(1) unfolding stateOk_def by auto
  ultimately show ?thesis using createObjectChange v(2)
    by (auto simp: undone_def sameFrame_def vabs_def GetLogs_def)
next
  case (resetObjectChange p)
  then have p: "objOk kec (sdb s) p" "\<not> deleted p" "v = setAcct (oaddr p) (objView kec (sdb s) p) (vabs kec s)"
    using assms(2) by (auto split: if_splits)
  have "putsAcct kec s (oaddr p) (objView kec (sdb s) p) (setStateObject p s)"
    using stateOk_setStateObject [OF assms(1) p(1,2)] sview_setStateObject [OF p(2)] by (simp add: putsAcct_def)
  then show ?thesis using resetObjectChange p(3) undone_putsAcct by simp
next
  case (suicideChange a p b)
  obtain obj s1 where g: "getStateObject kec a s = Some (obj, s1)" "quiet kec s s1"
    "case obj of None \<Rightarrow> sview kec s a = None \<and> readAccount kec s a = None | Some c \<Rightarrow> liveAt kec s1 a c"
    using getStateObject_spec [OF assms(1)] by blast
  have s1: "stateOk kec s1" "sdb s1 = sdb s" "sview kec s1 = sview kec s" "journal s1 = journal s" "vabs kec s1 = vabs kec s"
    using g(2) vabs_sameRest [of s s1 kec] by (auto simp: quiet_def sameFrame_def vabs_def)
  show ?thesis
  proof (cases obj)
    case None
    then show ?thesis using g s1 assms(2) suicideChange by (auto simp: undone_def quiet_def)
  next
    case (Some c)
    then have c: "liveAt kec s1 a c" using g(3) by simp
    let ?c = "c\<lparr>suicided := p\<rparr>" and ?d = "c\<lparr>suicided := p, odata := (odata c)\<lparr>Balance := b\<rparr>\<rparr>"
    have "setBalanceObj b ?c = callDirty ?d" "objOk kec (sdb s1) ?d" "\<not> deleted ?d" "oaddr ?d = a"
      using c objOk_simps(4) [of kec "sdb s1" b ?c] by (simp_all add: setBalanceObj_def liveAt_def)
    note put = onObj_put [where f = "setBalanceObj b", OF s1(1) this(1-3)] this(4)
    have "objView kec (sdb s) ?d = (objView kec (sdb s) c)\<lparr>aSuicided := p, aBalance := b\<rparr>"
      using objView_simps(7) [of kec "sdb s" b ?c] by simp
    moreover have "v = setAcct a ((objView kec (sdb s) c)\<lparr>aSuicided := p, aBalance := b\<rparr>) (vabs kec s)"
      using assms(2) suicideChange liveAt_view [OF c] s1 by simp
    ultimately have "putsAcct kec s a (objView kec (sdb s) ?d) (let (c', s2) = onObj (setBalanceObj b) ?c s1 in setStateObject c' s2)"
      and v: "v = setAcct a (objView kec (sdb s) ?d) (vabs kec s)"
      using putsAcct_trans [OF g(2)] put(1,3) s1(2) by simp_all
    then have "undone kec s v (let (c', s2) = onObj (setBalanceObj b) ?c s1 in setStateObject c' s2)"
      using undone_putsAcct put(2) s1(4) unfolding v by metis
    moreover have "undo kec e s = Some (let (c', s2) = onObj (setBalanceObj b) ?c s1 in setStateObject c' s2)"
      using g(1) Some suicideChange by (simp split: prod.splits)
    ultimately show ?thesis by blast
  qed
next
  case (balanceChange a b)
  then obtain ac where ac: "sview kec s a = Some ac" "v = setAcct a (ac\<lparr>aBalance := b\<rparr>) (vabs kec s)"
    using assms(2) by auto
  have "\<exists>d. setBalanceObj b c = callDirty d \<and> oaddr d = oaddr c \<and> objOk kec (sdb s) d \<and> \<not> deleted d \<and>
      objView kec (sdb s) d = ac\<lparr>aBalance := b\<rparr>"
    if "objOk kec (sdb s) c" "objView kec (sdb s) c = ac" "\<not> deleted c" for c
    using that by (intro exI [of _ "c\<lparr>odata := (odata c)\<lparr>Balance := b\<rparr>\<rparr>"]) (simp add: setBalanceObj_def)
  then show ?thesis using undoObj_spec [OF assms(1) ac(1)] ac(2) balanceChange by simp
next
  case (nonceChange a n)
  then obtain ac where ac: "sview kec s a = Some ac" "v = setAcct a (ac\<lparr>aNonce := n\<rparr>) (vabs kec s)"
    using assms(2) by auto
  have "\<exists>d. setNonceObj n c = callDirty d \<and> oaddr d = oaddr c \<and> objOk kec (sdb s) d \<and> \<not> deleted d \<and>
      objView kec (sdb s) d = ac\<lparr>aNonce := n\<rparr>"
    if "objOk kec (sdb s) c" "objView kec (sdb s) c = ac" "\<not> deleted c" for c
    using that by (intro exI [of _ "c\<lparr>odata := (odata c)\<lparr>Nonce := n\<rparr>\<rparr>"]) (simp add: setNonceObj_def)
  then show ?thesis using undoObj_spec [OF assms(1) ac(1)] ac(2) nonceChange by simp
next
  case (storageChange a k x)
  then obtain ac where ac: "sview kec s a = Some ac" "v = setAcct a (ac\<lparr>aStorage := (aStorage ac)(k := x)\<rparr>) (vabs kec s)"
    using assms(2) by auto
  have "\<exists>d. setStateObj k x c = callDirty d \<and> oaddr d = oaddr c \<and> objOk kec (sdb s) d \<and> \<not> deleted d \<and>
      objView kec (sdb s) d = ac\<lparr>aStorage := (aStorage ac)(k := x)\<rparr>"
    if "objOk kec (sdb s) c" "objView kec (sdb s) c = ac" "\<not> deleted c" for c
    using that objView_simps(4) [of kec "sdb s" "(dirtyStorage c)(k \<mapsto> x)" "c\<lparr>cachedStorage := (cachedStorage c)(k \<mapsto> x)\<rparr>"]
      objOk_simps(7) [of kec "sdb s" "(dirtyStorage c)(k \<mapsto> x)" "c\<lparr>cachedStorage := (cachedStorage c)(k \<mapsto> x)\<rparr>"]
    by (intro exI [of _ "c\<lparr>cachedStorage := (cachedStorage c)(k \<mapsto> x), dirtyStorage := (dirtyStorage c)(k \<mapsto> x)\<rparr>"])
      (auto simp: setStateObj_def)
  then show ?thesis using undoObj_spec [OF assms(1) ac(1)] ac(2) storageChange by simp
next
  case (codeChange a pc ph)
  then obtain ac where ac: "length ph = 32" "sview kec s a = Some ac"
    "v = setAcct a (ac\<lparr>aCodeHash := ph, aCode := codeAt kec (sdb s) pc ph\<rparr>) (vabs kec s)"
    using assms(2) by (auto split: if_splits)
  have h: "hash_bytes (BytesToHash ph) = ph" using ac(1) by (simp add: hash_bytes_BytesToHash)
  have "\<exists>d. setCodeObj (BytesToHash ph) pc c = callDirty d \<and> oaddr d = oaddr c \<and> objOk kec (sdb s) d \<and> \<not> deleted d \<and>
      objView kec (sdb s) d = ac\<lparr>aCodeHash := ph, aCode := codeAt kec (sdb s) pc ph\<rparr>"
    if "objOk kec (sdb s) c" "objView kec (sdb s) c = ac" "\<not> deleted c" for c
    using that objView_simps(5) [of kec "sdb s" True "c\<lparr>ocode := pc, odata := (odata c)\<lparr>CodeHash := ph\<rparr>\<rparr>"]
      objOk_simps(8) [of kec "sdb s" True "c\<lparr>ocode := pc, odata := (odata c)\<lparr>CodeHash := ph\<rparr>\<rparr>"] objOk_code [of kec "sdb s" c ph pc] ac(1)
    by (intro exI [of _ "c\<lparr>ocode := pc, odata := (odata c)\<lparr>CodeHash := ph\<rparr>, dirtyCode := True\<rparr>"])
      (auto simp: setCodeObj_def h)
  then show ?thesis using undoObj_spec [OF assms(1) ac(2)] ac(3) codeChange by simp
next
  case (refundChange r)
  then show ?thesis using assms by (auto simp: undone_def vabs_def sameFrame_def GetLogs_def)
next
  case (addLogChange h)
  then have "GetLogs h s \<noteq> []" and v: "v = (vabs kec s)\<lparr>vLogs := (\<lambda>h. GetLogs h s)(h := butlast (GetLogs h s)), vLogSize := logSize s - 1\<rparr>"
    using assms(2) by (auto simp: vabs_def split: if_splits)
  then show ?thesis
    using addLogChange assms(1)
    by (cases "length (GetLogs h s) = 1") (auto simp: undone_def vabs_def sameFrame_def GetLogs_def fun_eq_iff length_Suc_conv)
next
  case (addPreimageChange h)
  then show ?thesis using assms by (auto simp: undone_def vabs_def sameFrame_def GetLogs_def)
next
  case (touchChange a p pd)
  show ?thesis
  proof (cases "p \<or> a = ripemd")
    case True
    then show ?thesis using touchChange assms by (auto simp: undone_def)
  next
    case False
    obtain obj s1 where g: "getStateObject kec a s = Some (obj, s1)" "quiet kec s s1"
      "case obj of None \<Rightarrow> sview kec s a = None \<and> readAccount kec s a = None | Some c \<Rightarrow> liveAt kec s1 a c"
      using getStateObject_spec [OF assms(1)] by blast
    have v: "v = vabs kec s" "sview kec s a \<noteq> None" using False touchChange assms(2) by (auto split: if_splits)
    then obtain c where c: "obj = Some c" "liveAt kec s1 a c" using g(3) by (cases obj) auto
    let ?s2 = "setStateObject (c\<lparr>touched := p\<rparr>) s1"
    have s2: "stateOk kec ?s2" "sview kec ?s2 = sview kec s"
      using g(2) c(2) liveAt_view [OF c(2)]
      by (auto intro!: stateOk_setStateObject simp: quiet_def liveAt_def sview_setStateObject fun_upd_idem)
    have D: "stateObjectsDirty ?s2 - {a} \<subseteq> dom (stateObjects ?s2)" using s2(1) unfolding stateOk_def by blast
    have "undo kec e s = Some (if pd then ?s2 else ?s2\<lparr>stateObjectsDirty := stateObjectsDirty ?s2 - {a}\<rparr>)"
      using g(1) c(1) False touchChange by (simp add: Let_def)
    moreover have "undone kec s (vabs kec s) (if pd then ?s2 else ?s2\<lparr>stateObjectsDirty := stateObjectsDirty ?s2 - {a}\<rparr>)"
      using s2 stateOk_dirty [OF s2(1) D] g(2)
      by (auto simp: undone_def vabs_def quiet_def sameFrame_def sameRest_def setStateObject_def GetLogs_def)
    ultimately show ?thesis using v(1) by blast
  qed
qed

fun vundoAll :: "hashfun \<Rightarrow> cachingDB \<Rightarrow> (address \<Rightarrow> Account option) \<Rightarrow> journalEntry list \<Rightarrow> vstate \<Rightarrow> vstate option" where
  "vundoAll kec db rdA [] v = Some v"
| "vundoAll kec db rdA (e # es) v = Option.bind (vundo kec db rdA e v) (vundoAll kec db rdA es)"

lemma vundoAll_append: "vundoAll kec db rdA (es @ es') v = Option.bind (vundoAll kec db rdA es v) (vundoAll kec db rdA es')"
  by (induction es arbitrary: v) (auto simp: bind_eq_Some_conv split: Option.bind_splits)

lemma undoAll_spec:
  assumes "stateOk kec s" "vundoAll kec (sdb s) (readAccount kec s) es (vabs kec s) = Some v"
  shows "\<exists>s'. undoAll kec es s = Some s' \<and> undone kec s v s'"
  using assms
proof (induction es arbitrary: s)
  case Nil
  then show ?case by (simp add: undone_def)
next
  case (Cons e es)
  then obtain v1 where v1: "vundo kec (sdb s) (readAccount kec s) e (vabs kec s) = Some v1"
    "vundoAll kec (sdb s) (readAccount kec s) es v1 = Some v" by (auto simp: bind_eq_Some_conv)
  obtain s1 where s1: "undo kec e s = Some s1" "undone kec s v1 s1" using undo_spec [OF Cons.prems(1) v1(1)] by blast
  then have "stateOk kec s1" "vundoAll kec (sdb s1) (readAccount kec s1) es (vabs kec s1) = Some v"
    using v1(2) by (simp_all add: undone_def sameFrame_def)
  from Cons.IH [OF this] obtain s' where "undoAll kec es s1 = Some s'" "undone kec s1 v s'" by blast
  moreover from this s1(2) have "undone kec s v s'" using sameFrame_trans by (auto simp: undone_def)
  ultimately show ?case using s1(1) by auto
qed

section \<open>Operations that write to the journal\<close>

definition logged :: "hashfun \<Rightarrow> StateDB \<Rightarrow> journalEntry list \<Rightarrow> StateDB \<Rightarrow> bool" where
  "logged kec s es s' \<longleftrightarrow> stateOk kec s' \<and> readAccount kec s' = readAccount kec s \<and> sameFrame s s' \<and>
     journal s' = journal s @ es \<and> vundoAll kec (sdb s) (readAccount kec s) (rev es) (vabs kec s') = Some (vabs kec s)"

lemma logged_sdb: "logged kec s es s' \<Longrightarrow> sdb s' = sdb s"
  by (simp add: logged_def sameFrame_def)

lemma quiet_vabs: "quiet kec s s' \<Longrightarrow> vabs kec s' = vabs kec s"
  by (auto simp: quiet_def vabs_def sameRest_def GetLogs_def)

lemma quiet_logged: "quiet kec s s' \<Longrightarrow> logged kec s [] s'"
  using quiet_vabs by (auto simp: quiet_def logged_def)

lemma logged_trans:
  assumes "logged kec s es s1" "logged kec s1 es' s2"
  shows "logged kec s (es @ es') s2"
proof -
  have "vundoAll kec (sdb s) (readAccount kec s) (rev es') (vabs kec s2) = Some (vabs kec s1)"
    using assms by (auto simp: logged_def sameFrame_def)
  then show ?thesis using assms sameFrame_trans by (auto simp: logged_def vundoAll_append)
qed

lemma logged_put:
  assumes "putsAcct kec s a ac' s'" "journal s' = journal s @ [e]"
    and "vundo kec (sdb s) (readAccount kec s) e (setAcct a ac' (vabs kec s)) = Some (vabs kec s)"
  shows "logged kec s [e] s'"
  using assms putsAcct_vabs [OF assms(1)] by (simp add: logged_def putsAcct_def)

lemma setAcct_same [simp]: "vAccts v a = Some ac \<Longrightarrow> setAcct a ac v = v"
  by (simp add: setAcct_def fun_upd_idem)

lemma setAcct_twice [simp]: "setAcct a ac (setAcct a ac' v) = setAcct a ac v"
  by (simp add: setAcct_def)

lemma setAcct_accts [simp]: "vAccts (setAcct a ac v) = (vAccts v)(a \<mapsto> ac)"
  by (simp add: setAcct_def)

lemma addJournal_simps [simp]:
  "sdb (addJournal e s) = sdb s" "journal (addJournal e s) = journal s @ [e]" "readAccount kec (addJournal e s) = readAccount kec s"
  "sview kec (addJournal e s) = sview kec s" "stateOk kec (addJournal e s) = stateOk kec s" "vabs kec (addJournal e s) = vabs kec s"
  "stateObjects (addJournal e s) = stateObjects s" "stateObjectsDirty (addJournal e s) = stateObjectsDirty s"
  by (simp_all add: addJournal_def vabs_def GetLogs_def)

lemma putsAcct_addJournal: "putsAcct kec (addJournal e s) a ac s' = putsAcct kec s a ac s'"
  by (simp add: putsAcct_def sameFrame_def sameRest_def) (simp add: addJournal_def)

text \<open>A journaled write of an object.\<close>

lemma journaled_put:
  assumes "stateOk kec s" "f c = callDirty d"
    and "objOk kec (sdb s) d" "\<not> deleted d" "oaddr d = a"
    and "vundo kec (sdb s) (readAccount kec s) e (setAcct a (objView kec (sdb s) d) (vabs kec s)) = Some (vabs kec s)"
  shows "logged kec s [e] (let (c', s2) = onObj f c (addJournal e s) in setStateObject c' s2)"
    "vabs kec (let (c', s2) = onObj f c (addJournal e s) in setStateObject c' s2) = setAcct a (objView kec (sdb s) d) (vabs kec s)"
proof -
  have ok: "stateOk kec (addJournal e s)" "objOk kec (sdb (addJournal e s)) d" using assms(1,3) by simp_all
  note put = onObj_put [where f = f, OF ok(1) assms(2) ok(2) assms(4)]
  have p: "putsAcct kec s a (objView kec (sdb s) d) (let (c', s2) = onObj f c (addJournal e s) in setStateObject c' s2)"
    using put(1) assms(5) by (simp add: putsAcct_addJournal)
  show "logged kec s [e] (let (c', s2) = onObj f c (addJournal e s) in setStateObject c' s2)"
    by (rule logged_put [OF p]) (use put(2) assms(6) in simp_all)
  show "vabs kec (let (c', s2) = onObj f c (addJournal e s) in setStateObject c' s2) = setAcct a (objView kec (sdb s) d) (vabs kec s)"
    by (rule putsAcct_vabs [OF p])
qed

section \<open>New objects\<close>

definition freshAccount :: "hashfun \<Rightarrow> account" where
  "freshAccount kec = \<lparr>aNonce = 0, aBalance = 0, aCodeHash = emptyCodeHash kec, aCode = [], aStorage = (\<lambda>_. 0), aSuicided = False\<rparr>"

lemma zero_storage:
  assumes "otrie c = None" "Root (odata c) = 0"
  obtains t where "storageOf db c = Some t" "okTrie kec (dbNode (trieDB db)) t" "\<And>h. trieRead (dbNode (trieDB db)) t h = None"
proof -
  let ?t = "\<lparr>secTrie = SetCacheLimit 0 \<lparr>root = NilNode, originalRoot = 0, cachegen = 0, cachelimit = 0\<rparr>,
             secKeyCache = Map.empty, secOwned = False\<rparr>"
  have s: "stands kec f (secTrie ?t) (\<lambda>_. None)" for f
    unfolding stands_def by (intro exI [of _ PNil]) (simp add: canonical_def SetCacheLimit_def)
  have "storageOf db c = Some ?t" using assms
    by (simp add: storageOf_def OpenStorageTrie_def NewSecure_def newTrie_def Let_def)
  then show ?thesis using that s trieRead_stands [OF s] unfolding okTrie_def by blast
qed

lemma fresh_object:
  assumes "odata c = zeroAccount kec" "otrie c = None" "ocode c = None" "cachedStorage c = Map.empty" "suicided c = False"
  shows "objView kec db c = freshAccount kec" "objOk kec db c"
proof -
  have "Root (odata c) = 0" using assms(1) by (simp add: zeroAccount_def)
  then obtain t where t: "storageOf db c = Some t" "okTrie kec (dbNode (trieDB db)) t" "\<And>h. trieRead (dbNode (trieDB db)) t h = None"
    using zero_storage [OF assms(2)] by blast
  show "objOk kec db c" using t assms(1) by (simp add: objOk_def zeroAccount_def emptyCodeHash_def)
  show "objView kec db c = freshAccount kec"
    using t assms by (simp add: objView_def freshAccount_def codeView_codeAt codeAt_def zeroAccount_def storageView_def fun_eq_iff)
qed

lemma createObject_spec:
  assumes "stateOk kec s"
  shows "\<exists>c prev s' e. createObject kec a s = Some (c, prev, s') \<and> liveAt kec s' a c \<and> objView kec (sdb s) c = freshAccount kec \<and>
    onDirty c = False \<and>
    map_option (objView kec (sdb s)) prev = sview kec s a \<and> logged kec s [e] s' \<and>
    vabs kec s' = setAcct a (freshAccount kec) (vabs kec s)"
proof -
  obtain obj s1 where g: "getStateObject kec a s = Some (obj, s1)" "quiet kec s s1"
    "case obj of None \<Rightarrow> sview kec s a = None \<and> readAccount kec s a = None | Some c \<Rightarrow> liveAt kec s1 a c"
    using getStateObject_spec [OF assms] by blast
  have s1: "stateOk kec s1" "sdb s1 = sdb s" "sview kec s1 = sview kec s" "readAccount kec s1 = readAccount kec s" "vabs kec s1 = vabs kec s"
    using g(2) quiet_vabs [OF g(2)] by (auto simp: quiet_def sameFrame_def)
  let ?d = "(newObject kec a (zeroAccount kec) True)\<lparr>odata := (zeroAccount kec)\<lparr>Nonce := 0\<rparr>\<rparr>"
  let ?c = "?d\<lparr>onDirty := False\<rparr>"
  define e where "e = (case obj of None \<Rightarrow> createObjectChange a | Some p \<Rightarrow> resetObjectChange p)"
  let ?s = "addJournal e (MarkStateObjectDirty a s1)"
  have z: "(zeroAccount kec)\<lparr>Nonce := 0\<rparr> = zeroAccount kec" by (simp add: zeroAccount_def)
  have c: "objView kec (sdb s) ?c = freshAccount kec" "objOk kec (sdb s) ?c" "\<not> deleted ?c" "oaddr ?c = a"
    by (rule fresh_object; simp add: z newObject_def)+ (simp_all add: newObject_def)
  have create: "createObject kec a s = Some (?c, obj, setStateObject ?c ?s)"
    using g(1) by (simp add: createObject_def onObj_def setNonceObj_def callDirty_def e_def Let_def newObject_def)
  have dom: "insert a (stateObjectsDirty s1) \<subseteq> dom (stateObjects (setStateObject ?c s1))"
    using s1(1) by (auto simp: stateOk_def c(4))
  have eq: "setStateObject ?c ?s = (setStateObject ?c s1)\<lparr>stateObjectsDirty := insert a (stateObjectsDirty s1), journal := journal s1 @ [e]\<rparr>"
    by (simp add: setStateObject_def addJournal_def MarkStateObjectDirty_def)
  have ok: "stateOk kec (setStateObject ?c ?s)"
    unfolding eq using stateOk_dirty [OF stateOk_setStateObject [OF s1(1)] dom] c(2,3) s1(2) by simp
  have sv: "sview kec (setStateObject ?c ?s) = (sview kec s)(a \<mapsto> freshAccount kec)"
    unfolding eq using sview_setStateObject [OF c(3), of kec s1] c(1,4) s1(2,3) by simp
  have put: "putsAcct kec s1 a (freshAccount kec) (setStateObject ?c ?s)"
    using ok sv s1 by (simp add: putsAcct_def eq) (simp add: sameFrame_def sameRest_def setStateObject_def)
  have prev: "map_option (objView kec (sdb s)) obj = sview kec s a"
    using g(3) s1 liveAt_view [of kec s1 a] by (cases obj) auto
  have "vundo kec (sdb s1) (readAccount kec s1) e (setAcct a (freshAccount kec) (vabs kec s1)) = Some (vabs kec s1)"
    using g(3) prev s1(2-5) by (cases obj) (auto simp: e_def setAcct_def liveAt_def fun_upd_idem)
  then have "logged kec s1 [e] (setStateObject ?c ?s)"
    by (intro logged_put [OF put]) (simp_all add: eq)
  then have "logged kec s [e] (setStateObject ?c ?s)" using logged_trans [OF quiet_logged [OF g(2)]] by simp
  moreover have "liveAt kec (setStateObject ?c ?s) a ?c" using c s1(2) by (simp add: liveAt_def MarkStateObjectDirty_def)
  moreover have "onDirty ?c = False" by simp
  ultimately show ?thesis using create c(1) prev putsAcct_vabs [OF put] s1(5) by metis
qed

definition acctAt :: "hashfun \<Rightarrow> address \<Rightarrow> vstate \<Rightarrow> account" where
  "acctAt kec a v = (case vAccts v a of None \<Rightarrow> freshAccount kec | Some ac \<Rightarrow> ac)"

lemma GetOrNew_spec:
  assumes "stateOk kec s"
  shows "\<exists>c s' es. GetOrNewStateObject kec a s = Some (c, s') \<and> liveAt kec s' a c \<and> logged kec s es s' \<and>
    objView kec (sdb s) c = acctAt kec a (vabs kec s) \<and> vabs kec s' = setAcct a (acctAt kec a (vabs kec s)) (vabs kec s)"
proof -
  obtain obj s1 where g: "getStateObject kec a s = Some (obj, s1)" "quiet kec s s1"
    "case obj of None \<Rightarrow> sview kec s a = None \<and> readAccount kec s a = None | Some c \<Rightarrow> liveAt kec s1 a c"
    using getStateObject_spec [OF assms] by blast
  have s1: "stateOk kec s1" "sdb s1 = sdb s" "sview kec s1 = sview kec s" "vabs kec s1 = vabs kec s"
    using g(2) quiet_vabs [OF g(2)] by (auto simp: quiet_def sameFrame_def)
  show ?thesis
  proof (cases obj)
    case (Some c)
    then have "liveAt kec s1 a c" "sview kec s a = Some (objView kec (sdb s) c)"
      using g(3) liveAt_view [of kec s1 a c] s1(2,3) by simp_all
    then show ?thesis using Some g(1) s1(4) quiet_logged [OF g(2)]
      by (auto simp: GetOrNewStateObject_def acctAt_def)
  next
    case None
    obtain c prev s' e where c: "createObject kec a s1 = Some (c, prev, s')" "liveAt kec s' a c"
      "objView kec (sdb s1) c = freshAccount kec" "logged kec s1 [e] s'" "vabs kec s' = setAcct a (freshAccount kec) (vabs kec s1)"
      using createObject_spec [OF s1(1)] by blast
    have "logged kec s [e] s'" using logged_trans [OF quiet_logged [OF g(2)] c(4)] by simp
    moreover have "acctAt kec a (vabs kec s) = freshAccount kec" using None g(3) by (simp add: acctAt_def)
    ultimately show ?thesis using None g(1) c s1(2,4) by (auto simp: GetOrNewStateObject_def)
  qed
qed

text \<open>An operation on the state that changes what it shows to \<open>v\<close>, and can be undone.\<close>

definition does :: "hashfun \<Rightarrow> StateDB \<Rightarrow> StateDB option \<Rightarrow> vstate \<Rightarrow> bool" where
  "does kec s r v \<longleftrightarrow> (\<exists>s' es. r = Some s' \<and> logged kec s es s' \<and> vabs kec s' = v)"

lemma does_quiet: "quiet kec s s' \<Longrightarrow> does kec s (Some s') (vabs kec s)"
  using quiet_logged quiet_vabs unfolding does_def by blast

lemma writeObj_spec:
  assumes "stateOk kec s"
    and "\<And>c s1. stateOk kec s1 \<Longrightarrow> sdb s1 = sdb s \<Longrightarrow> liveAt kec s1 a c \<Longrightarrow> objView kec (sdb s) c = acctAt kec a (vabs kec s) \<Longrightarrow>
       vabs kec s1 = setAcct a (acctAt kec a (vabs kec s)) (vabs kec s) \<Longrightarrow>
       \<exists>es. logged kec s1 es (let (c', s2) = f c s1 in setStateObject c' s2) \<and>
            vabs kec (let (c', s2) = f c s1 in setStateObject c' s2) = setAcct a ac (vabs kec s)"
  shows "does kec s (writeObj kec a f s) (setAcct a ac (vabs kec s))"
proof -
  obtain c s1 es where g: "GetOrNewStateObject kec a s = Some (c, s1)" "liveAt kec s1 a c" "logged kec s es s1"
    "objView kec (sdb s) c = acctAt kec a (vabs kec s)" "vabs kec s1 = setAcct a (acctAt kec a (vabs kec s)) (vabs kec s)"
    using GetOrNew_spec [OF assms(1)] by blast
  have s1: "stateOk kec s1" "sdb s1 = sdb s" using g(3) by (auto simp: logged_def sameFrame_def)
  obtain es' where "logged kec s1 es' (let (c', s2) = f c s1 in setStateObject c' s2)"
    "vabs kec (let (c', s2) = f c s1 in setStateObject c' s2) = setAcct a ac (vabs kec s)"
    using assms(2) [OF s1 g(2,4,5)] by blast
  moreover have "writeObj kec a f s = Some (let (c', s2) = f c s1 in setStateObject c' s2)"
    using g(1) by (simp add: writeObj_def split: prod.splits)
  ultimately show ?thesis using logged_trans [OF g(3)] unfolding does_def by blast
qed

lemma logged_same:
  assumes "stateOk kec s" "liveAt kec s a c"
  shows "logged kec s [] (setStateObject c s)" "vabs kec (setStateObject c s) = vabs kec s"
proof -
  have "quiet kec s (setStateObject c s)"
    using assms liveAt_view [OF assms(2)] stateOk_setStateObject [of kec s c] sview_setStateObject [of c kec s]
    by (auto simp: quiet_def liveAt_def fun_upd_idem)
  then show "logged kec s [] (setStateObject c s)" "vabs kec (setStateObject c s) = vabs kec s"
    using quiet_logged quiet_vabs by blast+
qed

lemma liveAt_vabs: "liveAt kec s a c \<Longrightarrow> vAccts (vabs kec s) a = Some (objView kec (sdb s) c)"
  by (simp add: liveAt_view)

lemma objView_back [simp]:
  "(objView kec db c)\<lparr>aBalance := Balance (odata c)\<rparr> = objView kec db c" "(objView kec db c)\<lparr>aNonce := Nonce (odata c)\<rparr> = objView kec db c"
  "(objView kec db c)\<lparr>aStorage := storageView kec db c\<rparr> = objView kec db c"
  "(objView kec db c)\<lparr>aSuicided := suicided c, aBalance := Balance (odata c)\<rparr> = objView kec db c"
  "(objView kec db c)\<lparr>aCodeHash := CodeHash (odata c), aCode := codeView kec db c\<rparr> = objView kec db c"
  by (simp_all add: objView_def)

lemma setBalance_logged:
  assumes "stateOk kec s" "liveAt kec s a c"
  shows "logged kec s [balanceChange a (Balance (odata c))] (let (c', s2) = SetBalanceObj x c s in setStateObject c' s2) \<and>
    vabs kec (let (c', s2) = SetBalanceObj x c s in setStateObject c' s2) = setAcct a ((objView kec (sdb s) c)\<lparr>aBalance := x\<rparr>) (vabs kec s)"
proof -
  let ?d = "c\<lparr>odata := (odata c)\<lparr>Balance := x\<rparr>\<rparr>"
  have u: "vundo kec (sdb s) (readAccount kec s) (balanceChange a (Balance (odata c))) (setAcct a (objView kec (sdb s) ?d) (vabs kec s)) = Some (vabs kec s)"
    using liveAt_vabs [OF assms(2)] by simp
  have a: "oaddr c = a" using assms(2) by (simp add: liveAt_def)
  show ?thesis unfolding SetBalanceObj_def a
    using journaled_put [OF assms(1), of "setBalanceObj x" c ?d, OF _ _ _ _ u] assms(2) by (simp add: setBalanceObj_def liveAt_def)
qed

lemma SetBalance_does: "stateOk kec s \<Longrightarrow>
    does kec s (SetBalance kec a x s) (setAcct a ((acctAt kec a (vabs kec s))\<lparr>aBalance := x\<rparr>) (vabs kec s))"
  unfolding SetBalance_def by (erule writeObj_spec) (metis setBalance_logged setAcct_twice)

lemma SubBalance_does: "stateOk kec s \<Longrightarrow>
    does kec s (SubBalance kec a x s) (setAcct a ((acctAt kec a (vabs kec s))\<lparr>aBalance := aBalance (acctAt kec a (vabs kec s)) - x\<rparr>) (vabs kec s))"
  unfolding SubBalance_def
proof (erule writeObj_spec, goal_cases)
  case (1 c s1)
  let ?o = "acctAt kec a (vabs kec s)"
  have b: "Balance (odata c) = aBalance ?o" using 1(4) objView_sel(2) by metis
  show ?case
  proof (cases "x = 0")
    case True
    then show ?thesis using logged_same [OF 1(1,3)] 1(5) by (auto simp: SubBalanceObj_def)
  next
    case False
    then show ?thesis using setBalance_logged [OF 1(1,3), of "Balance (odata c) - x"] 1(2,4,5) b
      by (auto simp: SubBalanceObj_def simp del: objView_sel)
  qed
qed

lemma touch_logged:
  assumes "stateOk kec s" "liveAt kec s a c"
  shows "\<exists>es. logged kec s es (let (c', s2) = touchObj c s in setStateObject c' s2) \<and>
    vabs kec (let (c', s2) = touchObj c s in setStateObject c' s2) = vabs kec s"
proof -
  let ?e = "touchChange a (touched c) (\<not> onDirty c)" and ?d = "c\<lparr>onDirty := False, touched := True\<rparr>"
  let ?D = "if onDirty c then insert a (stateObjectsDirty s) else stateObjectsDirty s"
  have a: "oaddr c = a" "\<not> deleted c" "objOk kec (sdb s) c" using assms(2) by (simp_all add: liveAt_def)
  have eq: "(let (c', s2) = touchObj c s in setStateObject c' s2) = (setStateObject ?d s)\<lparr>stateObjectsDirty := ?D, journal := journal s @ [?e]\<rparr>"
    by (simp add: touchObj_def onObj_def callDirty_def MarkStateObjectDirty_def setStateObject_def a addJournal_def)
  have d: "objView kec (sdb s) ?d = objView kec (sdb s) c" "objOk kec (sdb s) ?d"
    using objView_simps(2) [of kec "sdb s" True "c\<lparr>onDirty := False\<rparr>"] objOk_simps(2) [of kec "sdb s" True "c\<lparr>onDirty := False\<rparr>"] a by simp_all
  have D: "?D \<subseteq> dom (stateObjects (setStateObject ?d s))" using assms(1) a(1) by (auto simp: stateOk_def)
  have "sview kec (setStateObject ?d s) = sview kec s"
    using sview_setStateObject [of ?d kec s] a(1,2) d(1) liveAt_view [OF assms(2)] by (auto simp: fun_upd_idem)
  moreover have "stateOk kec ((setStateObject ?d s)\<lparr>stateObjectsDirty := ?D\<rparr>)"
    using stateOk_dirty [OF stateOk_setStateObject [OF assms(1) d(2)] D] a(2) by simp
  moreover have "vundo kec (sdb s) (readAccount kec s) ?e (vabs kec s) = Some (vabs kec s)"
    using liveAt_view [OF assms(2)] by simp
  ultimately have "logged kec s [?e] (let (c', s2) = touchObj c s in setStateObject c' s2)"
    "vabs kec (let (c', s2) = touchObj c s in setStateObject c' s2) = vabs kec s"
    unfolding eq logged_def by (simp_all add: vabs_def sameFrame_def setStateObject_def GetLogs_def)
  then show ?thesis by blast
qed

lemma AddBalance_does: "stateOk kec s \<Longrightarrow>
    does kec s (AddBalance kec a x s) (setAcct a ((acctAt kec a (vabs kec s))\<lparr>aBalance := aBalance (acctAt kec a (vabs kec s)) + x\<rparr>) (vabs kec s))"
  unfolding AddBalance_def
proof (erule writeObj_spec, goal_cases)
  case (1 c s1)
  let ?o = "acctAt kec a (vabs kec s)"
  have b: "Balance (odata c) = aBalance ?o" using 1(4) objView_sel(2) by metis
  consider "x \<noteq> 0" | "x = 0" "objEmpty kec c" | "x = 0" "\<not> objEmpty kec c" by blast
  then show ?case
  proof cases
    case 1
    with \<open>stateOk kec s1\<close> \<open>liveAt kec s1 a c\<close> show ?thesis
      using setBalance_logged [of kec s1 a c "Balance (odata c) + x"] b \<open>sdb s1 = sdb s\<close> \<open>objView kec (sdb s) c = ?o\<close>
        \<open>vabs kec s1 = setAcct a ?o (vabs kec s)\<close>
      by (auto simp: AddBalanceObj_def simp del: objView_sel)
  next
    case 2
    with touch_logged [OF \<open>stateOk kec s1\<close> \<open>liveAt kec s1 a c\<close>] \<open>vabs kec s1 = setAcct a ?o (vabs kec s)\<close>
    show ?thesis by (simp add: AddBalanceObj_def)
  next
    case 3
    with logged_same [OF \<open>stateOk kec s1\<close> \<open>liveAt kec s1 a c\<close>] \<open>vabs kec s1 = setAcct a ?o (vabs kec s)\<close>
    show ?thesis by (auto simp: AddBalanceObj_def)
  qed
qed

lemma SetNonce_does: "stateOk kec s \<Longrightarrow>
    does kec s (SetNonce kec a n s) (setAcct a ((acctAt kec a (vabs kec s))\<lparr>aNonce := n\<rparr>) (vabs kec s))"
  unfolding SetNonce_def
proof (erule writeObj_spec, goal_cases)
  case (1 c s1)
  let ?d = "c\<lparr>odata := (odata c)\<lparr>Nonce := n\<rparr>\<rparr>"
  have u: "vundo kec (sdb s1) (readAccount kec s1) (nonceChange a (Nonce (odata c))) (setAcct a (objView kec (sdb s1) ?d) (vabs kec s1)) = Some (vabs kec s1)"
    using liveAt_vabs [OF 1(3)] by simp
  have a: "oaddr c = a" using 1(3) by (simp add: liveAt_def)
  show ?case unfolding SetNonceObj_def a
    using journaled_put [OF 1(1), of "setNonceObj n" c ?d, OF _ _ _ _ u] 1(2-5) by (auto simp: setNonceObj_def liveAt_def)
qed

lemma storage_reopened:
  assumes "storageOf db c = Some t" "okTrie kec (dbNode (trieDB db)) t'"
    "trieRead (dbNode (trieDB db)) t' = trieRead (dbNode (trieDB db)) t"
  shows "storageView kec db (c\<lparr>otrie := Some t'\<rparr>) = storageView kec db c"
    "objOk kec db c \<Longrightarrow> objOk kec db (c\<lparr>otrie := Some t'\<rparr>)"
  using assms by (auto simp: storageView_def storageOf_def objOk_def fun_eq_iff split: option.split)

definition sameObj :: "hashfun \<Rightarrow> cachingDB \<Rightarrow> stateObject \<Rightarrow> stateObject \<Rightarrow> bool" where
  "sameObj kec db c c' \<longleftrightarrow> objView kec db c' = objView kec db c \<and> objOk kec db c' \<and> oaddr c' = oaddr c \<and> deleted c' = deleted c \<and>
     odata c' = odata c \<and> onDirty c' = onDirty c \<and> touched c' = touched c \<and> suicided c' = suicided c"

lemma getTrie_spec:
  assumes "objOk kec db c"
  obtains t where "getTrie db c = Some (t, c\<lparr>otrie := Some t\<rparr>)" "storageOf db c = Some t" "okTrie kec (dbNode (trieDB db)) t"
proof -
  obtain t where "storageOf db c = Some t" "okTrie kec (dbNode (trieDB db)) t" using assms by (auto simp: objOk_def)
  moreover from this have "getTrie db c = Some (t, c\<lparr>otrie := Some t\<rparr>)"
    by (auto simp: getTrie_def storageOf_def split: option.splits sum.splits)
  ultimately show ?thesis using that by blast
qed

lemma GetStateObj_spec:
  assumes "objOk kec db c"
  shows "\<exists>c'. GetStateObj kec db key c = Some (storageView kec db c key, c') \<and> sameObj kec db c c'"
proof (cases "cachedStorage c key")
  case (Some v)
  then show ?thesis using assms by (simp add: GetStateObj_def storageView_def sameObj_def)
next
  case None
  obtain t where t: "getTrie db c = Some (t, c\<lparr>otrie := Some t\<rparr>)" "storageOf db c = Some t" "okTrie kec (dbNode (trieDB db)) t"
    using getTrie_spec [OF assms] by blast
  obtain t' where t': "secTryGet kec (trieDB db) (hash_bytes key) t = Some (Inr (trieRead (dbNode (trieDB db)) t (kec (hash_bytes key))), t')"
    "okTrie kec (dbNode (trieDB db)) t'" "trieRead (dbNode (trieDB db)) t' = trieRead (dbNode (trieDB db)) t"
    using secTryGet_ok [OF t(3)] by blast
  let ?enc = "case trieRead (dbNode (trieDB db)) t (kec (hash_bytes key)) of None \<Rightarrow> [] | Some enc \<Rightarrow> enc"
  let ?c2 = "c\<lparr>otrie := Some t'\<rparr>" and ?v = "snd (storedValue ?enc)"
  define c3 where "c3 = (case fst (storedValue ?enc) of None \<Rightarrow> ?c2 | Some e \<Rightarrow> objSetError (Some (StRlp e)) ?c2)"
  have sv: "storageView kec db ?c2 = storageView kec db c" "objOk kec db ?c2" using storage_reopened [OF t(2) t'(2,3)] assms by simp_all
  have v: "storageView kec db c key = ?v" using None t(2) by (simp add: storageView_def storedValue_def split: option.split)
  have "sameObj kec db c ?c2" using sv by (simp add: sameObj_def) (simp add: objView_def codeView_codeAt)
  then have c3: "sameObj kec db c c3" by (auto simp: c3_def objSetError_def sameObj_def split: option.splits)
  then have "storageView kec db c3 = storageView kec db c" by (metis sameObj_def objView_sel(5))
  moreover have "(storageView kec db c)(key := ?v) = storageView kec db c" using v by (simp add: fun_upd_idem)
  ultimately have c4: "sameObj kec db c (c3\<lparr>cachedStorage := (cachedStorage c3)(key \<mapsto> ?v)\<rparr>)"
    using c3 objView_back(3) [of kec db c3] by (simp add: sameObj_def)
  have "GetStateObj kec db key c = Some (?v, if ?v \<noteq> 0 then c3\<lparr>cachedStorage := (cachedStorage c3)(key \<mapsto> ?v)\<rparr> else c3)"
    using None t(1) t'(1) by (simp add: GetStateObj_def c3_def Let_def split: prod.split cong: option.case_cong)
  then show ?thesis using c3 c4 v by auto
qed

lemma CodeObj_spec:
  assumes "objOk kec db c"
  shows "\<exists>code c'. CodeObj kec db c = (code, c') \<and> sameObj kec db c c' \<and> codeAt kec db code (CodeHash (odata c)) = codeView kec db c"
proof -
  have "sameObj kec db c (snd (CodeObj kec db c))"
    using assms by (auto simp: CodeObj_def sameObj_def objSetError_def objView_def codeView_codeAt codeAt_def objOk_def split: option.splits)
  moreover have "codeAt kec db (fst (CodeObj kec db c)) (CodeHash (odata c)) = codeView kec db c"
    by (auto simp: CodeObj_def codeView_codeAt codeAt_def split: option.splits)
  ultimately show ?thesis by (metis surjective_pairing)
qed

text \<open>Writing back an object that shows the same.\<close>

lemma sameObj_put:
  assumes "stateOk kec s" "liveAt kec s a c" "sameObj kec (sdb s) c c'"
  shows "quiet kec s (setStateObject c' s)" "liveAt kec (setStateObject c' s) a c'"
proof -
  have c': "objOk kec (sdb s) c'" "\<not> deleted c'" "oaddr c' = a" "objView kec (sdb s) c' = objView kec (sdb s) c"
    using assms(2,3) by (auto simp: liveAt_def sameObj_def)
  then show "quiet kec s (setStateObject c' s)"
    using stateOk_setStateObject [OF assms(1) c'(1,2)] sview_setStateObject [OF c'(2), of kec s] liveAt_view [OF assms(2)]
    by (auto simp: quiet_def fun_upd_idem)
  show "liveAt kec (setStateObject c' s) a c'" using c' by (simp add: liveAt_def)
qed

lemma SetCode_does: "stateOk kec s \<Longrightarrow>
    does kec s (SetCode kec a code s)
      (setAcct a ((acctAt kec a (vabs kec s))\<lparr>aCodeHash := hash_bytes (kec (bytesOf code)), aCode := bytesOf code\<rparr>) (vabs kec s))"
  unfolding SetCode_def bytesOf_def [symmetric]
proof (erule writeObj_spec, goal_cases)
  case (1 c s1)
  have c: "objOk kec (sdb s1) c" "oaddr c = a" "\<not> deleted c" using 1(3) by (simp_all add: liveAt_def)
  obtain pc c1 where pc: "CodeObj kec (sdb s1) c = (pc, c1)" "sameObj kec (sdb s1) c c1"
    "codeAt kec (sdb s1) pc (CodeHash (odata c)) = codeView kec (sdb s1) c" using CodeObj_spec [OF c(1)] by blast
  have c1: "objOk kec (sdb s1) c1" "oaddr c1 = a" "\<not> deleted c1" "odata c1 = odata c" "objView kec (sdb s1) c1 = objView kec (sdb s1) c"
    using pc(2) c by (auto simp: sameObj_def)
  let ?h = "hash_bytes (kec (bytesOf code))" and ?e = "codeChange a pc (CodeHash (odata c))"
  let ?c = "c1\<lparr>ocode := code, odata := (odata c1)\<lparr>CodeHash := ?h\<rparr>\<rparr>"
  let ?d = "c1\<lparr>ocode := code, odata := (odata c1)\<lparr>CodeHash := ?h\<rparr>, dirtyCode := True\<rparr>"
  have "codeAt kec (sdb s1) code ?h = bytesOf code" by (auto simp: codeAt_def bytesOf_def emptyCodeHash_def split: option.splits)
  then have d: "objView kec (sdb s1) ?d = (objView kec (sdb s1) c)\<lparr>aCodeHash := ?h, aCode := bytesOf code\<rparr>" "objOk kec (sdb s1) ?d"
    using objView_simps(5) [of kec "sdb s1" True ?c] objOk_simps(8) [of kec "sdb s1" True ?c] objOk_code [OF c1(1), of ?h code] c1(5)
    by simp_all
  have "length (CodeHash (odata c)) = 32" using c(1) by (simp add: objOk_def)
  then have u: "vundo kec (sdb s1) (readAccount kec s1) ?e (setAcct a (objView kec (sdb s1) ?d) (vabs kec s1)) = Some (vabs kec s1)"
    using liveAt_vabs [OF 1(3)] pc(3) objView_back(5) [of kec "sdb s1" c] unfolding d(1) by simp
  have eq: "SetCodeObj kec (kec (bytesOf code)) code c s1 = onObj (setCodeObj (kec (bytesOf code)) code) c1 (addJournal ?e s1)"
    using pc(1) c1(2,4) by (simp add: SetCodeObj_def)
  note j = journaled_put [OF 1(1), of "setCodeObj (kec (bytesOf code)) code" c1 ?d, OF _ d(2) _ _ u]
  show ?case unfolding eq
    using j c1(2,3) d(1) 1(2,4,5) by (intro exI [of _ "[?e]"]) (simp add: setCodeObj_def)
qed

lemma SetState_does: 
  assumes "stateOk kec s"
  shows "does kec s (SetState kec a k x s)
      (setAcct a ((acctAt kec a (vabs kec s))\<lparr>aStorage := (aStorage (acctAt kec a (vabs kec s)))(k := x)\<rparr>) (vabs kec s))"
proof -
  obtain c s1 es where g: "GetOrNewStateObject kec a s = Some (c, s1)" "liveAt kec s1 a c" "logged kec s es s1"
    "objView kec (sdb s) c = acctAt kec a (vabs kec s)" "vabs kec s1 = setAcct a (acctAt kec a (vabs kec s)) (vabs kec s)"
    using GetOrNew_spec [OF assms(1)] by blast
  have s1: "stateOk kec s1" "sdb s1 = sdb s" using g(3) by (auto simp: logged_def sameFrame_def)
  have c: "objOk kec (sdb s1) c" "oaddr c = a" "\<not> deleted c" using g(2) by (simp_all add: liveAt_def)
  obtain c1 where c1: "GetStateObj kec (sdb s1) k c = Some (storageView kec (sdb s1) c k, c1)" "sameObj kec (sdb s1) c c1"
    using GetStateObj_spec [OF c(1)] by blast
  let ?e = "storageChange a k (storageView kec (sdb s1) c k)"
  let ?c = "c1\<lparr>cachedStorage := (cachedStorage c1)(k \<mapsto> x)\<rparr>"
  let ?d = "c1\<lparr>cachedStorage := (cachedStorage c1)(k \<mapsto> x), dirtyStorage := (dirtyStorage c1)(k \<mapsto> x)\<rparr>"
  have v: "objView kec (sdb s1) c1 = objView kec (sdb s1) c" "objOk kec (sdb s1) c1" "oaddr c1 = a" "\<not> deleted c1"
    using c1(2) c by (auto simp: sameObj_def)
  then have st: "storageView kec (sdb s1) c1 = storageView kec (sdb s1) c" by (metis objView_sel(5))
  have d: "objView kec (sdb s1) ?d = (objView kec (sdb s1) c)\<lparr>aStorage := (storageView kec (sdb s1) c)(k := x)\<rparr>" "objOk kec (sdb s1) ?d"
    using objView_simps(4) [of kec "sdb s1" "(dirtyStorage c1)(k \<mapsto> x)" ?c] objOk_simps(7) [of kec "sdb s1" "(dirtyStorage c1)(k \<mapsto> x)" ?c] v(1,2) st
    by simp_all
  have u: "vundo kec (sdb s1) (readAccount kec s1) ?e (setAcct a (objView kec (sdb s1) ?d) (vabs kec s1)) = Some (vabs kec s1)"
    using liveAt_vabs [OF g(2)] objView_back(3) [of kec "sdb s1" c] unfolding d(1) by simp
  note j = journaled_put [OF s1(1), of "setStateObj k x" c1 ?d, OF _ d(2) _ _ u]
  let ?s = "let (c', s2) = onObj (setStateObj k x) c1 (addJournal ?e s1) in setStateObject c' s2"
  have "SetState kec a k x s = Some ?s"
    using g(1) c1(1) v(3) by (simp add: SetState_def SetStateObj_def split: prod.splits)
  moreover have "logged kec s1 [?e] ?s" "vabs kec ?s = setAcct a (objView kec (sdb s1) ?d) (vabs kec s1)"
    using j v(3,4) by (simp_all add: setStateObj_def)
  moreover have "objView kec (sdb s1) ?d = (acctAt kec a (vabs kec s))\<lparr>aStorage := (aStorage (acctAt kec a (vabs kec s)))(k := x)\<rparr>"
    using d(1) g(4) s1(2) by (metis objView_sel(5))
  ultimately show ?thesis using logged_trans [OF g(3)] g(5) unfolding does_def by fastforce
qed

lemma Suicide_does:
  assumes "stateOk kec s"
  shows "does kec s (map_option snd (Suicide kec a s))
    (case vAccts (vabs kec s) a of None \<Rightarrow> vabs kec s | Some ac \<Rightarrow> setAcct a (ac\<lparr>aSuicided := True, aBalance := 0\<rparr>) (vabs kec s))"
proof -
  obtain obj s1 where g: "getStateObject kec a s = Some (obj, s1)" "quiet kec s s1"
    "case obj of None \<Rightarrow> sview kec s a = None \<and> readAccount kec s a = None | Some c \<Rightarrow> liveAt kec s1 a c"
    using getStateObject_spec [OF assms] by blast
  have s1: "stateOk kec s1" "sdb s1 = sdb s" "sview kec s1 = sview kec s" "vabs kec s1 = vabs kec s"
    using g(2) quiet_vabs [OF g(2)] by (auto simp: quiet_def sameFrame_def)
  show ?thesis
  proof (cases obj)
    case None
    then show ?thesis using g does_quiet [OF g(2)] by (simp add: Suicide_def)
  next
    case (Some c)
    then have c: "liveAt kec s1 a c" using g(3) by simp
    let ?e = "suicideChange a (suicided c) (Balance (odata c))"
    let ?d = "c\<lparr>suicided := True, odata := (odata c)\<lparr>Balance := 0\<rparr>\<rparr>"
    let ?f = "\<lambda>c. let (c', b) = markSuicided c in (c'\<lparr>odata := (odata c')\<lparr>Balance := 0\<rparr>\<rparr>, b)"
    have f: "?f c = callDirty ?d" by (simp add: markSuicided_def callDirty_def)
    have d: "objView kec (sdb s1) ?d = (objView kec (sdb s1) c)\<lparr>aSuicided := True, aBalance := 0\<rparr>" "objOk kec (sdb s1) ?d" "\<not> deleted ?d" "oaddr ?d = a"
      using objView_simps(7) [of kec "sdb s1" 0 "c\<lparr>suicided := True\<rparr>"] objOk_simps(4) [of kec "sdb s1" 0 "c\<lparr>suicided := True\<rparr>"] c
      by (simp_all add: liveAt_def)
    have u: "vundo kec (sdb s1) (readAccount kec s1) ?e (setAcct a (objView kec (sdb s1) ?d) (vabs kec s1)) = Some (vabs kec s1)"
      using liveAt_vabs [OF c] objView_back(4) [where kec = kec and db = "sdb s1" and c = c] unfolding d(1) by simp
    let ?s = "let (c', s2) = onObj ?f c (addJournal ?e s1) in setStateObject c' s2"
    have "Suicide kec a s = Some (True, ?s)"
      using g(1) Some by (simp add: Suicide_def onObj_def markSuicided_def callDirty_def)
    moreover have "logged kec s1 [?e] ?s" "vabs kec ?s = setAcct a (objView kec (sdb s1) ?d) (vabs kec s1)"
      using journaled_put [where f = ?f, OF s1(1) f d(2-4) u] .
    moreover have "vAccts (vabs kec s) a = Some (objView kec (sdb s1) c)" using liveAt_vabs [OF c] s1(4) by simp
    ultimately show ?thesis using logged_trans [OF quiet_logged [OF g(2)]] s1(4) d(1)
      by (auto simp: does_def)
  qed
qed

lemma CreateAccount_does:
  assumes "stateOk kec s"
  shows "does kec s (CreateAccount kec a s)
    (setAcct a ((freshAccount kec)\<lparr>aBalance := (case vAccts (vabs kec s) a of None \<Rightarrow> 0 | Some ac \<Rightarrow> aBalance ac)\<rparr>) (vabs kec s))"
proof -
  obtain c prev s1 e where c: "createObject kec a s = Some (c, prev, s1)" "liveAt kec s1 a c"
    "objView kec (sdb s) c = freshAccount kec" "onDirty c = False" "map_option (objView kec (sdb s)) prev = sview kec s a"
    "logged kec s [e] s1" "vabs kec s1 = setAcct a (freshAccount kec) (vabs kec s)"
    using createObject_spec [OF assms] by blast
  have s1: "stateOk kec s1" "sdb s1 = sdb s" "readAccount kec s1 = readAccount kec s" using c(6) by (auto simp: logged_def sameFrame_def)
  show ?thesis
  proof (cases prev)
    case None
    then have "sview kec s a = None" using c(5) by simp
    then show ?thesis using None c by (auto simp: CreateAccount_def does_def freshAccount_def)
  next
    case (Some p)
    let ?b = "Balance (odata p)" let ?d = "c\<lparr>odata := (odata c)\<lparr>Balance := ?b\<rparr>\<rparr>"
    let ?s = "let (c', s2) = onObj (setBalanceObj ?b) c s1 in setStateObject c' s2"
    have a: "sview kec s a = Some (objView kec (sdb s) p)" using c(5) Some by simp
    have d: "setBalanceObj ?b c = callDirty ?d" "objOk kec (sdb s1) ?d" "\<not> deleted ?d" "oaddr ?d = a"
      using c(2) by (simp_all add: setBalanceObj_def liveAt_def)
    note put = onObj_put [where f = "setBalanceObj ?b", OF s1(1) d(1-3)]
    have v: "vabs kec ?s = setAcct a ((freshAccount kec)\<lparr>aBalance := ?b\<rparr>) (vabs kec s)"
      using putsAcct_vabs [OF put(1)] c(3,7) d(4) s1(2) by simp
    have eq: "CreateAccount kec a s = Some ?s" using c(1) Some by (simp add: CreateAccount_def split: prod.splits)
    have "vundo kec (sdb s) (readAccount kec s) e (vabs kec ?s) = Some (vabs kec s)"
    proof -
      have "vundo kec (sdb s) (readAccount kec s) e (setAcct a (freshAccount kec) (vabs kec s)) = Some (vabs kec s)"
        using c(6,7) by (simp add: logged_def bind_eq_Some_conv)
      moreover have "vundo kec (sdb s) (readAccount kec s) e (setAcct a x (vabs kec s)) =
        vundo kec (sdb s) (readAccount kec s) e (setAcct a y (vabs kec s))" if "e = resetObjectChange p" "oaddr p = a" for x y
        using that by simp
      moreover have "e = resetObjectChange p \<and> oaddr p = a"
      proof -
        obtain obj s0 where g: "getStateObject kec a s = Some (obj, s0)" "quiet kec s s0"
          "case obj of None \<Rightarrow> sview kec s a = None \<and> readAccount kec s a = None | Some c \<Rightarrow> liveAt kec s0 a c"
          using getStateObject_spec [OF assms] by blast
        then have "obj = Some p" "journal s1 = journal s @ [resetObjectChange p]"
          using c(1) Some by (auto simp: createObject_def onObj_def setNonceObj_def callDirty_def Let_def quiet_def MarkStateObjectDirty_def split: if_splits)
        then show ?thesis using c(6) g(3) by (simp add: logged_def liveAt_def)
      qed
      ultimately show ?thesis unfolding v by metis
    qed
    moreover have "putsAcct kec s1 a ((freshAccount kec)\<lparr>aBalance := ?b\<rparr>) ?s" using put(1) c(3) d(4) s1(2) by simp
    ultimately have "logged kec s [e] ?s"
      using put(2) c(6) sameFrame_trans by (auto simp: logged_def putsAcct_def)
    then show ?thesis using v eq a by (auto simp: does_def)
  qed
qed

lemma AddRefund_does: "stateOk kec s \<Longrightarrow> does kec s (Some (AddRefund g s)) ((vabs kec s)\<lparr>vRefund := refund s + g\<rparr>)"
  unfolding does_def
  by (intro exI [of _ "AddRefund g s"] exI [of _ "[refundChange (refund s)]"])
    (simp add: AddRefund_def logged_def sameFrame_def vabs_def GetLogs_def addJournal_def)

lemma AddPreimage_does: "stateOk kec s \<Longrightarrow>
    does kec s (Some (AddPreimage h p s)) (if preimages s h = None then (vabs kec s)\<lparr>vPreimages := (preimages s)(h \<mapsto> p)\<rparr> else vabs kec s)"
  unfolding does_def
  by (intro exI [of _ "AddPreimage h p s"] exI [of _ "if preimages s h = None then [addPreimageChange h] else []"])
    (auto simp: AddPreimage_def logged_def sameFrame_def vabs_def GetLogs_def addJournal_def fun_upd_idem)

definition fillLog :: "hash256 \<Rightarrow> hash256 \<Rightarrow> u64 \<Rightarrow> Log \<Rightarrow> vstate \<Rightarrow> vstate" where
  "fillLog th bh ti l v =
     v\<lparr>vLogs := (vLogs v)(th := vLogs v th @ [l\<lparr>logTxHash := th, logBlockHash := bh, logTxIndex := ti, logIndex := vLogSize v\<rparr>]),
       vLogSize := vLogSize v + 1\<rparr>"

lemma AddLog_does:
  assumes "stateOk kec s"
  shows "does kec s (Some (AddLog l s)) (fillLog (thash s) (bhash s) (txIndex s) l (vabs kec s))"
proof -
  have v: "vabs kec (AddLog l s) = fillLog (thash s) (bhash s) (txIndex s) l (vabs kec s)"
    by (simp add: vabs_def AddLog_def fillLog_def Let_def addJournal_def) (auto simp: GetLogs_def fun_eq_iff)
  have "vundo kec (sdb s) (readAccount kec s) (addLogChange (thash s)) (fillLog (thash s) (bhash s) (txIndex s) l (vabs kec s)) = Some (vabs kec s)"
    by (simp add: fillLog_def vabs_def fun_upd_idem)
  then have "logged kec s [addLogChange (thash s)] (AddLog l s)"
    using assms by (simp add: logged_def v) (simp add: AddLog_def addJournal_def sameFrame_def Let_def)
  then show ?thesis using v by (auto simp: does_def)
qed

text \<open>Reading changes nothing that is shown.\<close>

lemma getStateObject_quiet: "stateOk kec s \<Longrightarrow> \<exists>obj s'. getStateObject kec a s = Some (obj, s') \<and> quiet kec s s'"
  using getStateObject_spec by metis

lemma GetState_quiet:
  assumes "stateOk kec s"
  shows "\<exists>s'. GetState kec a k s = Some (case sview kec s a of None \<Rightarrow> 0 | Some ac \<Rightarrow> aStorage ac k, s') \<and> quiet kec s s'"
proof -
  obtain obj s1 where g: "getStateObject kec a s = Some (obj, s1)" "quiet kec s s1"
    "case obj of None \<Rightarrow> sview kec s a = None \<and> readAccount kec s a = None | Some c \<Rightarrow> liveAt kec s1 a c"
    using getStateObject_spec [OF assms] by blast
  show ?thesis
  proof (cases obj)
    case None
    then show ?thesis using g by (simp add: GetState_def)
  next
    case (Some c)
    then have c: "liveAt kec s1 a c" "objOk kec (sdb s1) c" using g(3) by (simp_all add: liveAt_def)
    have s1: "stateOk kec s1" using g(2) by (simp add: quiet_def)
    obtain c' where c': "GetStateObj kec (sdb s1) k c = Some (storageView kec (sdb s1) c k, c')" "sameObj kec (sdb s1) c c'"
      using GetStateObj_spec [OF c(2)] by blast
    have "sview kec s a = Some (objView kec (sdb s1) c)" using liveAt_view [OF c(1)] g(2) by (simp add: quiet_def)
    then show ?thesis using Some g(1) c'(1) quiet_trans [OF g(2) sameObj_put(1) [OF s1 c(1) c'(2)]]
      by (simp add: GetState_def)
  qed
qed

lemma GetCode_quiet:
  assumes "stateOk kec s"
  shows "\<exists>code s'. GetCode kec a s = Some (code, s') \<and> quiet kec s s' \<and> bytesOf code = (case sview kec s a of None \<Rightarrow> [] | Some ac \<Rightarrow> aCode ac)"
proof -
  obtain obj s1 where g: "getStateObject kec a s = Some (obj, s1)" "quiet kec s s1"
    "case obj of None \<Rightarrow> sview kec s a = None \<and> readAccount kec s a = None | Some c \<Rightarrow> liveAt kec s1 a c"
    using getStateObject_spec [OF assms] by blast
  show ?thesis
  proof (cases obj)
    case None
    then show ?thesis using g by (simp add: GetCode_def bytesOf_def)
  next
    case (Some c)
    then have c: "liveAt kec s1 a c" "objOk kec (sdb s1) c" using g(3) by (simp_all add: liveAt_def)
    have s1: "stateOk kec s1" using g(2) by (simp add: quiet_def)
    obtain code c' where c': "CodeObj kec (sdb s1) c = (code, c')" "sameObj kec (sdb s1) c c'" using CodeObj_spec [OF c(2)] by blast
    have "sview kec s a = Some (objView kec (sdb s1) c)" using liveAt_view [OF c(1)] g(2) by (simp add: quiet_def)
    moreover have "bytesOf code = codeView kec (sdb s1) c" using c'(1) by (simp add: codeView_def bytesOf_def)
    ultimately show ?thesis using Some g(1) c'(1) quiet_trans [OF g(2) sameObj_put(1) [OF s1 c(1) c'(2)]]
      by (simp add: GetCode_def)
  qed
qed

end
