(* ===== verification/StateMachine.thy ===== *)
theory StateMachine
  imports StateRefine
begin

text \<open>The state with its snapshots as a machine that keeps copies of whole states: the operations of
  \<^verbatim>\<open>core/state/statedb.go\<close> as a datatype, their sequences, and the refinement of the
  journal to the stack of saved states.\<close>

section \<open>The state as a machine with a stack of saved states\<close>

datatype stateOp =
    OpAddBalance address int | OpSubBalance address int | OpSetBalance address int | OpSetNonce address u64
  | OpSetCode address "bytes option" | OpSetState address hash256 hash256 | OpSuicide address | OpCreateAccount address
  | OpAddRefund u64 | OpAddLog Log | OpAddPreimage hash256 bytes
  | OpRead address | OpReadState address hash256 | OpReadCode address
  | OpSnapshot | OpRevert nat

primrec runOp :: "hashfun \<Rightarrow> stateOp \<Rightarrow> StateDB \<Rightarrow> StateDB option" where
  "runOp kec (OpAddBalance a x) s = AddBalance kec a x s"
| "runOp kec (OpSubBalance a x) s = SubBalance kec a x s"
| "runOp kec (OpSetBalance a x) s = SetBalance kec a x s"
| "runOp kec (OpSetNonce a n) s = SetNonce kec a n s"
| "runOp kec (OpSetCode a code) s = SetCode kec a code s"
| "runOp kec (OpSetState a k x) s = SetState kec a k x s"
| "runOp kec (OpSuicide a) s = map_option snd (Suicide kec a s)"
| "runOp kec (OpCreateAccount a) s = CreateAccount kec a s"
| "runOp kec (OpAddRefund g) s = Some (AddRefund g s)"
| "runOp kec (OpAddLog l) s = Some (AddLog l s)"
| "runOp kec (OpAddPreimage h p) s = Some (AddPreimage h p s)"
| "runOp kec (OpRead a) s = map_option snd (getStateObject kec a s)"
| "runOp kec (OpReadState a k) s = map_option snd (GetState kec a k s)"
| "runOp kec (OpReadCode a) s = map_option snd (GetCode kec a s)"
| "runOp kec OpSnapshot s = Some (snd (Snapshot s))"
| "runOp kec (OpRevert n) s = RevertToSnapshot kec n s"

fun runOps :: "hashfun \<Rightarrow> stateOp list \<Rightarrow> StateDB \<Rightarrow> StateDB option" where
  "runOps kec [] s = Some s"
| "runOps kec (op # ops) s = Option.bind (runOp kec op s) (runOps kec ops)"

record machine =
  current :: vstate
  saved :: "(nat \<times> vstate) list"
  nextId :: nat

text \<open>What an operation does to what the state shows; \<open>th\<close>, \<open>bh\<close> and \<open>ti\<close> are the transaction.\<close>

primrec specOp :: "hashfun \<Rightarrow> hash256 \<Rightarrow> hash256 \<Rightarrow> u64 \<Rightarrow> stateOp \<Rightarrow> vstate \<Rightarrow> vstate" where
  "specOp kec th bh ti (OpAddBalance a x) v = (let ac = acctAt kec a v in setAcct a (ac\<lparr>aBalance := aBalance ac + x\<rparr>) v)"
| "specOp kec th bh ti (OpSubBalance a x) v = (let ac = acctAt kec a v in setAcct a (ac\<lparr>aBalance := aBalance ac - x\<rparr>) v)"
| "specOp kec th bh ti (OpSetBalance a x) v = setAcct a ((acctAt kec a v)\<lparr>aBalance := x\<rparr>) v"
| "specOp kec th bh ti (OpSetNonce a n) v = setAcct a ((acctAt kec a v)\<lparr>aNonce := n\<rparr>) v"
| "specOp kec th bh ti (OpSetCode a code) v =
     setAcct a ((acctAt kec a v)\<lparr>aCodeHash := hash_bytes (kec (bytesOf code)), aCode := bytesOf code\<rparr>) v"
| "specOp kec th bh ti (OpSetState a k x) v = (let ac = acctAt kec a v in setAcct a (ac\<lparr>aStorage := (aStorage ac)(k := x)\<rparr>) v)"
| "specOp kec th bh ti (OpSuicide a) v =
     (case vAccts v a of None \<Rightarrow> v | Some ac \<Rightarrow> setAcct a (ac\<lparr>aSuicided := True, aBalance := 0\<rparr>) v)"
| "specOp kec th bh ti (OpCreateAccount a) v =
     setAcct a ((freshAccount kec)\<lparr>aBalance := (case vAccts v a of None \<Rightarrow> 0 | Some ac \<Rightarrow> aBalance ac)\<rparr>) v"
| "specOp kec th bh ti (OpAddRefund g) v = v\<lparr>vRefund := vRefund v + g\<rparr>"
| "specOp kec th bh ti (OpAddLog l) v = fillLog th bh ti l v"
| "specOp kec th bh ti (OpAddPreimage h p) v =
     (if vPreimages v h = None then v\<lparr>vPreimages := (vPreimages v)(h \<mapsto> p)\<rparr> else v)"
| "specOp kec th bh ti (OpRead a) v = v"
| "specOp kec th bh ti (OpReadState a k) v = v"
| "specOp kec th bh ti (OpReadCode a) v = v"
| "specOp kec th bh ti OpSnapshot v = v"
| "specOp kec th bh ti (OpRevert n) v = v"

definition specStep :: "hashfun \<Rightarrow> hash256 \<Rightarrow> hash256 \<Rightarrow> u64 \<Rightarrow> stateOp \<Rightarrow> machine \<Rightarrow> machine option" where
  "specStep kec th bh ti op m =
     (case op of
        OpSnapshot \<Rightarrow> Some (m\<lparr>saved := saved m @ [(nextId m, current m)], nextId := nextId m + 1\<rparr>)
      | OpRevert n \<Rightarrow>
          map_option (\<lambda>v. m\<lparr>current := v, saved := takeWhile (\<lambda>(i, _). i \<noteq> n) (saved m)\<rparr>) (map_of (saved m) n)
      | _ \<Rightarrow> Some (m\<lparr>current := specOp kec th bh ti op (current m)\<rparr>))"

lemma specStep_simps [simp]:
  "specStep kec th bh ti OpSnapshot m = Some (m\<lparr>saved := saved m @ [(nextId m, current m)], nextId := nextId m + 1\<rparr>)"
  "specStep kec th bh ti (OpRevert n) m =
     map_option (\<lambda>v. m\<lparr>current := v, saved := takeWhile (\<lambda>(i, _). i \<noteq> n) (saved m)\<rparr>) (map_of (saved m) n)"
  by (simp_all add: specStep_def)

fun specRun :: "hashfun \<Rightarrow> hash256 \<Rightarrow> hash256 \<Rightarrow> u64 \<Rightarrow> stateOp list \<Rightarrow> machine \<Rightarrow> machine option" where
  "specRun kec th bh ti [] m = Some m"
| "specRun kec th bh ti (op # ops) m = Option.bind (specStep kec th bh ti op m) (specRun kec th bh ti ops)"

definition savedOk :: "hashfun \<Rightarrow> StateDB \<Rightarrow> nat \<times> nat \<Rightarrow> nat \<times> vstate \<Rightarrow> bool" where
  "savedOk kec s r p \<longleftrightarrow> fst r = fst p \<and> snd r \<le> length (journal s) \<and>
     vundoAll kec (sdb s) (readAccount kec s) (rev (drop (snd r) (journal s))) (vabs kec s) = Some (snd p)"

definition simulates :: "hashfun \<Rightarrow> StateDB \<Rightarrow> machine \<Rightarrow> bool" where
  "simulates kec s m \<longleftrightarrow> stateOk kec s \<and> vabs kec s = current m \<and> nextRevisionId s = nextId m \<and>
     sorted_wrt (<) (map fst (validRevisions s)) \<and> (\<forall>r \<in> set (validRevisions s). fst r < nextId m) \<and>
     sorted (map snd (validRevisions s)) \<and> list_all2 (savedOk kec s) (validRevisions s) (saved m)"

lemma simulates_logged:
  assumes "simulates kec s m" "logged kec s es s'" "vabs kec s' = v"
  shows "simulates kec s' (m\<lparr>current := v\<rparr>)"
proof -
  have fr: "stateOk kec s'" "readAccount kec s' = readAccount kec s" "sdb s' = sdb s" "validRevisions s' = validRevisions s"
    "nextRevisionId s' = nextRevisionId s" "journal s' = journal s @ es"
    "vundoAll kec (sdb s) (readAccount kec s) (rev es) (vabs kec s') = Some (vabs kec s)"
    using assms(2) by (auto simp: logged_def sameFrame_def)
  have "savedOk kec s' r p" if "savedOk kec s r p" for r p
    using that fr by (auto simp: savedOk_def vundoAll_append)
  then have "list_all2 (savedOk kec s') (validRevisions s') (saved m)"
    using assms(1) fr(4) unfolding simulates_def by (auto intro: list_all2_mono)
  then show ?thesis using assms(1,3) fr by (simp add: simulates_def)
qed

lemma simulates_snapshot:
  assumes "simulates kec s m"
  shows "simulates kec (snd (Snapshot s)) (m\<lparr>saved := saved m @ [(nextId m, current m)], nextId := nextId m + 1\<rparr>)"
proof -
  let ?s = "snd (Snapshot s)"
  have same: "journal ?s = journal s" "sdb ?s = sdb s" "readAccount kec ?s = readAccount kec s" "vabs kec ?s = vabs kec s" "stateOk kec ?s = stateOk kec s"
    by (simp_all add: Snapshot_def vabs_def GetLogs_def)
  have "savedOk kec ?s r p" if "savedOk kec s r p" for r p using that by (simp add: savedOk_def same)
  then have "list_all2 (savedOk kec ?s) (validRevisions s) (saved m)"
    using assms unfolding simulates_def by (auto intro: list_all2_mono)
  moreover have "savedOk kec ?s (nextRevisionId s, length (journal s)) (nextId m, current m)"
    using assms by (simp add: savedOk_def same simulates_def)
  ultimately have all: "list_all2 (savedOk kec ?s) (validRevisions s @ [(nextRevisionId s, length (journal s))]) (saved m @ [(nextId m, current m)])"
    by (intro list_all2_appendI) simp_all
  have "\<forall>r \<in> set (validRevisions s). snd r \<le> length (journal s)"
    using assms unfolding simulates_def savedOk_def list_all2_conv_all_nth by (metis in_set_conv_nth)
  moreover have "validRevisions ?s = validRevisions s @ [(nextRevisionId s, length (journal s))]" "nextRevisionId ?s = nextRevisionId s + 1"
    by (simp_all add: Snapshot_def)
  ultimately show ?thesis using assms all
    by (auto simp: simulates_def same sorted_append sorted_wrt_append less_Suc_eq)
qed


text \<open>Binary search on a test that stays true.\<close>

lemma searchFrom_spec:
  assumes "i \<le> j" "\<And>x y. i \<le> x \<Longrightarrow> x \<le> y \<Longrightarrow> y < j \<Longrightarrow> P x \<Longrightarrow> P y"
  shows "i \<le> searchFrom P i j \<and> searchFrom P i j \<le> j \<and> (\<forall>x. i \<le> x \<and> x < searchFrom P i j \<longrightarrow> \<not> P x) \<and>
    (searchFrom P i j < j \<longrightarrow> P (searchFrom P i j))"
  using assms
proof (induction P i j rule: searchFrom.induct)
  case (1 P i j)
  show ?case
  proof (cases "i < j")
    case False
    then have "searchFrom P i j = i" "i = j" using 1(3) by (simp_all add: searchFrom.simps)
    then show ?thesis by auto
  next
    case True
    let ?h = "(i + j) div 2"
    have h: "i \<le> ?h" "?h < j" using True by auto
    show ?thesis
    proof (cases "P ?h")
      case P: True
      have "searchFrom P i j = searchFrom P i ?h" using True P by (subst searchFrom.simps) (simp add: Let_def)
      moreover have "i \<le> searchFrom P i ?h \<and> searchFrom P i ?h \<le> ?h \<and> (\<forall>x. i \<le> x \<and> x < searchFrom P i ?h \<longrightarrow> \<not> P x) \<and>
          (searchFrom P i ?h < ?h \<longrightarrow> P (searchFrom P i ?h))"
        by (rule 1(1) [OF True refl P h(1)]) (use 1(4) h(2) in \<open>meson less_trans\<close>)
      ultimately show ?thesis using P h by (metis le_neq_implies_less less_imp_le order.strict_trans2 order_trans)
    next
      case P: False
      have "searchFrom P i j = searchFrom P (?h + 1) j" using True P by (subst searchFrom.simps) (simp add: Let_def)
      moreover have IH: "?h + 1 \<le> searchFrom P (?h + 1) j \<and> searchFrom P (?h + 1) j \<le> j \<and>
          (\<forall>x. ?h + 1 \<le> x \<and> x < searchFrom P (?h + 1) j \<longrightarrow> \<not> P x) \<and> (searchFrom P (?h + 1) j < j \<longrightarrow> P (searchFrom P (?h + 1) j))"
        by (rule 1(2) [OF True refl P]) (use h in simp, use 1(4) h(1) in \<open>meson le_trans le_add1\<close>)
      moreover have "\<not> P x" if x: "i \<le> x" "x < ?h + 1" for x
      proof
        assume "P x"
        moreover have "x \<le> ?h" using x(2) by simp
        ultimately show False using 1(4) [OF x(1) _ h(2)] P by blast
      qed
      ultimately show ?thesis using h(1) by (metis le_trans not_less le_add1)
    qed
  qed
qed

lemma search_ids:
  fixes rs :: "(nat \<times> 'b) list"
  assumes "sorted_wrt (<) (map fst rs)"
  shows "searchFrom (\<lambda>i. fst (rs ! i) \<ge> n) 0 (length rs) \<le> length rs"
    "x < searchFrom (\<lambda>i. fst (rs ! i) \<ge> n) 0 (length rs) \<Longrightarrow> fst (rs ! x) < n"
    "searchFrom (\<lambda>i. fst (rs ! i) \<ge> n) 0 (length rs) < length rs \<Longrightarrow> fst (rs ! searchFrom (\<lambda>i. fst (rs ! i) \<ge> n) 0 (length rs)) \<ge> n"
proof -
  let ?P = "\<lambda>i. fst (rs ! i) \<ge> n"
  have "?P y" if "0 \<le> x" "x \<le> y" "y < length rs" "?P x" for x y
  proof (cases "x = y")
    case False
    then have "fst (rs ! x) < fst (rs ! y)" using assms that by (simp add: sorted_wrt_iff_nth_less)
    then show ?thesis using that by simp
  qed (use that in simp)
  from searchFrom_spec [of 0 "length rs" ?P, OF _ this]
  show "searchFrom ?P 0 (length rs) \<le> length rs" "x < searchFrom ?P 0 (length rs) \<Longrightarrow> fst (rs ! x) < n"
    "searchFrom ?P 0 (length rs) < length rs \<Longrightarrow> fst (rs ! searchFrom ?P 0 (length rs)) \<ge> n" by (auto simp: not_le)
qed

lemma searchFrom_found:
  fixes rs :: "(nat \<times> 'b) list"
  assumes "sorted_wrt (<) (map fst rs)" "k < length rs" "fst (rs ! k) = n"
  shows "searchFrom (\<lambda>i. fst (rs ! i) \<ge> n) 0 (length rs) = k"
proof -
  let ?r = "searchFrom (\<lambda>i. fst (rs ! i) \<ge> n) 0 (length rs)"
  have "\<not> k < ?r" using search_ids(2) [OF assms(1), of k n] assms(3) by auto
  moreover have "\<not> ?r < k"
  proof
    assume r: "?r < k"
    then have "fst (rs ! ?r) < n" using assms by (auto simp: sorted_wrt_iff_nth_less)
    then show False using search_ids(3) [OF assms(1), of n] r assms(2) by simp
  qed
  ultimately show ?thesis by simp
qed

lemma searchFrom_missing:
  fixes rs :: "(nat \<times> 'b) list"
  assumes "sorted_wrt (<) (map fst rs)" "n \<notin> fst ` set rs"
  shows "searchFrom (\<lambda>i. fst (rs ! i) \<ge> n) 0 (length rs) = length rs \<or>
    fst (rs ! searchFrom (\<lambda>i. fst (rs ! i) \<ge> n) 0 (length rs)) \<noteq> n"
  using search_ids(1) [OF assms(1), of n] assms(2) by (metis image_eqI le_neq_implies_less nth_mem)

section \<open>Refinement\<close>

lemma simulates_revert:
  assumes "simulates kec s m" "map_of (saved m) n = Some v"
  shows "\<exists>s'. RevertToSnapshot kec n s = Some s' \<and> simulates kec s' (m\<lparr>current := v, saved := takeWhile (\<lambda>(i, _). i \<noteq> n) (saved m)\<rparr>) \<and>
    thash s' = thash s \<and> bhash s' = bhash s \<and> txIndex s' = txIndex s"
proof -
  let ?rs = "validRevisions s"
  have sim: "stateOk kec s" "vabs kec s = current m" "nextRevisionId s = nextId m" "sorted_wrt (<) (map fst ?rs)"
    "\<forall>r \<in> set ?rs. fst r < nextId m" "sorted (map snd ?rs)" "list_all2 (savedOk kec s) ?rs (saved m)"
    using assms(1) by (auto simp: simulates_def)
  have ids: "map fst ?rs = map fst (saved m)" using sim(7) by (auto simp: list_all2_conv_all_nth savedOk_def intro!: nth_equalityI)
  obtain k where k: "k < length (saved m)" "saved m ! k = (n, v)"
    using map_of_SomeD [OF assms(2)] by (auto simp: in_set_conv_nth)
  have len: "length ?rs = length (saved m)" using sim(7) by (rule list_all2_lengthD)
  have rk: "savedOk kec s (?rs ! k) (n, v)" using sim(7) k by (auto simp: list_all2_conv_all_nth)
  then have fk: "fst (?rs ! k) = n" by (simp add: savedOk_def)
  let ?i = "snd (?rs ! k)"
  have idx: "searchFrom (\<lambda>i. fst (?rs ! i) \<ge> n) 0 (length ?rs) = k"
    using searchFrom_found [OF sim(4) _ fk] k(1) len by simp
  obtain s1 where s1: "undoAll kec (rev (drop ?i (journal s))) s = Some s1" "undone kec s v s1"
    using undoAll_spec [OF sim(1)] rk by (auto simp: savedOk_def)
  let ?s = "s1\<lparr>journal := take ?i (journal s1), validRevisions := take k (validRevisions s1)\<rparr>"
  have rev: "RevertToSnapshot kec n s = Some ?s"
    using idx k(1) len fk s1(1) by (simp add: RevertToSnapshot_def Let_def)
  have s1': "journal s1 = journal s" "validRevisions s1 = ?rs" "sdb s1 = sdb s" "readAccount kec s1 = readAccount kec s"
    "vabs kec s1 = v" "stateOk kec s1" "nextRevisionId s1 = nextId m"
    using s1(2) sim(3) by (auto simp: undone_def sameFrame_def)
  have tw: "takeWhile (\<lambda>(i, _). i \<noteq> n) (saved m) = take k (saved m)"
  proof (rule takeWhile_eq_take_P_nth)
    fix j assume j: "j < k" "j < length (saved m)"
    then have "fst (?rs ! j) < fst (?rs ! k)" using sim(4) k(1) len by (auto simp: sorted_wrt_iff_nth_less)
    then show "(\<lambda>(i, _). i \<noteq> n) (saved m ! j)" using fk ids j(2) len by (metis (mono_tags, lifting) case_prod_beta nat_neq_iff nth_map)
  qed (use k in simp)
  have "savedOk kec ?s (?rs ! j) (saved m ! j)" if j: "j < k" for j
  proof -
    have ok: "savedOk kec s (?rs ! j) (saved m ! j)" using sim(7) j k(1) by (auto simp: list_all2_conv_all_nth)
    have "snd (?rs ! j) \<le> ?i" using sim(6) j k(1) len by (auto simp: sorted_iff_nth_mono)
    then have "drop (snd (?rs ! j)) (journal s) = drop (snd (?rs ! j)) (take ?i (journal s)) @ drop ?i (journal s)"
      using rk by (metis (no_types, lifting) append_take_drop_id drop_append diff_is_0_eq drop_0 length_take min.absorb2 savedOk_def)
    then show ?thesis using ok rk \<open>snd (?rs ! j) \<le> ?i\<close> s1'
      by (auto simp: savedOk_def vundoAll_append vabs_def GetLogs_def)
  qed
  then have "list_all2 (savedOk kec ?s) (take k ?rs) (take k (saved m))"
    using k(1) len by (auto simp: list_all2_conv_all_nth)
  moreover have "vabs kec ?s = v" using s1'(5) by (simp add: vabs_def GetLogs_def)
  ultimately have "simulates kec ?s (m\<lparr>current := v, saved := take k (saved m)\<rparr>)"
    using s1' sim(4-6) by (auto simp: simulates_def take_map [symmetric] sorted_wrt_take dest: in_set_takeD)
  moreover have "thash ?s = thash s" "bhash ?s = bhash s" "txIndex ?s = txIndex s" using s1(2) by (simp_all add: undone_def sameFrame_def)
  ultimately show ?thesis using rev tw by auto
qed

definition sameTx :: "StateDB \<Rightarrow> StateDB \<Rightarrow> bool" where
  "sameTx s s' \<longleftrightarrow> thash s' = thash s \<and> bhash s' = bhash s \<and> txIndex s' = txIndex s"

lemma simulates_does:
  assumes "simulates kec s m" "does kec s r v"
  shows "\<exists>s'. r = Some s' \<and> simulates kec s' (m\<lparr>current := v\<rparr>) \<and> sameTx s s'"
proof -
  obtain s' es where s': "r = Some s'" "logged kec s es s'" "vabs kec s' = v" using assms(2) unfolding does_def by blast
  then have "sameTx s s'" by (simp add: logged_def sameFrame_def sameTx_def)
  then show ?thesis using simulates_logged [OF assms(1) s'(2,3)] s'(1) by blast
qed

lemma read_does: "stateOk kec s \<Longrightarrow> does kec s (map_option snd (getStateObject kec a s)) (vabs kec s)"
    "stateOk kec s \<Longrightarrow> does kec s (map_option snd (GetState kec a k s)) (vabs kec s)"
    "stateOk kec s \<Longrightarrow> does kec s (map_option snd (GetCode kec a s)) (vabs kec s)"
  using getStateObject_quiet [of kec s a] GetState_quiet [of kec s a k] GetCode_quiet [of kec s a] does_quiet by fastforce+

lemmas ops_do = AddBalance_does SubBalance_does SetBalance_does SetNonce_does SetCode_does SetState_does Suicide_does
  CreateAccount_does AddRefund_does AddLog_does AddPreimage_does read_does

lemma plain_op:
  assumes "stateOk kec s" "op \<noteq> OpSnapshot" "\<And>n. op \<noteq> OpRevert n"
  shows "does kec s (runOp kec op s) (specOp kec (thash s) (bhash s) (txIndex s) op (vabs kec s))"
proof (cases op)
  case (OpAddRefund g)
  then show ?thesis using AddRefund_does [OF assms(1), of g] by (simp add: vabs_def)
next
  case (OpAddPreimage h p)
  then show ?thesis using AddPreimage_does [OF assms(1), of h p] by (auto simp: vabs_def split: if_splits)
qed (use assms ops_do [OF assms(1)] in \<open>simp_all add: Let_def\<close>)

lemma specStep_plain: "op \<noteq> OpSnapshot \<Longrightarrow> (\<And>n. op \<noteq> OpRevert n) \<Longrightarrow>
    specStep kec th bh ti op m = Some (m\<lparr>current := specOp kec th bh ti op (current m)\<rparr>)"
  unfolding specStep_def by (cases op) (simp_all, blast)

lemma saved_ids:
  assumes "simulates kec s m"
  shows "map fst (validRevisions s) = map fst (saved m)" "distinct (map fst (saved m))" "\<forall>p \<in> set (saved m). fst p < nextId m"
proof -
  show ids: "map fst (validRevisions s) = map fst (saved m)"
    using assms by (auto simp: simulates_def list_all2_conv_all_nth savedOk_def intro!: nth_equalityI)
  show "distinct (map fst (saved m))" using assms ids by (metis simulates_def strict_sorted_iff)
  have "fst ` set (validRevisions s) = fst ` set (saved m)" using ids by (metis list.set_map)
  then show "\<forall>p \<in> set (saved m). fst p < nextId m" using assms unfolding simulates_def by (metis imageE image_eqI)
qed

lemma step_refines:
  assumes "simulates kec s m"
  shows "case specStep kec (thash s) (bhash s) (txIndex s) op m of
      None \<Rightarrow> runOp kec op s = None
    | Some m' \<Rightarrow> \<exists>s'. runOp kec op s = Some s' \<and> simulates kec s' m' \<and> sameTx s s'"
proof -
  have ok: "stateOk kec s" "vabs kec s = current m" using assms by (simp_all add: simulates_def)
  consider "op = OpSnapshot" | n where "op = OpRevert n" | "op \<noteq> OpSnapshot" "\<And>n. op \<noteq> OpRevert n" by blast
  then show ?thesis
  proof cases
    case 1
    then show ?thesis using simulates_snapshot [OF assms] by (simp add: sameTx_def Snapshot_def)
  next
    case (2 n)
    show ?thesis
    proof (cases "map_of (saved m) n")
      case None
      have "n \<notin> fst ` set (validRevisions s)" using None saved_ids(1) [OF assms] by (metis list.set_map map_of_eq_None_iff)
      then have "RevertToSnapshot kec n s = None"
        using searchFrom_missing [of "validRevisions s" n] assms by (auto simp: RevertToSnapshot_def simulates_def Let_def)
      then show ?thesis using 2 None by simp
    next
      case (Some v)
      then show ?thesis using 2 simulates_revert [OF assms Some] by (auto simp: sameTx_def)
    qed
  next
    case 3
    show ?thesis using simulates_does [OF assms plain_op [OF ok(1) 3]] ok(2) by (simp add: specStep_plain [OF 3])
  qed
qed

lemma runs_refine:
  assumes "simulates kec s m"
  shows "case specRun kec (thash s) (bhash s) (txIndex s) ops m of
      None \<Rightarrow> runOps kec ops s = None
    | Some m' \<Rightarrow> \<exists>s'. runOps kec ops s = Some s' \<and> simulates kec s' m'"
  using assms
proof (induction ops arbitrary: s m)
  case (Cons op ops)
  show ?case
  proof (cases "specStep kec (thash s) (bhash s) (txIndex s) op m")
    case None
    then show ?thesis using step_refines [OF Cons.prems, of op] by simp
  next
    case (Some m1)
    then obtain s1 where s1: "runOp kec op s = Some s1" "simulates kec s1 m1" "sameTx s s1"
      using step_refines [OF Cons.prems, of op] by auto
    then show ?thesis using Some Cons.IH [OF s1(2)] by (auto simp: sameTx_def split: option.splits)
  qed
qed simp

text \<open>The start: nothing saved.\<close>

lemma simulates_start:
  assumes "stateOk kec s" "validRevisions s = []"
  shows "simulates kec s \<lparr>current = vabs kec s, saved = [], nextId = nextRevisionId s\<rparr>"
  using assms by (simp add: simulates_def)

text \<open>C9. The state with its journal is a machine that saves whole states. From a consistent state
  without snapshots, every sequence of operations on accounts, storage, code, refunds, logs and
  preimages, with nested snapshots and reverts among them, shows what a machine shows that stores a copy of everything at
  each snapshot and puts it back at each revert; it panics exactly when it reverts to a snapshot that
  is not there.\<close>

theorem statedb_refines:
  assumes "stateOk kec s" "validRevisions s = []"
  shows "case specRun kec (thash s) (bhash s) (txIndex s) ops \<lparr>current = vabs kec s, saved = [], nextId = nextRevisionId s\<rparr> of
      None \<Rightarrow> runOps kec ops s = None
    | Some m \<Rightarrow> \<exists>s'. runOps kec ops s = Some s' \<and> vabs kec s' = current m \<and> stateOk kec s'"
  using runs_refine [OF simulates_start [OF assms], of ops] by (auto simp: simulates_def split: option.splits)

text \<open>A snapshot that is still valid keeps what it saved.\<close>

lemma specStep_saved:
  assumes "specStep kec th bh ti op m = Some m'" "n < nextId m" "n \<in> fst ` set (saved m')" "distinct (map fst (saved m))"
  shows "map_of (saved m') n = map_of (saved m) n" "n < nextId m'" "n \<in> fst ` set (saved m)"
proof -
  consider "op = OpSnapshot" | k where "op = OpRevert k" | "op \<noteq> OpSnapshot" "\<And>k. op \<noteq> OpRevert k" by blast
  then have "map_of (saved m') n = map_of (saved m) n \<and> n < nextId m' \<and> n \<in> fst ` set (saved m)"
  proof cases
    case 1
    then have m': "saved m' = saved m @ [(nextId m, current m)]" "nextId m' = nextId m + 1" using assms(1) by auto
    then have "n \<in> fst ` set (saved m)" using assms(2,3) by auto
    then obtain v where "map_of (saved m) n = Some v" by (metis map_of_eq_None_iff option.exhaust)
    then show ?thesis using m' assms(2) \<open>n \<in> fst ` set (saved m)\<close> by (simp add: map_add_def)
  next
    case (2 k)
    then obtain v where m': "saved m' = takeWhile (\<lambda>(i, _). i \<noteq> k) (saved m)" "nextId m' = nextId m" using assms(1) by auto
    obtain v where v: "(n, v) \<in> set (saved m')" using assms(3) by auto
    then have "(n, v) \<in> set (saved m)" using m'(1) set_takeWhileD by metis
    moreover have "distinct (map fst (saved m'))"
      using assms(4) unfolding m'(1) by (metis distinct_append map_append takeWhile_dropWhile_id)
    ultimately show ?thesis using v assms(2,4) m'(2) by (auto intro: rev_image_eqI)
  next
    case 3
    then have "saved m' = saved m" "nextId m' = nextId m" using assms(1) specStep_plain [OF 3] by auto
    then show ?thesis using assms(2,3) by simp
  qed
  then show "map_of (saved m') n = map_of (saved m) n" "n < nextId m'" "n \<in> fst ` set (saved m)" by blast+
qed

lemma specRun_saved:
  assumes "simulates kec s m" "specRun kec (thash s) (bhash s) (txIndex s) ops m = Some m'"
    and "n < nextId m" "n \<in> fst ` set (saved m')"
  shows "map_of (saved m') n = map_of (saved m) n \<and> n \<in> fst ` set (saved m)"
  using assms
proof (induction ops arbitrary: s m)
  case (Cons op ops)
  obtain m1 where m1: "specStep kec (thash s) (bhash s) (txIndex s) op m = Some m1"
    "specRun kec (thash s) (bhash s) (txIndex s) ops m1 = Some m'" using Cons.prems(2) by (auto simp: bind_eq_Some_conv)
  obtain s1 where s1: "simulates kec s1 m1" "sameTx s s1" using step_refines [OF Cons.prems(1), of op] m1(1) by auto
  have run: "specRun kec (thash s1) (bhash s1) (txIndex s1) ops m1 = Some m'" using m1(2) s1(2) by (simp add: sameTx_def)
  have d: "distinct (map fst (saved m))" by (rule saved_ids(2) [OF Cons.prems(1)])
  have "nextId m \<le> nextId m1"
    using m1(1) specStep_plain [of op kec _ _ _ m] by (cases op) auto
  then have "n < nextId m1" using Cons.prems(3) by simp
  from Cons.IH [OF s1(1) run this Cons.prems(4)]
  show ?case using specStep_saved [OF m1(1) Cons.prems(3) _ d] by simp
qed simp

text \<open>C21. Reverting restores. Whatever is done after a snapshot was taken, further snapshots and
  reverts included, as long as the snapshot has not been reverted over, reverting to it does not panic
  and shows every account, its storage and code, the refund, the logs and the preimages as they were.\<close>

theorem revert_restores:
  assumes "stateOk kec s0" "validRevisions s0 = []" "runOps kec before s0 = Some s" "Snapshot s = (n, s1)"
    and "runOps kec after s1 = Some s2" "n \<in> fst ` set (validRevisions s2)"
  shows "\<exists>s3. RevertToSnapshot kec n s2 = Some s3 \<and> vabs kec s3 = vabs kec s \<and> stateOk kec s3"
proof -
  obtain m where m: "simulates kec s m"
    using runs_refine [OF simulates_start [OF assms(1,2)], of before] assms(3) by (auto split: option.splits)
  let ?m1 = "m\<lparr>saved := saved m @ [(nextId m, current m)], nextId := nextId m + 1\<rparr>"
  have n: "n = nextId m" "s1 = snd (Snapshot s)" using assms(4) m by (auto simp: Snapshot_def simulates_def)
  have sim: "simulates kec s1 ?m1" using simulates_snapshot [OF m] n(2) by simp
  obtain m' where m': "specRun kec (thash s1) (bhash s1) (txIndex s1) after ?m1 = Some m'" "simulates kec s2 m'"
    using runs_refine [OF sim, of after] assms(5) by (auto split: option.splits)
  have "n \<in> fst ` set (saved m')" using assms(6) saved_ids(1) [OF m'(2)] by (metis list.set_map)
  then have "map_of (saved m') n = map_of (saved ?m1) n" using specRun_saved [OF sim m'(1)] n(1) by simp
  moreover have "map_of (saved m) n = None" using saved_ids(3) [OF m] n(1) by (metis imageE less_irrefl map_of_eq_None_iff)
  ultimately have "map_of (saved m') n = Some (vabs kec s)" using n(1) m by (simp add: map_add_def simulates_def)
  from simulates_revert [OF m'(2) this] show ?thesis by (auto simp: simulates_def)
qed

section \<open>A change that is lost\<close>

lemma getStateObject_load:
  assumes "stateOk kec s" "stateObjects s a = None" "readAccount kec s a = Some d"
  obtains tr where "getStateObject kec a s = Some (Some (newObject kec a d True), setStateObject (newObject kec a d True) (s\<lparr>accTrie := tr\<rparr>))"
    "\<And>s'. sdb s' = sdb s \<Longrightarrow> accTrie s' = tr \<Longrightarrow> readAccount kec s' = readAccount kec s"
proof -
  have ok: "okTrie kec (dbNode (trieDB (sdb s))) (accTrie s)" using assms by (simp add: stateOk_def)
  obtain tr where tr: "secTryGet kec (trieDB (sdb s)) (addr_bytes a) (accTrie s) =
      Some (Inr (trieRead (dbNode (trieDB (sdb s))) (accTrie s) (kec (addr_bytes a))), tr)"
    "trieRead (dbNode (trieDB (sdb s))) tr = trieRead (dbNode (trieDB (sdb s))) (accTrie s)"
    using secTryGet_ok [OF ok] by blast
  have "getStateObject kec a s = Some (Some (newObject kec a d True), setStateObject (newObject kec a d True) (s\<lparr>accTrie := tr\<rparr>))"
    using assms(2,3) tr(1) by (auto simp: getStateObject_def readAccount_def Let_def split: option.splits if_splits)
  moreover have "readAccount kec s' = readAccount kec s" if "sdb s' = sdb s" "accTrie s' = tr" for s'
    using that tr(2) by (simp add: readAccount_def fun_eq_iff)
  ultimately show ?thesis using that by blast
qed

lemma getStateObject_live: "stateObjects s a = Some c \<Longrightarrow> \<not> deleted c \<Longrightarrow> getStateObject kec a s = Some (Some c, s)"
  by (simp add: getStateObject_def)

text \<open>C39. An account that is empty in the trie, and is touched and then reverted, is not marked as
  dirty by later changes: the change shows in the state, but no account is dirty, so that finalising
  the state leaves the old account in the trie.\<close>

theorem touch_revert_loses:
  assumes "stateOk kec s" "stateObjects s a = None" "readAccount kec s a = Some d" "stateObjectsDirty s = {}"
    and "Nonce d = 0" "Balance d = 0" "CodeHash d = emptyCodeHash kec" "a \<noteq> ripemd" "x \<noteq> 0" "validRevisions s = []" "journal s = []"
  shows "\<exists>s4. runOps kec [OpSnapshot, OpAddBalance a 0, OpRevert (nextRevisionId s), OpAddBalance a x] s = Some s4 \<and>
    map_option aBalance (sview kec s4 a) = Some x \<and> stateObjectsDirty s4 = {} \<and>
    (\<exists>s5. Finalise kec ord [] del s4 = Some s5 \<and> readAccount kec s5 a = Some d)"
proof -
  let ?c = "newObject kec a d True"
  let ?s1 = "snd (Snapshot s)"
  have ok1: "stateOk kec ?s1" "stateObjects ?s1 a = None" "readAccount kec ?s1 a = Some d" using assms(1-3) by (simp_all add: Snapshot_def)
  obtain tr where tr: "getStateObject kec a ?s1 = Some (Some ?c, setStateObject ?c (?s1\<lparr>accTrie := tr\<rparr>))"
    "\<And>s'. sdb s' = sdb s \<Longrightarrow> accTrie s' = tr \<Longrightarrow> readAccount kec s' = readAccount kec s"
    using getStateObject_load [OF ok1] by (auto simp: Snapshot_def)
  let ?t = "?c\<lparr>onDirty := False, touched := True\<rparr>"
  let ?s2 = "s\<lparr>accTrie := tr, stateObjects := (stateObjects s)(a \<mapsto> ?t), stateObjectsDirty := {a}, journal := [touchChange a False False],
    validRevisions := [(nextRevisionId s, 0)], nextRevisionId := nextRevisionId s + 1\<rparr>"
  have add0: "AddBalance kec a 0 ?s1 = Some ?s2"
    using tr(1) assms(4-7,10,11)
    by (simp add: AddBalance_def writeObj_def GetOrNewStateObject_def AddBalanceObj_def objEmpty_def newObject_def touchObj_def onObj_def
        callDirty_def MarkStateObjectDirty_def setStateObject_def addJournal_def Snapshot_def)
  let ?u = "?t\<lparr>touched := False\<rparr>"
  let ?s3 = "?s2\<lparr>stateObjects := (stateObjects s)(a \<mapsto> ?u), stateObjectsDirty := {}, journal := [], validRevisions := []\<rparr>"
  have "searchFrom (\<lambda>i. fst ([(nextRevisionId s, 0 :: nat)] ! i) \<ge> nextRevisionId s) 0 1 = 0"
    using searchFrom_found [of "[(nextRevisionId s, 0 :: nat)]" 0 "nextRevisionId s"] by simp
  then have rev: "RevertToSnapshot kec (nextRevisionId s) ?s2 = Some ?s3"
    using assms(8) by (simp add: RevertToSnapshot_def Let_def getStateObject_def newObject_def setStateObject_def)
  let ?v = "?u\<lparr>odata := d\<lparr>Balance := x\<rparr>\<rparr>"
  let ?s4 = "?s3\<lparr>stateObjects := (stateObjects s)(a \<mapsto> ?v), journal := [balanceChange a 0]\<rparr>"
  have addx: "AddBalance kec a x ?s3 = Some ?s4"
    using assms(6,9)
    by (simp add: AddBalance_def writeObj_def GetOrNewStateObject_def AddBalanceObj_def getStateObject_def newObject_def SetBalanceObj_def
        onObj_def setBalanceObj_def callDirty_def setStateObject_def addJournal_def)
  have "runOps kec [OpSnapshot, OpAddBalance a 0, OpRevert (nextRevisionId s), OpAddBalance a x] s = Some ?s4"
    using add0 rev addx by simp
  moreover have "map_option aBalance (sview kec ?s4 a) = Some x" by (simp add: sview_def newObject_def)
  moreover have "Finalise kec ord [] del ?s4 = Some (clearJournalAndRefund ?s4)" by (simp add: Finalise_def)
  moreover have "readAccount kec (clearJournalAndRefund ?s4) a = Some d"
    using tr(2) [of "clearJournalAndRefund ?s4"] assms(3) by (simp add: clearJournalAndRefund_def)
  ultimately show ?thesis by (intro exI [of _ ?s4]) simp
qed

section \<open>Accounts read back\<close>

lemma simple_field:
  "dok t (VBytes b) \<Longrightarrow> length (encv t (VBytes b)) < 2 ^ 63 \<Longrightarrow> dgives (decodeVal (Suc 0) t) (VBytes b) (encv t (VBytes b))"
  "dok t (VUint i) \<Longrightarrow> dgives (decodeVal (Suc 0) t) (VUint i) (encv t (VUint i))"
  "dok t (VBig p) \<Longrightarrow> dgives (decodeVal (Suc 0) t) (VBig p) (encv t (VBig p))"
  using simple_step [of t] gives_simple [of t] dgives_op by fastforce+

definition accOk :: "Account \<Rightarrow> bool" where
  "accOk a \<longleftrightarrow> 0 \<le> Balance a \<and> Balance a < 2 ^ 256 \<and> length (CodeHash a) = 32"

lemma length_encStr_small: "length b < 56 \<Longrightarrow> length (encStr b) \<le> length b + 1"
  by (simp add: encStr_def rlpHead_def)

lemma account_roundtrip:
  assumes "accOk a"
  shows "encodeAccount a = Inr (encv accountType (accountVal a))" "decodeAccount (encv accountType (accountVal a)) = Some a"
    "encv accountType (accountVal a) \<noteq> []"
proof -
  let ?b = "[encStr (be_bytes (unat (Nonce a))), encStr (be_bytes (nat (Balance a))), encStr (hash_bytes (Root a)), encStr (CodeHash a)]"
  have "unat (Nonce a) < 256 ^ 8" using unsigned_less [of "Nonce a"] by simp
  then have l1: "length (be_bytes (unat (Nonce a))) \<le> 8" by (rule length_be_bytes_le)
  have "nat (Balance a) < 256 ^ 32" using assms by (simp add: accOk_def nat_less_iff)
  then have l2: "length (be_bytes (nat (Balance a))) \<le> 32" by (rule length_be_bytes_le)
  have l3: "length (CodeHash a) = 32" using assms by (simp add: accOk_def)
  have lens: "length (encStr (be_bytes (unat (Nonce a)))) \<le> 9" "length (encStr (be_bytes (nat (Balance a)))) \<le> 33"
    "length (encStr (hash_bytes (Root a))) \<le> 33" "length (encStr (CodeHash a)) \<le> 33"
    using length_encStr_small [of "be_bytes (unat (Nonce a))"] length_encStr_small [of "be_bytes (nat (Balance a))"]
      length_encStr_small [of "hash_bytes (Root a)"] length_encStr_small [of "CodeHash a"] l1 l2 l3 by simp_all
  have enc: "encv accountType (accountVal a) = encList (concat ?b)"
    by (simp add: accountType_def accountVal_def)
  have tot: "length (concat ?b) \<le> 108" using lens by simp
  then have small: "length (encList (concat ?b)) < 2 ^ 63"
    using length_encList_le [of "concat ?b"] by simp
  have bal: "0 \<le> Balance a" using assms by (simp add: accOk_def)
  have hb: "hash_bytes (Root a) \<noteq> [0]" using length_hash_bytes [of "Root a"] by (metis One_nat_def length_Cons list.size(3) numeral_eq_one_iff semiring_norm(85) Suc_1)
  have "wt accountType (accountVal a)" using bal unsigned_less [of "Nonce a"]
    by (simp add: accountType_def accountVal_def)
  then show "encodeAccount a = Inr (encv accountType (accountVal a))"
    unfolding encodeAccount_def using small enc by (intro EncodeToBytes_encv) simp_all
  let ?d = "decodeVal (Suc 0)"
  have ds: "dgives (?d (TUint 64)) (VUint (Nonce a)) (encStr (be_bytes (unat (Nonce a))))"
    "dgives (?d TBig) (VBig (Some (Balance a))) (encStr (be_bytes (nat (Balance a))))"
    "dgives (?d (TByteArray 32)) (VBytes (hash_bytes (Root a))) (encStr (hash_bytes (Root a)))"
    "dgives (?d TBytes) (VBytes (CodeHash a)) (encStr (CodeHash a))"
    using simple_field(2) [of "TUint 64" "Nonce a"] simple_field(3) [of TBig "Some (Balance a)"]
      simple_field(1) [of "TByteArray 32" "hash_bytes (Root a)"] simple_field(1) [of TBytes "CodeHash a"] bal hb lens unsigned_less [of "Nonce a"]
    by simp_all
  have "fills (decodeFields ?d []) [] []" by (simp add: fills_def adv_0 eqv_sym)
  from fills_Cons [where dec = ?d, OF ds(1) fills_Cons [where dec = ?d, OF ds(2) fills_Cons [where dec = ?d, OF ds(3) fills_Cons [where dec = ?d, OF ds(4) this]]]]
  have "fills (decodeFields ?d [TUint 64, TBig, TByteArray 32, TBytes])
      [VUint (Nonce a), VBig (Some (Balance a)), VBytes (hash_bytes (Root a)), VBytes (CodeHash a)] (concat ?b)" by simp
  from dgives_struct [OF this] have "dgives (decodeVal 2 accountType) (accountVal a) (encv accountType (accountVal a))"
    unfolding enc by (simp add: accountType_def accountVal_def numeral_2_eq_2 decodeStep_def)
  moreover show "encv accountType (accountVal a) \<noteq> []" unfolding enc by (simp add: encList_def rlpHead_def)
  ultimately have "DecodeBytes 2 accountType (encv accountType (accountVal a)) = Some (Inr (accountVal a))"
    using small enc by (intro DecodeBytes_gives) simp_all
  then show "decodeAccount (encv accountType (accountVal a)) = Some a"
    by (simp add: decodeAccount_def accountVal_def BytesToHash_hash_bytes)
qed

section \<open>Concrete states\<close>

definition exDb :: cachingDB where
  "exDb = \<lparr>trieDB = NewDatabase (\<lambda>_. None), pastTries = []\<rparr>"

definition exSecure :: SecureTrie where
  "exSecure = \<lparr>secTrie = exEmpty, secKeyCache = Map.empty, secOwned = False\<rparr>"

definition exState :: StateDB where
  "exState = emptyStateDB exDb exSecure"

definition exConst :: hashfun where
  "exConst b = 1"

definition exAccount :: Account where
  "exAccount = \<lparr>Nonce = 0, Balance = 0, Root = 0, CodeHash = emptyCodeHash exConst\<rparr>"

definition exLeafTrie :: SecureTrie where
  "exLeafTrie = the (hUpd (dbNode (trieDB exDb)) 1 (encv accountType (accountVal exAccount)) exSecure)"

definition exLeafState :: StateDB where
  "exLeafState = emptyStateDB exDb exLeafTrie"

lemma exSecure_ok: "okTrie kec f exSecure" "trieRead f exSecure h = None"
proof -
  show "okTrie kec f exSecure" unfolding okTrie_def exSecure_def using exEmpty_stands by fastforce
  show "trieRead f exSecure h = None"
    using trieRead_stands [of "\<lambda>_. 0" f exSecure "\<lambda>_. None" h] exEmpty_stands by (simp add: exSecure_def)
qed

lemma exState_ok: "stateOk kec exState" "validRevisions exState = []"
  by (simp_all add: stateOk_def exState_def emptyStateDB_def exSecure_ok readAccount_def)

lemma exLeafTrie_read:
  "okTrie exConst (dbNode (trieDB exDb)) exLeafTrie"
  "trieRead (dbNode (trieDB exDb)) exLeafTrie 1 = Some (encv accountType (accountVal exAccount))"
proof -
  have "accOk exAccount" by (simp add: accOk_def exAccount_def emptyCodeHash_def)
  from tries.upd_law [OF exSecure_ok(1) account_roundtrip(3) [OF this]]
  obtain t where "hUpd (dbNode (trieDB exDb)) 1 (encv accountType (accountVal exAccount)) exSecure = Some t"
    "okTrie exConst (dbNode (trieDB exDb)) t"
    "trieRead (dbNode (trieDB exDb)) t = (trieRead (dbNode (trieDB exDb)) exSecure)(1 \<mapsto> encv accountType (accountVal exAccount))"
    by metis
  then show "okTrie exConst (dbNode (trieDB exDb)) exLeafTrie"
    "trieRead (dbNode (trieDB exDb)) exLeafTrie 1 = Some (encv accountType (accountVal exAccount))"
    by (simp_all add: exLeafTrie_def)
qed

lemma exLeafState_read: "readAccount exConst exLeafState a = Some exAccount"
proof -
  have "accOk exAccount" by (simp add: accOk_def exAccount_def emptyCodeHash_def)
  then show ?thesis
    by (simp add: readAccount_def exLeafState_def emptyStateDB_def exConst_def exLeafTrie_read account_roundtrip)
qed

lemma exLeafState_ok: "stateOk exConst exLeafState"
proof -
  have "stands exConst f (SetCacheLimit 0 \<lparr>root = NilNode, originalRoot = 0, cachegen = 0, cachelimit = 0\<rparr>) (\<lambda>_. None)" for f
    using exEmpty_stands [of exConst f] by (simp add: stands_def exEmpty_def SetCacheLimit_def)
  then have "objOk exConst exDb (newObject exConst a exAccount True)" for a
    by (auto simp: objOk_def newObject_def exAccount_def emptyCodeHash_def storageOf_def OpenStorageTrie_def
        NewSecure_def newTrie_def okTrie_def Let_def)
  then show ?thesis unfolding stateOk_def exLeafState_read
    using exLeafTrie_read(1) by (simp add: exLeafState_def emptyStateDB_def)
qed

definition exOps :: "stateOp list" where
  "exOps = [OpAddBalance 5 7, OpSnapshot, OpSetState 5 1 2, OpSuicide 5]"

theorem statedb_refines_witness:
  "\<exists>s'. runOps exKec (OpSetNonce 5 1 # exOps @ [OpRevert 0]) exState = Some s' \<and> map_option aBalance (sview exKec s' 5) = Some 7"
proof -
  have r: "specRun exKec 0 0 0 (OpSetNonce 5 1 # exOps @ [OpRevert 0]) \<lparr>current = vabs exKec exState, saved = [], nextId = 0\<rparr> =
     Some \<lparr>current = setAcct 5 ((freshAccount exKec)\<lparr>aNonce := 1, aBalance := 7\<rparr>) (vabs exKec exState), saved = [], nextId = 1\<rparr>"
    by (simp add: exOps_def specStep_def acctAt_def exState_def emptyStateDB_def sview_def readAccount_def exSecure_ok setAcct_def freshAccount_def)
  show ?thesis
    using statedb_refines [OF exState_ok, of exKec "OpSetNonce 5 1 # exOps @ [OpRevert 0]"] r
    by (auto simp: exState_def emptyStateDB_def setAcct_def vabs_def)
qed

theorem revert_restores_witness:
  "\<exists>s1 s2 s3. Snapshot exState = (0, s1) \<and> runOps exKec exOps s1 = Some s2 \<and>
     RevertToSnapshot exKec 0 s2 = Some s3 \<and> vabs exKec s3 = vabs exKec exState"
proof -
  let ?s1 = "snd (Snapshot exState)"
  have s: "Snapshot exState = (0, ?s1)" by (simp add: Snapshot_def exState_def emptyStateDB_def)
  have sim: "simulates exKec ?s1 \<lparr>current = vabs exKec exState, saved = [(0, vabs exKec exState)], nextId = 1\<rparr>"
    using simulates_snapshot [OF simulates_start [OF exState_ok, of exKec]] by (simp add: exState_def emptyStateDB_def)
  obtain s2 m where m: "runOps exKec exOps ?s1 = Some s2" "simulates exKec s2 m" "0 \<in> fst ` set (saved m)"
    using runs_refine [OF sim, of exOps] by (auto simp: exOps_def specStep_def split: option.splits)
  have "0 \<in> fst ` set (validRevisions s2)" using m(3) saved_ids(1) [OF m(2)] by (metis list.set_map)
  then obtain s3 where "RevertToSnapshot exKec 0 s2 = Some s3" "vabs exKec s3 = vabs exKec exState"
    using revert_restores [where before = "[]", OF exState_ok _ s m(1)] by auto
  then show ?thesis using s m(1) by blast
qed

theorem touch_revert_loses_witness:
  "\<exists>s4. runOps exConst [OpSnapshot, OpAddBalance 5 0, OpRevert (nextRevisionId exLeafState), OpAddBalance 5 9] exLeafState = Some s4 \<and>
    map_option aBalance (sview exConst s4 5) = Some 9 \<and> stateObjectsDirty s4 = {} \<and>
    (\<exists>s5. Finalise exConst (\<lambda>_. []) [] True s4 = Some s5 \<and> readAccount exConst s5 5 = Some exAccount)"
  by (rule touch_revert_loses [OF exLeafState_ok _ exLeafState_read])
    (simp_all add: exLeafState_def emptyStateDB_def exAccount_def ripemd_def)

end
