(* ===== verification/BigMath.thy ===== *)
theory BigMath
  imports Common
begin

unbundle bit_operations_syntax

text \<open>
  The integer helpers of \<open>common/math\<close>. A \<open>big.Int\<close> is a HOL integer; its bitwise operations are
  those of the infinite two's complement representation, as in Go. \<open>big.Int.Bits\<close> gives the absolute
  value as machine words, the least significant one first.
\<close>

section \<open>Operations of big integers\<close>

fun bigWords :: "nat \<Rightarrow> u64 list" where
  "bigWords n = (if n = 0 then [] else word_of_nat n # bigWords (n div 2 ^ 64))"

declare bigWords.simps [simp del]

definition bigBits :: "int \<Rightarrow> u64 list" where
  "bigBits x = bigWords (nat \<bar>x\<bar>)"

fun natLen :: "nat \<Rightarrow> nat" where
  "natLen n = (if n = 0 then 0 else Suc (natLen (n div 2)))"

declare natLen.simps [simp del]

definition BitLen :: "int \<Rightarrow> nat" where
  "BitLen x = natLen (nat \<bar>x\<bar>)"

text \<open>\<open>Div\<close> and \<open>Mod\<close> are Euclidean. \<open>Uint64\<close> and \<open>Int64\<close> give the low bits of the absolute value,
  the latter with the sign.\<close>

definition bigDiv :: "int \<Rightarrow> int \<Rightarrow> int" where
  "bigDiv x y = (if 0 < y then x div y else - (x div (- y)))"

definition bigMod :: "int \<Rightarrow> int \<Rightarrow> int" where
  "bigMod x y = x mod \<bar>y\<bar>"

definition Uint64 :: "int \<Rightarrow> u64" where
  "Uint64 x = word_of_int \<bar>x\<bar>"

definition Int64 :: "int \<Rightarrow> int" where
  "Int64 x = (if x < 0 then wrap64 (- int64_of (Uint64 x)) else int64_of (Uint64 x))"

definition setBytes :: "bytes \<Rightarrow> int" where
  "setBytes b = int (be_val b)"

definition bigBytes :: "int \<Rightarrow> bytes" where
  "bigBytes x = be_bytes (nat \<bar>x\<bar>)"

section \<open>\<open>common/math/big.go\<close>\<close>

definition BigMax :: "int \<Rightarrow> int \<Rightarrow> int" where
  "BigMax x y = (if x < y then y else x)"

definition BigMin :: "int \<Rightarrow> int \<Rightarrow> int" where
  "BigMin x y = (if x > y then y else x)"

fun firstBitFrom :: "int \<Rightarrow> nat \<Rightarrow> nat \<Rightarrow> nat" where
  "firstBitFrom v i 0 = i"
| "firstBitFrom v i (Suc n) = (if bit v i then i else firstBitFrom v (Suc i) n)"

definition FirstBitSet :: "int \<Rightarrow> nat" where
  "FirstBitSet v = firstBitFrom v 0 (BitLen v)"

text \<open>Writing the bytes of a word into a buffer, towards the front; the position before which the
  next byte goes is kept with the buffer.\<close>

fun readWord :: "nat \<Rightarrow> u64 \<Rightarrow> nat \<Rightarrow> bytes \<Rightarrow> nat \<times> bytes" where
  "readWord 0 d i buf = (i, buf)"
| "readWord (Suc j) d i buf =
     (if 0 < i then readWord j (drop_bit 8 d) (i - 1) (buf[i - 1 := ucast d]) else (i, buf))"

fun readWords :: "u64 list \<Rightarrow> nat \<Rightarrow> bytes \<Rightarrow> bytes" where
  "readWords [] i buf = buf"
| "readWords (d # ds) i buf = (let (i', buf') = readWord 8 d i buf in readWords ds i' buf')"

definition ReadBits :: "int \<Rightarrow> bytes \<Rightarrow> bytes" where
  "ReadBits x buf = readWords (bigBits x) (length buf) buf"

definition PaddedBigBytes :: "int \<Rightarrow> nat \<Rightarrow> bytes" where
  "PaddedBigBytes x n = (if BitLen x div 8 \<ge> n then bigBytes x else ReadBits x (replicate n 0))"

definition bigEndianByteAt :: "int \<Rightarrow> nat \<Rightarrow> u8" where
  "bigEndianByteAt x n =
     (let ws = bigBits x; i = n div 8 in
      if i \<ge> length ws then 0 else ucast (drop_bit (8 * (n mod 8)) (ws ! i)))"

definition ByteAt :: "int \<Rightarrow> nat \<Rightarrow> nat \<Rightarrow> u8" where
  "ByteAt x padlength n = (if n \<ge> padlength then 0 else bigEndianByteAt x (padlength - 1 - n))"

definition tt255 :: int where
  "tt255 = 2 ^ 255"

definition tt256 :: int where
  "tt256 = 2 ^ 256"

definition U256 :: "int \<Rightarrow> int" where
  "U256 x = x AND (tt256 - 1)"

definition S256 :: "int \<Rightarrow> int" where
  "S256 x = (if x < tt255 then x else x - tt256)"

text \<open>Exponentiation changes its base in place: the result and the base afterwards.\<close>

fun expWord :: "nat \<Rightarrow> u64 \<Rightarrow> int \<Rightarrow> int \<Rightarrow> int \<times> int" where
  "expWord 0 w r b = (r, b)"
| "expWord (Suc n) w r b = expWord n (drop_bit 1 w) (if w AND 1 = 1 then U256 (r * b) else r) (U256 (b * b))"

fun expWords :: "u64 list \<Rightarrow> int \<Rightarrow> int \<Rightarrow> int \<times> int" where
  "expWords [] r b = (r, b)"
| "expWords (w # ws) r b = (let (r', b') = expWord 64 w r b in expWords ws r' b')"

definition Exp :: "int \<Rightarrow> int \<Rightarrow> int \<times> int" where
  "Exp base exponent = expWords (bigBits exponent) 1 base"

section \<open>\<open>common/math/integer.go\<close>\<close>

definition MaxUint64 :: u64 where
  "MaxUint64 = - 1"

definition SafeSub :: "u64 \<Rightarrow> u64 \<Rightarrow> u64 \<times> bool" where
  "SafeSub x y = (x - y, x < y)"

definition SafeAdd :: "u64 \<Rightarrow> u64 \<Rightarrow> u64 \<times> bool" where
  "SafeAdd x y = (x + y, y > MaxUint64 - x)"

definition SafeMul :: "u64 \<Rightarrow> u64 \<Rightarrow> u64 \<times> bool" where
  "SafeMul x y = (if x = 0 \<or> y = 0 then (0, False) else (x * y, y > MaxUint64 div x))"

section \<open>Conversions of \<open>common/types.go\<close>\<close>

definition BigToHash :: "int \<Rightarrow> hash256" where
  "BigToHash x = BytesToHash (bigBytes x)"

definition BigToAddress :: "int \<Rightarrow> address" where
  "BigToAddress x = BytesToAddress (bigBytes x)"

definition hashBig :: "hash256 \<Rightarrow> int" where
  "hashBig h = setBytes (hash_bytes h)"

definition addrBig :: "address \<Rightarrow> int" where
  "addrBig a = setBytes (addr_bytes a)"

section \<open>Lemmas\<close>

lemma natLen_le: "natLen n \<le> k \<longleftrightarrow> n < 2 ^ k"
proof (induction k arbitrary: n)
  case 0
  then show ?case by (simp add: natLen.simps [of n])
next
  case (Suc k)
  show ?case
  proof (cases "n = 0")
    case False
    then have "natLen n \<le> Suc k \<longleftrightarrow> natLen (n div 2) \<le> k" by (simp add: natLen.simps [of n])
    also have "\<dots> \<longleftrightarrow> n div 2 < 2 ^ k" by (rule Suc.IH)
    also have "\<dots> \<longleftrightarrow> n < 2 ^ Suc k" by (simp add: div_less_iff_less_mult mult.commute)
    finally show ?thesis .
  qed (simp add: natLen.simps [of 0])
qed

lemma BitLen_gt: "BitLen x > k \<longleftrightarrow> 2 ^ k \<le> \<bar>x\<bar>"
proof -
  have "BitLen x > k \<longleftrightarrow> \<not> nat \<bar>x\<bar> < 2 ^ k" using natLen_le [of "nat \<bar>x\<bar>" k] by (auto simp: BitLen_def)
  also have "\<dots> \<longleftrightarrow> 2 ^ k \<le> \<bar>x\<bar>" by (simp add: nat_less_iff not_less)
  finally show ?thesis .
qed

lemma BitLen_0 [simp]: "BitLen x = 0 \<longleftrightarrow> x = 0"
  using BitLen_gt [where k = 0 and x = x] by auto

lemma tt256_minus: "tt256 - 1 = mask 256"
  by (simp add: tt256_def mask_eq_exp_minus_1)

lemma U256_mod: "U256 x = x mod tt256"
  unfolding U256_def tt256_minus by (simp add: take_bit_eq_mod tt256_def flip: take_bit_eq_mask)

lemma U256_range [simp]: "0 \<le> U256 x" "U256 x < tt256"
  by (simp_all add: U256_mod tt256_def)

lemma U256_id [simp]: "0 \<le> x \<Longrightarrow> x < tt256 \<Longrightarrow> U256 x = x"
  by (simp add: U256_mod)

lemma unat_MaxUint64: "unat MaxUint64 = 18446744073709551615"
  by (simp add: MaxUint64_def unsigned_minus_1_eq_mask mask_eq_exp_minus_1)

lemma SafeAdd_ok: "SafeAdd x y = (z, False) \<longleftrightarrow> z = x + y \<and> unat x + unat y < 2 ^ 64"
proof -
  have "unat (MaxUint64 - x) = 2 ^ 64 - 1 - unat x"
    using unat_sub_noborrow [of x MaxUint64] unat_u64_lt [of x] by (simp add: word_le_nat_alt unat_MaxUint64 del: unat_u64_lt)
  then have "y > MaxUint64 - x \<longleftrightarrow> \<not> unat x + unat y < 2 ^ 64"
    unfolding word_less_nat_alt using unat_u64_lt [of x] by (simp del: unat_u64_lt) linarith
  then show ?thesis by (auto simp: SafeAdd_def)
qed

lemma SafeMul_ok: "SafeMul x y = (z, False) \<longleftrightarrow> z = x * y \<and> unat x * unat y < 2 ^ 64"
proof (cases "x = 0 \<or> y = 0")
  case False
  have "unat x \<noteq> 0" using False by (simp add: unat_eq_0)
  then have "y > MaxUint64 div x \<longleftrightarrow> \<not> unat x * unat y < 2 ^ 64"
    using div_less_iff_less_mult [of "unat x" "2 ^ 64 - 1" "unat y"]
    by (simp add: word_less_nat_alt unat_div unat_MaxUint64 mult.commute) linarith
  then show ?thesis using False by (auto simp: SafeMul_def)
qed (auto simp: SafeMul_def)

end
