(* ===== verification/EvmData.thy ===== *)
theory EvmData
  imports BigMath StateDB
begin

unbundle bit_operations_syntax

text \<open>
  The data of the virtual machine (\<open>core/vm\<close>): its errors, the stack, the memory, contracts, the
  analysis of jump destinations and the helpers of \<open>common.go\<close>, with the gas prices of \<open>params\<close>.

  Code that can panic gives a value of \<open>go\<close>: \<open>Ret\<close> with the result, \<open>Panic\<close> with the kind of the
  fault, or \<open>OutOfFuel\<close> when the bound on the number of nested steps is used up. A \<open>big.Int\<close> on the
  stack is an integer. The integers of the stack are copied when they are duplicated, so that no two
  entries share one; the pool in which the code keeps integers for reuse is left out.
\<close>

section \<open>Results of code that can panic\<close>

datatype fault = StackFault | MemoryFault | SliceFault | StateFault | BitmapFault | CallerFault | GasPoolFault

datatype 'a go = Ret 'a | Panic fault | OutOfFuel

primrec andThen :: "'a go \<Rightarrow> ('a \<Rightarrow> 'b go) \<Rightarrow> 'b go" where
  "andThen (Ret x) f = f x"
| "andThen (Panic p) f = Panic p"
| "andThen OutOfFuel f = OutOfFuel"

definition orPanic :: "fault \<Rightarrow> 'a option \<Rightarrow> 'a go" where
  "orPanic p r = (case r of None \<Rightarrow> Panic p | Some x \<Rightarrow> Ret x)"

definition goSlice :: "'a list \<Rightarrow> nat \<Rightarrow> nat \<Rightarrow> 'a list go" where
  "goSlice xs i j = (if i \<le> j \<and> j \<le> length xs then Ret (take (j - i) (drop i xs)) else Panic SliceFault)"

section \<open>Errors\<close>

datatype vmErr =
    ErrOutOfGas | ErrCodeStoreOutOfGas | ErrDepth | ErrInsufficientBalance | ErrContractAddressCollision
  | errWriteProtection | errReturnDataOutOfBounds | errExecutionReverted | errMaxCodeSizeExceeded | errGasUintOverflow
  | InvalidOpcode u8 | StackUnderflow nat nat | StackLimitReached nat | InvalidJump u8 int
  | errBadPairingInput | BadCurvePoint

section \<open>Gas prices\<close>

record GasTable =
  ExtcodeSize :: u64
  ExtcodeCopy :: u64
  gtBalance :: u64
  SLoad :: u64
  Calls :: u64
  gtSuicide :: u64
  ExpByte :: u64
  CreateBySuicide :: u64

definition DefaultGasTable :: GasTable where
  "DefaultGasTable =
     \<lparr>ExtcodeSize = 700, ExtcodeCopy = 700, gtBalance = 400, SLoad = 200, Calls = 700, gtSuicide = 5000,
      ExpByte = 50, CreateBySuicide = 25000\<rparr>"

definition GasQuickStep :: u64 where "GasQuickStep = 2"
definition GasFastestStep :: u64 where "GasFastestStep = 3"
definition GasFastStep :: u64 where "GasFastStep = 5"
definition GasMidStep :: u64 where "GasMidStep = 8"
definition GasSlowStep :: u64 where "GasSlowStep = 10"
definition GasExtStep :: u64 where "GasExtStep = 20"

definition CallValueTransferGas :: u64 where "CallValueTransferGas = 9000"
definition CallNewAccountGas :: u64 where "CallNewAccountGas = 25000"
definition QuadCoeffDiv :: u64 where "QuadCoeffDiv = 512"
definition SstoreSetGas :: u64 where "SstoreSetGas = 20000"
definition LogDataGas :: u64 where "LogDataGas = 8"
definition CallStipend :: u64 where "CallStipend = 2300"
definition Sha3Gas :: u64 where "Sha3Gas = 30"
definition Sha3WordGas :: u64 where "Sha3WordGas = 6"
definition SstoreResetGas :: u64 where "SstoreResetGas = 5000"
definition SstoreClearGas :: u64 where "SstoreClearGas = 5000"
definition SstoreRefundGas :: u64 where "SstoreRefundGas = 15000"
definition JumpdestGas :: u64 where "JumpdestGas = 1"
definition CreateDataGas :: u64 where "CreateDataGas = 200"
definition CallCreateDepth :: nat where "CallCreateDepth = 1024"
definition LogGas :: u64 where "LogGas = 375"
definition CopyGas :: u64 where "CopyGas = 3"
definition StackLimit :: nat where "StackLimit = 1024"
definition LogTopicGas :: u64 where "LogTopicGas = 375"
definition CreateGas :: u64 where "CreateGas = 32000"
definition SuicideRefundGas :: u64 where "SuicideRefundGas = 24000"
definition MemoryGas :: u64 where "MemoryGas = 3"
definition MaxCodeSize :: nat where "MaxCodeSize = 24576"

section \<open>Helpers of \<open>common.go\<close>\<close>

definition calcMemSize :: "int \<Rightarrow> int \<Rightarrow> int" where
  "calcMemSize off l = (if l = 0 then 0 else off + l)"

definition getData :: "bytes \<Rightarrow> u64 \<Rightarrow> u64 \<Rightarrow> bytes go" where
  "getData data start sz =
     (let len = word_of_nat (length data);
          start' = (if start > len then len else start);
          fin = start' + sz;
          fin' = (if fin > len then len else fin)
      in andThen (goSlice data (unat start') (unat fin')) (\<lambda>d. Ret (RightPadBytes d (nat (int64_of sz)))))"

definition getDataBig :: "bytes \<Rightarrow> int \<Rightarrow> int \<Rightarrow> bytes go" where
  "getDataBig data start sz =
     (let dlen = int (length data); s = BigMin start dlen; e = BigMin (s + sz) dlen
      in andThen (goSlice data (unat (Uint64 s)) (unat (Uint64 e)))
           (\<lambda>d. Ret (RightPadBytes d (nat (int64_of (Uint64 sz))))))"

definition bigUint64Overflow :: "int \<Rightarrow> u64 \<times> bool" where
  "bigUint64Overflow v = (Uint64 v, BitLen v > 64)"

definition toWordSize :: "u64 \<Rightarrow> u64" where
  "toWordSize sz = (if sz > MaxUint64 - 31 then MaxUint64 div 32 + 1 else (sz + 31) div 32)"

definition allZero :: "bytes \<Rightarrow> bool" where
  "allZero b = list_all (\<lambda>x. x = 0) b"

section \<open>The stack\<close>

text \<open>The stack is a list with its top first.\<close>

definition Back :: "int list \<Rightarrow> nat \<Rightarrow> int go" where
  "Back st n = (if n < length st then Ret (st ! n) else Panic StackFault)"

definition swapStack :: "nat \<Rightarrow> int list \<Rightarrow> int list go" where
  "swapStack n st =
     (if 0 < n \<and> n \<le> length st then Ret (st[0 := st ! (n - 1), n - 1 := st ! 0]) else Panic StackFault)"

definition dupStack :: "nat \<Rightarrow> int list \<Rightarrow> int list go" where
  "dupStack n st = (if 0 < n \<and> n \<le> length st then Ret (st ! (n - 1) # st) else Panic StackFault)"

definition requireStack :: "nat \<Rightarrow> int list \<Rightarrow> vmErr option" where
  "requireStack n st = (if length st < n then Some (StackUnderflow (length st) n) else None)"

definition makeStackFunc :: "nat \<Rightarrow> nat \<Rightarrow> int list \<Rightarrow> vmErr option" where
  "makeStackFunc pop push st =
     (case requireStack pop st of
        Some err \<Rightarrow> Some err
      | None \<Rightarrow> if length st + push - pop > StackLimit then Some (StackLimitReached (length st)) else None)"

definition makeDupStackFunc :: "nat \<Rightarrow> int list \<Rightarrow> vmErr option" where
  "makeDupStackFunc n = makeStackFunc n (n + 1)"

definition makeSwapStackFunc :: "nat \<Rightarrow> int list \<Rightarrow> vmErr option" where
  "makeSwapStackFunc n = makeStackFunc n n"

section \<open>The memory\<close>

record Memory =
  memStore :: bytes
  lastGasCost :: u64

definition NewMemory :: Memory where
  "NewMemory = \<lparr>memStore = [], lastGasCost = 0\<rparr>"

text \<open>\<open>copy\<close> of Go, into the part of a list that starts at a position and has a given size.\<close>

definition copyInto :: "bytes \<Rightarrow> nat \<Rightarrow> nat \<Rightarrow> bytes \<Rightarrow> bytes" where
  "copyInto xs i n b =
     (let b' = take n b in take i xs @ b' @ drop (i + length b') xs)"

definition memSet :: "u64 \<Rightarrow> u64 \<Rightarrow> bytes \<Rightarrow> Memory \<Rightarrow> Memory go" where
  "memSet offset sz val m =
     (if unat sz > length (memStore m) then Panic MemoryFault
      else if sz > 0 then
        (let fin = unat (offset + sz) in
         if unat offset \<le> fin \<and> fin \<le> length (memStore m)
         then Ret (m\<lparr>memStore := copyInto (memStore m) (unat offset) (unat sz) val\<rparr>)
         else Panic MemoryFault)
      else Ret m)"

definition Resize :: "u64 \<Rightarrow> Memory \<Rightarrow> Memory" where
  "Resize sz m =
     (if length (memStore m) < unat sz
      then m\<lparr>memStore := memStore m @ replicate (unat sz - length (memStore m)) 0\<rparr> else m)"

text \<open>Reading gives nil for size zero and for an offset behind the memory.\<close>

definition memGet :: "int \<Rightarrow> int \<Rightarrow> Memory \<Rightarrow> bytes option go" where
  "memGet offset sz m =
     (if sz = 0 then Ret None
      else if int (length (memStore m)) > offset then
        (if 0 \<le> offset \<and> 0 < sz \<and> offset + sz \<le> int (length (memStore m))
         then Ret (Some (take (nat sz) (drop (nat offset) (memStore m)))) else Panic MemoryFault)
      else Ret None)"

definition memGetPtr :: "int \<Rightarrow> int \<Rightarrow> Memory \<Rightarrow> bytes option go" where
  "memGetPtr offset sz m =
     (if sz = 0 then Ret None
      else if int (length (memStore m)) > offset then
        (if 0 \<le> offset \<and> 0 < sz \<and> offset + sz \<le> int (length (memStore m))
         then Ret (Some (take (nat sz) (drop (nat offset) (memStore m)))) else Panic MemoryFault)
      else Ret None)"

section \<open>Jump destinations\<close>

text \<open>A bit vector with a bit for each byte of the code, set when the byte is data of a push. Writing
  behind its end panics.\<close>

definition orAt :: "nat \<Rightarrow> u8 \<Rightarrow> bytes \<Rightarrow> bytes option" where
  "orAt i b bits = (if i < length bits then Some (bits[i := bits ! i OR b]) else None)"

definition bvSet :: "nat \<Rightarrow> bytes \<Rightarrow> bytes option" where
  "bvSet pos bits = orAt (pos div 8) (drop_bit (pos mod 8) 0x80) bits"

definition bvSet8 :: "nat \<Rightarrow> bytes \<Rightarrow> bytes option" where
  "bvSet8 pos bits =
     Option.bind (orAt (pos div 8) (drop_bit (pos mod 8) 0xFF) bits)
       (orAt (pos div 8 + 1) (NOT (drop_bit (pos mod 8) 0xFF)))"

definition codeSegment :: "nat \<Rightarrow> bytes \<Rightarrow> bool option" where
  "codeSegment pos bits =
     (if pos div 8 < length bits then Some ((bits ! (pos div 8)) AND (drop_bit (pos mod 8) 0x80) = 0) else None)"

text \<open>The two inner loops over the bytes of a push, eight at a time and then one at a time.\<close>

fun markData :: "nat \<Rightarrow> nat \<Rightarrow> bytes \<Rightarrow> (nat \<times> bytes) option" where
  "markData n pc bits =
     (if n \<ge> 8 then Option.bind (bvSet8 pc bits) (markData (n - 8) (pc + 8))
      else if n > 0 then Option.bind (bvSet pc bits) (markData (n - 1) (pc + 1))
      else Some (pc, bits))"

declare markData.simps [simp del]

lemma markData_pc: "markData n pc bits = Some (pc', bits') \<Longrightarrow> pc' = pc + n"
proof (induction n pc bits rule: markData.induct)
  case (1 n pc bits)
  show ?case
  proof (cases "n \<ge> 8")
    case True
    then obtain b where b: "bvSet8 pc bits = Some b" "markData (n - 8) (pc + 8) b = Some (pc', bits')"
      using 1(3) by (auto simp: markData.simps [of n] bind_eq_Some_conv)
    from 1(1) [OF True b] True show ?thesis by simp
  next
    case False
    then show ?thesis using 1(2,3) by (cases "n = 0") (auto simp: markData.simps [of n] markData.simps [of 0] bind_eq_Some_conv)
  qed
qed

definition isPush :: "u8 \<Rightarrow> bool" where
  "isPush op \<longleftrightarrow> op \<ge> 0x60 \<and> op \<le> 0x7f"

function codeBitmapFrom :: "bytes \<Rightarrow> nat \<Rightarrow> bytes \<Rightarrow> bytes option" where
  "codeBitmapFrom code pc bits =
     (if pc < length code then
        (let op = code ! pc in
         if isPush op
         then (case markData (unat (op - 0x60 + 1)) (pc + 1) bits of
                 None \<Rightarrow> None
               | Some (pc', bits') \<Rightarrow> codeBitmapFrom code pc' bits')
         else codeBitmapFrom code (pc + 1) bits)
      else Some bits)"
  by pat_completeness auto

termination
  by (relation "measure (\<lambda>(code, pc, bits). length code - pc)") (auto dest: markData_pc)

declare codeBitmapFrom.simps [simp del]

definition codeBitmap :: "bytes \<Rightarrow> bytes option" where
  "codeBitmap code = codeBitmapFrom code 0 (replicate (length code div 8 + 1 + 4) 0)"

type_synonym destinations = "hash256 \<Rightarrow> bytes option"

definition hasDest :: "hash256 \<Rightarrow> bytes \<Rightarrow> int \<Rightarrow> destinations \<Rightarrow> (bool \<times> destinations) go" where
  "hasDest codehash code dest d =
     (let udest = Uint64 dest in
      if BitLen dest \<ge> 63 \<or> udest \<ge> word_of_nat (length code) then Ret (False, d)
      else
        andThen
          (case d codehash of
             Some m \<Rightarrow> Ret (m, d)
           | None \<Rightarrow> andThen (orPanic BitmapFault (codeBitmap code)) (\<lambda>m. Ret (m, d(codehash \<mapsto> m))))
          (\<lambda>(m, d').
             if code ! unat udest = 0x5b
             then andThen (orPanic BitmapFault (codeSegment (unat udest) m)) (\<lambda>b. Ret (b, d'))
             else Ret (False, d')))"

section \<open>Contracts\<close>

record Contract =
  CallerAddress :: address
  cself :: address
  cCode :: bytes
  cCodeHash :: hash256
  cCodeAddr :: "address option"
  cInput :: bytes
  cGas :: u64
  cvalue :: int
  cDelegate :: bool

datatype ContractRef = AccountRef address | ContractRef Contract

primrec refAddress :: "ContractRef \<Rightarrow> address" where
  "refAddress (AccountRef a) = a"
| "refAddress (ContractRef c) = cself c"

definition GetByte :: "u64 \<Rightarrow> Contract \<Rightarrow> u8" where
  "GetByte n c = (if n < word_of_nat (length (cCode c)) then cCode c ! unat n else 0)"

definition GetOp :: "u64 \<Rightarrow> Contract \<Rightarrow> u8" where
  "GetOp n c = GetByte n c"

definition UseGas :: "u64 \<Rightarrow> Contract \<Rightarrow> bool \<times> Contract" where
  "UseGas gas c = (if cGas c < gas then (False, c) else (True, c\<lparr>cGas := cGas c - gas\<rparr>))"

definition SetCallCode :: "address \<Rightarrow> hash256 \<Rightarrow> bytes \<Rightarrow> Contract \<Rightarrow> Contract" where
  "SetCallCode addr hash code c = c\<lparr>cCode := code, cCodeHash := hash, cCodeAddr := Some addr\<rparr>"

section \<open>The machine\<close>

text \<open>
  The context of a transaction with the machine's own fields and those of its interpreter. Contracts
  that call each other share one map of analysed jump destinations, which a call from an account
  starts empty; it is kept here. The tracer is off, and \<open>aborted\<close> does not change while code runs.
\<close>

record Context =
  GetHash :: "u64 \<Rightarrow> hash256"
  Origin :: address
  GasPrice :: int
  Coinbase :: address
  ctxGasLimit :: u64
  ctxNumber :: int
  ctxTime :: int
  ctxDifficulty :: int

record EVM =
  ctx :: Context
  stateDB :: StateDB
  depth :: nat
  NoRecursion :: bool
  EnablePreimageRecording :: bool
  aborted :: bool
  callGasTemp :: u64
  gasTable :: GasTable
  readOnly :: bool
  returnData :: bytes
  jumpdests :: destinations

definition NewEVM :: "Context \<Rightarrow> StateDB \<Rightarrow> bool \<Rightarrow> bool \<Rightarrow> EVM" where
  "NewEVM c s noRecursion preimageRecording =
     \<lparr>ctx = c, stateDB = s, depth = 0, NoRecursion = noRecursion, EnablePreimageRecording = preimageRecording,
      aborted = False, callGasTemp = 0, gasTable = DefaultGasTable, readOnly = False, returnData = [], jumpdests = Map.empty\<rparr>"

definition Cancel :: "EVM \<Rightarrow> EVM" where
  "Cancel e = e\<lparr>aborted := True\<rparr>"

text \<open>An operation of the state, on the machine.\<close>

definition onState :: "(StateDB \<Rightarrow> ('a \<times> StateDB) option) \<Rightarrow> EVM \<Rightarrow> ('a \<times> EVM) go" where
  "onState f e = (case f (stateDB e) of None \<Rightarrow> Panic StateFault | Some (x, s) \<Rightarrow> Ret (x, e\<lparr>stateDB := s\<rparr>))"

definition doState :: "(StateDB \<Rightarrow> StateDB option) \<Rightarrow> EVM \<Rightarrow> EVM go" where
  "doState f e = (case f (stateDB e) of None \<Rightarrow> Panic StateFault | Some s \<Rightarrow> Ret (e\<lparr>stateDB := s\<rparr>))"

text \<open>A new contract, and the map of jump destinations it shares with its caller.\<close>

definition NewContract :: "ContractRef \<Rightarrow> address \<Rightarrow> int \<Rightarrow> u64 \<Rightarrow> EVM \<Rightarrow> Contract \<times> EVM" where
  "NewContract caller obj val gas e =
     (\<lparr>CallerAddress = refAddress caller, cself = obj, cCode = [], cCodeHash = 0, cCodeAddr = None, cInput = [],
       cGas = gas, cvalue = val, cDelegate = False\<rparr>,
      case caller of ContractRef _ \<Rightarrow> e | AccountRef _ \<Rightarrow> e\<lparr>jumpdests := Map.empty\<rparr>)"

definition AsDelegate :: "ContractRef \<Rightarrow> Contract \<Rightarrow> Contract go" where
  "AsDelegate caller c =
     (case caller of
        AccountRef _ \<Rightarrow> Panic CallerFault
      | ContractRef parent \<Rightarrow> Ret (c\<lparr>cDelegate := True, CallerAddress := CallerAddress parent, cvalue := cvalue parent\<rparr>))"

end
