(* ===== verification/EvmOps.thy ===== *)
theory EvmOps
  imports EvmData
begin

unbundle bit_operations_syntax

text \<open>
  The instructions of \<open>core/vm/instructions.go\<close> that do not call other contracts. Arithmetic works on
  the stack alone. The others work on a frame, which holds the variables of the interpreter's loop, and
  on the machine; they give the data an instruction returns (\<open>None\<close> for nil) and its error.
\<close>

section \<open>Arithmetic\<close>

definition opAdd :: "int list \<Rightarrow> int list go" where
  "opAdd st = (case st of x # y # r \<Rightarrow> Ret (U256 (x + y) # r) | _ \<Rightarrow> Panic StackFault)"

definition opSub :: "int list \<Rightarrow> int list go" where
  "opSub st = (case st of x # y # r \<Rightarrow> Ret (U256 (x - y) # r) | _ \<Rightarrow> Panic StackFault)"

definition opMul :: "int list \<Rightarrow> int list go" where
  "opMul st = (case st of x # y # r \<Rightarrow> Ret (U256 (x * y) # r) | _ \<Rightarrow> Panic StackFault)"

definition opDiv :: "int list \<Rightarrow> int list go" where
  "opDiv st = (case st of x # y # r \<Rightarrow> Ret ((if y \<noteq> 0 then U256 (bigDiv x y) else 0) # r) | _ \<Rightarrow> Panic StackFault)"

definition opSdiv :: "int list \<Rightarrow> int list go" where
  "opSdiv st =
     (case st of
        x0 # y0 # r \<Rightarrow>
          (let x = S256 x0; y = S256 y0 in
           if y = 0 \<or> x = 0 then Ret (0 # r)
           else if sgn x \<noteq> sgn y then Ret (U256 (- bigDiv \<bar>x\<bar> \<bar>y\<bar>) # r)
           else Ret (U256 (bigDiv \<bar>x\<bar> \<bar>y\<bar>) # r))
      | _ \<Rightarrow> Panic StackFault)"

definition opMod :: "int list \<Rightarrow> int list go" where
  "opMod st = (case st of x # y # r \<Rightarrow> Ret ((if y = 0 then 0 else U256 (bigMod x y)) # r) | _ \<Rightarrow> Panic StackFault)"

definition opSmod :: "int list \<Rightarrow> int list go" where
  "opSmod st =
     (case st of
        x0 # y0 # r \<Rightarrow>
          (let x = S256 x0; y = S256 y0 in
           if y = 0 then Ret (0 # r)
           else if x < 0 then Ret (U256 (- bigMod \<bar>x\<bar> \<bar>y\<bar>) # r)
           else Ret (U256 (bigMod \<bar>x\<bar> \<bar>y\<bar>) # r))
      | _ \<Rightarrow> Panic StackFault)"

definition opExp :: "int list \<Rightarrow> int list go" where
  "opExp st = (case st of base # exponent # r \<Rightarrow> Ret (fst (Exp base exponent) # r) | _ \<Rightarrow> Panic StackFault)"

definition opSignExtend :: "int list \<Rightarrow> int list go" where
  "opSignExtend st =
     (case st of
        back # r \<Rightarrow>
          if back < 31 then
            (case r of
               num # r' \<Rightarrow>
                 (let b = unat (Uint64 back * 8 + 7); msk = push_bit b 1 - 1
                  in Ret (U256 (if bit num b then num OR NOT msk else num AND msk) # r'))
             | [] \<Rightarrow> Panic StackFault)
          else Ret r
      | [] \<Rightarrow> Panic StackFault)"

definition opNot :: "int list \<Rightarrow> int list go" where
  "opNot st = (case st of x # r \<Rightarrow> Ret (U256 (NOT x) # r) | _ \<Rightarrow> Panic StackFault)"

definition opLt :: "int list \<Rightarrow> int list go" where
  "opLt st = (case st of x # y # r \<Rightarrow> Ret ((if x < y then 1 else 0) # r) | _ \<Rightarrow> Panic StackFault)"

definition opGt :: "int list \<Rightarrow> int list go" where
  "opGt st = (case st of x # y # r \<Rightarrow> Ret ((if x > y then 1 else 0) # r) | _ \<Rightarrow> Panic StackFault)"

definition opSlt :: "int list \<Rightarrow> int list go" where
  "opSlt st =
     (case st of
        x # y # r \<Rightarrow>
          Ret ((if x \<ge> tt255 \<and> y < tt255 then 1
                else if x < tt255 \<and> y \<ge> tt255 then 0
                else if x < y then 1 else 0) # r)
      | _ \<Rightarrow> Panic StackFault)"

definition opSgt :: "int list \<Rightarrow> int list go" where
  "opSgt st =
     (case st of
        x # y # r \<Rightarrow>
          Ret ((if x \<ge> tt255 \<and> y < tt255 then 0
                else if x < tt255 \<and> y \<ge> tt255 then 1
                else if x > y then 1 else 0) # r)
      | _ \<Rightarrow> Panic StackFault)"

definition opEq :: "int list \<Rightarrow> int list go" where
  "opEq st = (case st of x # y # r \<Rightarrow> Ret ((if x = y then 1 else 0) # r) | _ \<Rightarrow> Panic StackFault)"

definition opIszero :: "int list \<Rightarrow> int list go" where
  "opIszero st = (case st of x # r \<Rightarrow> Ret ((if x > 0 then 0 else 1) # r) | _ \<Rightarrow> Panic StackFault)"

definition opAnd :: "int list \<Rightarrow> int list go" where
  "opAnd st = (case st of x # y # r \<Rightarrow> Ret ((x AND y) # r) | _ \<Rightarrow> Panic StackFault)"

definition opOr :: "int list \<Rightarrow> int list go" where
  "opOr st = (case st of x # y # r \<Rightarrow> Ret ((x OR y) # r) | _ \<Rightarrow> Panic StackFault)"

definition opXor :: "int list \<Rightarrow> int list go" where
  "opXor st = (case st of x # y # r \<Rightarrow> Ret ((x XOR y) # r) | _ \<Rightarrow> Panic StackFault)"

definition opByte :: "int list \<Rightarrow> int list go" where
  "opByte st =
     (case st of
        th # val # r \<Rightarrow> Ret ((if th < 32 then uint (ByteAt val 32 (nat (Int64 th))) else 0) # r)
      | _ \<Rightarrow> Panic StackFault)"

definition opAddmod :: "int list \<Rightarrow> int list go" where
  "opAddmod st =
     (case st of x # y # z # r \<Rightarrow> Ret ((if z > 0 then U256 (bigMod (x + y) z) else 0) # r) | _ \<Rightarrow> Panic StackFault)"

definition opMulmod :: "int list \<Rightarrow> int list go" where
  "opMulmod st =
     (case st of x # y # z # r \<Rightarrow> Ret ((if z > 0 then U256 (bigMod (x * y) z) else 0) # r) | _ \<Rightarrow> Panic StackFault)"

definition opSHL :: "int list \<Rightarrow> int list go" where
  "opSHL st =
     (case st of
        s # v # r \<Rightarrow>
          (let shift = U256 s; val = U256 v in
           if shift \<ge> 256 then Ret (0 # r) else Ret (U256 (push_bit (unat (Uint64 shift)) val) # r))
      | _ \<Rightarrow> Panic StackFault)"

definition opSHR :: "int list \<Rightarrow> int list go" where
  "opSHR st =
     (case st of
        s # v # r \<Rightarrow>
          (let shift = U256 s; val = U256 v in
           if shift \<ge> 256 then Ret (0 # r) else Ret (U256 (drop_bit (unat (Uint64 shift)) val) # r))
      | _ \<Rightarrow> Panic StackFault)"

definition opSAR :: "int list \<Rightarrow> int list go" where
  "opSAR st =
     (case st of
        s # v # r \<Rightarrow>
          (let shift = U256 s; val = S256 v in
           if shift \<ge> 256 then Ret (U256 (if val > 0 then 0 else - 1) # r)
           else Ret (U256 (drop_bit (unat (Uint64 shift)) val) # r))
      | _ \<Rightarrow> Panic StackFault)"

definition opPop :: "int list \<Rightarrow> int list go" where
  "opPop st = (case st of _ # r \<Rightarrow> Ret r | [] \<Rightarrow> Panic StackFault)"

section \<open>Frames\<close>

record frame =
  pc :: u64
  contract :: Contract
  memory :: Memory
  stack :: "int list"

type_synonym opResult = "(bytes option \<times> vmErr option \<times> frame \<times> EVM) go"

definition ok :: "frame \<Rightarrow> EVM \<Rightarrow> opResult" where
  "ok fr e = Ret (None, None, fr, e)"

definition onStack :: "(int list \<Rightarrow> int list go) \<Rightarrow> frame \<Rightarrow> EVM \<Rightarrow> opResult" where
  "onStack f fr e = andThen (f (stack fr)) (\<lambda>st. ok (fr\<lparr>stack := st\<rparr>) e)"

definition pushVal :: "int \<Rightarrow> frame \<Rightarrow> EVM \<Rightarrow> opResult" where
  "pushVal x fr e = ok (fr\<lparr>stack := x # stack fr\<rparr>) e"

section \<open>The environment\<close>

definition opSha3 :: "hashfun \<Rightarrow> frame \<Rightarrow> EVM \<Rightarrow> opResult" where
  "opSha3 kec fr e =
     (case stack fr of
        offset # sz # r \<Rightarrow>
          andThen (memGet (Int64 offset) (Int64 sz) (memory fr)) (\<lambda>data.
            let hash = kec (bytesOf data);
                e' = (if EnablePreimageRecording e then e\<lparr>stateDB := AddPreimage hash (bytesOf data) (stateDB e)\<rparr> else e)
            in ok (fr\<lparr>stack := hashBig hash # r\<rparr>) e')
      | _ \<Rightarrow> Panic StackFault)"

definition opAddress :: "frame \<Rightarrow> EVM \<Rightarrow> opResult" where
  "opAddress fr e = pushVal (addrBig (cself (contract fr))) fr e"

definition opBalance :: "hashfun \<Rightarrow> frame \<Rightarrow> EVM \<Rightarrow> opResult" where
  "opBalance kec fr e =
     (case stack fr of
        acc # r \<Rightarrow>
          andThen (onState (GetBalance kec (BigToAddress acc)) e) (\<lambda>(b, e'). ok (fr\<lparr>stack := b # r\<rparr>) e')
      | [] \<Rightarrow> Panic StackFault)"

definition opOrigin :: "frame \<Rightarrow> EVM \<Rightarrow> opResult" where
  "opOrigin fr e = pushVal (addrBig (Origin (ctx e))) fr e"

definition opCaller :: "frame \<Rightarrow> EVM \<Rightarrow> opResult" where
  "opCaller fr e = pushVal (addrBig (CallerAddress (contract fr))) fr e"

definition opCallValue :: "frame \<Rightarrow> EVM \<Rightarrow> opResult" where
  "opCallValue fr e = pushVal (cvalue (contract fr)) fr e"

definition opCallDataLoad :: "frame \<Rightarrow> EVM \<Rightarrow> opResult" where
  "opCallDataLoad fr e =
     (case stack fr of
        x # r \<Rightarrow> andThen (getDataBig (cInput (contract fr)) x 32) (\<lambda>d. ok (fr\<lparr>stack := setBytes d # r\<rparr>) e)
      | [] \<Rightarrow> Panic StackFault)"

definition opCallDataSize :: "frame \<Rightarrow> EVM \<Rightarrow> opResult" where
  "opCallDataSize fr e = pushVal (int (length (cInput (contract fr)))) fr e"

text \<open>Copying part of a byte string into the memory.\<close>

definition copyData :: "bytes \<Rightarrow> int \<Rightarrow> int \<Rightarrow> int \<Rightarrow> int list \<Rightarrow> frame \<Rightarrow> EVM \<Rightarrow> opResult" where
  "copyData data memOffset dataOffset len r fr e =
     andThen (getDataBig data dataOffset len) (\<lambda>d.
     andThen (memSet (Uint64 memOffset) (Uint64 len) d (memory fr)) (\<lambda>m.
     ok (fr\<lparr>stack := r, memory := m\<rparr>) e))"

definition opCallDataCopy :: "frame \<Rightarrow> EVM \<Rightarrow> opResult" where
  "opCallDataCopy fr e =
     (case stack fr of
        memOffset # dataOffset # len # r \<Rightarrow> copyData (cInput (contract fr)) memOffset dataOffset len r fr e
      | _ \<Rightarrow> Panic StackFault)"

definition opReturnDataSize :: "frame \<Rightarrow> EVM \<Rightarrow> opResult" where
  "opReturnDataSize fr e = pushVal (uint (word_of_nat (length (returnData e)) :: u64)) fr e"

definition opReturnDataCopy :: "frame \<Rightarrow> EVM \<Rightarrow> opResult" where
  "opReturnDataCopy fr e =
     (case stack fr of
        memOffset # dataOffset # len # r \<Rightarrow>
          (let fin = dataOffset + len in
           if BitLen fin > 64 \<or> word_of_nat (length (returnData e)) < Uint64 fin
           then Ret (None, Some errReturnDataOutOfBounds, fr\<lparr>stack := r\<rparr>, e)
           else
             andThen (goSlice (returnData e) (unat (Uint64 dataOffset)) (unat (Uint64 fin))) (\<lambda>d.
             andThen (memSet (Uint64 memOffset) (Uint64 len) d (memory fr)) (\<lambda>m.
             ok (fr\<lparr>stack := r, memory := m\<rparr>) e)))
      | _ \<Rightarrow> Panic StackFault)"

definition opExtCodeSize :: "hashfun \<Rightarrow> frame \<Rightarrow> EVM \<Rightarrow> opResult" where
  "opExtCodeSize kec fr e =
     (case stack fr of
        acc # r \<Rightarrow>
          andThen (onState (GetCodeSize kec (BigToAddress acc)) e) (\<lambda>(n, e').
            ok (fr\<lparr>stack := uint (word_of_nat n :: u64) # r\<rparr>) e')
      | [] \<Rightarrow> Panic StackFault)"

definition opCodeSize :: "frame \<Rightarrow> EVM \<Rightarrow> opResult" where
  "opCodeSize fr e = pushVal (int (length (cCode (contract fr)))) fr e"

definition opCodeCopy :: "frame \<Rightarrow> EVM \<Rightarrow> opResult" where
  "opCodeCopy fr e =
     (case stack fr of
        memOffset # codeOffset # len # r \<Rightarrow> copyData (cCode (contract fr)) memOffset codeOffset len r fr e
      | _ \<Rightarrow> Panic StackFault)"

definition opExtCodeCopy :: "hashfun \<Rightarrow> frame \<Rightarrow> EVM \<Rightarrow> opResult" where
  "opExtCodeCopy kec fr e =
     (case stack fr of
        addr # memOffset # codeOffset # len # r \<Rightarrow>
          andThen (onState (GetCode kec (BigToAddress addr)) e) (\<lambda>(code, e').
            copyData (bytesOf code) memOffset codeOffset len r fr e')
      | _ \<Rightarrow> Panic StackFault)"

definition opGasprice :: "frame \<Rightarrow> EVM \<Rightarrow> opResult" where
  "opGasprice fr e = pushVal (GasPrice (ctx e)) fr e"

definition opBlockhash :: "frame \<Rightarrow> EVM \<Rightarrow> opResult" where
  "opBlockhash fr e =
     (case stack fr of
        num # r \<Rightarrow>
          (let n = ctxNumber (ctx e) - 257 in
           ok (fr\<lparr>stack := (if num > n \<and> num < ctxNumber (ctx e) then hashBig (GetHash (ctx e) (Uint64 num)) else 0) # r\<rparr>) e)
      | [] \<Rightarrow> Panic StackFault)"

definition opCoinbase :: "frame \<Rightarrow> EVM \<Rightarrow> opResult" where
  "opCoinbase fr e = pushVal (addrBig (Coinbase (ctx e))) fr e"

definition opTimestamp :: "frame \<Rightarrow> EVM \<Rightarrow> opResult" where
  "opTimestamp fr e = pushVal (U256 (ctxTime (ctx e))) fr e"

definition opNumber :: "frame \<Rightarrow> EVM \<Rightarrow> opResult" where
  "opNumber fr e = pushVal (U256 (ctxNumber (ctx e))) fr e"

definition opDifficulty :: "frame \<Rightarrow> EVM \<Rightarrow> opResult" where
  "opDifficulty fr e = pushVal (U256 (ctxDifficulty (ctx e))) fr e"

definition opGasLimit :: "frame \<Rightarrow> EVM \<Rightarrow> opResult" where
  "opGasLimit fr e = pushVal (U256 (uint (ctxGasLimit (ctx e)))) fr e"

section \<open>Memory, storage and control\<close>

definition opMload :: "frame \<Rightarrow> EVM \<Rightarrow> opResult" where
  "opMload fr e =
     (case stack fr of
        offset # r \<Rightarrow>
          andThen (memGet (Int64 offset) 32 (memory fr)) (\<lambda>d. ok (fr\<lparr>stack := setBytes (bytesOf d) # r\<rparr>) e)
      | [] \<Rightarrow> Panic StackFault)"

definition opMstore :: "frame \<Rightarrow> EVM \<Rightarrow> opResult" where
  "opMstore fr e =
     (case stack fr of
        mStart # val # r \<Rightarrow>
          andThen (memSet (Uint64 mStart) 32 (PaddedBigBytes val 32) (memory fr)) (\<lambda>m.
            ok (fr\<lparr>stack := r, memory := m\<rparr>) e)
      | _ \<Rightarrow> Panic StackFault)"

definition opMstore8 :: "frame \<Rightarrow> EVM \<Rightarrow> opResult" where
  "opMstore8 fr e =
     (case stack fr of
        o1 # v1 # r \<Rightarrow>
          (let off = Int64 o1; val = Int64 v1; m = memory fr in
           if 0 \<le> off \<and> off < int (length (memStore m))
           then ok (fr\<lparr>stack := r, memory := m\<lparr>memStore := (memStore m)[nat off := word_of_int (val AND 0xff)]\<rparr>\<rparr>) e
           else Panic MemoryFault)
      | _ \<Rightarrow> Panic StackFault)"

definition opSload :: "hashfun \<Rightarrow> frame \<Rightarrow> EVM \<Rightarrow> opResult" where
  "opSload kec fr e =
     (case stack fr of
        loc # r \<Rightarrow>
          andThen (onState (GetState kec (cself (contract fr)) (BigToHash loc)) e) (\<lambda>(v, e').
            ok (fr\<lparr>stack := hashBig v # r\<rparr>) e')
      | [] \<Rightarrow> Panic StackFault)"

definition opSstore :: "hashfun \<Rightarrow> frame \<Rightarrow> EVM \<Rightarrow> opResult" where
  "opSstore kec fr e =
     (case stack fr of
        loc # val # r \<Rightarrow>
          andThen (doState (SetState kec (cself (contract fr)) (BigToHash loc) (BigToHash val)) e) (\<lambda>e'.
            ok (fr\<lparr>stack := r\<rparr>) e')
      | _ \<Rightarrow> Panic StackFault)"

definition jumpTo :: "int \<Rightarrow> int list \<Rightarrow> frame \<Rightarrow> EVM \<Rightarrow> opResult" where
  "jumpTo pos r fr e =
     (let c = contract fr in
      andThen (hasDest (cCodeHash c) (cCode c) pos (jumpdests e)) (\<lambda>(valid, d).
        let e' = e\<lparr>jumpdests := d\<rparr> in
        if \<not> valid then Ret (None, Some (InvalidJump (GetOp (Uint64 pos) c) pos), fr\<lparr>stack := r\<rparr>, e')
        else ok (fr\<lparr>stack := r, pc := Uint64 pos\<rparr>) e'))"

definition opJump :: "frame \<Rightarrow> EVM \<Rightarrow> opResult" where
  "opJump fr e = (case stack fr of pos # r \<Rightarrow> jumpTo pos r fr e | [] \<Rightarrow> Panic StackFault)"

definition opJumpi :: "frame \<Rightarrow> EVM \<Rightarrow> opResult" where
  "opJumpi fr e =
     (case stack fr of
        pos # cnd # r \<Rightarrow> if cnd \<noteq> 0 then jumpTo pos r fr e else ok (fr\<lparr>stack := r, pc := pc fr + 1\<rparr>) e
      | _ \<Rightarrow> Panic StackFault)"

definition opJumpdest :: "frame \<Rightarrow> EVM \<Rightarrow> opResult" where
  "opJumpdest fr e = ok fr e"

definition opPc :: "frame \<Rightarrow> EVM \<Rightarrow> opResult" where
  "opPc fr e = pushVal (uint (pc fr)) fr e"

definition opMsize :: "frame \<Rightarrow> EVM \<Rightarrow> opResult" where
  "opMsize fr e = pushVal (int (length (memStore (memory fr)))) fr e"

definition opGas :: "frame \<Rightarrow> EVM \<Rightarrow> opResult" where
  "opGas fr e = pushVal (uint (cGas (contract fr))) fr e"

definition opReturn :: "frame \<Rightarrow> EVM \<Rightarrow> opResult" where
  "opReturn fr e =
     (case stack fr of
        offset # sz # r \<Rightarrow>
          andThen (memGetPtr (Int64 offset) (Int64 sz) (memory fr)) (\<lambda>d. Ret (d, None, fr\<lparr>stack := r\<rparr>, e))
      | _ \<Rightarrow> Panic StackFault)"

definition opRevert :: "frame \<Rightarrow> EVM \<Rightarrow> opResult" where
  "opRevert fr e =
     (case stack fr of
        offset # sz # r \<Rightarrow>
          andThen (memGetPtr (Int64 offset) (Int64 sz) (memory fr)) (\<lambda>d. Ret (d, None, fr\<lparr>stack := r\<rparr>, e))
      | _ \<Rightarrow> Panic StackFault)"

definition opStop :: "frame \<Rightarrow> EVM \<Rightarrow> opResult" where
  "opStop fr e = ok fr e"

definition opSuicide :: "hashfun \<Rightarrow> frame \<Rightarrow> EVM \<Rightarrow> opResult" where
  "opSuicide kec fr e =
     (let self = cself (contract fr) in
      andThen (onState (GetBalance kec self) e) (\<lambda>(balance, e1).
      case stack fr of
        ben # r \<Rightarrow>
          andThen (doState (AddBalance kec (BigToAddress ben) balance) e1) (\<lambda>e2.
          andThen (onState (Suicide kec self) e2) (\<lambda>(_, e3). ok (fr\<lparr>stack := r\<rparr>) e3))
      | [] \<Rightarrow> Panic StackFault))"

definition makeLog :: "nat \<Rightarrow> frame \<Rightarrow> EVM \<Rightarrow> opResult" where
  "makeLog n fr e =
     (case stack fr of
        mStart # mSize # r \<Rightarrow>
          if length r < n then Panic StackFault
          else
            andThen (memGet (Int64 mStart) (Int64 mSize) (memory fr)) (\<lambda>d.
              let l = \<lparr>logAddress = cself (contract fr), Topics = map BigToHash (take n r), logData = bytesOf d,
                       BlockNumber = Uint64 (ctxNumber (ctx e)), logTxHash = 0, logTxIndex = 0, logBlockHash = 0,
                       logIndex = 0, Removed = False\<rparr>
              in ok (fr\<lparr>stack := drop n r\<rparr>) (e\<lparr>stateDB := AddLog l (stateDB e)\<rparr>))
      | _ \<Rightarrow> Panic StackFault)"

text \<open>\<open>int(pc + 1)\<close> is signed; a negative start of the slice panics.\<close>

definition makePush :: "u64 \<Rightarrow> nat \<Rightarrow> frame \<Rightarrow> EVM \<Rightarrow> opResult" where
  "makePush sz pushByteSize fr e =
     (let code = cCode (contract fr);
          codeLen = int (length code);
          next = int64_of (pc fr + 1);
          startMin = (if next < codeLen then next else codeLen);
          endMin = (if startMin + int pushByteSize < codeLen then startMin + int pushByteSize else codeLen)
      in if startMin < 0 then Panic SliceFault
         else
           andThen (goSlice code (nat startMin) (nat endMin)) (\<lambda>d.
             ok (fr\<lparr>stack := setBytes (RightPadBytes d pushByteSize) # stack fr, pc := pc fr + sz\<rparr>) e))"

definition makeDup :: "nat \<Rightarrow> int list \<Rightarrow> int list go" where
  "makeDup n st = dupStack n st"

definition makeSwap :: "nat \<Rightarrow> int list \<Rightarrow> int list go" where
  "makeSwap n st = swapStack (n + 1) st"

end
