(* ===== verification/EvmGas.thy ===== *)
theory EvmGas
  imports EvmOps
begin

text \<open>
  What an instruction costs: the sizes of memory (\<open>memory_table.go\<close>), the share of gas that a call
  gets (\<open>gas.go\<close>) and the gas functions (\<open>gas_table.go\<close>). A gas function reads the frame; it can
  change the fee that the memory remembers, the refund counter and the gas kept for a call.
\<close>

section \<open>The memory an instruction needs\<close>

definition memSpan :: "nat \<Rightarrow> nat \<Rightarrow> int list \<Rightarrow> int go" where
  "memSpan i j st = andThen (Back st i) (\<lambda>off. andThen (Back st j) (\<lambda>l. Ret (calcMemSize off l)))"

definition memFixed :: "nat \<Rightarrow> int \<Rightarrow> int list \<Rightarrow> int go" where
  "memFixed i l st = andThen (Back st i) (\<lambda>off. Ret (calcMemSize off l))"

definition memTwo :: "nat \<Rightarrow> nat \<Rightarrow> nat \<Rightarrow> nat \<Rightarrow> int list \<Rightarrow> int go" where
  "memTwo i j k l st = andThen (memSpan i j st) (\<lambda>x. andThen (memSpan k l st) (\<lambda>y. Ret (BigMax x y)))"

definition memorySha3 :: "int list \<Rightarrow> int go" where "memorySha3 = memSpan 0 1"
definition memoryCallDataCopy :: "int list \<Rightarrow> int go" where "memoryCallDataCopy = memSpan 0 2"
definition memoryReturnDataCopy :: "int list \<Rightarrow> int go" where "memoryReturnDataCopy = memSpan 0 2"
definition memoryCodeCopy :: "int list \<Rightarrow> int go" where "memoryCodeCopy = memSpan 0 2"
definition memoryExtCodeCopy :: "int list \<Rightarrow> int go" where "memoryExtCodeCopy = memSpan 1 3"
definition memoryMLoad :: "int list \<Rightarrow> int go" where "memoryMLoad = memFixed 0 32"
definition memoryMStore8 :: "int list \<Rightarrow> int go" where "memoryMStore8 = memFixed 0 1"
definition memoryMStore :: "int list \<Rightarrow> int go" where "memoryMStore = memFixed 0 32"
definition memoryCreate :: "int list \<Rightarrow> int go" where "memoryCreate = memSpan 1 2"
definition memoryCall :: "int list \<Rightarrow> int go" where "memoryCall = memTwo 5 6 3 4"
definition memoryCallCode :: "int list \<Rightarrow> int go" where "memoryCallCode = memTwo 5 6 3 4"
definition memoryDelegateCall :: "int list \<Rightarrow> int go" where "memoryDelegateCall = memTwo 4 5 2 3"
definition memoryStaticCall :: "int list \<Rightarrow> int go" where "memoryStaticCall = memTwo 4 5 2 3"
definition memoryReturn :: "int list \<Rightarrow> int go" where "memoryReturn = memSpan 0 1"
definition memoryRevert :: "int list \<Rightarrow> int go" where "memoryRevert = memSpan 0 1"
definition memoryLog :: "int list \<Rightarrow> int go" where "memoryLog = memSpan 0 1"

section \<open>Checked arithmetic\<close>

type_synonym gasRes = "vmErr + u64"

definition thenGas :: "gasRes \<Rightarrow> (u64 \<Rightarrow> gasRes) \<Rightarrow> gasRes" where
  "thenGas r f = (case r of Inl err \<Rightarrow> Inl err | Inr g \<Rightarrow> f g)"

definition addGas :: "u64 \<Rightarrow> u64 \<Rightarrow> gasRes" where
  "addGas x y = (case SafeAdd x y of (z, ovf) \<Rightarrow> if ovf then Inl errGasUintOverflow else Inr z)"

definition mulGas :: "u64 \<Rightarrow> u64 \<Rightarrow> gasRes" where
  "mulGas x y = (case SafeMul x y of (z, ovf) \<Rightarrow> if ovf then Inl errGasUintOverflow else Inr z)"

definition sizeGas :: "int \<Rightarrow> gasRes" where
  "sizeGas v = (case bigUint64Overflow v of (n, ovf) \<Rightarrow> if ovf then Inl errGasUintOverflow else Inr n)"

section \<open>\<open>gas.go\<close>\<close>

definition callGas :: "GasTable \<Rightarrow> u64 \<Rightarrow> u64 \<Rightarrow> int \<Rightarrow> gasRes" where
  "callGas gt availableGas base callCost =
     (let avail = availableGas - base; gas = avail - avail div 64 in
      if CreateBySuicide gt > 0 \<and> (BitLen callCost > 64 \<or> gas < Uint64 callCost) then Inr gas
      else if BitLen callCost > 64 then Inl errGasUintOverflow
      else Inr (Uint64 callCost))"

section \<open>\<open>gas_table.go\<close>\<close>

definition memoryGasCost :: "Memory \<Rightarrow> u64 \<Rightarrow> gasRes \<times> Memory" where
  "memoryGasCost mem newMemSize =
     (if newMemSize = 0 then (Inr 0, mem)
      else if newMemSize > 0xffffffffe0 then (Inl errGasUintOverflow, mem)
      else
        (let newMemSizeWords = toWordSize newMemSize;
             newMemSize' = newMemSizeWords * 32 in
         if newMemSize' > word_of_nat (length (memStore mem)) then
           (let square = newMemSizeWords * newMemSizeWords;
                linCoef = newMemSizeWords * MemoryGas;
                quadCoef = square div QuadCoeffDiv;
                newTotalFee = linCoef + quadCoef;
                fee = newTotalFee - lastGasCost mem
            in (Inr fee, mem\<lparr>lastGasCost := newTotalFee\<rparr>))
         else (Inr 0, mem)))"

type_synonym gasFunc = "frame \<Rightarrow> u64 \<Rightarrow> EVM \<Rightarrow> (gasRes \<times> Memory \<times> EVM) go"

definition constGasFunc :: "u64 \<Rightarrow> gasFunc" where
  "constGasFunc gas fr ms e = Ret (Inr gas, memory fr, e)"

text \<open>The memory gas, then the rest of a gas function.\<close>

definition withMem :: "(u64 \<Rightarrow> (gasRes \<times> EVM) go) \<Rightarrow> gasFunc" where
  "withMem k fr ms e =
     (case memoryGasCost (memory fr) ms of
        (Inl err, m) \<Rightarrow> Ret (Inl err, m, e)
      | (Inr gas, m) \<Rightarrow> andThen (k gas) (\<lambda>(r, e'). Ret (r, m, e')))"

text \<open>A price for the instruction and one for each word of the size at a place of the stack.\<close>

definition wordGas :: "(EVM \<Rightarrow> u64) \<Rightarrow> u64 \<Rightarrow> nat \<Rightarrow> gasFunc" where
  "wordGas base perWord i fr ms e =
     withMem (\<lambda>gas.
       case addGas gas (base e) of
         Inl err \<Rightarrow> Ret (Inl err, e)
       | Inr gas1 \<Rightarrow>
           andThen (Back (stack fr) i) (\<lambda>v.
             Ret (thenGas (sizeGas v) (\<lambda>w. thenGas (mulGas (toWordSize w) perWord) (addGas gas1)), e))) fr ms e"

definition gasCallDataCopy :: gasFunc where "gasCallDataCopy = wordGas (\<lambda>_. GasFastestStep) CopyGas 2"
definition gasReturnDataCopy :: gasFunc where "gasReturnDataCopy = wordGas (\<lambda>_. GasFastestStep) CopyGas 2"
definition gasCodeCopy :: gasFunc where "gasCodeCopy = wordGas (\<lambda>_. GasFastestStep) CopyGas 2"
definition gasExtCodeCopy :: gasFunc where "gasExtCodeCopy = wordGas (\<lambda>e. ExtcodeCopy (gasTable e)) CopyGas 3"
definition gasSha3 :: gasFunc where "gasSha3 = wordGas (\<lambda>_. Sha3Gas) Sha3WordGas 1"

definition gasSStore :: "hashfun \<Rightarrow> gasFunc" where
  "gasSStore kec fr ms e =
     andThen (Back (stack fr) 1) (\<lambda>y. andThen (Back (stack fr) 0) (\<lambda>x.
     andThen (onState (GetState kec (cself (contract fr)) (BigToHash x)) e) (\<lambda>(val, e1).
       if val = 0 \<and> BigToHash y \<noteq> 0 then Ret (Inr SstoreSetGas, memory fr, e1)
       else if val \<noteq> 0 \<and> BigToHash y = 0
       then Ret (Inr SstoreClearGas, memory fr, e1\<lparr>stateDB := AddRefund SstoreRefundGas (stateDB e1)\<rparr>)
       else Ret (Inr SstoreResetGas, memory fr, e1))))"

definition makeGasLog :: "u64 \<Rightarrow> gasFunc" where
  "makeGasLog n fr ms e =
     andThen (Back (stack fr) 1) (\<lambda>v.
       case sizeGas v of
         Inl err \<Rightarrow> Ret (Inl err, memory fr, e)
       | Inr requestedSize \<Rightarrow>
           withMem (\<lambda>gas. Ret
             (thenGas (addGas gas LogGas) (\<lambda>g1. thenGas (addGas g1 (n * LogTopicGas)) (\<lambda>g2.
              thenGas (mulGas requestedSize LogDataGas) (addGas g2))), e)) fr ms e)"

definition memPlus :: "u64 \<Rightarrow> gasFunc" where
  "memPlus c fr ms e = withMem (\<lambda>gas. Ret (addGas gas c, e)) fr ms e"

definition gasMLoad :: gasFunc where "gasMLoad = memPlus GasFastestStep"
definition gasMStore8 :: gasFunc where "gasMStore8 = memPlus GasFastestStep"
definition gasMStore :: gasFunc where "gasMStore = memPlus GasFastestStep"
definition gasCreate :: gasFunc where "gasCreate = memPlus CreateGas"

definition gasBalance :: gasFunc where
  "gasBalance fr ms e = Ret (Inr (gtBalance (gasTable e)), memory fr, e)"

definition gasExtCodeSize :: gasFunc where
  "gasExtCodeSize fr ms e = Ret (Inr (ExtcodeSize (gasTable e)), memory fr, e)"

definition gasSLoad :: gasFunc where
  "gasSLoad fr ms e = Ret (Inr (SLoad (gasTable e)), memory fr, e)"

definition gasExp :: gasFunc where
  "gasExp fr ms e =
     andThen (Back (stack fr) 1) (\<lambda>v.
       let expByteLen = word_of_nat ((BitLen v + 7) div 8)
       in Ret (addGas (expByteLen * ExpByte (gasTable e)) GasSlowStep, memory fr, e))"

text \<open>The end of the gas functions of calls: the memory gas, the gas that goes to the call, their sum.\<close>

definition passGas :: "u64 \<Rightarrow> u64 \<Rightarrow> frame \<Rightarrow> EVM \<Rightarrow> (gasRes \<times> EVM) go" where
  "passGas x y fr e =
     (case addGas x y of
        Inl err \<Rightarrow> Ret (Inl err, e)
      | Inr gas \<Rightarrow>
          andThen (Back (stack fr) 0) (\<lambda>callCost.
            case callGas (gasTable e) (cGas (contract fr)) gas callCost of
              Inl err \<Rightarrow> Ret (Inl err, e\<lparr>callGasTemp := 0\<rparr>)
            | Inr temp \<Rightarrow> Ret (addGas gas temp, e\<lparr>callGasTemp := temp\<rparr>)))"

definition gasCall :: "hashfun \<Rightarrow> gasFunc" where
  "gasCall kec fr ms e =
     andThen (Back (stack fr) 2) (\<lambda>v. andThen (Back (stack fr) 1) (\<lambda>a.
     let gas = Calls (gasTable e); transfersValue = (v \<noteq> 0) in
     andThen (if transfersValue then onState (EmptyAcc kec (BigToAddress a)) e else Ret (False, e)) (\<lambda>(fresh, e1).
       let gas1 = (if fresh then gas + CallNewAccountGas else gas);
           gas2 = (if transfersValue then gas1 + CallValueTransferGas else gas1)
       in withMem (\<lambda>memoryGas. passGas gas2 memoryGas fr e1) fr ms e1)))"

definition gasCallCode :: gasFunc where
  "gasCallCode fr ms e =
     andThen (Back (stack fr) 2) (\<lambda>v.
       let gas = (if v \<noteq> 0 then Calls (gasTable e) + CallValueTransferGas else Calls (gasTable e))
       in withMem (\<lambda>memoryGas. passGas gas memoryGas fr e) fr ms e)"

definition gasReturn :: gasFunc where "gasReturn fr ms e = withMem (\<lambda>gas. Ret (Inr gas, e)) fr ms e"
definition gasRevert :: gasFunc where "gasRevert fr ms e = withMem (\<lambda>gas. Ret (Inr gas, e)) fr ms e"

definition gasSuicide :: "hashfun \<Rightarrow> gasFunc" where
  "gasSuicide kec fr ms e =
     (let self = cself (contract fr) in
      andThen (Back (stack fr) 0) (\<lambda>a.
      andThen (onState (EmptyAcc kec (BigToAddress a)) e) (\<lambda>(fresh, e1).
      andThen (if fresh then onState (GetBalance kec self) e1 else Ret (0, e1)) (\<lambda>(bal, e2).
        let gas = (if fresh \<and> bal \<noteq> 0 then gtSuicide (gasTable e2) + CreateBySuicide (gasTable e2) else gtSuicide (gasTable e2)) in
        andThen (onState (HasSuicided kec self) e2) (\<lambda>(gone, e3).
          Ret (Inr gas, memory fr, if gone then e3 else e3\<lparr>stateDB := AddRefund SuicideRefundGas (stateDB e3)\<rparr>))))))"

definition gasDelegateCall :: gasFunc where
  "gasDelegateCall fr ms e = withMem (\<lambda>gas. passGas gas (Calls (gasTable e)) fr e) fr ms e"

definition gasStaticCall :: gasFunc where
  "gasStaticCall fr ms e = withMem (\<lambda>gas. passGas gas (Calls (gasTable e)) fr e) fr ms e"

definition gasPush :: gasFunc where
  "gasPush fr ms e = Ret (Inr GasFastestStep, memory fr, e)"

definition gasSwap :: gasFunc where
  "gasSwap fr ms e = Ret (Inr GasFastestStep, memory fr, e)"

definition gasDup :: gasFunc where
  "gasDup fr ms e = Ret (Inr GasFastestStep, memory fr, e)"

end
