(* ===== verification/Precompiled.thy ===== *)
theory Precompiled
  imports EvmData
begin

text \<open>
  The precompiled contracts (\<open>core/vm/contracts.go\<close>). The hash functions, the recovery of keys and the
  operations of the curve are parameters, collected in a record; a point of the curve is given by the
  bytes it is read from.
\<close>

record crypto =
  keccak :: hashfun
  ecrecoverKey :: "bytes \<Rightarrow> bytes \<Rightarrow> bytes option"
  sha256Sum :: "bytes \<Rightarrow> bytes"
  ripemd160Sum :: "bytes \<Rightarrow> bytes"
  g1Valid :: "bytes \<Rightarrow> bool"
  g1Add :: "bytes \<Rightarrow> bytes \<Rightarrow> bytes"
  g1Mul :: "bytes \<Rightarrow> int \<Rightarrow> bytes"
  g2Valid :: "bytes \<Rightarrow> bool"
  PairingCheck :: "(bytes \<times> bytes) list \<Rightarrow> bool"

type_synonym precompRes = "(bytes option \<times> vmErr option) go"

section \<open>Prices\<close>

definition EcrecoverGas :: u64 where "EcrecoverGas = 3000"
definition Sha256BaseGas :: u64 where "Sha256BaseGas = 60"
definition Sha256PerWordGas :: u64 where "Sha256PerWordGas = 12"
definition Ripemd160BaseGas :: u64 where "Ripemd160BaseGas = 600"
definition Ripemd160PerWordGas :: u64 where "Ripemd160PerWordGas = 120"
definition IdentityBaseGas :: u64 where "IdentityBaseGas = 15"
definition IdentityPerWordGas :: u64 where "IdentityPerWordGas = 3"
definition ModExpQuadCoeffDiv :: u64 where "ModExpQuadCoeffDiv = 20"
definition Bn256AddGas :: u64 where "Bn256AddGas = 500"
definition Bn256ScalarMulGas :: u64 where "Bn256ScalarMulGas = 40000"
definition Bn256PairingBaseGas :: u64 where "Bn256PairingBaseGas = 100000"
definition Bn256PairingPerPointGas :: u64 where "Bn256PairingPerPointGas = 80000"

section \<open>Recovery of a key, hashes and copying\<close>

definition secp256k1N :: int where
  "secp256k1N = 0xfffffffffffffffffffffffffffffffebaaedce6af48a03bbfd25e8cd0364141"

definition ValidateSignatureValues :: "u8 \<Rightarrow> int \<Rightarrow> int \<Rightarrow> bool" where
  "ValidateSignatureValues v r s =
     (if r < 1 \<or> s < 1 then False
      else if s > secp256k1N div 2 then False
      else r < secp256k1N \<and> s < secp256k1N \<and> (v = 0 \<or> v = 1))"

definition runEcrecover :: "crypto \<Rightarrow> bytes \<Rightarrow> precompRes" where
  "runEcrecover cr inp =
     (let i = RightPadBytes inp 128;
          r = setBytes (take 32 (drop 64 i)); s = setBytes (take 32 (drop 96 i)); v = i ! 63 - 27
      in if \<not> allZero (take 31 (drop 32 i)) \<or> \<not> ValidateSignatureValues v r s then Ret (None, None)
         else (case ecrecoverKey cr (take 32 i) (take 64 (drop 64 i) @ [v]) of
                 None \<Rightarrow> Ret (None, None)
               | Some pub \<Rightarrow>
                   if pub = [] then Panic SliceFault
                   else Ret (Some (LeftPadBytes (drop 12 (hash_bytes (keccak cr (tl pub)))) 32), None)))"

definition perWord :: "bytes \<Rightarrow> u64 \<Rightarrow> u64 \<Rightarrow> u64" where
  "perWord inp word base = word_of_nat (length inp + 31) div 32 * word + base"

section \<open>Modular exponentiation\<close>

definition modExpLens :: "bytes \<Rightarrow> (int \<times> int \<times> int) go" where
  "modExpLens inp =
     andThen (getData inp 0 32) (\<lambda>b. andThen (getData inp 32 32) (\<lambda>e. andThen (getData inp 64 32) (\<lambda>m.
       Ret (setBytes b, setBytes e, setBytes m))))"

definition expHead :: "bytes \<Rightarrow> int \<Rightarrow> int \<Rightarrow> int go" where
  "expHead inp baseLen expLen =
     (if int (length inp) \<le> baseLen then Ret 0
      else
        andThen (getData inp (Uint64 baseLen) (if expLen > 32 then 32 else Uint64 expLen)) (\<lambda>d. Ret (setBytes d)))"

definition modExpComplexity :: "int \<Rightarrow> int" where
  "modExpComplexity x =
     (if x \<le> 64 then x * x
      else if x \<le> 1024 then bigDiv (x * x) 4 + (96 * x - 3072)
      else bigDiv (x * x) 16 + (480 * x - 199680))"

definition modExpGas :: "bytes \<Rightarrow> u64 go" where
  "modExpGas inp0 =
     andThen (modExpLens inp0) (\<lambda>(baseLen, expLen, modLen).
     andThen (expHead (drop 96 inp0) baseLen expLen) (\<lambda>hd1.
       let msb = (if BitLen hd1 > 0 then int (BitLen hd1) - 1 else 0);
           adjExpLen = (if expLen > 32 then 8 * (expLen - 32) else 0) + msb;
           gas = bigDiv (modExpComplexity (BigMax modLen baseLen) * BigMax adjExpLen 1) (uint ModExpQuadCoeffDiv)
       in Ret (if BitLen gas > 64 then MaxUint64 else Uint64 gas)))"

definition runModExp :: "bytes \<Rightarrow> precompRes" where
  "runModExp inp0 =
     andThen (modExpLens inp0) (\<lambda>(baseL, expL, modL).
       let baseLen = Uint64 baseL; expLen = Uint64 expL; modLen = Uint64 modL; inp = drop 96 inp0 in
       if baseLen = 0 \<and> modLen = 0 then Ret (Some [], None)
       else
         andThen (getData inp 0 baseLen) (\<lambda>b. andThen (getData inp baseLen expLen) (\<lambda>x.
         andThen (getData inp (baseLen + expLen) modLen) (\<lambda>m.
           let md = setBytes m; l = nat (int64_of modLen) in
           if BitLen md = 0 then Ret (Some (LeftPadBytes [] l), None)
           else Ret (Some (LeftPadBytes (bigBytes (setBytes b ^ nat (setBytes x) mod md)) l), None)))))"

section \<open>The curve\<close>

definition runBn256Add :: "crypto \<Rightarrow> bytes \<Rightarrow> precompRes" where
  "runBn256Add cr inp =
     andThen (getData inp 0 64) (\<lambda>x.
       if \<not> g1Valid cr x then Ret (None, Some BadCurvePoint)
       else andThen (getData inp 64 64) (\<lambda>y.
         if \<not> g1Valid cr y then Ret (None, Some BadCurvePoint) else Ret (Some (g1Add cr x y), None)))"

definition runBn256ScalarMul :: "crypto \<Rightarrow> bytes \<Rightarrow> precompRes" where
  "runBn256ScalarMul cr inp =
     andThen (getData inp 0 64) (\<lambda>p.
       if \<not> g1Valid cr p then Ret (None, Some BadCurvePoint)
       else andThen (getData inp 64 32) (\<lambda>k. Ret (Some (g1Mul cr p (setBytes k)), None)))"

text \<open>The pairs of points in the input; \<open>None\<close> when one of them is not valid.\<close>

function pairingPoints :: "crypto \<Rightarrow> bytes \<Rightarrow> (bytes \<times> bytes) list option" where
  "pairingPoints cr inp =
     (if inp = [] then Some []
      else
        (let c = take 64 inp; t = take 128 (drop 64 inp) in
         if \<not> g1Valid cr c then None
         else if \<not> g2Valid cr t then None
         else map_option (\<lambda>ps. (c, t) # ps) (pairingPoints cr (drop 192 inp))))"
  by pat_completeness auto

termination
  by (relation "measure (\<lambda>(cr, inp). length inp)") auto

declare pairingPoints.simps [simp del]

definition runBn256Pairing :: "crypto \<Rightarrow> bytes \<Rightarrow> precompRes" where
  "runBn256Pairing cr inp =
     (if length inp mod 192 > 0 then Ret (None, Some errBadPairingInput)
      else (case pairingPoints cr inp of
              None \<Rightarrow> Ret (None, Some BadCurvePoint)
            | Some ps \<Rightarrow> Ret (Some (replicate 31 0 @ [if PairingCheck cr ps then 1 else 0]), None)))"

section \<open>The table\<close>

datatype precompile =
    EcrecoverC | Sha256C | Ripemd160C | DataCopyC | BigModExpC | Bn256AddC | Bn256ScalarMulC | Bn256PairingC

definition PrecompiledContracts :: "address \<Rightarrow> precompile option" where
  "PrecompiledContracts =
     [1 \<mapsto> EcrecoverC, 2 \<mapsto> Sha256C, 3 \<mapsto> Ripemd160C, 4 \<mapsto> DataCopyC, 5 \<mapsto> BigModExpC, 6 \<mapsto> Bn256AddC,
      7 \<mapsto> Bn256ScalarMulC, 8 \<mapsto> Bn256PairingC]"

primrec RequiredGas :: "precompile \<Rightarrow> bytes \<Rightarrow> u64 go" where
  "RequiredGas EcrecoverC inp = Ret EcrecoverGas"
| "RequiredGas Sha256C inp = Ret (perWord inp Sha256PerWordGas Sha256BaseGas)"
| "RequiredGas Ripemd160C inp = Ret (perWord inp Ripemd160PerWordGas Ripemd160BaseGas)"
| "RequiredGas DataCopyC inp = Ret (perWord inp IdentityPerWordGas IdentityBaseGas)"
| "RequiredGas BigModExpC inp = modExpGas inp"
| "RequiredGas Bn256AddC inp = Ret Bn256AddGas"
| "RequiredGas Bn256ScalarMulC inp = Ret Bn256ScalarMulGas"
| "RequiredGas Bn256PairingC inp = Ret (Bn256PairingBaseGas + word_of_nat (length inp div 192) * Bn256PairingPerPointGas)"

primrec runPrecompile :: "crypto \<Rightarrow> precompile \<Rightarrow> bytes \<Rightarrow> precompRes" where
  "runPrecompile cr EcrecoverC inp = runEcrecover cr inp"
| "runPrecompile cr Sha256C inp = Ret (Some (sha256Sum cr inp), None)"
| "runPrecompile cr Ripemd160C inp = Ret (Some (LeftPadBytes (ripemd160Sum cr inp) 32), None)"
| "runPrecompile cr DataCopyC inp = Ret (Some inp, None)"
| "runPrecompile cr BigModExpC inp = runModExp inp"
| "runPrecompile cr Bn256AddC inp = runBn256Add cr inp"
| "runPrecompile cr Bn256ScalarMulC inp = runBn256ScalarMul cr inp"
| "runPrecompile cr Bn256PairingC inp = runBn256Pairing cr inp"

definition RunPrecompiledContract ::
  "crypto \<Rightarrow> precompile \<Rightarrow> bytes \<Rightarrow> Contract \<Rightarrow> (bytes option \<times> vmErr option \<times> Contract) go" where
  "RunPrecompiledContract cr p inp c =
     andThen (RequiredGas p inp) (\<lambda>gas.
       case UseGas gas c of
         (True, c') \<Rightarrow> andThen (runPrecompile cr p inp) (\<lambda>(ret, err). Ret (ret, err, c'))
       | (False, c') \<Rightarrow> Ret (None, Some ErrOutOfGas, c'))"

end
