(* ===== verification/EvmRun.thy ===== *)
theory EvmRun
  imports EvmGas Precompiled
begin

text \<open>
  Running contracts: \<open>core/vm/evm.go\<close> with the transfer of \<open>core/evm.go\<close>, the instructions that call,
  the jump table and the interpreter's loop.

  The loop and the calls are mutually recursive in the code. Here a call takes the loop of the called
  contract as an argument, and \<open>loop\<close> hands itself, with one unit of fuel less, to the instruction it
  executes and to its next iteration.
\<close>

type_synonym loopFun = "frame \<Rightarrow> EVM \<Rightarrow> opResult"
type_synonym callRes = "(bytes option \<times> u64 \<times> vmErr option \<times> EVM) go"

section \<open>Transfers and addresses\<close>

definition CanTransfer :: "hashfun \<Rightarrow> address \<Rightarrow> int \<Rightarrow> EVM \<Rightarrow> (bool \<times> EVM) go" where
  "CanTransfer kec addr amount e =
     andThen (onState (GetBalance kec addr) e) (\<lambda>(b, e'). Ret (b \<ge> amount, e'))"

definition Transfer :: "hashfun \<Rightarrow> address \<Rightarrow> address \<Rightarrow> int \<Rightarrow> EVM \<Rightarrow> EVM go" where
  "Transfer kec sender recipient amount e =
     andThen (doState (SubBalance kec sender amount) e) (doState (AddBalance kec recipient amount))"

definition createdType :: rtype where
  "createdType = TSlice TIface"

definition createdVal :: "address \<Rightarrow> u64 \<Rightarrow> rval" where
  "createdVal b nonce =
     VList [VIface (Some (TByteArray 20, VBytes (addr_bytes b))), VIface (Some (TUint 64, VUint nonce))]"

definition CreateAddress :: "hashfun \<Rightarrow> address \<Rightarrow> u64 \<Rightarrow> address" where
  "CreateAddress kec b nonce =
     (let data = (case EncodeToBytes createdType (createdVal b nonce) of Inl _ \<Rightarrow> [] | Inr d \<Rightarrow> d)
      in BytesToAddress (drop 12 (hash_bytes (kec data))))"

section \<open>Running a contract\<close>

definition Run :: "loopFun \<Rightarrow> Contract \<Rightarrow> bytes \<Rightarrow> EVM \<Rightarrow> (bytes option \<times> vmErr option \<times> Contract \<times> EVM) go" where
  "Run lp c inp e =
     (let e1 = e\<lparr>depth := depth e + 1, returnData := []\<rparr> in
      if cCode c = [] then Ret (None, None, c, e1\<lparr>depth := depth e1 - 1\<rparr>)
      else
        andThen (lp \<lparr>pc = 0, contract = c\<lparr>cInput := inp\<rparr>, memory = NewMemory, stack = []\<rparr> e1)
          (\<lambda>(ret, err, fr, e2). Ret (ret, err, contract fr, e2\<lparr>depth := depth e2 - 1\<rparr>)))"

definition runContract ::
  "crypto \<Rightarrow> loopFun \<Rightarrow> Contract \<Rightarrow> bytes \<Rightarrow> EVM \<Rightarrow> (bytes option \<times> vmErr option \<times> Contract \<times> EVM) go" where
  "runContract cr lp c inp e =
     (case Option.bind (cCodeAddr c) PrecompiledContracts of
        Some p \<Rightarrow> andThen (RunPrecompiledContract cr p inp c) (\<lambda>(ret, err, c'). Ret (ret, err, c', e))
      | None \<Rightarrow> Run lp c inp e)"

definition takeSnapshot :: "EVM \<Rightarrow> nat \<times> EVM" where
  "takeSnapshot e = (let (n, s) = Snapshot (stateDB e) in (n, e\<lparr>stateDB := s\<rparr>))"

text \<open>The gas a failed contract keeps: none, unless the contract reverted itself.\<close>

definition burnGas :: "vmErr option \<Rightarrow> Contract \<Rightarrow> Contract" where
  "burnGas err c = (if err \<noteq> Some errExecutionReverted then snd (UseGas (cGas c) c) else c)"

text \<open>The code of an account with its hash, and the end of a call.\<close>

definition loadCode :: "hashfun \<Rightarrow> address \<Rightarrow> Contract \<Rightarrow> EVM \<Rightarrow> (Contract \<times> EVM) go" where
  "loadCode kec addr c e =
     andThen (onState (GetCodeHash kec addr) e) (\<lambda>(h, e1).
     andThen (onState (GetCode kec addr) e1) (\<lambda>(code, e2).
     Ret (SetCallCode addr h (bytesOf code) c, e2)))"

definition runCall :: "crypto \<Rightarrow> loopFun \<Rightarrow> nat \<Rightarrow> address \<Rightarrow> bytes \<Rightarrow> Contract \<Rightarrow> EVM \<Rightarrow> callRes" where
  "runCall cr lp snapshot addr inp c0 e0 =
     andThen (loadCode (keccak cr) addr c0 e0) (\<lambda>(c, e).
     andThen (runContract cr lp c inp e) (\<lambda>(ret, err, c1, e1).
       if err \<noteq> None
       then andThen (doState (RevertToSnapshot (keccak cr) snapshot) e1) (\<lambda>e2. Ret (ret, cGas (burnGas err c1), err, e2))
       else Ret (ret, cGas c1, None, e1)))"

definition Call :: "crypto \<Rightarrow> loopFun \<Rightarrow> ContractRef \<Rightarrow> address \<Rightarrow> bytes \<Rightarrow> u64 \<Rightarrow> int \<Rightarrow> EVM \<Rightarrow> callRes" where
  "Call cr lp caller addr inp gas val e =
     (let kec = keccak cr in
      if NoRecursion e \<and> depth e > 0 then Ret (None, gas, None, e)
      else if depth e > CallCreateDepth then Ret (None, gas, Some ErrDepth, e)
      else
        andThen (CanTransfer kec (refAddress caller) val e) (\<lambda>(can, e1).
          if \<not> can then Ret (None, gas, Some ErrInsufficientBalance, e1)
          else
            (let (snapshot, e2) = takeSnapshot e1 in
             andThen (onState (Exist kec addr) e2) (\<lambda>(exists, e3).
               if \<not> exists \<and> PrecompiledContracts addr = None \<and> val = 0 then Ret (None, gas, None, e3)
               else
                 andThen (if exists then Ret e3 else doState (CreateAccount kec addr) e3) (\<lambda>e4.
                 andThen (Transfer kec (refAddress caller) addr val e4) (\<lambda>e5.
                   let (c, e6) = NewContract caller addr val gas e5 in runCall cr lp snapshot addr inp c e6))))))"

definition CallCode :: "crypto \<Rightarrow> loopFun \<Rightarrow> ContractRef \<Rightarrow> address \<Rightarrow> bytes \<Rightarrow> u64 \<Rightarrow> int \<Rightarrow> EVM \<Rightarrow> callRes" where
  "CallCode cr lp caller addr inp gas val e =
     (if NoRecursion e \<and> depth e > 0 then Ret (None, gas, None, e)
      else if depth e > CallCreateDepth then Ret (None, gas, Some ErrDepth, e)
      else
        andThen (CanTransfer (keccak cr) (refAddress caller) val e) (\<lambda>(can, e1).
          if \<not> can then Ret (None, gas, Some ErrInsufficientBalance, e1)
          else
            (let (snapshot, e2) = takeSnapshot e1;
                 (c, e3) = NewContract caller (refAddress caller) val gas e2
             in runCall cr lp snapshot addr inp c e3)))"

text \<open>The value of the new contract is set by \<open>AsDelegate\<close>.\<close>

definition DelegateCall :: "crypto \<Rightarrow> loopFun \<Rightarrow> ContractRef \<Rightarrow> address \<Rightarrow> bytes \<Rightarrow> u64 \<Rightarrow> EVM \<Rightarrow> callRes" where
  "DelegateCall cr lp caller addr inp gas e =
     (if NoRecursion e \<and> depth e > 0 then Ret (None, gas, None, e)
      else if depth e > CallCreateDepth then Ret (None, gas, Some ErrDepth, e)
      else
        (let (snapshot, e1) = takeSnapshot e;
             (c0, e2) = NewContract caller (refAddress caller) 0 gas e1
         in andThen (AsDelegate caller c0) (\<lambda>c. runCall cr lp snapshot addr inp c e2)))"

definition StaticCall :: "crypto \<Rightarrow> loopFun \<Rightarrow> ContractRef \<Rightarrow> address \<Rightarrow> bytes \<Rightarrow> u64 \<Rightarrow> EVM \<Rightarrow> callRes" where
  "StaticCall cr lp caller addr inp gas e =
     (if NoRecursion e \<and> depth e > 0 then Ret (None, gas, None, e)
      else if depth e > CallCreateDepth then Ret (None, gas, Some ErrDepth, e)
      else
        (let ro = readOnly e;
             (snapshot, e1) = takeSnapshot (e\<lparr>readOnly := True\<rparr>);
             (c, e2) = NewContract caller addr 0 gas e1
         in andThen (runCall cr lp snapshot addr inp c e2) (\<lambda>(ret, left, err, e3).
              Ret (ret, left, err, if ro then e3 else e3\<lparr>readOnly := False\<rparr>))))"

text \<open>The end of a creation: the code is stored, or the state reverted.\<close>

definition storeCode ::
  "crypto \<Rightarrow> nat \<Rightarrow> address \<Rightarrow> bytes option \<Rightarrow> vmErr option \<Rightarrow> Contract \<Rightarrow> EVM \<Rightarrow> (bytes option \<times> address \<times> u64 \<times> vmErr option \<times> EVM) go" where
  "storeCode cr snapshot addr ret err c e =
     (let maxCodeSizeExceeded = length (bytesOf ret) > MaxCodeSize in
      andThen
        (if err = None \<and> \<not> maxCodeSizeExceeded then
           (case UseGas (word_of_nat (length (bytesOf ret)) * CreateDataGas) c of
              (True, c') \<Rightarrow> andThen (doState (SetCode (keccak cr) addr ret) e) (\<lambda>e'. Ret (None, c', e'))
            | (False, c') \<Rightarrow> Ret (Some ErrCodeStoreOutOfGas, c', e))
         else Ret (err, c, e))
        (\<lambda>(err1, c1, e1).
           andThen
             (if maxCodeSizeExceeded \<or> err1 \<noteq> None
              then andThen (doState (RevertToSnapshot (keccak cr) snapshot) e1) (\<lambda>e2. Ret (burnGas err1 c1, e2))
              else Ret (c1, e1))
             (\<lambda>(c2, e2).
                Ret (ret, addr, cGas c2, if maxCodeSizeExceeded \<and> err1 = None then Some errMaxCodeSizeExceeded else err1, e2))))"

definition CreateContract ::
  "crypto \<Rightarrow> loopFun \<Rightarrow> ContractRef \<Rightarrow> bytes \<Rightarrow> u64 \<Rightarrow> int \<Rightarrow> EVM \<Rightarrow> (bytes option \<times> address \<times> u64 \<times> vmErr option \<times> EVM) go" where
  "CreateContract cr lp caller code gas val e =
     (let kec = keccak cr; sender = refAddress caller in
      if depth e > CallCreateDepth then Ret (None, 0, gas, Some ErrDepth, e)
      else
        andThen (CanTransfer kec sender val e) (\<lambda>(can, e1).
          if \<not> can then Ret (None, 0, gas, Some ErrInsufficientBalance, e1)
          else
            andThen (onState (GetNonce kec sender) e1) (\<lambda>(nonce, e2).
            andThen (doState (SetNonce kec sender (nonce + 1)) e2) (\<lambda>e3.
              let addr = CreateAddress kec sender nonce in
              andThen (onState (GetCodeHash kec addr) e3) (\<lambda>(contractHash, e4).
              andThen (onState (GetNonce kec addr) e4) (\<lambda>(n, e5).
                if n \<noteq> 0 \<or> (contractHash \<noteq> 0 \<and> contractHash \<noteq> kec [])
                then Ret (None, 0, 0, Some ErrContractAddressCollision, e5)
                else
                  (let (snapshot, e6) = takeSnapshot e5 in
                   andThen (doState (CreateAccount kec addr) e6) (\<lambda>e7.
                   andThen (doState (SetNonce kec addr 1) e7) (\<lambda>e8.
                   andThen (Transfer kec sender addr val e8) (\<lambda>e9.
                     let (c0, e10) = NewContract caller addr val gas e9;
                         c = SetCallCode addr (kec code) code c0
                     in if NoRecursion e10 \<and> depth e10 > 0 then Ret (None, addr, gas, None, e10)
                        else andThen (runContract cr lp c [] e10) (\<lambda>(ret, err, c1, e11).
                               storeCode cr snapshot addr ret err c1 e11)))))))))))"

section \<open>Instructions that call\<close>

definition addBack :: "u64 \<Rightarrow> frame \<Rightarrow> frame" where
  "addBack gas fr = fr\<lparr>contract := (contract fr)\<lparr>cGas := cGas (contract fr) + gas\<rparr>\<rparr>"

definition opCreate :: "crypto \<Rightarrow> loopFun \<Rightarrow> frame \<Rightarrow> EVM \<Rightarrow> opResult" where
  "opCreate cr lp fr e =
     (case stack fr of
        val # offset # sz # r \<Rightarrow>
          andThen (memGet (Int64 offset) (Int64 sz) (memory fr)) (\<lambda>inp.
            let g = cGas (contract fr);
                gas = g - g div 64;
                c = snd (UseGas gas (contract fr))
            in andThen (CreateContract cr lp (ContractRef c) (bytesOf inp) gas val e) (\<lambda>(res, addr, returnGas, suberr, e1).
                 Ret (if suberr = Some errExecutionReverted then res else None, None,
                      addBack returnGas (fr\<lparr>contract := c, stack := (if suberr \<noteq> None then 0 else addrBig addr) # r\<rparr>), e1)))
      | _ \<Rightarrow> Panic StackFault)"

text \<open>What the instructions do with the result of a call.\<close>

definition afterCall :: "callRes \<Rightarrow> int \<Rightarrow> int \<Rightarrow> int list \<Rightarrow> frame \<Rightarrow> opResult" where
  "afterCall res retOffset retSize r fr =
     andThen res (\<lambda>(ret, returnGas, err, e1).
       let fr1 = fr\<lparr>stack := (if err \<noteq> None then 0 else 1) # r\<rparr> in
       andThen
         (if err = None \<or> err = Some errExecutionReverted
          then memSet (Uint64 retOffset) (Uint64 retSize) (bytesOf ret) (memory fr1) else Ret (memory fr1))
         (\<lambda>m. Ret (ret, None, addBack returnGas (fr1\<lparr>memory := m\<rparr>), e1)))"

definition withStipend :: "int \<Rightarrow> u64 \<Rightarrow> u64" where
  "withStipend val gas = (if val \<noteq> 0 then gas + CallStipend else gas)"

definition opCall :: "crypto \<Rightarrow> loopFun \<Rightarrow> frame \<Rightarrow> EVM \<Rightarrow> opResult" where
  "opCall cr lp fr e =
     (case stack fr of
        _ # addr # v # inOffset # inSize # retOffset # retSize # r \<Rightarrow>
          (let val = U256 v in
           andThen (memGet (Int64 inOffset) (Int64 inSize) (memory fr)) (\<lambda>args.
             afterCall (Call cr lp (ContractRef (contract fr)) (BigToAddress addr) (bytesOf args)
                          (withStipend val (callGasTemp e)) val e) retOffset retSize r fr))
      | _ \<Rightarrow> Panic StackFault)"

definition opCallCode :: "crypto \<Rightarrow> loopFun \<Rightarrow> frame \<Rightarrow> EVM \<Rightarrow> opResult" where
  "opCallCode cr lp fr e =
     (case stack fr of
        _ # addr # v # inOffset # inSize # retOffset # retSize # r \<Rightarrow>
          (let val = U256 v in
           andThen (memGet (Int64 inOffset) (Int64 inSize) (memory fr)) (\<lambda>args.
             afterCall (CallCode cr lp (ContractRef (contract fr)) (BigToAddress addr) (bytesOf args)
                          (withStipend val (callGasTemp e)) val e) retOffset retSize r fr))
      | _ \<Rightarrow> Panic StackFault)"

definition opDelegateCall :: "crypto \<Rightarrow> loopFun \<Rightarrow> frame \<Rightarrow> EVM \<Rightarrow> opResult" where
  "opDelegateCall cr lp fr e =
     (case stack fr of
        _ # addr # inOffset # inSize # retOffset # retSize # r \<Rightarrow>
          andThen (memGet (Int64 inOffset) (Int64 inSize) (memory fr)) (\<lambda>args.
            afterCall (DelegateCall cr lp (ContractRef (contract fr)) (BigToAddress addr) (bytesOf args) (callGasTemp e) e)
              retOffset retSize r fr)
      | _ \<Rightarrow> Panic StackFault)"

definition opStaticCall :: "crypto \<Rightarrow> loopFun \<Rightarrow> frame \<Rightarrow> EVM \<Rightarrow> opResult" where
  "opStaticCall cr lp fr e =
     (case stack fr of
        _ # addr # inOffset # inSize # retOffset # retSize # r \<Rightarrow>
          andThen (memGet (Int64 inOffset) (Int64 inSize) (memory fr)) (\<lambda>args.
            afterCall (StaticCall cr lp (ContractRef (contract fr)) (BigToAddress addr) (bytesOf args) (callGasTemp e) e)
              retOffset retSize r fr)
      | _ \<Rightarrow> Panic StackFault)"

section \<open>The jump table\<close>

record operation =
  execute :: "frame \<Rightarrow> EVM \<Rightarrow> opResult"
  gasCost :: gasFunc
  validateStack :: "int list \<Rightarrow> vmErr option"
  memorySize :: "(int list \<Rightarrow> int go) option"
  halts :: bool
  jumps :: bool
  writes :: bool
  reverts :: bool
  returns :: bool

definition instr :: "(frame \<Rightarrow> EVM \<Rightarrow> opResult) \<Rightarrow> gasFunc \<Rightarrow> (int list \<Rightarrow> vmErr option) \<Rightarrow> operation" where
  "instr ex gas chk =
     \<lparr>execute = ex, gasCost = gas, validateStack = chk, memorySize = None, halts = False, jumps = False, writes = False,
      reverts = False, returns = False\<rparr>"

definition stackInstr :: "(int list \<Rightarrow> int list go) \<Rightarrow> u64 \<Rightarrow> nat \<Rightarrow> operation" where
  "stackInstr f gas n = instr (onStack f) (constGasFunc gas) (makeStackFunc n 1)"

definition pushInstr :: "(frame \<Rightarrow> EVM \<Rightarrow> opResult) \<Rightarrow> operation" where
  "pushInstr f = instr f (constGasFunc GasQuickStep) (makeStackFunc 0 1)"

definition memInstr ::
  "(frame \<Rightarrow> EVM \<Rightarrow> opResult) \<Rightarrow> gasFunc \<Rightarrow> (int list \<Rightarrow> vmErr option) \<Rightarrow> (int list \<Rightarrow> int go) \<Rightarrow> operation" where
  "memInstr ex gas chk mem = (instr ex gas chk)\<lparr>memorySize := Some mem\<rparr>"

text \<open>The table as a list of entries, in the order of the code; an opcode that is not listed is invalid.\<close>

definition arithTable :: "(u8 \<times> operation) list" where
  "arithTable =
     [(0x01, stackInstr opAdd GasFastestStep 2), (0x02, stackInstr opMul GasFastStep 2),
      (0x03, stackInstr opSub GasFastestStep 2), (0x04, stackInstr opDiv GasFastStep 2),
      (0x05, stackInstr opSdiv GasFastStep 2), (0x06, stackInstr opMod GasFastStep 2),
      (0x07, stackInstr opSmod GasFastStep 2), (0x08, stackInstr opAddmod GasMidStep 3),
      (0x09, stackInstr opMulmod GasMidStep 3), (0x0a, instr (onStack opExp) gasExp (makeStackFunc 2 1)),
      (0x0b, stackInstr opSignExtend GasFastStep 2), (0x10, stackInstr opLt GasFastestStep 2),
      (0x11, stackInstr opGt GasFastestStep 2), (0x12, stackInstr opSlt GasFastestStep 2),
      (0x13, stackInstr opSgt GasFastestStep 2), (0x14, stackInstr opEq GasFastestStep 2),
      (0x15, stackInstr opIszero GasFastestStep 1), (0x16, stackInstr opAnd GasFastestStep 2),
      (0x18, stackInstr opXor GasFastestStep 2), (0x17, stackInstr opOr GasFastestStep 2),
      (0x19, stackInstr opNot GasFastestStep 1), (0x1a, stackInstr opByte GasFastestStep 2),
      (0x1b, stackInstr opSHL GasFastestStep 2), (0x1c, stackInstr opSHR GasFastestStep 2),
      (0x1d, stackInstr opSAR GasFastestStep 2)]"

definition envTable :: "hashfun \<Rightarrow> (u8 \<times> operation) list" where
  "envTable kec =
     [(0x20, memInstr (opSha3 kec) gasSha3 (makeStackFunc 2 1) memorySha3),
      (0x30, pushInstr opAddress), (0x31, instr (opBalance kec) gasBalance (makeStackFunc 1 1)),
      (0x32, pushInstr opOrigin), (0x33, pushInstr opCaller), (0x34, pushInstr opCallValue),
      (0x35, instr opCallDataLoad (constGasFunc GasFastestStep) (makeStackFunc 1 1)), (0x36, pushInstr opCallDataSize),
      (0x37, memInstr opCallDataCopy gasCallDataCopy (makeStackFunc 3 0) memoryCallDataCopy),
      (0x38, pushInstr opCodeSize), (0x39, memInstr opCodeCopy gasCodeCopy (makeStackFunc 3 0) memoryCodeCopy),
      (0x3a, pushInstr opGasprice), (0x3b, instr (opExtCodeSize kec) gasExtCodeSize (makeStackFunc 1 1)),
      (0x3c, memInstr (opExtCodeCopy kec) gasExtCodeCopy (makeStackFunc 4 0) memoryExtCodeCopy),
      (0x3d, pushInstr opReturnDataSize),
      (0x3e, memInstr opReturnDataCopy gasReturnDataCopy (makeStackFunc 3 0) memoryReturnDataCopy),
      (0x40, instr opBlockhash (constGasFunc GasExtStep) (makeStackFunc 1 1)), (0x41, pushInstr opCoinbase),
      (0x42, pushInstr opTimestamp), (0x43, pushInstr opNumber), (0x44, pushInstr opDifficulty), (0x45, pushInstr opGasLimit)]"

definition flowTable :: "hashfun \<Rightarrow> (u8 \<times> operation) list" where
  "flowTable kec =
     [(0x00, (instr opStop (constGasFunc 0) (makeStackFunc 0 0))\<lparr>halts := True\<rparr>),
      (0x50, instr (onStack opPop) (constGasFunc GasQuickStep) (makeStackFunc 1 0)),
      (0x51, memInstr opMload gasMLoad (makeStackFunc 1 1) memoryMLoad),
      (0x52, memInstr opMstore gasMStore (makeStackFunc 2 0) memoryMStore),
      (0x53, memInstr opMstore8 gasMStore8 (makeStackFunc 2 0) memoryMStore8),
      (0x54, instr (opSload kec) gasSLoad (makeStackFunc 1 1)),
      (0x55, (instr (opSstore kec) (gasSStore kec) (makeStackFunc 2 0))\<lparr>writes := True\<rparr>),
      (0x56, (instr opJump (constGasFunc GasMidStep) (makeStackFunc 1 0))\<lparr>jumps := True\<rparr>),
      (0x57, (instr opJumpi (constGasFunc GasSlowStep) (makeStackFunc 2 0))\<lparr>jumps := True\<rparr>),
      (0x58, pushInstr opPc), (0x59, pushInstr opMsize), (0x5a, pushInstr opGas),
      (0x5b, instr opJumpdest (constGasFunc JumpdestGas) (makeStackFunc 0 0)),
      (0xf3, (memInstr opReturn gasReturn (makeStackFunc 2 0) memoryReturn)\<lparr>halts := True\<rparr>),
      (0xfd, (memInstr opRevert gasRevert (makeStackFunc 2 0) memoryRevert)\<lparr>reverts := True, returns := True\<rparr>),
      (0xff, (instr (opSuicide kec) (gasSuicide kec) (makeStackFunc 1 0))\<lparr>halts := True, writes := True\<rparr>)]"

definition numberedTable :: "(u8 \<times> operation) list" where
  "numberedTable =
     map (\<lambda>n. (0x5f + word_of_nat n, instr (makePush (word_of_nat n) n) gasPush (makeStackFunc 0 1))) [1..<33] @
     map (\<lambda>n. (0x7f + word_of_nat n, instr (onStack (makeDup n)) gasDup (makeDupStackFunc n))) [1..<17] @
     map (\<lambda>n. (0x8f + word_of_nat n, instr (onStack (makeSwap n)) gasSwap (makeSwapStackFunc (n + 1)))) [1..<17] @
     map (\<lambda>n. (0xa0 + word_of_nat n, (memInstr (makeLog n) (makeGasLog (word_of_nat n)) (makeStackFunc (n + 2) 0) memoryLog)\<lparr>writes := True\<rparr>)) [0..<5]"

definition callTable :: "crypto \<Rightarrow> loopFun \<Rightarrow> (u8 \<times> operation) list" where
  "callTable cr lp =
     [(0xf0, (memInstr (opCreate cr lp) gasCreate (makeStackFunc 3 1) memoryCreate)\<lparr>writes := True, returns := True\<rparr>),
      (0xf1, (memInstr (opCall cr lp) (gasCall (keccak cr)) (makeStackFunc 7 1) memoryCall)\<lparr>returns := True\<rparr>),
      (0xf2, (memInstr (opCallCode cr lp) gasCallCode (makeStackFunc 7 1) memoryCall)\<lparr>returns := True\<rparr>),
      (0xf4, (memInstr (opDelegateCall cr lp) gasDelegateCall (makeStackFunc 6 1) memoryDelegateCall)\<lparr>returns := True\<rparr>),
      (0xfa, (memInstr (opStaticCall cr lp) gasStaticCall (makeStackFunc 6 1) memoryStaticCall)\<lparr>returns := True\<rparr>)]"

definition NewInstructionSet :: "crypto \<Rightarrow> loopFun \<Rightarrow> u8 \<Rightarrow> operation option" where
  "NewInstructionSet cr lp =
     map_of (arithTable @ envTable (keccak cr) @ flowTable (keccak cr) @ numberedTable @ callTable cr lp)"

section \<open>The interpreter\<close>

definition enforceRestrictions :: "u8 \<Rightarrow> operation \<Rightarrow> int list \<Rightarrow> EVM \<Rightarrow> vmErr option go" where
  "enforceRestrictions op oper st e =
     (if readOnly e then
        (if writes oper then Ret (Some errWriteProtection)
         else if op = 0xf1 then andThen (Back st 2) (\<lambda>v. Ret (if BitLen v > 0 then Some errWriteProtection else None))
         else Ret None)
      else Ret None)"

definition neededMemory :: "operation \<Rightarrow> int list \<Rightarrow> gasRes go" where
  "neededMemory oper st =
     (case memorySize oper of
        None \<Rightarrow> Ret (Inr 0)
      | Some f \<Rightarrow> andThen (f st) (\<lambda>v. Ret (thenGas (sizeGas v) (\<lambda>n. mulGas (toWordSize n) 32))))"

text \<open>The rest of an iteration once the instruction has been executed.\<close>

definition afterOp :: "loopFun \<Rightarrow> operation \<Rightarrow> opResult \<Rightarrow> opResult" where
  "afterOp lp oper res =
     andThen res (\<lambda>(ret, err, fr, e).
       let e1 = (if returns oper then e\<lparr>returnData := bytesOf ret\<rparr> else e) in
       if err \<noteq> None then Ret (None, err, fr, e1)
       else if reverts oper then Ret (ret, Some errExecutionReverted, fr, e1)
       else if halts oper then Ret (ret, None, fr, e1)
       else lp (if jumps oper then fr else fr\<lparr>pc := pc fr + 1\<rparr>) e1)"

definition iteration :: "crypto \<Rightarrow> loopFun \<Rightarrow> frame \<Rightarrow> EVM \<Rightarrow> opResult" where
  "iteration cr lp fr e =
     (if aborted e then Ret (None, None, fr, e)
      else
        (let op = GetOp (pc fr) (contract fr); stop = (\<lambda>err fr' e'. Ret (None, Some err, fr', e')) in
         case NewInstructionSet cr lp op of
           None \<Rightarrow> stop (InvalidOpcode op) fr e
         | Some oper \<Rightarrow>
             (case validateStack oper (stack fr) of
                Some err \<Rightarrow> stop err fr e
              | None \<Rightarrow>
                  andThen (enforceRestrictions op oper (stack fr) e) (\<lambda>restr.
                    case restr of
                      Some err \<Rightarrow> stop err fr e
                    | None \<Rightarrow>
                        andThen (neededMemory oper (stack fr)) (\<lambda>need.
                          case need of
                            Inl err \<Rightarrow> stop err fr e
                          | Inr ms \<Rightarrow>
                              andThen (gasCost oper fr ms e) (\<lambda>(cost, m, e1).
                                let fr1 = fr\<lparr>memory := m\<rparr> in
                                case cost of
                                  Inl err \<Rightarrow> stop ErrOutOfGas fr1 e1
                                | Inr cst \<Rightarrow>
                                    (case UseGas cst (contract fr1) of
                                       (False, _) \<Rightarrow> stop ErrOutOfGas fr1 e1
                                     | (True, c) \<Rightarrow>
                                         afterOp lp oper
                                           (execute oper (fr1\<lparr>contract := c, memory := if ms > 0 then Resize ms m else m\<rparr>) e1))))))))"

primrec loop :: "crypto \<Rightarrow> nat \<Rightarrow> loopFun" where
  "loop cr 0 fr e = OutOfFuel"
| "loop cr (Suc f) fr e = iteration cr (loop cr f) fr e"

end
