(* ===== verification/EvmState.thy ===== *)
theory EvmState
  imports EvmRun StateMachine
begin

text \<open>
  The state behind the virtual machine: code that returns, the money of a state, what a read-only run
  leaves alone, and each operation of the state as a step of the machine that saves whole states.
\<close>

section \<open>Code that returns\<close>

text \<open>A result is fine when it satisfies a property; the only panic allowed is that of a bit vector
  which was cached for other code with the same hash.\<close>

definition fine :: "('a \<Rightarrow> bool) \<Rightarrow> 'a go \<Rightarrow> bool" where
  "fine P r = (case r of Ret x \<Rightarrow> P x | Panic p \<Rightarrow> p = BitmapFault | OutOfFuel \<Rightarrow> False)"

lemma fine_Ret [simp]: "fine P (Ret x) = P x"
  by (simp add: fine_def)

lemma fine_andThen: "fine P r \<Longrightarrow> (\<And>x. P x \<Longrightarrow> fine Q (f x)) \<Longrightarrow> fine Q (andThen r f)"
  by (cases r) (auto simp: fine_def)

lemma fine_mono: "fine P r \<Longrightarrow> (\<And>x. P x \<Longrightarrow> Q x) \<Longrightarrow> fine Q r"
  by (cases r) (auto simp: fine_def)

lemma andThen_Ret [simp]: "andThen r Ret = r"
  by (cases r) simp_all

section \<open>Ledgers\<close>

text \<open>What the virtual machine and the state transition need of the accounts: an entry that is written
  is the entry that is read. The sum of all entries then changes by what was written, and moving an
  amount from one entry to another keeps it.\<close>

locale ledger =
  fixes bal :: "'s \<Rightarrow> 'a::finite \<Rightarrow> int" and put :: "'a \<Rightarrow> 'c \<Rightarrow> 's \<Rightarrow> 's" and worth :: "'c \<Rightarrow> int"
  assumes bal_put: "bal (put a c s) b = (if b = a then worth c else bal s b)"
begin

lemma total_put: "(\<Sum>b\<in>UNIV. bal (put a c s) b) = (\<Sum>b\<in>UNIV. bal s b) - bal s a + worth c"
proof -
  have "(\<Sum>b\<in>UNIV. bal (put a c s) b) = (\<Sum>b\<in>UNIV - {a}. bal (put a c s) b) + worth c"
    using sum.remove [of UNIV a "bal (put a c s)"] by (simp add: bal_put)
  also have "(\<Sum>b\<in>UNIV - {a}. bal (put a c s) b) = (\<Sum>b\<in>UNIV - {a}. bal s b)"
    by (rule sum.cong) (auto simp: bal_put)
  also have "\<dots> = (\<Sum>b\<in>UNIV. bal s b) - bal s a"
    using sum.remove [of UNIV a "bal s"] by simp
  finally show ?thesis .
qed

lemma total_moved:
  assumes "worth c = bal s a - x" "worth d = bal (put a c s) b + x"
  shows "(\<Sum>i\<in>UNIV. bal (put b d (put a c s)) i) = (\<Sum>i\<in>UNIV. bal s i)"
  using assms by (simp add: total_put)

end

section \<open>Money\<close>

definition balOf :: "vstate \<Rightarrow> address \<Rightarrow> int" where
  "balOf v a = (case vAccts v a of None \<Rightarrow> 0 | Some ac \<Rightarrow> aBalance ac)"

definition money :: "vstate \<Rightarrow> int" where
  "money v = (\<Sum>a\<in>UNIV. balOf v a)"

lemma balOf_setAcct: "balOf (setAcct a ac v) b = (if b = a then aBalance ac else balOf v b)"
  by (simp add: balOf_def)

interpretation accounts: ledger balOf setAcct aBalance
  by unfold_locales (rule balOf_setAcct)

lemma balOf_acctAt: "balOf v a = aBalance (acctAt kec a v)"
  by (simp add: balOf_def acctAt_def freshAccount_def split: option.split)

lemma money_setAcct: "money (setAcct a ac v) = money v - balOf v a + aBalance ac"
  unfolding money_def by (rule accounts.total_put)

lemma balOf_le_money: "(\<And>b. 0 \<le> balOf v b) \<Longrightarrow> balOf v a \<le> money v"
  unfolding money_def by (intro member_le_sum) auto

text \<open>No account owes money, all the money fits into a word, and codes have a length.\<close>

definition vOk :: "vstate \<Rightarrow> bool" where
  "vOk v \<longleftrightarrow> (\<forall>a. 0 \<le> balOf v a) \<and> money v < tt256 \<and> (\<forall>a ac. vAccts v a = Some ac \<longrightarrow> length (aCode ac) < 2 ^ 63)"

lemma vOk_bal: "vOk v \<Longrightarrow> 0 \<le> balOf v a \<and> balOf v a < tt256"
  using balOf_le_money [of v a] by (force simp: vOk_def)

lemma vOk_code: "vOk v \<Longrightarrow> length (case vAccts v a of None \<Rightarrow> [] | Some ac \<Rightarrow> aCode ac) < 2 ^ 63"
  by (auto simp: vOk_def split: option.split)

lemma acctAt_code: "vOk v \<Longrightarrow> length (aCode (acctAt kec a v)) < 2 ^ 63"
  by (auto simp: vOk_def acctAt_def freshAccount_def split: option.split)

lemma vOk_setAcct:
  assumes "vOk v" "0 \<le> aBalance ac" "aBalance ac \<le> balOf v a" "length (aCode ac) < 2 ^ 63"
  shows "vOk (setAcct a ac v)" "money (setAcct a ac v) \<le> money v"
  using assms by (auto simp: vOk_def balOf_setAcct money_setAcct)

section \<open>What a read-only run leaves alone\<close>

definition sameWorld :: "hashfun \<Rightarrow> vstate \<Rightarrow> vstate \<Rightarrow> bool" where
  "sameWorld kec v v' \<longleftrightarrow> (\<forall>a. acctAt kec a v' = acctAt kec a v) \<and> vRefund v' = vRefund v \<and> vLogs v' = vLogs v \<and> vLogSize v' = vLogSize v"

lemma sameWorld_refl [simp]: "sameWorld kec v v"
  by (simp add: sameWorld_def)

lemma sameWorld_trans: "sameWorld kec u v \<Longrightarrow> sameWorld kec v w \<Longrightarrow> sameWorld kec u w"
  by (simp add: sameWorld_def)

lemma acctAt_setAcct: "acctAt kec b (setAcct a ac v) = (if b = a then ac else acctAt kec b v)"
  by (simp add: acctAt_def)

lemma setAcct_rest [simp]: "vRefund (setAcct a ac v) = vRefund v" "vLogs (setAcct a ac v) = vLogs v" "vLogSize (setAcct a ac v) = vLogSize v"
  by (simp_all add: setAcct_def)

lemma sameWorld_setAcct: "ac = acctAt kec a v \<Longrightarrow> sameWorld kec v (setAcct a ac v)"
  by (auto simp: sameWorld_def acctAt_setAcct)

section \<open>The machine of saved states behind the state\<close>

text \<open>How a piece of code changes the state: what was saved stays saved, no money is made, and when it
  is read-only nothing of the world changes.\<close>

definition advances :: "hashfun \<Rightarrow> bool \<Rightarrow> machine \<Rightarrow> machine \<Rightarrow> bool" where
  "advances kec ro m m' \<longleftrightarrow> (\<exists>ext. saved m' = saved m @ ext) \<and> nextId m \<le> nextId m' \<and>
     vOk (current m') \<and> money (current m') \<le> money (current m) \<and> (ro \<longrightarrow> sameWorld kec (current m) (current m'))"

lemma advances_refl: "vOk (current m) \<Longrightarrow> advances kec ro m m"
  by (simp add: advances_def)

lemma advances_trans:
  assumes "advances kec ro m m1" "advances kec ro m1 m2"
  shows "advances kec ro m m2"
proof -
  have "\<exists>ext. saved m2 = saved m @ ext" using assms unfolding advances_def by (metis append.assoc)
  then show ?thesis using assms sameWorld_trans unfolding advances_def by (auto intro: sameWorld_trans)
qed

lemma advances_current:
  "vOk v \<Longrightarrow> money v \<le> money (current m) \<Longrightarrow> (ro \<longrightarrow> sameWorld kec (current m) v) \<Longrightarrow> advances kec ro m (m\<lparr>current := v\<rparr>)"
  by (simp add: advances_def)

definition now :: "hashfun \<Rightarrow> EVM \<Rightarrow> machine \<Rightarrow> bool" where
  "now kec e m \<longleftrightarrow> simulates kec (stateDB e) m"

text \<open>Only the state differs.\<close>

definition stateOnly :: "EVM \<Rightarrow> EVM \<Rightarrow> bool" where
  "stateOnly e e' \<longleftrightarrow> e' = e\<lparr>stateDB := stateDB e'\<rparr>"

lemma stateOnly_refl [simp]: "stateOnly e e" "stateOnly e (e\<lparr>stateDB := s\<rparr>)"
  by (simp_all add: stateOnly_def)

lemma stateOnly_trans: "stateOnly a b \<Longrightarrow> stateOnly b c \<Longrightarrow> stateOnly a c"
  unfolding stateOnly_def by (cases a, cases b, cases c) simp

lemma stateOnly_sel:
  assumes "stateOnly e e'"
  shows "ctx e' = ctx e" "depth e' = depth e" "NoRecursion e' = NoRecursion e" "EnablePreimageRecording e' = EnablePreimageRecording e" "aborted e' = aborted e" "callGasTemp e' = callGasTemp e" "gasTable e' = gasTable e" "readOnly e' = readOnly e" "returnData e' = returnData e" "jumpdests e' = jumpdests e"
  using arg_cong [OF assms [unfolded stateOnly_def], of ctx] arg_cong [OF assms [unfolded stateOnly_def], of depth] arg_cong [OF assms [unfolded stateOnly_def], of NoRecursion] arg_cong [OF assms [unfolded stateOnly_def], of EnablePreimageRecording] arg_cong [OF assms [unfolded stateOnly_def], of aborted] arg_cong [OF assms [unfolded stateOnly_def], of callGasTemp] arg_cong [OF assms [unfolded stateOnly_def], of gasTable] arg_cong [OF assms [unfolded stateOnly_def], of readOnly] arg_cong [OF assms [unfolded stateOnly_def], of returnData] arg_cong [OF assms [unfolded stateOnly_def], of jumpdests] by simp_all

text \<open>Reading and writing the state on the machine.\<close>

definition reads :: "hashfun \<Rightarrow> machine \<Rightarrow> EVM \<Rightarrow> ('a \<Rightarrow> bool) \<Rightarrow> ('a \<times> EVM) go \<Rightarrow> bool" where
  "reads kec m e P r \<longleftrightarrow> (\<exists>x e'. r = Ret (x, e') \<and> P x \<and> stateOnly e e' \<and> now kec e' m)"

definition sets :: "hashfun \<Rightarrow> machine \<Rightarrow> EVM \<Rightarrow> vstate \<Rightarrow> EVM go \<Rightarrow> bool" where
  "sets kec m e v r \<longleftrightarrow> (\<exists>e'. r = Ret e' \<and> stateOnly e e' \<and> now kec e' (m\<lparr>current := v\<rparr>))"

lemma now_state: "now kec e m \<Longrightarrow> stateOk kec (stateDB e) \<and> vabs kec (stateDB e) = current m"
  by (simp add: now_def simulates_def)

lemma now_sview: "now kec e m \<Longrightarrow> sview kec (stateDB e) = vAccts (current m)"
  by (metis now_state vabs_accts)

lemma now_quiet: "now kec e m \<Longrightarrow> quiet kec (stateDB e) s \<Longrightarrow> now kec (e\<lparr>stateDB := s\<rparr>) m"
  unfolding now_def using simulates_logged [OF _ quiet_logged, of kec "stateDB e" m s] quiet_vabs [of kec "stateDB e" s]
  by (auto simp: simulates_def)

lemma reads_onState:
  assumes "now kec e m" "\<exists>x s. f (stateDB e) = Some (x, s) \<and> P x \<and> quiet kec (stateDB e) s"
  shows "reads kec m e P (onState f e)"
  using assms now_quiet by (fastforce simp: reads_def onState_def)

lemma object_read:
  assumes "now kec e m"
    and "\<And>obj. (case obj of None \<Rightarrow> vAccts (current m) a = None | Some c \<Rightarrow> \<exists>db. vAccts (current m) a = Some (objView kec db c)) \<Longrightarrow> P (g obj)"
  shows "reads kec m e P (onState (\<lambda>s. Option.bind (getStateObject kec a s) (\<lambda>(obj, s1). Some (g obj, s1))) e)"
proof (rule reads_onState [OF assms(1)])
  have ok: "stateOk kec (stateDB e)" using now_state [OF assms(1)] by simp
  obtain obj s1 where g: "getStateObject kec a (stateDB e) = Some (obj, s1)" "quiet kec (stateDB e) s1"
    "case obj of None \<Rightarrow> sview kec (stateDB e) a = None \<and> readAccount kec (stateDB e) a = None | Some c \<Rightarrow> liveAt kec s1 a c"
    using getStateObject_spec [OF ok] by blast
  have "case obj of None \<Rightarrow> vAccts (current m) a = None | Some c \<Rightarrow> \<exists>db. vAccts (current m) a = Some (objView kec db c)"
  proof (cases obj)
    case (Some c)
    then have "sview kec s1 a = Some (objView kec (sdb s1) c)" using g(3) by (auto dest: liveAt_view)
    then show ?thesis using Some g(2) now_sview [OF assms(1)] by (auto simp: quiet_def)
  qed (use g(3) now_sview [OF assms(1)] in auto)
  then have "P (g obj)" by (rule assms(2))
  then show "\<exists>x s. Option.bind (getStateObject kec a (stateDB e)) (\<lambda>(obj, s1). Some (g obj, s1)) = Some (x, s) \<and> P x \<and> quiet kec (stateDB e) s"
    using g by auto
qed

lemma GetBalance_reads: "now kec e m \<Longrightarrow> reads kec m e (\<lambda>b. b = balOf (current m) a) (onState (GetBalance kec a) e)"
  unfolding GetBalance_def by (rule object_read) (auto simp: balOf_def split: option.splits)

lemma GetNonce_reads: "now kec e m \<Longrightarrow> reads kec m e (\<lambda>n. n = aNonce (acctAt kec a (current m))) (onState (GetNonce kec a) e)"
  unfolding GetNonce_def by (rule object_read) (auto simp: acctAt_def freshAccount_def split: option.splits)

lemma HasSuicided_reads: "now kec e m \<Longrightarrow> reads kec m e (\<lambda>b. b = aSuicided (acctAt kec a (current m))) (onState (HasSuicided kec a) e)"
  unfolding HasSuicided_def by (rule object_read) (auto simp: acctAt_def freshAccount_def split: option.splits)

lemma Exist_reads: "now kec e m \<Longrightarrow> reads kec m e (\<lambda>b. b = (vAccts (current m) a \<noteq> None)) (onState (Exist kec a) e)"
  unfolding Exist_def by (rule object_read) (auto split: option.splits)

lemma EmptyAcc_reads: "now kec e m \<Longrightarrow> reads kec m e (\<lambda>_. True) (onState (EmptyAcc kec a) e)"
  unfolding EmptyAcc_def by (rule object_read) auto

lemma GetCodeHash_reads: "now kec e m \<Longrightarrow> reads kec m e (\<lambda>_. True) (onState (GetCodeHash kec a) e)"
  unfolding GetCodeHash_def by (rule object_read) auto

lemma GetState_reads: "now kec e m \<Longrightarrow> reads kec m e (\<lambda>v. v = aStorage (acctAt kec a (current m)) k) (onState (GetState kec a k) e)"
  using GetState_quiet [of kec "stateDB e" a k] now_state [of kec e m] now_sview [of kec e m]
  by (intro reads_onState) (auto simp: acctAt_def freshAccount_def split: option.splits)

lemma GetCode_reads: "now kec e m \<Longrightarrow>
    reads kec m e (\<lambda>c. bytesOf c = (case vAccts (current m) a of None \<Rightarrow> [] | Some ac \<Rightarrow> aCode ac)) (onState (GetCode kec a) e)"
  using GetCode_quiet [of kec "stateDB e" a] now_state [of kec e m] now_sview [of kec e m]
  by (intro reads_onState) auto

lemma sets_does:
  assumes "now kec e m" "does kec (stateDB e) (f (stateDB e)) v"
  shows "sets kec m e v (doState f e)"
  using simulates_does [OF assms(1) [unfolded now_def] assms(2)] by (auto simp: sets_def doState_def now_def)

lemma AddBalance_sets: "now kec e m \<Longrightarrow>
    sets kec m e (setAcct a ((acctAt kec a (current m))\<lparr>aBalance := balOf (current m) a + x\<rparr>) (current m)) (doState (AddBalance kec a x) e)"
  using AddBalance_does [of kec "stateDB e" a x] now_state [of kec e m] by (intro sets_does) (auto simp: balOf_acctAt [of _ a kec])

lemma SubBalance_sets: "now kec e m \<Longrightarrow>
    sets kec m e (setAcct a ((acctAt kec a (current m))\<lparr>aBalance := balOf (current m) a - x\<rparr>) (current m)) (doState (SubBalance kec a x) e)"
  using SubBalance_does [of kec "stateDB e" a x] now_state [of kec e m] by (intro sets_does) (auto simp: balOf_acctAt [of _ a kec])

lemma SetNonce_sets: "now kec e m \<Longrightarrow> sets kec m e (setAcct a ((acctAt kec a (current m))\<lparr>aNonce := n\<rparr>) (current m)) (doState (SetNonce kec a n) e)"
  using SetNonce_does [of kec "stateDB e" a n] now_state [of kec e m] by (intro sets_does) auto

lemma SetCode_sets: "now kec e m \<Longrightarrow>
    sets kec m e (setAcct a ((acctAt kec a (current m))\<lparr>aCodeHash := hash_bytes (kec (bytesOf code)), aCode := bytesOf code\<rparr>) (current m))
      (doState (SetCode kec a code) e)"
  using SetCode_does [of kec "stateDB e" a code] now_state [of kec e m] by (intro sets_does) auto

lemma SetState_sets: "now kec e m \<Longrightarrow>
    sets kec m e (setAcct a ((acctAt kec a (current m))\<lparr>aStorage := (aStorage (acctAt kec a (current m)))(k := x)\<rparr>) (current m)) (doState (SetState kec a k x) e)"
  using SetState_does [of kec "stateDB e" a k x] now_state [of kec e m] by (intro sets_does) auto

lemma CreateAccount_sets: "now kec e m \<Longrightarrow>
    sets kec m e (setAcct a ((freshAccount kec)\<lparr>aBalance := balOf (current m) a\<rparr>) (current m)) (doState (CreateAccount kec a) e)"
  using CreateAccount_does [of kec "stateDB e" a] now_state [of kec e m] by (intro sets_does) (auto simp: balOf_def)


lemma GetCodeSize_reads: "now kec e m \<Longrightarrow> reads kec m e (\<lambda>_. True) (onState (GetCodeSize kec a) e)"
proof (rule reads_onState)
  assume n: "now kec e m"
  obtain obj s1 where g: "getStateObject kec a (stateDB e) = Some (obj, s1)" "quiet kec (stateDB e) s1"
    using getStateObject_quiet now_state [OF n] by metis
  have "quiet kec (stateDB e) (setError x s1)" for x
    using g(2) by (auto simp: setError_def quiet_def sameFrame_def sameRest_def)
  then show "\<exists>x s. GetCodeSize kec a (stateDB e) = Some (x, s) \<and> True \<and> quiet kec (stateDB e) s"
    using g by (auto simp: GetCodeSize_def split: option.splits)
qed

lemma Suicide_sets:
  assumes "now kec e m"
  shows "\<exists>x e'. onState (Suicide kec a) e = Ret (x, e') \<and> stateOnly e e' \<and>
    now kec e' (m\<lparr>current := (case vAccts (current m) a of None \<Rightarrow> current m | Some ac \<Rightarrow> setAcct a (ac\<lparr>aSuicided := True, aBalance := 0\<rparr>) (current m))\<rparr>)"
proof -
  have "does kec (stateDB e) (map_option snd (Suicide kec a (stateDB e)))
      (case vAccts (current m) a of None \<Rightarrow> current m | Some ac \<Rightarrow> setAcct a (ac\<lparr>aSuicided := True, aBalance := 0\<rparr>) (current m))"
    using Suicide_does [of kec "stateDB e" a] now_state [OF assms] by (metis (no_types))
  from simulates_does [OF assms [unfolded now_def] this] show ?thesis by (auto simp: onState_def now_def)
qed

lemma now_does: "now kec e m \<Longrightarrow> does kec (stateDB e) (Some s) v \<Longrightarrow> now kec (e\<lparr>stateDB := s\<rparr>) (m\<lparr>current := v\<rparr>)"
  using simulates_does [of kec "stateDB e" m "Some s" v] by (auto simp: now_def)

lemma AddRefund_now:
  assumes "now kec e m"
  shows "now kec (e\<lparr>stateDB := AddRefund g (stateDB e)\<rparr>) (m\<lparr>current := (current m)\<lparr>vRefund := vRefund (current m) + g\<rparr>\<rparr>)"
proof -
  have "vRefund (vabs kec (stateDB e)) = refund (stateDB e)" by (simp add: vabs_def)
  then have "refund (stateDB e) = vRefund (current m)" using now_state [OF assms] by simp
  then show ?thesis using AddRefund_does [of kec "stateDB e" g] now_state [OF assms] now_does [OF assms] by metis
qed

lemma AddLog_now: "now kec e m \<Longrightarrow>
    now kec (e\<lparr>stateDB := AddLog l (stateDB e)\<rparr>) (m\<lparr>current := fillLog (thash (stateDB e)) (bhash (stateDB e)) (txIndex (stateDB e)) l (current m)\<rparr>)"
  using AddLog_does [of kec "stateDB e" l] now_state [of kec e m] now_does by fastforce

lemma AddPreimage_now:
  assumes "now kec e m"
  shows "\<exists>p'. now kec (e\<lparr>stateDB := AddPreimage h p (stateDB e)\<rparr>) (m\<lparr>current := (current m)\<lparr>vPreimages := p'\<rparr>\<rparr>)"
proof -
  have "\<exists>p'. does kec (stateDB e) (Some (AddPreimage h p (stateDB e))) ((current m)\<lparr>vPreimages := p'\<rparr>)"
    using AddPreimage_does [of kec "stateDB e" h p] now_state [OF assms]
    by (cases "preimages (stateDB e) h = None") (auto intro: exI [of _ "vPreimages (current m)"])
  then show ?thesis using now_does [OF assms] by blast
qed

text \<open>Snapshots.\<close>

definition saveNow :: "machine \<Rightarrow> machine" where
  "saveNow m = m\<lparr>saved := saved m @ [(nextId m, current m)], nextId := nextId m + 1\<rparr>"

lemma takeSnapshot_now:
  assumes "now kec e m"
  obtains e1 where "takeSnapshot e = (nextId m, e1)" "stateOnly e e1" "now kec e1 (saveNow m)"
proof
  show "takeSnapshot e = (nextId m, e\<lparr>stateDB := snd (Snapshot (stateDB e))\<rparr>)"
    using assms by (simp add: takeSnapshot_def Snapshot_def now_def simulates_def)
  show "now kec (e\<lparr>stateDB := snd (Snapshot (stateDB e))\<rparr>) (saveNow m)"
    using simulates_snapshot assms by (simp add: now_def saveNow_def)
qed simp

lemma revert_now:
  assumes "now kec e m" "now kec e2 m2" "advances kec ro (saveNow m) m2"
  shows "\<exists>e3. doState (RevertToSnapshot kec (nextId m)) e2 = Ret e3 \<and> stateOnly e2 e3 \<and> now kec e3 (m2\<lparr>current := current m, saved := saved m\<rparr>)"
proof -
  obtain ext where s: "saved m2 = saved m @ (nextId m, current m) # ext"
    using assms(3) by (auto simp: advances_def saveNow_def)
  have ids: "\<forall>p \<in> set (saved m). fst p < nextId m" using saved_ids(3) assms(1) unfolding now_def by blast
  then have "map_of (saved m) (nextId m) = None" by (metis imageE less_irrefl map_of_eq_None_iff)
  then have f: "map_of (saved m2) (nextId m) = Some (current m)" by (simp add: s map_add_def)
  have "takeWhile (\<lambda>(i, _). i \<noteq> nextId m) (saved m2) = saved m"
    using ids by (fastforce simp: s takeWhile_append takeWhile_eq_all_conv)
  then show ?thesis using simulates_revert [OF assms(2) [unfolded now_def] f] by (auto simp: doState_def now_def)
qed

lemma advances_save: "vOk (current m) \<Longrightarrow> advances kec ro m (saveNow m)"
  by (simp add: advances_def saveNow_def)

lemma advances_saved:
  assumes "advances kec ro (saveNow m) m2"
  shows "advances kec ro m m2"
  using assms unfolding advances_def saveNow_def by auto

lemma advances_reverted:
  assumes "advances kec ro (saveNow m) m2" "vOk (current m)"
  shows "advances kec ro' m (m2\<lparr>current := current m, saved := saved m\<rparr>)"
  using assms by (simp add: advances_def saveNow_def)

lemma current_saveNow [simp]: "current (saveNow m) = current m"
  by (simp add: saveNow_def)

end
