(* ===== verification/EvmTypes.thy ===== *)
theory EvmTypes
  imports EvmState
begin

text \<open>
  The values of the virtual machine: entries of the stack are words of 256 bits, which every arithmetic
  instruction keeps, and the memory is made of whole words, large enough for what an instruction names.
\<close>

unbundle bit_operations_syntax

section \<open>Values of the stack\<close>

definition word256 :: "int \<Rightarrow> bool" where
  "word256 x \<longleftrightarrow> 0 \<le> x \<and> x < tt256"

lemma word256_take: "word256 x \<longleftrightarrow> take_bit 256 x = x"
  unfolding word256_def tt256_def take_bit_int_eq_self_iff ..

lemma word256_U256 [simp]: "word256 (U256 x)"
  using U256_range [of x] by (simp add: word256_def)

lemma word256_01 [simp]: "word256 0" "word256 1"
  by (simp_all add: word256_def tt256_def)

lemma word256_bits: "word256 x \<Longrightarrow> word256 y \<Longrightarrow> word256 (x AND y)" "word256 x \<Longrightarrow> word256 y \<Longrightarrow> word256 (x OR y)"
    "word256 x \<Longrightarrow> word256 y \<Longrightarrow> word256 (x XOR y)"
  by (simp_all add: word256_take)

lemma be_val_word256: "length b \<le> 32 \<Longrightarrow> word256 (setBytes b)"
proof -
  assume "length b \<le> 32"
  then have "(256 :: nat) ^ length b \<le> 256 ^ 32" by (intro power_increasing) simp_all
  then have "be_val b < 256 ^ 32" using be_val_lt [of b] by linarith
  then have "int (be_val b) < int (256 ^ 32)" by (rule iffD2 [OF of_nat_less_iff])
  then show ?thesis by (simp add: word256_def setBytes_def tt256_def)
qed

lemma hashBig_word256 [simp]: "word256 (hashBig h)"
  unfolding hashBig_def by (rule be_val_word256) simp

lemma addrBig_word256 [simp]: "word256 (addrBig h)"
  unfolding addrBig_def by (rule be_val_word256) simp

lemma u64_word256 [simp]: "word256 (uint (w :: u64))"
  using uint_lt2p [of w] by (simp add: word256_def tt256_def)

lemma u8_word256 [simp]: "word256 (uint (w :: u8))"
  using uint_lt2p [of w] by (simp add: word256_def tt256_def)

lemma len_word256: "n < 2 ^ 63 \<Longrightarrow> word256 (int n)"
  by (simp add: word256_def tt256_def)

text \<open>An instruction on the stack that takes some values and gives one.\<close>

definition stackFun :: "(int list \<Rightarrow> int list go) \<Rightarrow> nat \<Rightarrow> nat \<Rightarrow> bool" where
  "stackFun f i j \<longleftrightarrow> (\<forall>st. i \<le> length st \<and> (\<forall>x \<in> set st. word256 x) \<longrightarrow>
     (\<exists>st'. f st = Ret st' \<and> length st' = length st + j - i \<and> (\<forall>x \<in> set st'. word256 x)))"

lemma le_1: "1 \<le> length st \<longleftrightarrow> (\<exists>x r. st = x # r)" by (cases st) auto
lemma le_2: "2 \<le> length st \<longleftrightarrow> (\<exists>x y r. st = x # y # r)" by (cases st; cases "tl st") auto
lemma le_3: "3 \<le> length st \<longleftrightarrow> (\<exists>x y z r. st = x # y # z # r)" by (cases st; cases "tl st"; cases "tl (tl st)") auto

lemma stackFun_1: "(\<And>x r. word256 x \<Longrightarrow> \<exists>y. f (x # r) = Ret (y # r) \<and> word256 y) \<Longrightarrow> stackFun f 1 1"
  unfolding stackFun_def le_1 by fastforce

lemma stackFun_2: "(\<And>x y r. word256 x \<Longrightarrow> word256 y \<Longrightarrow> \<exists>z. f (x # y # r) = Ret (z # r) \<and> word256 z) \<Longrightarrow> stackFun f 2 1"
  unfolding stackFun_def le_2 by fastforce

lemma stackFun_3: "(\<And>x y z r. word256 x \<Longrightarrow> word256 y \<Longrightarrow> word256 z \<Longrightarrow> \<exists>w. f (x # y # z # r) = Ret (w # r) \<and> word256 w) \<Longrightarrow> stackFun f 3 1"
  unfolding stackFun_def le_3 by fastforce

lemma word256_expWord: "word256 r \<Longrightarrow> word256 (fst (expWord n w r b))"
  by (induction n w r b rule: expWord.induct) simp_all

lemma word256_expWords: "word256 r \<Longrightarrow> word256 (fst (expWords ws r b))"
proof (induction ws arbitrary: r b)
  case (Cons w ws)
  then show ?case using word256_expWord [OF Cons.prems, of 64 w b] by (auto split: prod.split)
qed simp

lemma arith_stackFuns:
  "stackFun opAdd 2 1" "stackFun opSub 2 1" "stackFun opMul 2 1" "stackFun opDiv 2 1" "stackFun opSdiv 2 1" "stackFun opMod 2 1"
  "stackFun opSmod 2 1" "stackFun opAddmod 3 1" "stackFun opMulmod 3 1" "stackFun opExp 2 1" "stackFun opSignExtend 2 1"
  "stackFun opLt 2 1" "stackFun opGt 2 1" "stackFun opSlt 2 1" "stackFun opSgt 2 1" "stackFun opEq 2 1" "stackFun opIszero 1 1"
  "stackFun opAnd 2 1" "stackFun opXor 2 1" "stackFun opOr 2 1" "stackFun opNot 1 1" "stackFun opByte 2 1"
  "stackFun opSHL 2 1" "stackFun opSHR 2 1" "stackFun opSAR 2 1"
  by (rule stackFun_1 stackFun_2 stackFun_3,
      simp add: opAdd_def opSub_def opMul_def opDiv_def opSdiv_def opMod_def opSmod_def opAddmod_def
        opMulmod_def opExp_def Exp_def word256_expWords opSignExtend_def opLt_def opGt_def opSlt_def opSgt_def opEq_def opIszero_def opAnd_def
        opXor_def opOr_def opNot_def opByte_def opSHL_def opSHR_def opSAR_def word256_bits Let_def)+

lemma opPop_stackFun: "stackFun opPop 1 0"
  unfolding stackFun_def le_1 opPop_def by auto

lemma makeDup_stackFun: "0 < n \<Longrightarrow> stackFun (makeDup n) n (n + 1)"
  by (auto simp: stackFun_def makeDup_def dupStack_def)

lemma makeSwap_stackFun: "0 < n \<Longrightarrow> stackFun (makeSwap n) (n + 1) (n + 1)"
  by (auto simp: stackFun_def makeSwap_def swapStack_def dest!: set_update_subset_insert [THEN subsetD] intro: nth_mem [THEN bspec [rotated]])

section \<open>Memory\<close>

definition memOk :: "Memory \<Rightarrow> bool" where
  "memOk m \<longleftrightarrow> length (memStore m) mod 32 = 0 \<and> length (memStore m) \<le> 0xffffffffe0"

definition covers :: "Memory \<Rightarrow> int \<Rightarrow> int \<Rightarrow> bool" where
  "covers m off len \<longleftrightarrow> (len \<noteq> 0 \<longrightarrow> off + len \<le> int (length (memStore m)))"

lemma Uint64_small: "0 \<le> x \<Longrightarrow> x < 2 ^ 64 \<Longrightarrow> unat (Uint64 x) = nat x"
  by (simp add: Uint64_def unsigned_of_int take_bit_int_eq_self)

lemma Int64_small: "0 \<le> x \<Longrightarrow> x < 2 ^ 63 \<Longrightarrow> Int64 x = x"
  by (simp add: Int64_def int64_of_def Uint64_def unsigned_of_int take_bit_int_eq_self in_int64I)

lemma Uint64_0 [simp]: "Uint64 0 = 0" "Int64 0 = 0"
  by (simp_all add: Uint64_def Int64_def int64_of_def wrap64_def)

lemma memGet_covered:
  assumes "memOk m" "covers m off len" "word256 off" "word256 len"
  shows "\<exists>d. memGet (Int64 off) (Int64 len) m = Ret d \<and> length (bytesOf d) < 2 ^ 63"
    "\<exists>d. memGetPtr (Int64 off) (Int64 len) m = Ret d \<and> length (bytesOf d) < 2 ^ 63"
proof -
  show "\<exists>d. memGet (Int64 off) (Int64 len) m = Ret d \<and> length (bytesOf d) < 2 ^ 63"
    "\<exists>d. memGetPtr (Int64 off) (Int64 len) m = Ret d \<and> length (bytesOf d) < 2 ^ 63"
  proof (atomize (full), cases "len = 0")
    case False
    then have r: "0 < len" "0 \<le> off" "off + len \<le> int (length (memStore m))" "length (memStore m) \<le> 0xffffffffe0"
      using assms by (auto simp: covers_def memOk_def word256_def)
    then have "Int64 off = off" "Int64 len = len" by (auto intro!: Int64_small)
    then show "(\<exists>d. memGet (Int64 off) (Int64 len) m = Ret d \<and> length (bytesOf d) < 2 ^ 63) \<and>
      (\<exists>d. memGetPtr (Int64 off) (Int64 len) m = Ret d \<and> length (bytesOf d) < 2 ^ 63)"
      using r by (auto simp: memGet_def memGetPtr_def bytesOf_def)
  qed (simp add: memGet_def memGetPtr_def bytesOf_def)
qed

lemma copyInto_length: "i + n \<le> length xs \<Longrightarrow> length (copyInto xs i n b) = length xs"
  by (simp add: copyInto_def)

lemma memSet_covered:
  assumes "memOk m" "covers m off len" "word256 off" "word256 len"
  shows "\<exists>m'. memSet (Uint64 off) (Uint64 len) b m = Ret m' \<and> length (memStore m') = length (memStore m)"
proof (cases "len = 0")
  case False
  let ?o = "unat (Uint64 off)" and ?l = "unat (Uint64 len)"
  have r: "0 \<le> off" "0 < len" "off + len \<le> int (length (memStore m))" "length (memStore m) \<le> 0xffffffffe0"
    using assms False by (auto simp: covers_def memOk_def word256_def)
  then have i: "?o = nat off" "?l = nat len" by (auto intro!: Uint64_small)
  then have s: "?o + ?l \<le> length (memStore m)" using r by linarith
  then have "unat (Uint64 off + Uint64 len) = ?o + ?l" using r(4) by (intro unat_add_nocarry) simp
  moreover have "0 < Uint64 len" using i(2) r(2) by (simp add: word_less_nat_alt)
  ultimately show ?thesis using s copyInto_length [OF s, of b] by (auto simp: memSet_def Let_def)
qed (simp add: memSet_def)

lemma Resize_length: "length (memStore (Resize ms m)) = max (length (memStore m)) (unat ms)"
  by (simp add: Resize_def)

definition resized :: "u64 \<Rightarrow> Memory \<Rightarrow> Memory" where
  "resized ms m = (if ms > 0 then Resize ms m else m)"

lemma resized_length: "length (memStore (resized ms m)) = max (length (memStore m)) (unat ms)"
  by (auto simp: resized_def Resize_length word_gt_0)

text \<open>What memory gas means for the memory: an instruction that gets through has its memory.\<close>

lemma memoryGasCost_ok:
  assumes "memOk m" "unat ms mod 32 = 0" "memoryGasCost m ms = (Inr g, m')"
  shows "memOk (resized ms m')" "memStore m' = memStore m"
proof -
  show s: "memStore m' = memStore m" using assms(3) by (auto simp: memoryGasCost_def Let_def split: if_splits)
  have "unat ms \<le> 0xffffffffe0"
    using assms(3) by (auto simp: memoryGasCost_def word_less_nat_alt not_less split: if_splits)
  then show "memOk (resized ms m')" using assms(1,2) by (auto simp: memOk_def resized_length s max_def)
qed

lemma memoryGasCost_store: "memStore (snd (memoryGasCost m ms)) = memStore m"
  by (auto simp: memoryGasCost_def Let_def)

section \<open>The memory an instruction asks for\<close>

lemma toWordSize_mult:
  assumes "mulGas (toWordSize n) 32 = Inr ms"
  shows "unat ms mod 32 = 0" "unat n \<le> unat ms"
proof -
  have m: "ms = toWordSize n * 32" "unat (toWordSize n) * 32 < 2 ^ 64"
    using assms SafeMul_ok [of "toWordSize n" 32] by (auto simp: mulGas_def split: if_splits prod.splits)
  then have u: "unat ms = unat (toWordSize n) * 32" by (simp add: unat_mult_nocarry)
  then show "unat ms mod 32 = 0" by simp
  show "unat n \<le> unat ms"
  proof (cases "n > MaxUint64 - 31")
    case True
    then have "toWordSize n = MaxUint64 div 32 + 1" by (simp add: toWordSize_def)
    then have "unat (toWordSize n) * 32 = 2 ^ 64" by (simp add: MaxUint64_def)
    then show ?thesis using m(2) by simp
  next
    case False
    then have "unat n + 31 < 2 ^ 64" by (simp add: word_le_nat_alt not_less MaxUint64_def)
    then have "unat (n + 31) = unat n + 31" by (intro unat_add_nocarry [of n 31, simplified]) simp
    then have "unat (toWordSize n) = (unat n + 31) div 32" using False by (simp add: toWordSize_def unat_div)
    then show ?thesis using u by simp
  qed
qed

lemma neededMemory_ok:
  assumes "neededMemory oper st = Ret (Inr ms)"
  shows "unat ms mod 32 = 0" "memorySize oper = Some f \<Longrightarrow> \<exists>v. f st = Ret v \<and> \<bar>v\<bar> \<le> int (unat ms)"
proof -
  have r: "memorySize oper = None \<and> ms = 0 \<or> (\<exists>f v n. memorySize oper = Some f \<and> f st = Ret v \<and> sizeGas v = Inr n \<and> mulGas (toWordSize n) 32 = Inr ms)"
  proof (cases "memorySize oper")
    case (Some f)
    then show ?thesis using assms by (cases "f st") (auto simp: neededMemory_def thenGas_def split: sum.splits)
  qed (use assms in \<open>simp add: neededMemory_def\<close>)
  then show "unat ms mod 32 = 0" using toWordSize_mult(1) by auto
  show "\<exists>v. f st = Ret v \<and> \<bar>v\<bar> \<le> int (unat ms)" if f: "memorySize oper = Some f"
  proof -
    obtain v n where v: "f st = Ret v" "sizeGas v = Inr n" "mulGas (toWordSize n) 32 = Inr ms"
      using r f by auto
    have "n = Uint64 v" "\<bar>v\<bar> < 2 ^ 64"
      using v(2) BitLen_gt [of 64 v] by (auto simp: sizeGas_def bigUint64Overflow_def split: if_splits)
    then have "unat n = nat \<bar>v\<bar>" using Uint64_small [of "\<bar>v\<bar>"] by (simp add: Uint64_def)
    then show ?thesis using v(1) toWordSize_mult(2) [OF v(3)] by (intro exI [of _ v]) linarith
  qed
qed

text \<open>The spans of memory that the instructions name are covered once the memory is that large.\<close>

lemma Back_ok: "i < length st \<Longrightarrow> Back st i = Ret (st ! i)"
  by (simp add: Back_def)

lemma memSpan_covers:
  assumes "memSpan i j st = Ret v" "\<bar>v\<bar> \<le> int (length (memStore m))" "i < length st" "j < length st"
  shows "covers m (st ! i) (st ! j)"
  using assms by (auto simp: memSpan_def Back_ok covers_def calcMemSize_def)

lemma memFixed_covers:
  assumes "memFixed i l st = Ret v" "\<bar>v\<bar> \<le> int (length (memStore m))" "i < length st"
  shows "covers m (st ! i) l"
  using assms by (auto simp: memFixed_def Back_ok covers_def calcMemSize_def)

lemma memTwo_covers:
  assumes "memTwo i j k l st = Ret v" "\<bar>v\<bar> \<le> int (length (memStore m))" "i < length st" "j < length st" "k < length st" "l < length st"
    "\<forall>x \<in> set st. word256 x"
  shows "covers m (st ! i) (st ! j)" "covers m (st ! k) (st ! l)"
proof -
  let ?x = "calcMemSize (st ! i) (st ! j)" and ?y = "calcMemSize (st ! k) (st ! l)"
  have "v = BigMax ?x ?y" using assms(1,3-6) by (simp add: memTwo_def memSpan_def Back_ok)
  then have "?x \<le> v" "?y \<le> v" by (auto simp: BigMax_def)
  then show "covers m (st ! i) (st ! j)" "covers m (st ! k) (st ! l)"
    using assms(2) by (auto simp: covers_def calcMemSize_def)
qed

section \<open>Data\<close>

lemma goSlice_ok: "i \<le> j \<Longrightarrow> j \<le> length xs \<Longrightarrow> goSlice xs i j = Ret (take (j - i) (drop i xs))"
  by (simp add: goSlice_def)

lemma getDataBig_ok:
  assumes "length data < 2 ^ 63" "word256 start" "word256 len"
  shows "\<exists>d. getDataBig data start len = Ret d \<and> length d \<le> max (length data) (nat (int64_of (Uint64 len)))"
proof -
  let ?n = "int (length data)"
  let ?s = "BigMin start ?n"
  let ?e = "BigMin (?s + len) ?n"
  have b: "0 \<le> ?s" "?s \<le> ?e" "?e \<le> ?n" using assms by (auto simp: BigMin_def word256_def)
  then have "unat (Uint64 ?s) = nat ?s" "unat (Uint64 ?e) = nat ?e" using assms(1) by (auto intro!: Uint64_small)
  then have "unat (Uint64 ?s) \<le> unat (Uint64 ?e)" "unat (Uint64 ?e) \<le> length data" using b by linarith+
  then show ?thesis by (auto simp: getDataBig_def Let_def goSlice_ok)
qed

end
