(* ===== verification/EvmWords.thy ===== *)
theory EvmWords
  imports EvmTypes
begin

text \<open>
  The arithmetic of the virtual machine on integers of any size (\<open>core/vm/instructions.go\<close>, with
  \<open>common/math/big.go\<close>) is the arithmetic of words of 256 bits.
\<close>

unbundle bit_operations_syntax

section \<open>Arithmetic on words\<close>

lemma U256_word: "U256 x = uint (word_of_int x :: 256 word)"
  by (simp add: U256_mod tt256_def uint_word_of_int)

lemma uint_256: "uint (a :: 256 word) < 2 ^ 256" "take_bit 256 (uint a) = uint a"
proof -
  show "uint a < 2 ^ 256" using unsigned_less [where ?'a = int, of a] by simp
  then show "take_bit 256 (uint a) = uint a" by (simp add: take_bit_int_eq_self)
qed

lemma top_bit: "bit (uint (a :: 256 word)) 255 \<longleftrightarrow> tt255 \<le> uint a"
proof -
  have lt: "uint a < 2 ^ 256" by (rule uint_256)
  have "drop_bit 255 (uint a) < 2" using lt by (simp add: drop_bit_eq_div)
  moreover have "0 \<le> drop_bit 255 (uint a)" by simp
  ultimately have "drop_bit 255 (uint a) = 0 \<or> drop_bit 255 (uint a) = 1" by linarith
  then have "odd (drop_bit 255 (uint a)) \<longleftrightarrow> drop_bit 255 (uint a) \<noteq> 0" by auto
  also have "\<dots> \<longleftrightarrow> 2 ^ 255 \<le> uint a" by (simp add: drop_bit_eq_div zdiv_eq_0_iff not_less)
  finally show ?thesis by (simp add: bit_iff_odd_drop_bit tt255_def)
qed

lemma S256_sint: "S256 (uint a) = sint (a :: 256 word)"
proof -
  have "sint a = take_bit (Suc 255) (uint a) - 2 ^ Suc 255 * of_bool (bit (uint a) 255)"
    unfolding sint_uint by (subst signed_take_bit_eq_take_bit_minus) simp
  then show ?thesis using top_bit [of a] by (simp add: S256_def tt256_def uint_256)
qed

lemma word_NOT: "uint (word_of_int (NOT (uint a)) :: 256 word) = uint (NOT (a :: 256 word))"
  by (simp add: of_int_not_eq)

lemma uint_pos: "0 < uint a \<longleftrightarrow> a \<noteq> (0 :: 256 word)"
  by (simp add: less_le uint_0_iff eq_commute [of 0])

lemma modular_words:
  fixes a b :: "256 word"
  shows "opAdd (uint a # uint b # r) = Ret (uint (a + b) # r)"
    "opSub (uint a # uint b # r) = Ret (uint (a - b) # r)"
    "opMul (uint a # uint b # r) = Ret (uint (a * b) # r)"
    "opAnd (uint a # uint b # r) = Ret (uint (a AND b) # r)"
    "opOr (uint a # uint b # r) = Ret (uint (a OR b) # r)"
    "opXor (uint a # uint b # r) = Ret (uint (a XOR b) # r)"
    "opNot (uint a # r) = Ret (uint (NOT a) # r)"
    "opLt (uint a # uint b # r) = Ret (of_bool (a < b) # r)"
    "opGt (uint a # uint b # r) = Ret (of_bool (b < a) # r)"
    "opEq (uint a # uint b # r) = Ret (of_bool (a = b) # r)"
    "opIszero (uint a # r) = Ret (of_bool (a = 0) # r)"
  by (simp_all add: opAdd_def opSub_def opMul_def opAnd_def opOr_def opXor_def opNot_def opLt_def opGt_def opEq_def opIszero_def U256_word
      word_less_def uint_and uint_or uint_xor word_NOT uint_pos del: uint_nat)
    (auto dest: unsigned_word_eqI)


lemma division_words:
  fixes a b c :: "256 word"
  shows "opDiv (uint a # uint b # r) = Ret (uint (a div b) # r)"
    "opMod (uint a # uint b # r) = Ret (uint (if b = 0 then 0 else a mod b) # r)"
    "opAddmod (uint a # uint b # uint c # r) = Ret ((if c = 0 then 0 else (uint a + uint b) mod uint c) # r)"
    "opMulmod (uint a # uint b # uint c # r) = Ret ((if c = 0 then 0 else (uint a * uint b) mod uint c) # r)"
proof -
  have m: "U256 (x mod uint c) = x mod uint c" if "c \<noteq> 0" for x
  proof -
    have "0 < uint c" using that uint_pos by simp
    then have "x mod uint c < tt256" using less_trans [OF pos_mod_bound uint_256(1)] by (simp add: tt256_def)
    then show ?thesis using \<open>0 < uint c\<close> by (intro U256_id) simp_all
  qed
  have d: "U256 (uint (w :: 256 word)) = uint w" for w using uint_256(1) [of w] by (intro U256_id) (auto simp: tt256_def)
  show "opDiv (uint a # uint b # r) = Ret (uint (a div b) # r)"
    using d [of "a div b"] uint_pos [of b] by (auto simp: opDiv_def bigDiv_def uint_div uint_0_iff)
  show "opMod (uint a # uint b # r) = Ret (uint (if b = 0 then 0 else a mod b) # r)"
    using d [of "a mod b"] by (auto simp: opMod_def bigMod_def uint_mod uint_0_iff)
  show "opAddmod (uint a # uint b # uint c # r) = Ret ((if c = 0 then 0 else (uint a + uint b) mod uint c) # r)"
    "opMulmod (uint a # uint b # uint c # r) = Ret ((if c = 0 then 0 else (uint a * uint b) mod uint c) # r)"
    using m uint_pos [of c] by (auto simp: opAddmod_def opMulmod_def bigMod_def)
qed

lemma signed_less:
  assumes "word256 x" "word256 y"
  shows "(if x \<ge> tt255 \<and> y < tt255 then 1 else if x < tt255 \<and> y \<ge> tt255 then 0 else if x < y then 1 else 0) = (of_bool (S256 x < S256 y) :: int)"
    "(if x \<ge> tt255 \<and> y < tt255 then 0 else if x < tt255 \<and> y \<ge> tt255 then 1 else if x > y then 1 else 0) = (of_bool (S256 y < S256 x) :: int)"
  using assms by (auto simp: S256_def word256_def)

lemma word256_uint: "word256 (uint (a :: 256 word))"
  using uint_256(1) [of a] by (simp add: word256_def tt256_def)

lemma sint_zero: "sint (b :: 256 word) = 0 \<longleftrightarrow> b = 0"
  using S256_sint [of b] uint_256(1) [of b] uint_0_iff [of b] by (auto simp: S256_def tt256_def split: if_splits)

lemma signed_words:
  fixes a b :: "256 word"
  shows "opSdiv (uint a # uint b # r) = Ret (uint (word_of_int (sint a sdiv sint b) :: 256 word) # r)"
    "opSmod (uint a # uint b # r) = Ret (uint (if b = 0 then 0 else word_of_int (sint a smod sint b) :: 256 word) # r)"
    "opSlt (uint a # uint b # r) = Ret (of_bool (a <s b) # r)"
    "opSgt (uint a # uint b # r) = Ret (of_bool (b <s a) # r)"
proof -
  show "opSdiv (uint a # uint b # r) = Ret (uint (word_of_int (sint a sdiv sint b) :: 256 word) # r)"
    by (auto simp: opSdiv_def S256_sint U256_word bigDiv_def Let_def signed_divide_int_def sgn_if)
  show "opSmod (uint a # uint b # r) = Ret (uint (if b = 0 then 0 else word_of_int (sint a smod sint b) :: 256 word) # r)"
    using sint_zero [of b] by (auto simp: opSmod_def S256_sint U256_word bigMod_def Let_def signed_modulo_int_def signed_divide_int_def sgn_if minus_div_mult_eq_mod)
  show "opSlt (uint a # uint b # r) = Ret (of_bool (a <s b) # r)" "opSgt (uint a # uint b # r) = Ret (of_bool (b <s a) # r)"
    using signed_less [OF word256_uint [of a] word256_uint [of b]] by (simp_all only: opSlt_def opSgt_def list.case word_sless_alt S256_sint)
qed


lemma power_words: "opExp (uint a # uint b # r) = Ret (uint (a ^ unat b) # r)" for a b :: "256 word"
proof -
  have word: "fst (expWord n w (uint x) (uint y)) = uint (x * y ^ take_bit n (unat w)) \<and> snd (expWord n w (uint x) (uint y)) = uint (y ^ (2 ^ n))"
    for n w and x y :: "256 word"
  proof (induction n arbitrary: w x y)
    case (Suc n)
    have p: "U256 (uint y * uint y) = uint (y * y)" "U256 (uint x * uint y) = uint (x * y)" by (simp_all add: U256_word)
    have "unat (drop_bit 1 w) = unat w div 2" "unat (w AND 1) = unat w mod 2"
      by (simp_all add: unat_drop_bit_eq drop_bit_eq_div and_one_eq unat_mod unat_div)
    then have e: "take_bit (Suc n) (unat w) = unat (w AND 1) + 2 * take_bit n (unat (drop_bit 1 w))" by (simp add: take_bit_Suc)
    show ?case
    proof (cases "w AND 1 = 1")
      case True
      then show ?thesis using Suc.IH [of "drop_bit 1 w" "x * y" "y * y"] p e by (simp add: power_add power_mult power2_eq_square mult.assoc flip: power_mult_distrib)
    next
      case False
      then have "w AND 1 = 0" by (simp add: and_one_eq)
      then show ?thesis using Suc.IH [of "drop_bit 1 w" x "y * y"] p e False by (simp add: power_mult power2_eq_square flip: power_mult_distrib)
    qed
  qed simp
  have words: "fst (expWords (bigWords n) (uint x) (uint y)) = uint (x * y ^ n)" for n and x y :: "256 word"
  proof (induction n arbitrary: x y rule: bigWords.induct)
    case (1 n)
    define q where "q = n div 2 ^ 64"
    define t where "t = n mod 2 ^ 64"
    define B where "B = (2 :: nat) ^ 64"
    have n: "n = t + B * q" by (simp add: q_def t_def B_def)
    show ?case
    proof (cases "n = 0")
      case False
      obtain r' b' where rb: "expWord 64 (word_of_nat n) (uint x) (uint y) = (r', b')" by fastforce
      have "take_bit 64 (unat (word_of_nat n :: u64)) = t" by (simp add: unsigned_of_nat t_def take_bit_eq_mod)
      then have r': "r' = uint (x * y ^ t)" "b' = uint (y ^ B)" using word [of 64 "word_of_nat n" x y] rb unfolding B_def by (metis fst_conv, metis snd_conv)
      have "fst (expWords (bigWords n) (uint x) (uint y)) = fst (expWords (bigWords q) r' b')"
        using False rb by (simp add: bigWords.simps [of n] q_def)
      also have "\<dots> = uint (x * y ^ t * (y ^ B) ^ q)" unfolding r' q_def by (rule "1.IH" [OF False])
      also have "x * y ^ t * (y ^ B) ^ q = x * y ^ n" unfolding n power_add power_mult by (simp only: mult.assoc)
      finally show ?thesis .
    qed (simp add: bigWords.simps)
  qed
  have "fst (Exp (uint a) (uint b)) = uint (1 * a ^ unat b)" using words [of "unat b" 1 a] by (simp add: Exp_def bigBits_def)
  then show ?thesis by (simp add: opExp_def)
qed


lemma shift_amount: "unat (Uint64 (uint (a :: 256 word))) = unat a" if "uint a < 256"
  using that by (simp add: Uint64_small nat_uint_eq)

lemma unat_small: "uint (a :: 256 word) < numeral n \<longleftrightarrow> unat a < numeral n"
  by (subst uint_nat) (rule of_nat_less_numeral_iff)

lemma shift_words:
  fixes a b :: "256 word"
  shows "opSHL (uint a # uint b # r) = Ret (uint (push_bit (unat a) b) # r)"
    "opSHR (uint a # uint b # r) = Ret (uint (drop_bit (unat a) b) # r)"
    "unat a < 256 \<or> b \<noteq> 0 \<Longrightarrow> opSAR (uint a # uint b # r) = Ret (uint (signed_drop_bit (unat a) b) # r)"
proof -
  have u: "U256 (uint w) = uint w" for w :: "256 word" using word256_uint [of w] by (simp add: word256_def)
  show "opSHL (uint a # uint b # r) = Ret (uint (push_bit (unat a) b) # r)"
  proof (cases "uint a < 256")
    case True
    have "word_of_int (push_bit (unat a) (uint b)) = push_bit (unat a) b" by (simp add: push_bit_eq_mult)
    then show ?thesis using True shift_amount [OF True] by (simp add: opSHL_def u U256_word)
  next
    case False
    then have "push_bit (unat a) b = 0" by (intro bit_eqI) (simp add: unat_small bit_push_bit_iff)
    then show ?thesis using False by (simp add: opSHL_def u)
  qed
  show "opSHR (uint a # uint b # r) = Ret (uint (drop_bit (unat a) b) # r)"
  proof (cases "uint a < 256")
    case True
    have "drop_bit (unat a) (uint b) = uint (drop_bit (unat a) b)" by (simp add: unsigned_drop_bit_eq uint_256)
    then show ?thesis using True shift_amount [OF True] by (simp add: opSHR_def u)
  next
    case False
    then have "drop_bit (unat a) b = 0" by (simp add: unat_small bit_eq_iff bit_drop_bit_eq)
    then show ?thesis using False by (simp add: opSHR_def u)
  qed
  assume ex: "unat a < 256 \<or> b \<noteq> 0"
  have sd: "uint (word_of_int (drop_bit n (sint b)) :: 256 word) = uint (signed_drop_bit n b)" for n
    by (simp flip: sint_signed_drop_bit_eq)
  show "opSAR (uint a # uint b # r) = Ret (uint (signed_drop_bit (unat a) b) # r)"
  proof (cases "uint a < 256")
    case True
    then show ?thesis using shift_amount [OF True] sd by (simp add: opSAR_def u S256_sint U256_word)
  next
    case False
    then have ge: "256 \<le> unat a" by (simp add: unat_small)
    have lo: "- (2 ^ 255) \<le> sint b" "sint b < 2 ^ 255" using sint_greater_eq [of b] sint_less [of b] by simp_all
    have pw: "(2 :: int) ^ 255 < 2 ^ unat a" using ge by (intro power_strict_increasing) simp_all
    have "drop_bit (unat a) (sint b) = (if 0 < sint b then 0 else - 1)"
    proof (cases "0 < sint b")
      case True
      then show ?thesis using lo(2) pw by (simp add: drop_bit_eq_div)
    next
      case False
      have "b \<noteq> 0" using ex ge by simp
      then have "sint b \<noteq> 0" by (simp add: sint_zero)
      then have "sint b < 0" using False by simp
      moreover have "- (2 ^ unat a) \<le> sint b" using lo(1) pw by linarith
      ultimately have "sint b div 2 ^ unat a = - 1" by (intro int_div_pos_eq [of _ _ _ "sint b + 2 ^ unat a"]) auto
      then show ?thesis using False by (simp add: drop_bit_eq_div)
    qed
    then show ?thesis using False sd [of "unat a"] by (simp add: opSAR_def u S256_sint U256_word)
  qed
qed


lemma signextend_words:
  fixes a b :: "256 word"
  shows "opSignExtend (uint a # uint b # r) = Ret (uint (if unat a < 31 then signed_take_bit (8 * unat a + 7) b else b) # r)"
proof (cases "uint a < 31")
  case True
  define n where "n = 8 * unat a + 7"
  have n: "n < 255" using True unat_small [of a] by (simp add: n_def unat_small)
  have un: "unat (Uint64 (uint a) * 8 + 7) = n"
  proof -
    have u: "unat (Uint64 (uint a)) = unat a" using True by (intro shift_amount) simp
    have "unat a < 31" using True by (simp add: unat_small)
    then show ?thesis by (simp add: n_def unat_word_ariths u)
  qed
  have "opSignExtend (uint a # uint b # r) = Ret (U256 (if bit (uint b) n then uint b OR NOT (push_bit n 1 - 1) else uint b AND (push_bit n 1 - 1)) # r)"
    unfolding opSignExtend_def Let_def list.case if_P [OF True] un by (rule refl)
  also have "U256 (if bit (uint b) n then uint b OR NOT (push_bit n 1 - 1) else uint b AND (push_bit n 1 - 1)) = uint (signed_take_bit n b)"
  proof -
    have m: "push_bit n 1 - 1 = (mask n :: int)" by (simp add: mask_eq_exp_minus_1 push_bit_eq_mult)
    show ?thesis unfolding U256_word m
    proof (rule arg_cong [of _ _ uint], rule bit_eqI)
      fix k assume "possible_bit TYPE(256 word) k"
      then have k: "k < 256" by simp
      show "bit (word_of_int (if bit (uint b) n then uint b OR NOT (mask n) else uint b AND mask n) :: 256 word) k = bit (signed_take_bit n b) k"
        using k n by (auto simp: bit_word_of_int_iff bit_signed_take_bit_iff bit_uint_iff bit_or_iff bit_and_iff bit_not_iff bit_mask_iff min_def le_less)
    qed
  qed
  finally show ?thesis using True by (simp add: n_def unat_small)
next
  case False
  then show ?thesis by (simp add: opSignExtend_def unat_small)
qed


lemma bigWords_nth: "(if i < length (bigWords n) then bigWords n ! i else 0) = word_of_nat (n div 2 ^ (64 * i))"
proof (induction n arbitrary: i rule: bigWords.induct)
  case (1 n)
  show ?case
  proof (cases "n = 0")
    case False
    show ?thesis
    proof (cases i)
      case (Suc j)
      have "n div 2 ^ (64 * i) = n div 2 ^ 64 div 2 ^ (64 * j)" by (simp add: Suc power_add div_mult2_eq)
      then show ?thesis using "1.IH" [OF False, of j] by (simp add: Suc bigWords.simps [of n] False split: if_splits)
    qed (simp add: bigWords.simps [of n] False)
  qed (simp add: bigWords.simps [of 0])
qed

lemma byte_of_word:
  assumes "k < 8"
  shows "(ucast (drop_bit (8 * k) (word_of_nat n :: u64)) :: u8) = word_of_nat (n div 2 ^ (8 * k))"
proof -
  have "take_bit 8 (drop_bit (8 * k) (take_bit 64 n)) = take_bit 8 (drop_bit (8 * k) n)"
  proof -
    have "8 \<le> 64 - 8 * k" using assms by simp
    then show ?thesis by (simp add: drop_bit_take_bit min_def)
  qed
  then have "unat (ucast (drop_bit (8 * k) (word_of_nat n :: u64)) :: u8) = unat (word_of_nat (n div 2 ^ (8 * k)) :: u8)"
    by (simp add: unsigned_ucast_eq unat_drop_bit_eq unsigned_of_nat flip: drop_bit_eq_div)
  then show ?thesis by (rule unsigned_word_eqI)
qed

lemma byte_words:
  fixes a b :: "256 word"
  shows "opByte (uint a # uint b # r) = Ret (uint (if unat a < 32 then drop_bit (8 * (31 - unat a)) b AND 0xff else 0) # r)"
proof (cases "uint a < 32")
  case True
  define m where "m = 31 - unat a"
  have ua: "unat a < 32" using True by (simp add: unat_small)
  have i: "nat (Int64 (uint a)) = unat a" using Int64_small [of "uint a"] True by simp
  have "bigEndianByteAt (uint b) m = word_of_nat (unat b div 2 ^ (8 * m))"
  proof -
    let ?i = "m div 8"
    have "bigEndianByteAt (uint b) m = ucast (drop_bit (8 * (m mod 8)) (if ?i < length (bigWords (unat b)) then bigWords (unat b) ! ?i else 0))"
      by (simp add: bigEndianByteAt_def bigBits_def Let_def not_less)
    also have "\<dots> = word_of_nat (unat b div 2 ^ (64 * ?i) div 2 ^ (8 * (m mod 8)))" unfolding bigWords_nth by (rule byte_of_word) simp
    also have "unat b div 2 ^ (64 * ?i) div 2 ^ (8 * (m mod 8)) = unat b div 2 ^ (64 * ?i + 8 * (m mod 8))" by (simp add: div_mult2_eq power_add)
    also have "64 * ?i + 8 * (m mod 8) = 8 * m" by presburger
    finally show ?thesis .
  qed
  then have "ByteAt (uint b) 32 (unat a) = word_of_nat (unat b div 2 ^ (8 * m))" using ua by (simp add: ByteAt_def m_def)
  moreover have "uint (word_of_nat (unat b div 2 ^ (8 * m)) :: u8) = uint (drop_bit (8 * m) b AND 0xff)"
  proof -
    have "drop_bit (8 * m) b AND 0xff = take_bit 8 (drop_bit (8 * m) b)" by (simp add: take_bit_eq_mask mask_eq_exp_minus_1)
    then have "unat (drop_bit (8 * m) b AND 0xff) = take_bit 8 (unat b div 2 ^ (8 * m))"
      using unat_drop_bit_eq [of "8 * m" b] by (simp only: unsigned_take_bit_eq drop_bit_eq_div [of _ "unat b"])
    then show ?thesis unfolding uint_nat by (simp add: unsigned_of_nat)
  qed
  ultimately show ?thesis using True ua by (simp add: opByte_def i m_def)
next
  case False
  then show ?thesis by (simp add: opByte_def unat_small)
qed


text \<open>Shifting zero to the right arithmetically by 256 bits or more gives all ones, not zero.\<close>

lemma sar_of_zero: "256 \<le> unat a \<Longrightarrow> opSAR (uint (a :: 256 word) # 0 # r) = Ret ((tt256 - 1) # r)"
proof -
  assume "256 \<le> unat a"
  then have "256 \<le> uint a" by (metis of_nat_le_iff of_nat_numeral uint_nat)
  then show ?thesis using word256_uint [of a] by (simp add: opSAR_def U256_mod word256_def tt256_def Let_def S256_def tt255_def)
qed

lemma sar_words:
  "opSAR (uint (a :: 256 word) # uint (b :: 256 word) # r) =
     Ret (uint (if 256 \<le> unat a \<and> b = 0 then - 1 else signed_drop_bit (unat a) b) # r)"
proof (cases "256 \<le> unat a \<and> b = 0")
  case True
  then show ?thesis using sar_of_zero [of a r] by (simp add: tt256_def unsigned_minus_1_eq_mask mask_eq_exp_minus_1)
next
  case False
  then show ?thesis using shift_words(3) [of a b r] by auto
qed

text \<open>C24. The arithmetic of the virtual machine, done with integers of any size, is the arithmetic of
  words of 256 bits: addition, subtraction, multiplication and exponentiation wrap around, division and
  remainder are unsigned or truncate towards zero, comparisons are unsigned or signed, and the bitwise
  instructions, the byte of a word, the sign extension and the shifts are those of words. The one exception
  is the arithmetic shift of zero to the right by 256 bits or more, which gives all ones instead of zero.\<close>

theorem arithmetic_is_256_bit:
  fixes a b c :: "256 word"
  shows
    "opAdd (uint a # uint b # r) = Ret (uint (a + b) # r) \<and>
     opSub (uint a # uint b # r) = Ret (uint (a - b) # r) \<and>
     opMul (uint a # uint b # r) = Ret (uint (a * b) # r) \<and>
     opDiv (uint a # uint b # r) = Ret (uint (a div b) # r) \<and>
     opMod (uint a # uint b # r) = Ret (uint (if b = 0 then 0 else a mod b) # r) \<and>
     opSdiv (uint a # uint b # r) = Ret (uint (word_of_int (sint a sdiv sint b) :: 256 word) # r) \<and>
     opSmod (uint a # uint b # r) = Ret (uint (if b = 0 then 0 else word_of_int (sint a smod sint b) :: 256 word) # r) \<and>
     opAddmod (uint a # uint b # uint c # r) = Ret ((if c = 0 then 0 else (uint a + uint b) mod uint c) # r) \<and>
     opMulmod (uint a # uint b # uint c # r) = Ret ((if c = 0 then 0 else (uint a * uint b) mod uint c) # r) \<and>
     opExp (uint a # uint b # r) = Ret (uint (a ^ unat b) # r) \<and>
     opSignExtend (uint a # uint b # r) = Ret (uint (if unat a < 31 then signed_take_bit (8 * unat a + 7) b else b) # r) \<and>
     opLt (uint a # uint b # r) = Ret (of_bool (a < b) # r) \<and>
     opGt (uint a # uint b # r) = Ret (of_bool (b < a) # r) \<and>
     opSlt (uint a # uint b # r) = Ret (of_bool (a <s b) # r) \<and>
     opSgt (uint a # uint b # r) = Ret (of_bool (b <s a) # r) \<and>
     opEq (uint a # uint b # r) = Ret (of_bool (a = b) # r) \<and>
     opIszero (uint a # r) = Ret (of_bool (a = 0) # r) \<and>
     opAnd (uint a # uint b # r) = Ret (uint (a AND b) # r) \<and>
     opOr (uint a # uint b # r) = Ret (uint (a OR b) # r) \<and>
     opXor (uint a # uint b # r) = Ret (uint (a XOR b) # r) \<and>
     opNot (uint a # r) = Ret (uint (NOT a) # r) \<and>
     opByte (uint a # uint b # r) = Ret (uint (if unat a < 32 then drop_bit (8 * (31 - unat a)) b AND 0xff else 0) # r) \<and>
     opSHL (uint a # uint b # r) = Ret (uint (push_bit (unat a) b) # r) \<and>
     opSHR (uint a # uint b # r) = Ret (uint (drop_bit (unat a) b) # r) \<and>
     opSAR (uint a # uint b # r) = Ret (uint (if 256 \<le> unat a \<and> b = 0 then - 1 else signed_drop_bit (unat a) b) # r)"
  by (intro conjI modular_words division_words signed_words power_words signextend_words byte_words shift_words(1,2) sar_words)

end
