(* ===== verification/EvmJumps.thy ===== *)
theory EvmJumps
  imports EvmTypes
begin

text \<open>
  The analysis of jump destinations (\<open>core/vm/analysis.go\<close>) against a reference that reads the code from
  left to right.
\<close>

unbundle bit_operations_syntax

section \<open>Instructions and their data\<close>

text \<open>The reference: reading the code from left to right, the bytes that follow a push are its data, and
  every other byte is an instruction. The first argument counts the bytes of data still to come.\<close>

definition pushBytes :: "u8 \<Rightarrow> nat" where
  "pushBytes op = (if isPush op then unat op - 0x5f else 0)"

fun instructions :: "nat \<Rightarrow> bytes \<Rightarrow> bool list" where
  "instructions n [] = []"
| "instructions (Suc n) (b # bs) = False # instructions n bs"
| "instructions 0 (b # bs) = True # instructions (pushBytes b) bs"

definition validJump :: "bytes \<Rightarrow> int \<Rightarrow> bool" where
  "validJump code dest \<longleftrightarrow> dest < int (length code) \<and> code ! nat dest = 0x5b \<and> instructions 0 code ! nat dest"

lemma length_instructions [simp]: "length (instructions n bs) = length bs"
  by (induction n bs rule: instructions.induct) simp_all

lemma instructions_nth:
  "j < length bs \<Longrightarrow> instructions n bs ! j \<longleftrightarrow> n \<le> j \<and> instructions 0 (drop n bs) ! (j - n)"
proof (induction n arbitrary: bs j)
  case (Suc n)
  then obtain b bs' where "bs = b # bs'" by (cases bs) auto
  with Suc show ?case by (cases j) auto
qed simp

lemma pushBytes_push: "isPush op \<Longrightarrow> unat (op - 0x60 + 1) = pushBytes op \<and> pushBytes op \<le> 32"
proof -
  assume push: "isPush op"
  then have le: "(0x5f :: u8) \<le> op" "unat op \<le> 0x7f"
    unfolding isPush_def word_le_nat_alt by simp_all
  have "op - 0x60 + 1 = op - 0x5f" by simp
  then show ?thesis using push le by (simp add: pushBytes_def unat_sub)
qed

section \<open>The bit vector\<close>

definition isData :: "bytes \<Rightarrow> nat \<Rightarrow> bool" where
  "isData bits i \<longleftrightarrow> bit (bits ! (i div 8)) (7 - i mod 8)"

lemma mask_bits:
  assumes "k < 8"
  shows "bit (drop_bit k 0x80 :: u8) (7 - i mod 8) \<longleftrightarrow> i mod 8 = k"
    and "bit (drop_bit k 0xFF :: u8) (7 - i mod 8) \<longleftrightarrow> k \<le> i mod 8"
    and "bit (NOT (drop_bit k 0xFF) :: u8) (7 - i mod 8) \<longleftrightarrow> i mod 8 < k"
proof -
  have m: "i mod 8 < 8" by simp
  have "(0x80 :: u8) = 2 ^ 7" "(0xFF :: u8) = mask 8" by (simp_all add: mask_eq_exp_minus_1)
  then have b: "bit (0x80 :: u8) j \<longleftrightarrow> j = 7" "bit (0xFF :: u8) j \<longleftrightarrow> j < 8" for j
    by (auto simp only: bit_exp_iff bit_mask_iff possible_bit_def) auto
  have p: "k + 7 - i mod 8 = 7 \<longleftrightarrow> i mod 8 = k" using m assms by linarith
  show "bit (drop_bit k 0x80 :: u8) (7 - i mod 8) \<longleftrightarrow> i mod 8 = k"
    using m p by (simp only: bit_drop_bit_eq comp_def b) simp
  show *: "bit (drop_bit k 0xFF :: u8) (7 - i mod 8) \<longleftrightarrow> k \<le> i mod 8"
    using m assms by (simp only: bit_drop_bit_eq comp_def b) auto
  show "bit (NOT (drop_bit k 0xFF) :: u8) (7 - i mod 8) \<longleftrightarrow> i mod 8 < k"
    using m * by (simp only: bit_not_iff) auto
qed

lemma codeSegment_isData:
  assumes "pos div 8 < length bits"
  shows "codeSegment pos bits = Some (\<not> isData bits pos)"
proof -
  let ?w = "bits ! (pos div 8)" and ?m = "drop_bit (pos mod 8) 0x80 :: u8"
  have one: "bit ?m j \<longleftrightarrow> j = 7 - pos mod 8" for j
  proof -
    have "(0x80 :: u8) = 2 ^ 7" by simp
    then have b: "bit (0x80 :: u8) i \<longleftrightarrow> i = 7" for i by (auto simp only: bit_exp_iff) auto
    have "pos mod 8 < 8" by simp
    then have "pos mod 8 + j = 7 \<longleftrightarrow> j = 7 - pos mod 8" by linarith
    then show ?thesis by (simp only: bit_drop_bit_eq comp_def b)
  qed
  have "?w AND ?m = 0 \<longleftrightarrow> \<not> bit ?w (7 - pos mod 8)"
    unfolding bit_eq_iff [of "?w AND ?m" 0] by (simp add: bit_and_iff one) (use bit_imp_le_length in fastforce)
  with assms show ?thesis by (simp add: codeSegment_def isData_def)
qed

lemma orAt_isData:
  assumes "n < length bits"
  shows "\<exists>b'. orAt n w bits = Some b' \<and> length b' = length bits \<and>
    (\<forall>i. i div 8 < length bits \<longrightarrow> isData b' i = (isData bits i \<or> i div 8 = n \<and> bit w (7 - i mod 8)))"
  using assms by (auto simp: orAt_def isData_def nth_list_update bit_or_iff)

lemma same_place: "(i :: nat) div 8 = pos div 8 \<and> i mod 8 = pos mod 8 \<longleftrightarrow> i = pos"
  by (metis div_mult_mod_eq)

lemma bvSet_isData:
  assumes "pos div 8 < length bits"
  shows "\<exists>b'. bvSet pos bits = Some b' \<and> length b' = length bits \<and>
    (\<forall>i. i div 8 < length bits \<longrightarrow> isData b' i = (isData bits i \<or> i = pos))"
  using orAt_isData [OF assms, of "drop_bit (pos mod 8) 0x80"]
  by (simp add: bvSet_def mask_bits same_place)

lemma next_places:
  fixes r s q p :: nat
  assumes "r < 8" "s < 8"
  shows "(q = p \<and> s \<le> r) \<or> (q = p + 1 \<and> r < s) \<longleftrightarrow> p * 8 + s \<le> q * 8 + r \<and> q * 8 + r < p * 8 + s + 8"
proof -
  consider "q < p" | "q = p" | "q = p + 1" | "p + 1 < q" by linarith
  then show ?thesis using assms by cases linarith+
qed

lemma bvSet8_isData:
  assumes "pos div 8 + 1 < length bits"
  shows "\<exists>b'. bvSet8 pos bits = Some b' \<and> length b' = length bits \<and>
    (\<forall>i. i div 8 < length bits \<longrightarrow> isData b' i = (isData bits i \<or> pos \<le> i \<and> i < pos + 8))"
proof -
  have split: "(i div 8 = pos div 8 \<and> pos mod 8 \<le> i mod 8) \<or> (i div 8 = pos div 8 + 1 \<and> i mod 8 < pos mod 8)
      \<longleftrightarrow> pos \<le> i \<and> i < pos + 8" for i
    using next_places [of "i mod 8" "pos mod 8" "i div 8" "pos div 8"] by simp
  obtain a where a: "orAt (pos div 8) (drop_bit (pos mod 8) 0xFF) bits = Some a" "length a = length bits"
    "\<And>i. i div 8 < length bits \<Longrightarrow> isData a i = (isData bits i \<or> i div 8 = pos div 8 \<and> pos mod 8 \<le> i mod 8)"
    using orAt_isData [of "pos div 8" bits "drop_bit (pos mod 8) 0xFF"] assms by (auto simp: mask_bits)
  obtain b where b: "orAt (pos div 8 + 1) (NOT (drop_bit (pos mod 8) 0xFF)) a = Some b" "length b = length a"
    "\<And>i. i div 8 < length bits \<Longrightarrow> isData b i = (isData a i \<or> i div 8 = pos div 8 + 1 \<and> i mod 8 < pos mod 8)"
    using orAt_isData [of "pos div 8 + 1" a "NOT (drop_bit (pos mod 8) 0xFF)"] assms a(2) by (auto simp: mask_bits)
  have "isData b i = (isData bits i \<or> pos \<le> i \<and> i < pos + 8)" if "i div 8 < length bits" for i
    using a(3) [OF that] b(3) [OF that] split [of i] by blast
  with a b show ?thesis by (simp add: bvSet8_def)
qed

lemma markData_isData:
  "(at + n) div 8 < length bits \<Longrightarrow>
   \<exists>b'. markData n at bits = Some (at + n, b') \<and> length b' = length bits \<and>
    (\<forall>i. i div 8 < length bits \<longrightarrow> isData b' i = (isData bits i \<or> at \<le> i \<and> i < at + n))"
proof (induction n arbitrary: at bits rule: less_induct)
  case (less n)
  consider "n \<ge> 8" | "0 < n" "n < 8" | "n = 0" by linarith
  then show ?case
  proof cases
    case 1
    then have "at div 8 + 1 < length bits" using less.prems by simp
    then obtain a where a: "bvSet8 at bits = Some a" "length a = length bits"
      "\<And>i. i div 8 < length bits \<Longrightarrow> isData a i = (isData bits i \<or> at \<le> i \<and> i < at + 8)"
      using bvSet8_isData by blast
    obtain b where b: "markData (n - 8) (at + 8) a = Some (at + n, b)" "length b = length bits"
      "\<And>i. i div 8 < length bits \<Longrightarrow> isData b i = (isData a i \<or> at + 8 \<le> i \<and> i < at + n)"
      using less.IH [of "n - 8" "at + 8" a] 1 a(2) less.prems by auto
    have "isData b i = (isData bits i \<or> at \<le> i \<and> i < at + n)" if "i div 8 < length bits" for i
      using a(3) [OF that] b(3) [OF that] 1 by auto
    with 1 a b show ?thesis by (simp add: markData.simps [of n])
  next
    case 2
    then have "at div 8 < length bits" using less.prems div_le_mono [of at "at + n" 8] by linarith
    then obtain a where a: "bvSet at bits = Some a" "length a = length bits"
      "\<And>i. i div 8 < length bits \<Longrightarrow> isData a i = (isData bits i \<or> i = at)"
      using bvSet_isData by blast
    obtain b where b: "markData (n - 1) (at + 1) a = Some (at + n, b)" "length b = length bits"
      "\<And>i. i div 8 < length bits \<Longrightarrow> isData b i = (isData a i \<or> at + 1 \<le> i \<and> i < at + n)"
      using less.IH [of "n - 1" "at + 1" a] 2 a(2) less.prems by auto
    have "isData b i = (isData bits i \<or> at \<le> i \<and> i < at + n)" if "i div 8 < length bits" for i
      using a(3) [OF that] b(3) [OF that] 2 by auto
    with 2 a b show ?thesis by (simp add: markData.simps [of n])
  qed (auto simp: markData.simps)
qed

section \<open>Jump destinations\<close>

text \<open>The analysis marks, from any position on, what the reference calls data.\<close>

lemma reference_step:
  assumes "i < length code" "at < length code"
  shows "(at \<le> i \<and> \<not> instructions 0 (drop at code) ! (i - at)) \<longleftrightarrow>
    (at + 1 \<le> i \<and> i < at + 1 + pushBytes (code ! at)) \<or>
    (at + 1 + pushBytes (code ! at) \<le> i \<and>
       \<not> instructions 0 (drop (at + 1 + pushBytes (code ! at)) code) ! (i - (at + 1 + pushBytes (code ! at))))"
proof -
  let ?n = "pushBytes (code ! at)"
  have d: "instructions 0 (drop at code) = True # instructions ?n (drop (at + 1) code)"
    using assms(2) by (simp flip: Cons_nth_drop_Suc)
  show ?thesis
  proof (cases "at + 1 \<le> i")
    case True
    then have "instructions 0 (drop at code) ! (i - at) = instructions ?n (drop (at + 1) code) ! (i - (at + 1))"
      by (simp add: d nth_Cons')
    also have "\<dots> \<longleftrightarrow> ?n \<le> i - (at + 1) \<and> instructions 0 (drop (?n + (at + 1)) code) ! (i - (at + 1) - ?n)"
      using True assms(1) by (subst instructions_nth) (simp_all add: add.commute)
    finally show ?thesis using True by (auto simp: ac_simps)
  next
    case False
    then show ?thesis by (auto simp: d nth_Cons')
  qed
qed

lemma codeBitmapFrom_isData:
  "length bits = length code div 8 + 5 \<Longrightarrow>
   \<exists>b. codeBitmapFrom code at bits = Some b \<and> length b = length bits \<and>
    (\<forall>i < length code. isData b i = (isData bits i \<or> at \<le> i \<and> \<not> instructions 0 (drop at code) ! (i - at)))"
proof (induction "length code - at" arbitrary: at bits rule: less_induct)
  case less
  show ?case
  proof (cases "at < length code")
    case at: True
    let ?n = "pushBytes (code ! at)"
    have inside: "i div 8 < length bits" if "i < length code" for i
      using that less.prems div_le_mono [of i "length code" 8] by linarith
    have next_at: "\<exists>b. codeBitmapFrom code (at + 1 + ?n) a = Some b \<and> length b = length bits \<and>
        (\<forall>i < length code. isData b i = (isData bits i \<or> at \<le> i \<and> \<not> instructions 0 (drop at code) ! (i - at)))"
      if a: "length a = length bits"
        "\<And>i. i < length code \<Longrightarrow> isData a i = (isData bits i \<or> at + 1 \<le> i \<and> i < at + 1 + ?n)" for a
    proof -
      obtain b where b: "codeBitmapFrom code (at + 1 + ?n) a = Some b" "length b = length bits"
        "\<And>i. i < length code \<Longrightarrow> isData b i =
           (isData a i \<or> at + 1 + ?n \<le> i \<and> \<not> instructions 0 (drop (at + 1 + ?n) code) ! (i - (at + 1 + ?n)))"
        using less.hyps [of "at + 1 + ?n" a] at a(1) less.prems by (auto simp: diff_less_mono2)
      have "isData b i = (isData bits i \<or> at \<le> i \<and> \<not> instructions 0 (drop at code) ! (i - at))" if "i < length code" for i
        unfolding reference_step [OF that at] b(3) [OF that] a(2) [OF that] by blast
      with b show ?thesis by blast
    qed
    show ?thesis
    proof (cases "isPush (code ! at)")
      case True
      note p = pushBytes_push [OF True]
      have "at + 1 + ?n \<le> length code + 32" using at p by linarith
      then have "(at + 1 + ?n) div 8 < length bits"
        using less.prems div_le_mono [of "at + 1 + ?n" "length code + 32" 8] by linarith
      then obtain a where a: "markData ?n (at + 1) bits = Some (at + 1 + ?n, a)" "length a = length bits"
        "\<And>i. i div 8 < length bits \<Longrightarrow> isData a i = (isData bits i \<or> at + 1 \<le> i \<and> i < at + 1 + ?n)"
        using markData_isData by blast
      have "codeBitmapFrom code at bits = codeBitmapFrom code (at + 1 + ?n) a"
        using at True p a(1) by (subst codeBitmapFrom.simps) simp
      with next_at [OF a(2) a(3) [OF inside]] show ?thesis by simp
    next
      case False
      then have "?n = 0" by (simp add: pushBytes_def)
      moreover have "codeBitmapFrom code at bits = codeBitmapFrom code (at + 1) bits"
        using at False by (subst codeBitmapFrom.simps) simp
      moreover have "isData bits i = (isData bits i \<or> at + 1 \<le> i \<and> i < at + 1 + 0)" for i by auto
      ultimately show ?thesis using next_at [OF refl] by simp
    qed
  next
    case False
    then show ?thesis by (subst codeBitmapFrom.simps) auto
  qed
qed

lemma codeBitmap_instructions:
  "\<exists>m. codeBitmap code = Some m \<and> (\<forall>i < length code. codeSegment i m = Some (instructions 0 code ! i))"
proof -
  let ?z = "replicate (length code div 8 + 1 + 4) (0 :: u8)"
  have inside: "i div 8 < length ?z" if "i < length code" for i
    using that div_le_mono [of i "length code" 8] by simp
  obtain m where m: "codeBitmap code = Some m" "length m = length ?z"
    "\<And>i. i < length code \<Longrightarrow> isData m i = (isData ?z i \<or> \<not> instructions 0 code ! i)"
    using codeBitmapFrom_isData [of ?z code 0] by (auto simp: codeBitmap_def)
  have "codeSegment i m = Some (instructions 0 code ! i)" if "i < length code" for i
    using inside [OF that] m(2) m(3) [OF that] codeSegment_isData [of i m]
    by (simp add: isData_def nth_replicate del: replicate_Suc)
  with m(1) show ?thesis by blast
qed

text \<open>C25. The analysis of a contract's code never fails, and the test for a jump destination, with the
  analysis of that code in the cache or none, holds exactly of the positions of an instruction JUMPDEST,
  never of a byte of data; it leaves the analysis of the code, or what there was, in the cache.\<close>

theorem jumps_land_on_instructions:
  assumes "word256 dest" "length code < 2 ^ 62" "d codehash = None \<or> d codehash = codeBitmap code"
  shows "\<exists>d'. hasDest codehash code dest d = Ret (validJump code dest, d') \<and> codeBitmap code \<noteq> None \<and>
    (d' = d \<or> d' = d (codehash := codeBitmap code))"
proof -
  obtain m where m: "codeBitmap code = Some m" "\<And>i. i < length code \<Longrightarrow> codeSegment i m = Some (instructions 0 code ! i)"
    using codeBitmap_instructions by blast
  show ?thesis
  proof (cases "dest < int (length code)")
    case True
    then have small: "0 \<le> dest" "dest < 2 ^ 62" "nat dest < length code" using assms(1,2) by (auto simp: word256_def)
    then have u: "unat (Uint64 dest) = nat dest" by (intro Uint64_small) auto
    have "\<not> BitLen dest \<ge> 63" using BitLen_gt [of 62 dest] small by auto
    moreover have "\<not> Uint64 dest \<ge> word_of_nat (length code)"
      using small assms(2) by (simp add: word_le_nat_alt u unsigned_of_nat take_bit_nat_eq_self)
    ultimately have "hasDest codehash code dest d =
        Ret (validJump code dest, if d codehash = None then d (codehash := codeBitmap code) else d)"
      using assms(3) m(1) m(2) [OF small(3)] True by (auto simp: hasDest_def validJump_def u orPanic_def)
    with m(1) show ?thesis by auto
  next
    case False
    have "BitLen dest \<ge> 63 \<or> Uint64 dest \<ge> word_of_nat (length code)"
    proof (cases "dest < 2 ^ 62")
      case True
      then have u: "unat (Uint64 dest) = nat dest" using assms(1) by (intro Uint64_small) (auto simp: word256_def)
      have "length code \<le> nat dest" using False by linarith
      then show ?thesis using assms(2) by (simp add: word_le_nat_alt u unsigned_of_nat take_bit_nat_eq_self)
    next
      case False
      then show ?thesis using BitLen_gt [of 62 dest] by auto
    qed
    then have "hasDest codehash code dest d = Ret (False, d)" by (simp add: hasDest_def)
    then show ?thesis using m(1) False by (auto simp: validJump_def)
  qed
qed

text \<open>PUSH2 JUMPDEST JUMPDEST; JUMPDEST: only the last byte is a destination.\<close>

lemma small_jump:
  "validJump [0x61, 0x5b, 0x5b, 0x5b] 3" "\<not> validJump [0x61, 0x5b, 0x5b, 0x5b] 2"
proof -
  have "pushBytes 0x61 = Suc (Suc 0)" "pushBytes 0x5b = 0" by (simp_all add: pushBytes_def isPush_def)
  then have "instructions 0 [0x61, 0x5b, 0x5b, 0x5b] = [True, False, False, True]" by simp
  then show "validJump [0x61, 0x5b, 0x5b, 0x5b] 3" "\<not> validJump [0x61, 0x5b, 0x5b, 0x5b] 2"
    by (simp_all only: validJump_def) simp_all
qed

theorem jumps_land_on_instructions_witness:
  "(\<exists>d'. hasDest 0 [0x61, 0x5b, 0x5b, 0x5b] 3 (\<lambda>_. None) = Ret (True, d')) \<and>
   (\<exists>d'. hasDest 0 [0x61, 0x5b, 0x5b, 0x5b] 2 (\<lambda>_. None) = Ret (False, d'))"
proof -
  have w: "word256 3" "word256 2" by (simp_all add: word256_def tt256_def)
  show ?thesis
    using jumps_land_on_instructions [OF w(1), of "[0x61, 0x5b, 0x5b, 0x5b]" "\<lambda>_. None" 0]
      jumps_land_on_instructions [OF w(2), of "[0x61, 0x5b, 0x5b, 0x5b]" "\<lambda>_. None" 0]
    by (auto simp: small_jump)
qed

end
