(* ===== verification/EvmMemory.thy ===== *)
theory EvmMemory
  imports EvmTypes
begin

text \<open>
  The price of memory (\<open>memoryGasCost\<close> of \<open>core/vm/gas_table.go\<close>): where it is exact, and where its square
  wraps around.
\<close>

section \<open>The price of memory\<close>

text \<open>What a memory of a number of words costs in all.\<close>

definition memFee :: "nat \<Rightarrow> nat" where
  "memFee w = 3 * w + w * w div 512"

definition wordsFor :: "nat \<Rightarrow> nat" where
  "wordsFor n = (n + 31) div 32"

lemma memFee_mono: "v \<le> w \<Longrightarrow> memFee v \<le> memFee w"
  unfolding memFee_def by (intro add_mono div_le_mono mult_le_mono) simp_all

lemma wordsFor_bound: "n \<le> 2 ^ 37 - 32 \<Longrightarrow> wordsFor n < 2 ^ 32"
  by (simp add: wordsFor_def)

lemma toWordSize_words: "unat n \<le> 2 ^ 37 - 32 \<Longrightarrow> unat (toWordSize n) = wordsFor (unat n)"
proof -
  assume n: "unat n \<le> 2 ^ 37 - 32"
  have "unat (n + 31) = unat n + 31" using n by (subst unat_add_lem [THEN iffD1]) simp_all
  moreover have "\<not> n > MaxUint64 - 31" using n by (simp add: word_less_nat_alt MaxUint64_def)
  ultimately show ?thesis by (simp add: toWordSize_def wordsFor_def unat_div_distrib)
qed

lemma fee_exact:
  assumes "unat (w :: u64) < 2 ^ 32"
  shows "unat (w * MemoryGas + w * w div QuadCoeffDiv) = memFee (unat w)" "memFee (unat w) < 2 ^ 63" "unat (w * 32) = 32 * unat w"
proof -
  let ?w = "unat w"
  have sq: "?w * ?w < 2 ^ 64" using mult_strict_mono [of ?w "2 ^ 32" ?w "2 ^ 32"] assms by simp
  then have s: "unat (w * w) = ?w * ?w" by (subst unat_mult_lem [THEN iffD1]) simp_all
  have q: "?w * ?w div 512 < 2 ^ 55" using sq by (simp add: div_less_iff_less_mult)
  show f: "memFee ?w < 2 ^ 63" using q assms by (simp add: memFee_def)
  have l: "unat (w * MemoryGas) = ?w * 3" unfolding MemoryGas_def using assms by (subst unat_mult_lem [THEN iffD1]) simp_all
  have d: "unat (w * w div QuadCoeffDiv) = ?w * ?w div 512" by (simp add: QuadCoeffDiv_def unat_div_distrib s)
  show "unat (w * MemoryGas + w * w div QuadCoeffDiv) = memFee ?w"
    using f l d by (subst unat_add_lem [THEN iffD1]) (simp_all add: memFee_def)
  show "unat (w * 32) = 32 * ?w" using assms by (subst unat_mult_lem [THEN iffD1]) simp_all
qed

text \<open>C40. Up to 2^32 - 1 words of memory, growing the memory costs exactly the difference between what the
  new and the old number of words cost in all, and that cost is remembered; nothing wraps around. The
  function accepts sizes up to 0xffffffffe0 however, where the square of the number of words does wrap
  around: 2^32 words cost as much as if the quadratic part were not there.\<close>

theorem memory_fee:
  assumes "0 < unat n" "unat n \<le> 2 ^ 37 - 32"
    and "length (memStore mem) = 32 * w" "w < 2 ^ 32" "unat (lastGasCost mem) = memFee w"
  shows "(\<exists>fee mem'. memoryGasCost mem n = (Inr fee, mem') \<and> memStore mem' = memStore mem \<and>
      unat fee = memFee (max w (wordsFor (unat n))) - memFee w \<and> unat (lastGasCost mem') = memFee (max w (wordsFor (unat n)))) \<and>
    fst (memoryGasCost NewMemory (2 ^ 37)) = Inr (3 * 2 ^ 32) \<and> 3 * 2 ^ 32 < memFee (wordsFor (2 ^ 37))"
proof -
  let ?v = "toWordSize n" and ?k = "wordsFor (unat n)"
  have k: "unat ?v = ?k" "?k < 2 ^ 32" using toWordSize_words wordsFor_bound assms(2) by auto
  note fe = fee_exact [of ?v, unfolded k(1), OF k(2)]
  have big: "n \<noteq> 0" "\<not> n > 0xffffffffe0" using assms(1,2) by (auto simp: word_less_nat_alt)
  have len: "unat (word_of_nat (length (memStore mem)) :: u64) = 32 * w"
    using assms(3,4) unfolding assms(3) unsigned_of_nat by (simp add: take_bit_nat_eq_self)
  have "\<exists>fee mem'. memoryGasCost mem n = (Inr fee, mem') \<and> memStore mem' = memStore mem \<and>
      unat fee = memFee (max w ?k) - memFee w \<and> unat (lastGasCost mem') = memFee (max w ?k)"
  proof (cases "w < ?k")
    case True
    then have "?v * 32 > word_of_nat (length (memStore mem))" using len fe(3) by (simp add: word_less_nat_alt)
    moreover have "unat (?v * MemoryGas + ?v * ?v div QuadCoeffDiv - lastGasCost mem) = memFee ?k - memFee w"
      using fe(1) assms(5) memFee_mono [of w ?k] True by (subst unat_sub) (simp_all add: word_le_nat_alt)
    ultimately show ?thesis using big fe(1) True by (simp add: memoryGasCost_def Let_def)
  next
    case False
    then have "\<not> ?v * 32 > word_of_nat (length (memStore mem))" using len fe(3) by (simp add: word_less_nat_alt)
    then show ?thesis using big False assms(5) by (simp add: memoryGasCost_def Let_def)
  qed
  moreover have "fst (memoryGasCost NewMemory (2 ^ 37)) = Inr (3 * 2 ^ 32)"
    by (simp add: memoryGasCost_def Let_def toWordSize_def MaxUint64_def NewMemory_def MemoryGas_def QuadCoeffDiv_def)
  moreover have "3 * 2 ^ 32 < memFee (wordsFor (2 ^ 37))" by (simp add: memFee_def wordsFor_def)
  ultimately show ?thesis by blast
qed

theorem memory_fee_witness:
  "\<exists>fee mem'. memoryGasCost NewMemory 100 = (Inr fee, mem') \<and> unat fee = 12"
  using memory_fee [of 100 NewMemory 0] by (auto simp: NewMemory_def memFee_def wordsFor_def)

end
