(* ===== verification/Transition.thy ===== *)
theory Transition
  imports EvmRun
begin

text \<open>
  Applying a message to the state: the gas pool of a block (\<open>core/gaspool.go\<close>) and the state transition
  (\<open>core/state_transition.go\<close>). The state belongs to the machine, which the transition carries; the pool
  is the number it holds.
\<close>

definition TxGas :: u64 where "TxGas = 21000"
definition TxGasContractCreation :: u64 where "TxGasContractCreation = 53000"
definition TxDataZeroGas :: u64 where "TxDataZeroGas = 4"
definition TxDataNonZeroGas :: u64 where "TxDataNonZeroGas = 68"

datatype txErr = ErrNonceTooHigh | ErrNonceTooLow | errInsufficientBalanceForGas | ErrGasLimitReached | VmError vmErr

section \<open>The gas pool\<close>

definition AddGas :: "u64 \<Rightarrow> u64 \<Rightarrow> u64 go" where
  "AddGas amount gp = (if gp > MaxUint64 - amount then Panic GasPoolFault else Ret (gp + amount))"

definition SubGas :: "u64 \<Rightarrow> u64 \<Rightarrow> txErr + u64" where
  "SubGas amount gp = (if gp < amount then Inl ErrGasLimitReached else Inr (gp - amount))"

section \<open>The state transition\<close>

record Message =
  msgFrom :: address
  msgTo :: "address option"
  msgGasPrice :: int
  msgGas :: u64
  msgValue :: int
  msgNonce :: u64
  msgCheckNonce :: bool
  msgData :: bytes

record StateTransition =
  stGp :: u64
  stMsg :: Message
  stGas :: u64
  stGasPrice :: int
  stInitialGas :: u64
  stValue :: int
  stData :: bytes
  stEvm :: EVM

definition IntrinsicGas :: "bytes \<Rightarrow> bool \<Rightarrow> vmErr + u64" where
  "IntrinsicGas data contractCreation =
     (let gas = (if contractCreation then TxGasContractCreation else TxGas) in
      if length data > 0 then
        (let nz = word_of_nat (length (filter (\<lambda>b. b \<noteq> 0) data)) in
         if (MaxUint64 - gas) div TxDataNonZeroGas < nz then Inl ErrOutOfGas
         else
           (let gas1 = gas + nz * TxDataNonZeroGas;
                z = word_of_nat (length data) - nz
            in if (MaxUint64 - gas1) div TxDataZeroGas < z then Inl ErrOutOfGas
               else Inr (gas1 + z * TxDataZeroGas)))
      else Inr gas)"

definition NewStateTransition :: "EVM \<Rightarrow> Message \<Rightarrow> u64 \<Rightarrow> StateTransition" where
  "NewStateTransition e msg gp =
     \<lparr>stGp = gp, stMsg = msg, stGas = 0, stGasPrice = msgGasPrice msg, stInitialGas = 0, stValue = msgValue msg,
      stData = msgData msg, stEvm = e\<rparr>"

text \<open>An account that is made when it does not exist.\<close>

definition ensure :: "hashfun \<Rightarrow> address \<Rightarrow> EVM \<Rightarrow> EVM go" where
  "ensure kec a e =
     andThen (onState (Exist kec a) e) (\<lambda>(exists, e1). if exists then Ret e1 else doState (CreateAccount kec a) e1)"

definition stFrom :: "hashfun \<Rightarrow> StateTransition \<Rightarrow> (address \<times> StateTransition) go" where
  "stFrom kec st =
     (let f = msgFrom (stMsg st) in andThen (ensure kec f (stEvm st)) (\<lambda>e. Ret (f, st\<lparr>stEvm := e\<rparr>)))"

definition stTo :: "hashfun \<Rightarrow> StateTransition \<Rightarrow> (address \<times> StateTransition) go" where
  "stTo kec st =
     (case msgTo (stMsg st) of
        None \<Rightarrow> Ret (0, st)
      | Some a \<Rightarrow> andThen (ensure kec a (stEvm st)) (\<lambda>e. Ret (a, st\<lparr>stEvm := e\<rparr>)))"

definition useGas :: "u64 \<Rightarrow> StateTransition \<Rightarrow> vmErr + StateTransition" where
  "useGas amount st = (if stGas st < amount then Inl ErrOutOfGas else Inr (st\<lparr>stGas := stGas st - amount\<rparr>))"

definition buyGas :: "hashfun \<Rightarrow> StateTransition \<Rightarrow> (txErr option \<times> StateTransition) go" where
  "buyGas kec st0 =
     andThen (stFrom kec st0) (\<lambda>(sender, st).
       let g = msgGas (stMsg st); mgval = uint g * stGasPrice st in
       andThen (onState (GetBalance kec sender) (stEvm st)) (\<lambda>(b, e1).
         let st1 = st\<lparr>stEvm := e1\<rparr> in
         if b < mgval then Ret (Some errInsufficientBalanceForGas, st1)
         else
           (case SubGas g (stGp st1) of
              Inl err \<Rightarrow> Ret (Some err, st1)
            | Inr gp \<Rightarrow>
                andThen (doState (SubBalance kec sender mgval) (stEvm st1)) (\<lambda>e2.
                  Ret (None, st1\<lparr>stGp := gp, stGas := stGas st1 + g, stInitialGas := g, stEvm := e2\<rparr>)))))"

definition preCheck :: "hashfun \<Rightarrow> StateTransition \<Rightarrow> (txErr option \<times> StateTransition) go" where
  "preCheck kec st0 =
     andThen (stFrom kec st0) (\<lambda>(sender, st).
       if msgCheckNonce (stMsg st) then
         andThen (onState (GetNonce kec sender) (stEvm st)) (\<lambda>(nonce, e1).
           let st1 = st\<lparr>stEvm := e1\<rparr> in
           if nonce < msgNonce (stMsg st) then Ret (Some ErrNonceTooHigh, st1)
           else if nonce > msgNonce (stMsg st) then Ret (Some ErrNonceTooLow, st1)
           else buyGas kec st1)
       else buyGas kec st)"

definition gasUsed :: "StateTransition \<Rightarrow> u64" where
  "gasUsed st = stInitialGas st - stGas st"

definition refundGas :: "hashfun \<Rightarrow> StateTransition \<Rightarrow> StateTransition go" where
  "refundGas kec st0 =
     (let half = gasUsed st0 div 2;
          counter = refund (stateDB (stEvm st0));
          back = (if half > counter then counter else half);
          st1 = st0\<lparr>stGas := stGas st0 + back\<rparr>
      in andThen (stFrom kec st1) (\<lambda>(sender, st2).
         andThen (doState (AddBalance kec sender (uint (stGas st2) * stGasPrice st2)) (stEvm st2)) (\<lambda>e.
         andThen (AddGas (stGas st2) (stGp st2)) (\<lambda>gp.
           Ret (st2\<lparr>stGp := gp, stEvm := e\<rparr>)))))"

text \<open>Running the message: creation, or a call after the sender's nonce has been counted up.\<close>

definition runMessage ::
  "crypto \<Rightarrow> loopFun \<Rightarrow> address \<Rightarrow> StateTransition \<Rightarrow> (bytes option \<times> vmErr option \<times> StateTransition) go" where
  "runMessage cr lp sender st =
     (if msgTo (stMsg st) = None then
        andThen (CreateContract cr lp (AccountRef sender) (stData st) (stGas st) (stValue st) (stEvm st)) (\<lambda>(ret, _, gas, vmerr, e).
          Ret (ret, vmerr, st\<lparr>stGas := gas, stEvm := e\<rparr>))
      else
        andThen (onState (GetNonce (keccak cr) sender) (stEvm st)) (\<lambda>(nonce, e1).
        andThen (doState (SetNonce (keccak cr) sender (nonce + 1)) e1) (\<lambda>e2.
        andThen (stTo (keccak cr) (st\<lparr>stEvm := e2\<rparr>)) (\<lambda>(to, st1).
        andThen (Call cr lp (AccountRef sender) to (stData st1) (stGas st1) (stValue st1) (stEvm st1)) (\<lambda>(ret, gas, vmerr, e).
          Ret (ret, vmerr, st1\<lparr>stGas := gas, stEvm := e\<rparr>))))))"

definition TransitionDb ::
  "crypto \<Rightarrow> loopFun \<Rightarrow> StateTransition \<Rightarrow> (bytes option \<times> u64 \<times> bool \<times> txErr option \<times> StateTransition) go" where
  "TransitionDb cr lp st0 =
     (let kec = keccak cr in
      andThen (preCheck kec st0) (\<lambda>(err, st1).
        if err \<noteq> None then Ret (None, 0, False, err, st1)
        else
          andThen (stFrom kec st1) (\<lambda>(sender, st2).
            case IntrinsicGas (stData st2) (msgTo (stMsg st2) = None) of
              Inl err \<Rightarrow> Ret (None, 0, False, Some (VmError err), st2)
            | Inr gas \<Rightarrow>
                (case useGas gas st2 of
                   Inl err \<Rightarrow> Ret (None, 0, False, Some (VmError err), st2)
                 | Inr st3 \<Rightarrow>
                     andThen (runMessage cr lp sender st3) (\<lambda>(ret, vmerr, st4).
                       if vmerr = Some ErrInsufficientBalance then Ret (None, 0, False, Some (VmError ErrInsufficientBalance), st4)
                       else
                         andThen (refundGas kec st4) (\<lambda>st5.
                         andThen (doState (AddBalance kec (Coinbase (ctx (stEvm st5))) (uint (gasUsed st5) * stGasPrice st5)) (stEvm st5)) (\<lambda>e6.
                           let st6 = st5\<lparr>stEvm := e6\<rparr> in Ret (ret, gasUsed st6, vmerr \<noteq> None, None, st6))))))))"

definition ApplyMessage ::
  "crypto \<Rightarrow> loopFun \<Rightarrow> EVM \<Rightarrow> Message \<Rightarrow> u64 \<Rightarrow> (bytes option \<times> u64 \<times> bool \<times> txErr option \<times> StateTransition) go" where
  "ApplyMessage cr lp e msg gp = TransitionDb cr lp (NewStateTransition e msg gp)"

end
