(* ===== verification/EvmStep.thy ===== *)
theory EvmStep
  imports EvmTypes
begin

text \<open>
  One instruction: what its gas function charges, and what executing it does to the frame and the state.
\<close>

section \<open>States of the machine between instructions\<close>

definition good :: "hashfun \<Rightarrow> EVM \<Rightarrow> machine \<Rightarrow> bool" where
  "good kec e m \<longleftrightarrow> now kec e m \<and> vOk (current m) \<and> gasTable e = DefaultGasTable \<and> word256 (GasPrice (ctx e)) \<and>
     length (returnData e) < 2 ^ 63"

definition sameEnv :: "EVM \<Rightarrow> EVM \<Rightarrow> bool" where
  "sameEnv e e' \<longleftrightarrow> ctx e' = ctx e \<and> depth e' = depth e \<and> NoRecursion e' = NoRecursion e \<and>
     EnablePreimageRecording e' = EnablePreimageRecording e \<and> aborted e' = aborted e \<and> gasTable e' = gasTable e \<and> readOnly e' = readOnly e"

definition evolves :: "hashfun \<Rightarrow> EVM \<Rightarrow> machine \<Rightarrow> EVM \<Rightarrow> bool" where
  "evolves kec e m e' \<longleftrightarrow> sameEnv e e' \<and> (\<exists>m'. good kec e' m' \<and> advances kec (readOnly e) m m')"

definition frameOk :: "frame \<Rightarrow> bool" where
  "frameOk fr \<longleftrightarrow> length (stack fr) \<le> StackLimit \<and> (\<forall>x \<in> set (stack fr). word256 x) \<and> memOk (memory fr) \<and>
     length (cCode (contract fr)) < 2 ^ 63 \<and> length (cInput (contract fr)) < 2 ^ 63 \<and> word256 (cvalue (contract fr)) \<and>
     unat (cGas (contract fr)) < 2 ^ 61"

abbreviation gasOf :: "frame \<Rightarrow> nat" where
  "gasOf fr \<equiv> unat (cGas (contract fr))"

lemma good_now: "good kec e m \<Longrightarrow> now kec e m" "good kec e m \<Longrightarrow> vOk (current m)"
  by (simp_all add: good_def)

lemma good_stateOnly: "good kec e m \<Longrightarrow> stateOnly e e' \<Longrightarrow> now kec e' m' \<Longrightarrow> vOk (current m') \<Longrightarrow> good kec e' m'"
  by (simp add: good_def stateOnly_sel)

lemma sameEnv_refl [simp]: "sameEnv e e" "sameEnv e (e\<lparr>jumpdests := d\<rparr>)" "sameEnv e (e\<lparr>callGasTemp := g\<rparr>)" "sameEnv e (e\<lparr>returnData := r\<rparr>)"
    "sameEnv e (e\<lparr>stateDB := s\<rparr>)"
  by (simp_all add: sameEnv_def)

lemma sameEnv_trans: "sameEnv a b \<Longrightarrow> sameEnv b c \<Longrightarrow> sameEnv a c"
  by (simp add: sameEnv_def)

lemma stateOnly_sameEnv: "stateOnly e e' \<Longrightarrow> sameEnv e e'"
  by (simp add: sameEnv_def stateOnly_sel)

lemma evolves_refl: "good kec e m \<Longrightarrow> evolves kec e m e"
  unfolding evolves_def using advances_refl good_now by auto

lemma evolves_step:
  assumes "sameEnv e e1" "advances kec (readOnly e) m m1" "evolves kec e1 m1 e2"
  shows "evolves kec e m e2"
  using assms advances_trans [OF assms(2)] sameEnv_trans [OF assms(1)] by (auto simp: evolves_def sameEnv_def)

lemma evolves_now:
  assumes "good kec e m" "stateOnly e e'" "now kec e' m'" "advances kec (readOnly e) m m'"
  shows "evolves kec e m e'"
  using assms good_stateOnly stateOnly_sameEnv by (fastforce simp: evolves_def advances_def)

lemma good_other:
  assumes "good kec e m"
  shows "good kec (e\<lparr>jumpdests := d\<rparr>) m" "good kec (e\<lparr>callGasTemp := g\<rparr>) m" "length r < 2 ^ 63 \<Longrightarrow> good kec (e\<lparr>returnData := r\<rparr>) m"
    "good kec (e\<lparr>depth := n\<rparr>) m" "good kec (e\<lparr>readOnly := b\<rparr>) m"
  using assms by (simp_all add: good_def now_def)

lemma evolves_other:
  assumes "good kec e m"
  shows "evolves kec e m (e\<lparr>jumpdests := d\<rparr>)" "evolves kec e m (e\<lparr>callGasTemp := g\<rparr>)" "length r < 2 ^ 63 \<Longrightarrow> evolves kec e m (e\<lparr>returnData := r\<rparr>)"
  using good_other [OF assms] advances_refl [OF good_now(2) [OF assms]] by (auto simp: evolves_def intro!: exI [of _ m])

text \<open>Reading the state, and writing it, as a step of a longer piece of code.\<close>

lemma fine_reads:
  assumes "reads kec m e P r" "good kec e m"
    and "\<And>x e'. P x \<Longrightarrow> stateOnly e e' \<Longrightarrow> good kec e' m \<Longrightarrow> fine Q (f (x, e'))"
  shows "fine Q (andThen r f)"
  using assms good_stateOnly [OF assms(2) _ _ good_now(2) [OF assms(2)]] by (auto simp: reads_def)

lemma fine_sets:
  assumes "sets kec m e v r" "good kec e m" "vOk v"
    and "\<And>e'. stateOnly e e' \<Longrightarrow> good kec e' (m\<lparr>current := v\<rparr>) \<Longrightarrow> fine Q (f e')"
  shows "fine Q (andThen r f)"
  using assms good_stateOnly [OF assms(2)] by (auto simp: sets_def)

lemma evolves_state:
  assumes "good kec e m" "stateOnly e e'" "good kec e' (m\<lparr>current := v\<rparr>)" "money v \<le> money (current m)" "readOnly e \<longrightarrow> sameWorld kec (current m) v"
  shows "evolves kec e m e'"
  using assms advances_current [OF good_now(2) [OF assms(3), simplified], of m "readOnly e" kec]
  by (auto simp: evolves_def stateOnly_sameEnv)

section \<open>Gas\<close>

lemma addGas_ok: "addGas x y = Inr z \<longleftrightarrow> z = x + y \<and> unat x + unat y < 2 ^ 64"
  using SafeAdd_ok [of x y z] by (auto simp: addGas_def SafeAdd_def split: if_splits)

lemma addGas_unat: "addGas x y = Inr z \<Longrightarrow> unat z = unat x + unat y"
  using unat_add_nocarry [of x y] by (simp add: addGas_ok)

lemma thenGas_Inr: "thenGas r f = Inr z \<longleftrightarrow> (\<exists>g. r = Inr g \<and> f g = Inr z)"
  by (auto simp: thenGas_def split: sum.splits)

text \<open>What the gas function of an instruction gives: the price, the memory with its fee and the machine.\<close>

definition gasGood :: "hashfun \<Rightarrow> machine \<Rightarrow> (u64 \<Rightarrow> EVM \<Rightarrow> bool) \<Rightarrow> frame \<Rightarrow> u64 \<Rightarrow> EVM \<Rightarrow> (gasRes \<times> Memory \<times> EVM) go \<Rightarrow> bool" where
  "gasGood kec m Q fr ms e = fine (\<lambda>(cost, mem, e'). memStore mem = memStore (memory fr) \<and> evolves kec e m e' \<and>
     (\<forall>c. cost = Inr c \<longrightarrow> Q c e' \<and> memOk (resized ms mem)))"

lemma withMem_good:
  assumes "memOk (memory fr)" "unat ms mod 32 = 0" "good kec e m"
    and "\<And>g. fine (\<lambda>(r, e'). evolves kec e m e' \<and> (\<forall>c. r = Inr c \<longrightarrow> Q c e')) (k g)"
  shows "gasGood kec m Q fr ms e (withMem k fr ms e)"
proof -
  obtain r mem where r: "memoryGasCost (memory fr) ms = (r, mem)" by fastforce
  then have s: "memStore mem = memStore (memory fr)" using memoryGasCost_store [of "memory fr" ms] by simp
  show ?thesis
  proof (cases r)
    case (Inl err)
    then show ?thesis using s r evolves_refl [OF assms(3)] by (simp add: gasGood_def withMem_def)
  next
    case (Inr g)
    then have "memOk (resized ms mem)" using memoryGasCost_ok(1) [OF assms(1,2)] r by simp
    then show ?thesis using r Inr s assms(4) [of g] unfolding gasGood_def withMem_def
      by (auto intro: fine_andThen)
  qed
qed

lemma resized_0 [simp]: "resized 0 m = m"
  by (simp add: resized_def)

lemma constGas_good: "memOk (memory fr) \<Longrightarrow> good kec e m \<Longrightarrow> Q g e \<Longrightarrow> gasGood kec m Q fr 0 e (constGasFunc g fr 0 e)"
  by (simp add: gasGood_def constGasFunc_def evolves_refl)

lemma wordGas_good:
  assumes "memOk (memory fr)" "unat ms mod 32 = 0" "good kec e m" "i < length (stack fr)"
  shows "gasGood kec m (\<lambda>c _. unat (base e) \<le> unat c) fr ms e (wordGas base pw i fr ms e)"
  unfolding wordGas_def
proof (rule withMem_good [OF assms(1-3)], goal_cases)
  case (1 g)
  show ?case using evolves_refl [OF assms(3)] assms(4)
    by (cases "addGas g (base e)") (auto simp: Back_ok thenGas_Inr dest!: addGas_unat)
qed

lemma memPlus_good:
  assumes "memOk (memory fr)" "unat ms mod 32 = 0" "good kec e m"
  shows "gasGood kec m (\<lambda>g _. unat c \<le> unat g) fr ms e (memPlus c fr ms e)"
  unfolding memPlus_def
  by (rule withMem_good [OF assms]) (use evolves_refl [OF assms(3)] in \<open>auto dest!: addGas_unat\<close>)

lemma makeGasLog_good:
  assumes "memOk (memory fr)" "unat ms mod 32 = 0" "good kec e m" "1 < length (stack fr)"
  shows "gasGood kec m (\<lambda>g _. 375 \<le> unat g) fr ms e (makeGasLog n fr ms e)"
proof (cases "sizeGas (stack fr ! 1)")
  case (Inl err)
  then show ?thesis using assms by (simp add: makeGasLog_def Back_ok gasGood_def evolves_refl)
next
  case (Inr sz)
  have "gasGood kec m (\<lambda>g _. 375 \<le> unat g) fr ms e (withMem (\<lambda>gas. Ret
             (thenGas (addGas gas LogGas) (\<lambda>g1. thenGas (addGas g1 (n * LogTopicGas)) (\<lambda>g2.
              thenGas (mulGas sz LogDataGas) (addGas g2))), e)) fr ms e)"
    by (rule withMem_good [OF assms(1-3)]) (use evolves_refl [OF assms(3)] in \<open>auto simp: thenGas_Inr LogGas_def dest!: addGas_unat\<close>)
  then show ?thesis using Inr assms(4) by (simp add: makeGasLog_def Back_ok)
qed

lemma gasReturn_good:
  assumes "memOk (memory fr)" "unat ms mod 32 = 0" "good kec e m"
  shows "gasGood kec m (\<lambda>_ _. True) fr ms e (gasReturn fr ms e)" "gasGood kec m (\<lambda>_ _. True) fr ms e (gasRevert fr ms e)"
  unfolding gasReturn_def gasRevert_def
  by (rule withMem_good [OF assms], use evolves_refl [OF assms(3)] in simp)+

text \<open>The gas functions of calls: the price has the gas for the call in it.\<close>

lemma passGas_good:
  assumes "good kec e m" "stack fr \<noteq> []"
  shows "fine (\<lambda>(r, e'). evolves kec e m e' \<and> (\<forall>c. r = Inr c \<longrightarrow> unat x + unat y + unat (callGasTemp e') \<le> unat c)) (passGas x y fr e)"
proof (cases "addGas x y")
  case (Inr g)
  then show ?thesis using assms evolves_other [OF assms(1)]
    by (cases "callGas (gasTable e) (cGas (contract fr)) g (stack fr ! 0)") (auto simp: passGas_def Back_ok dest!: addGas_unat)
qed (use evolves_refl [OF assms(1)] in \<open>simp add: passGas_def\<close>)

lemma good_table: "good kec e m \<Longrightarrow> gasTable e = DefaultGasTable"
  by (simp add: good_def)

abbreviation valueGas :: "int \<Rightarrow> nat" where
  "valueGas v \<equiv> (if v \<noteq> 0 then 9000 else 0)"

lemma gasCallCode_good:
  assumes "memOk (memory fr)" "unat ms mod 32 = 0" "good kec e m" "2 < length (stack fr)"
  shows "gasGood kec m (\<lambda>c e'. 700 + valueGas (stack fr ! 2) + unat (callGasTemp e') \<le> unat c) fr ms e (gasCallCode fr ms e)"
proof -
  have s: "stack fr \<noteq> []" using assms(4) by auto
  let ?g = "if stack fr ! 2 \<noteq> 0 then Calls (gasTable e) + CallValueTransferGas else Calls (gasTable e)"
  have g: "700 + valueGas (stack fr ! 2) = unat ?g"
    using good_table [OF assms(3)] by (simp add: DefaultGasTable_def CallValueTransferGas_def)
  have "gasGood kec m (\<lambda>c e'. 700 + valueGas (stack fr ! 2) + unat (callGasTemp e') \<le> unat c) fr ms e (withMem (\<lambda>memoryGas. passGas ?g memoryGas fr e) fr ms e)"
    unfolding g by (rule withMem_good [OF assms(1-3)]) (rule fine_mono [OF passGas_good [OF assms(3) s]], force)
  then show ?thesis using assms(4) by (simp add: gasCallCode_def Back_ok)
qed

lemma gasDelegate_good:
  assumes "memOk (memory fr)" "unat ms mod 32 = 0" "good kec e m" "stack fr \<noteq> []"
  shows "gasGood kec m (\<lambda>c e'. 700 + unat (callGasTemp e') \<le> unat c) fr ms e (gasDelegateCall fr ms e)"
    "gasGood kec m (\<lambda>c e'. 700 + unat (callGasTemp e') \<le> unat c) fr ms e (gasStaticCall fr ms e)"
proof -
  have g: "unat (Calls (gasTable e)) = 700" using good_table [OF assms(3)] by (simp add: DefaultGasTable_def)
  show "gasGood kec m (\<lambda>c e'. 700 + unat (callGasTemp e') \<le> unat c) fr ms e (gasDelegateCall fr ms e)"
    "gasGood kec m (\<lambda>c e'. 700 + unat (callGasTemp e') \<le> unat c) fr ms e (gasStaticCall fr ms e)"
    unfolding gasDelegateCall_def gasStaticCall_def
    by (rule withMem_good [OF assms(1-3)], rule fine_mono [OF passGas_good [OF assms(3,4)]], use g in force)+
qed


lemma vOk_same: "vAccts v' = vAccts v \<Longrightarrow> vOk v' = vOk v" "vAccts v' = vAccts v \<Longrightarrow> money v' = money v"
  by (simp_all add: vOk_def money_def balOf_def)

lemma evolves_current:
  assumes "good kec e m" "now kec (e\<lparr>stateDB := s\<rparr>) (m\<lparr>current := v\<rparr>)" "vAccts v = vAccts (current m)" "readOnly e \<longrightarrow> sameWorld kec (current m) v"
  shows "evolves kec e m (e\<lparr>stateDB := s\<rparr>)"
proof -
  have "vOk v" "money v = money (current m)" using vOk_same [OF assms(3)] good_now(2) [OF assms(1)] by auto
  then show ?thesis using assms by (intro evolves_now [OF assms(1) _ assms(2)]) (simp_all add: advances_def)
qed

lemma AddRefund_evolves: "good kec e m \<Longrightarrow> \<not> readOnly e \<Longrightarrow> evolves kec e m (e\<lparr>stateDB := AddRefund g (stateDB e)\<rparr>)"
  by (rule evolves_current [OF _ AddRefund_now]) (auto dest: good_now)

lemma evolves_read: "good kec e m \<Longrightarrow> stateOnly e e' \<Longrightarrow> good kec e' m \<Longrightarrow> evolves kec e m e'"
  using stateOnly_sameEnv advances_refl good_now by (auto simp: evolves_def)

lemma evolves_after_read:
  assumes "good kec e m" "stateOnly e e'" "good kec e' m" "evolves kec e' m e2"
  shows "evolves kec e m e2"
  using evolves_step [OF stateOnly_sameEnv [OF assms(2)] advances_refl [OF good_now(2) [OF assms(1)]] assms(4)] .

lemma gasSStore_good:
  assumes "memOk (memory fr)" "good kec e m" "1 < length (stack fr)" "\<not> readOnly e"
  shows "gasGood kec m (\<lambda>c _. 1 \<le> unat c) fr 0 e (gasSStore kec fr 0 e)"
proof -
  have s: "stack fr \<noteq> []" using assms(3) by auto
  have "gasGood kec m (\<lambda>c _. 1 \<le> unat c) fr 0 e (andThen (onState (GetState kec (cself (contract fr)) (BigToHash (stack fr ! 0))) e) (\<lambda>(val, e1).
       if val = 0 \<and> BigToHash (stack fr ! 1) \<noteq> 0 then Ret (Inr SstoreSetGas, memory fr, e1)
       else if val \<noteq> 0 \<and> BigToHash (stack fr ! 1) = 0
       then Ret (Inr SstoreClearGas, memory fr, e1\<lparr>stateDB := AddRefund SstoreRefundGas (stateDB e1)\<rparr>)
       else Ret (Inr SstoreResetGas, memory fr, e1)))" (is "gasGood kec m _ fr 0 e (andThen ?r ?f)")
    unfolding gasGood_def
  proof (rule fine_reads [OF GetState_reads [OF good_now(1) [OF assms(2)]] assms(2)], goal_cases)
    case (1 x e')
    have "\<not> readOnly e'" using assms(4) stateOnly_sel(8) [OF 1(2)] by simp
    then have "evolves kec e m e'" "evolves kec e m (e'\<lparr>stateDB := AddRefund SstoreRefundGas (stateDB e')\<rparr>)"
      using evolves_read [OF assms(2) 1(2,3)] evolves_after_read [OF assms(2) 1(2,3) AddRefund_evolves [OF 1(3)]] by auto
    then show ?case using assms(1) by (simp add: SstoreSetGas_def SstoreClearGas_def SstoreResetGas_def)
  qed
  moreover have "Back (stack fr) 0 = Ret (stack fr ! 0)" "Back (stack fr) 1 = Ret (stack fr ! 1)" using assms(3) s by (simp_all add: Back_ok)
  ultimately show ?thesis by (simp only: gasSStore_def andThen.simps)
qed

lemma gasExp_good:
  assumes "memOk (memory fr)" "good kec e m" "1 < length (stack fr)"
  shows "gasGood kec m (\<lambda>c _. 1 \<le> unat c) fr 0 e (gasExp fr 0 e)"
  using assms by (auto simp: gasExp_def Back_ok gasGood_def evolves_refl GasSlowStep_def dest!: addGas_unat)

lemma gasSuicide_good:
  assumes "memOk (memory fr)" "good kec e m" "stack fr \<noteq> []" "\<not> readOnly e"
  shows "gasGood kec m (\<lambda>_ _. True) fr 0 e (gasSuicide kec fr 0 e)"
proof -
  let ?self = "cself (contract fr)"
  have last: "fine (\<lambda>(cost, mem, e'). memStore mem = memStore (memory fr) \<and> evolves kec e m e' \<and> (\<forall>c. cost = Inr c \<longrightarrow> True \<and> memOk (resized 0 mem)))
      (andThen (onState (HasSuicided kec ?self) e2) (\<lambda>(gone, e3).
          Ret (Inr g, memory fr, if gone then e3 else e3\<lparr>stateDB := AddRefund SuicideRefundGas (stateDB e3)\<rparr>)))"
    if e2: "stateOnly e e2" "good kec e2 m" for e2 g
  proof (rule fine_reads [OF HasSuicided_reads [OF good_now(1) [OF e2(2)]] e2(2)], goal_cases)
    case (1 x e3)
    have "\<not> readOnly e3" using assms(4) stateOnly_sel(8) [OF e2(1)] stateOnly_sel(8) [OF 1(2)] by simp
    then have "evolves kec e m e3" "evolves kec e m (e3\<lparr>stateDB := AddRefund SuicideRefundGas (stateDB e3)\<rparr>)"
      using evolves_after_read [OF assms(2) stateOnly_trans [OF e2(1) 1(2)] 1(3)] evolves_refl [OF 1(3)] AddRefund_evolves [OF 1(3)] by auto
    then show ?case using assms(1) by simp
  qed
  have "gasGood kec m (\<lambda>_ _. True) fr 0 e (andThen (onState (EmptyAcc kec (BigToAddress (stack fr ! 0))) e) (\<lambda>(fresh, e1).
      andThen (if fresh then onState (GetBalance kec ?self) e1 else Ret (0, e1)) (\<lambda>(bal, e2).
        andThen (onState (HasSuicided kec ?self) e2) (\<lambda>(gone, e3).
          Ret (Inr (if fresh \<and> bal \<noteq> 0 then gtSuicide (gasTable e2) + CreateBySuicide (gasTable e2) else gtSuicide (gasTable e2)), memory fr,
            if gone then e3 else e3\<lparr>stateDB := AddRefund SuicideRefundGas (stateDB e3)\<rparr>)))))"
    unfolding gasGood_def
  proof (rule fine_reads [OF EmptyAcc_reads [OF good_now(1) [OF assms(2)]] assms(2)], goal_cases)
    case (1 fresh e1)
    show ?case
    proof (cases fresh)
      case True
      then show ?thesis unfolding prod.case if_P [OF True]
        by (intro fine_reads [OF GetBalance_reads [OF good_now(1) [OF 1(3)]] 1(3)]) (unfold prod.case, rule last [OF stateOnly_trans [OF 1(2)]])
    next
      case False
      then show ?thesis unfolding prod.case if_not_P [OF False] andThen.simps by (intro last [OF 1(2,3)])
    qed
  qed
  moreover have "Back (stack fr) 0 = Ret (stack fr ! 0)" using assms(3) by (simp add: Back_ok)
  ultimately show ?thesis by (simp only: gasSuicide_def andThen.simps Let_def)
qed

lemma gasCall_good:
  assumes "memOk (memory fr)" "unat ms mod 32 = 0" "good kec e m" "2 < length (stack fr)"
  shows "gasGood kec m (\<lambda>c e'. 700 + valueGas (stack fr ! 2) + unat (callGasTemp e') \<le> unat c) fr ms e (gasCall kec fr ms e)"
proof -
  let ?v = "stack fr ! 2" and ?a = "BigToAddress (stack fr ! 1)"
  have s: "stack fr \<noteq> []" using assms(4) by auto
  have last: "gasGood kec m (\<lambda>c e'. 700 + valueGas ?v + unat (callGasTemp e') \<le> unat c) fr ms e (withMem (\<lambda>memoryGas. passGas g memoryGas fr e1) fr ms e1)"
    if e1: "stateOnly e e1" "good kec e1 m" "700 + valueGas ?v \<le> unat g" for e1 g
  proof -
    have "gasGood kec m (\<lambda>c e'. 700 + valueGas ?v + unat (callGasTemp e') \<le> unat c) fr ms e1 (withMem (\<lambda>memoryGas. passGas g memoryGas fr e1) fr ms e1)"
      by (rule withMem_good [OF assms(1,2) e1(2)]) (rule fine_mono [OF passGas_good [OF e1(2) s]], use e1(3) in force)
    then show ?thesis unfolding gasGood_def by (rule fine_mono) (use evolves_after_read [OF assms(3) e1(1,2)] in auto)
  qed
  have p: "unat (Calls (gasTable e)) = 700" "unat (Calls (gasTable e) + CallValueTransferGas) = 9700"
    "unat (Calls (gasTable e) + CallNewAccountGas + CallValueTransferGas) = 34700"
    unfolding good_table [OF assms(3)] by (simp_all add: DefaultGasTable_def CallNewAccountGas_def CallValueTransferGas_def)
  have b: "Back (stack fr) 2 = Ret (stack fr ! 2)" "Back (stack fr) 1 = Ret (stack fr ! 1)" using assms(4) by (simp_all add: Back_ok)
  show ?thesis
  proof (cases "?v = 0")
    case True
    have "700 + valueGas ?v \<le> unat (Calls (gasTable e))" using True p(1) by simp
    from last [OF _ assms(3) this] show ?thesis unfolding gasCall_def b andThen.simps Let_def using True by simp
  next
    case False
    have "gasGood kec m (\<lambda>c e'. 700 + valueGas ?v + unat (callGasTemp e') \<le> unat c) fr ms e (andThen (onState (EmptyAcc kec ?a) e) (\<lambda>(fresh, e1).
       withMem (\<lambda>memoryGas. passGas ((if fresh then Calls (gasTable e) + CallNewAccountGas else Calls (gasTable e)) + CallValueTransferGas) memoryGas fr e1) fr ms e1))"
      unfolding gasGood_def
    proof (rule fine_reads [OF EmptyAcc_reads [OF good_now(1) [OF assms(3)]] assms(3)], goal_cases)
      case (1 fresh e1)
      have "700 + valueGas ?v \<le> unat ((if fresh then Calls (gasTable e) + CallNewAccountGas else Calls (gasTable e)) + CallValueTransferGas)"
        using False p(2,3) by (cases fresh) simp_all
      from last [unfolded gasGood_def, OF 1(2,3) this] show ?case by (simp only: prod.case)
    qed
    with b False show ?thesis by (simp only: gasCall_def andThen.simps Let_def if_True not_False_eq_True)
  qed
qed

section \<open>Instructions\<close>

text \<open>What an instruction that calls no other contract gives.\<close>

definition execGood :: "hashfun \<Rightarrow> machine \<Rightarrow> frame \<Rightarrow> EVM \<Rightarrow> opResult \<Rightarrow> bool" where
  "execGood kec m fr e = fine (\<lambda>(ret, err, fr', e'). length (bytesOf ret) < 2 ^ 63 \<and> frameOk fr' \<and> contract fr' = contract fr \<and> evolves kec e m e')"

lemma makeStackFunc_None: "makeStackFunc i j st = None \<longleftrightarrow> i \<le> length st \<and> length st + j - i \<le> StackLimit"
  by (auto simp: makeStackFunc_def requireStack_def)

lemma frameOk_stack: "frameOk fr \<Longrightarrow> length st \<le> StackLimit \<Longrightarrow> \<forall>x \<in> set st. word256 x \<Longrightarrow> frameOk (fr\<lparr>stack := st\<rparr>)"
  by (simp add: frameOk_def)

lemma frameOk_memory: "frameOk fr \<Longrightarrow> length (memStore mem) = length (memStore (memory fr)) \<Longrightarrow> frameOk (fr\<lparr>memory := mem\<rparr>)"
  by (simp add: frameOk_def memOk_def)

lemma frameOk_pc: "frameOk (fr\<lparr>pc := p\<rparr>) = frameOk fr"
  by (simp add: frameOk_def)

lemma frameOk_sel: "frameOk fr \<Longrightarrow> x \<in> set (stack fr) \<Longrightarrow> word256 x" "frameOk fr \<Longrightarrow> memOk (memory fr)"
  by (simp_all add: frameOk_def)

lemma bytesOf_None [simp]: "bytesOf None = []"
  by (simp add: bytesOf_def)

lemma execGood_ok: "execGood kec m fr e (ok fr' e') \<longleftrightarrow> frameOk fr' \<and> contract fr' = contract fr \<and> evolves kec e m e'"
  by (simp add: execGood_def ok_def)

lemma onStack_good:
  assumes "stackFun f i j" "frameOk fr" "good kec e m" "i \<le> length (stack fr)" "length (stack fr) + j - i \<le> StackLimit"
  shows "execGood kec m fr e (onStack f fr e)"
proof -
  obtain st where "f (stack fr) = Ret st" "length st = length (stack fr) + j - i" "\<forall>x \<in> set st. word256 x"
    using assms frameOk_sel(1) [OF assms(2)] unfolding stackFun_def by blast
  then show ?thesis using assms frameOk_stack evolves_refl [OF assms(3)] by (simp add: onStack_def execGood_ok)
qed

lemma pushVal_good:
  assumes "frameOk fr" "good kec e m" "length (stack fr) + 1 \<le> StackLimit" "word256 x"
  shows "execGood kec m fr e (pushVal x fr e)"
  using assms evolves_refl [OF assms(2)] frameOk_sel(1) [OF assms(1)] by (auto simp: pushVal_def execGood_ok intro!: frameOk_stack)

lemma push_instructions:
  assumes "frameOk fr" "good kec e m" "length (stack fr) + 1 \<le> StackLimit"
  shows "execGood kec m fr e (opAddress fr e)" "execGood kec m fr e (opOrigin fr e)" "execGood kec m fr e (opCaller fr e)"
    "execGood kec m fr e (opCallValue fr e)" "execGood kec m fr e (opCallDataSize fr e)" "execGood kec m fr e (opReturnDataSize fr e)"
    "execGood kec m fr e (opCodeSize fr e)" "execGood kec m fr e (opGasprice fr e)" "execGood kec m fr e (opCoinbase fr e)"
    "execGood kec m fr e (opTimestamp fr e)" "execGood kec m fr e (opNumber fr e)" "execGood kec m fr e (opDifficulty fr e)"
    "execGood kec m fr e (opGasLimit fr e)" "execGood kec m fr e (opPc fr e)" "execGood kec m fr e (opMsize fr e)" "execGood kec m fr e (opGas fr e)"
proof -
  have "word256 (cvalue (contract fr))" "word256 (GasPrice (ctx e))" "word256 (int (length (cInput (contract fr))))"
    "word256 (int (length (cCode (contract fr))))" "word256 (int (length (memStore (memory fr))))"
    using assms(1,2) by (auto simp: frameOk_def good_def memOk_def intro!: len_word256)
  then show "execGood kec m fr e (opAddress fr e)" "execGood kec m fr e (opOrigin fr e)" "execGood kec m fr e (opCaller fr e)"
    "execGood kec m fr e (opCallValue fr e)" "execGood kec m fr e (opCallDataSize fr e)" "execGood kec m fr e (opReturnDataSize fr e)"
    "execGood kec m fr e (opCodeSize fr e)" "execGood kec m fr e (opGasprice fr e)" "execGood kec m fr e (opCoinbase fr e)"
    "execGood kec m fr e (opTimestamp fr e)" "execGood kec m fr e (opNumber fr e)" "execGood kec m fr e (opDifficulty fr e)"
    "execGood kec m fr e (opGasLimit fr e)" "execGood kec m fr e (opPc fr e)" "execGood kec m fr e (opMsize fr e)" "execGood kec m fr e (opGas fr e)"
    by (simp_all only: opAddress_def opOrigin_def opCaller_def opCallValue_def opCallDataSize_def opReturnDataSize_def opCodeSize_def
      opGasprice_def opCoinbase_def opTimestamp_def opNumber_def opDifficulty_def opGasLimit_def opPc_def opMsize_def opGas_def
      pushVal_good [OF assms] addrBig_word256 word256_U256 u64_word256)
qed

text \<open>Instructions that replace the top of the stack by a value read from the state.\<close>

lemma one_read_good:
  assumes "stack fr = x # r" "frameOk fr" "good kec e m" "reads kec m e P q" "\<And>v. P v \<Longrightarrow> word256 (h v)"
  shows "execGood kec m fr e (andThen q (\<lambda>(v, e'). ok (fr\<lparr>stack := h v # r\<rparr>) e'))"
  unfolding execGood_def
proof (rule fine_reads [OF assms(4,3)], goal_cases)
  case (1 v e')
  have "frameOk (fr\<lparr>stack := h v # r\<rparr>)"
    using assms(1,2,5) 1(1) frameOk_sel(1) [OF assms(2)] by (intro frameOk_stack) (auto simp: frameOk_def)
  then show ?case using evolves_read [OF assms(3) 1(2,3)] by (simp add: ok_def)
qed

lemma vOk_word256: "vOk v \<Longrightarrow> word256 (balOf v a)"
  using vOk_bal by (simp add: word256_def)

lemma opBalance_good: "stack fr = x # r \<Longrightarrow> frameOk fr \<Longrightarrow> good kec e m \<Longrightarrow> execGood kec m fr e (opBalance kec fr e)"
  using one_read_good [where h = "\<lambda>x. x", OF _ _ _ GetBalance_reads] vOk_word256 [OF good_now(2)] good_now(1)
  by (simp add: opBalance_def)

lemma opExtCodeSize_good: "stack fr = x # r \<Longrightarrow> frameOk fr \<Longrightarrow> good kec e m \<Longrightarrow> execGood kec m fr e (opExtCodeSize kec fr e)"
  using one_read_good [where h = "\<lambda>n. uint (word_of_nat n :: u64)", OF _ _ _ GetCodeSize_reads] good_now(1)
  by (simp add: opExtCodeSize_def del: uint_nat)

lemma opSload_good: "stack fr = x # r \<Longrightarrow> frameOk fr \<Longrightarrow> good kec e m \<Longrightarrow> execGood kec m fr e (opSload kec fr e)"
  using one_read_good [where h = hashBig, OF _ _ _ GetState_reads] good_now(1) by (simp add: opSload_def)

text \<open>Instructions that replace the top of the stack without the state.\<close>

lemma replace_good:
  assumes "stack fr = x # r" "frameOk fr" "good kec e m" "word256 v"
  shows "execGood kec m fr e (ok (fr\<lparr>stack := v # r\<rparr>) e)"
proof -
  have "frameOk (fr\<lparr>stack := v # r\<rparr>)"
    using assms(1,2,4) frameOk_sel(1) [OF assms(2)] by (intro frameOk_stack) (auto simp: frameOk_def)
  then show ?thesis using evolves_refl [OF assms(3)] by (simp add: execGood_ok)
qed

lemma opBlockhash_good: "stack fr = x # r \<Longrightarrow> frameOk fr \<Longrightarrow> good kec e m \<Longrightarrow> execGood kec m fr e (opBlockhash fr e)"
  by (simp add: opBlockhash_def Let_def replace_good)

lemma RightPadBytes_length: "length (RightPadBytes d n) = max (length d) n"
  by (simp add: RightPadBytes_def)

lemma getDataBig_32:
  assumes "length data < 2 ^ 63" "word256 start"
  shows "\<exists>d. getDataBig data start 32 = Ret d \<and> length d = 32"
proof -
  let ?n = "int (length data)"
  let ?s = "BigMin start ?n"
  let ?e = "BigMin (?s + 32) ?n"
  have b: "0 \<le> ?s" "?s \<le> ?e" "?e \<le> ?n" "?e \<le> ?s + 32" using assms by (auto simp: BigMin_def word256_def)
  then have "unat (Uint64 ?s) = nat ?s" "unat (Uint64 ?e) = nat ?e" using assms(1) by (auto intro!: Uint64_small)
  then have u: "unat (Uint64 ?s) \<le> unat (Uint64 ?e)" "unat (Uint64 ?e) \<le> length data" "unat (Uint64 ?e) - unat (Uint64 ?s) \<le> 32" using b by linarith+
  have "int64_of (Uint64 32) = 32" using Int64_small [of 32] by (simp add: Int64_def)
  then show ?thesis using u by (auto simp: getDataBig_def Let_def goSlice_ok RightPadBytes_length)
qed

lemma opCallDataLoad_good: "stack fr = x # r \<Longrightarrow> frameOk fr \<Longrightarrow> good kec e m \<Longrightarrow> execGood kec m fr e (opCallDataLoad fr e)"
  using getDataBig_32 [of "cInput (contract fr)" x] frameOk_sel(1) [of fr x]
  by (auto simp: opCallDataLoad_def frameOk_def intro!: replace_good be_val_word256)

lemma memGet_32:
  assumes "memOk m" "covers m off 32" "word256 off"
  shows "\<exists>d. memGet (Int64 off) 32 m = Ret d \<and> length (bytesOf d) \<le> 32"
proof -
  have "Int64 32 = 32" using Int64_small [of 32] by simp
  then obtain d where d: "memGet (Int64 off) 32 m = Ret d"
    using memGet_covered(1) [OF assms, of] by (auto simp: word256_def tt256_def)
  then have "length (bytesOf d) \<le> 32" by (auto simp: memGet_def bytesOf_def split: if_splits)
  then show ?thesis using d by simp
qed

lemma opMload_good:
  assumes "stack fr = x # r" "frameOk fr" "good kec e m" "covers (memory fr) x 32"
  shows "execGood kec m fr e (opMload fr e)"
  using memGet_32 [OF frameOk_sel(2) [OF assms(2)] assms(4)] frameOk_sel(1) [OF assms(2), of x] assms
  by (auto simp: opMload_def intro!: replace_good be_val_word256)

text \<open>Instructions that write to the memory.\<close>

lemma written_good:
  assumes "frameOk fr" "good kec e m" "length (memStore mem) = length (memStore (memory fr))" "set r \<subseteq> set (stack fr)" "length r \<le> length (stack fr)"
  shows "execGood kec m fr e (ok (fr\<lparr>stack := r, memory := mem\<rparr>) e)"
proof -
  have "frameOk (fr\<lparr>stack := r\<rparr>)"
    using assms(1,4,5) frameOk_sel(1) [OF assms(1)] by (intro frameOk_stack) (auto simp: frameOk_def)
  then have "frameOk (fr\<lparr>stack := r, memory := mem\<rparr>)" using frameOk_memory [of "fr\<lparr>stack := r\<rparr>" mem] assms(3) by simp
  then show ?thesis using evolves_refl [OF assms(2)] by (simp add: execGood_ok)
qed

lemma opMstore_good:
  assumes "stack fr = x # y # r" "frameOk fr" "good kec e m" "covers (memory fr) x 32"
  shows "execGood kec m fr e (opMstore fr e)"
proof -
  have "Uint64 32 = 32" by (simp add: Uint64_def)
  moreover have "word256 32" by (simp add: word256_def tt256_def)
  ultimately obtain mem where "memSet (Uint64 x) 32 (PaddedBigBytes y 32) (memory fr) = Ret mem" "length (memStore mem) = length (memStore (memory fr))"
    using memSet_covered [OF frameOk_sel(2) [OF assms(2)] assms(4), of "PaddedBigBytes y 32"] frameOk_sel(1) [OF assms(2), of x] assms(1) by auto
  then show ?thesis using assms written_good [OF assms(2,3), of mem r] by (auto simp: opMstore_def)
qed

lemma opMstore8_good:
  assumes "stack fr = x # y # r" "frameOk fr" "good kec e m" "covers (memory fr) x 1"
  shows "execGood kec m fr e (opMstore8 fr e)"
proof -
  have "0 \<le> x" "x < int (length (memStore (memory fr)))" "length (memStore (memory fr)) \<le> 0xffffffffe0"
    using assms frameOk_sel(1) [OF assms(2), of x] frameOk_sel(2) [OF assms(2)] by (auto simp: covers_def memOk_def word256_def)
  moreover from this have "Int64 x = x" by (intro Int64_small) auto
  ultimately show ?thesis using assms by (auto simp: opMstore8_def Let_def intro!: written_good)
qed

lemma copyData_good:
  assumes "stack fr = pre @ memOffset # dataOffset # len # r" "frameOk fr" "good kec e m" "covers (memory fr) memOffset len" "length data < 2 ^ 63"
  shows "execGood kec m fr e (copyData data memOffset dataOffset len r fr e)"
proof -
  have w: "word256 memOffset" "word256 dataOffset" "word256 len" using assms(1) frameOk_sel(1) [OF assms(2)] by auto
  obtain d where d: "getDataBig data dataOffset len = Ret d" using getDataBig_ok [OF assms(5) w(2,3)] by blast
  obtain mem where "memSet (Uint64 memOffset) (Uint64 len) d (memory fr) = Ret mem" "length (memStore mem) = length (memStore (memory fr))"
    using memSet_covered [OF frameOk_sel(2) [OF assms(2)] assms(4) w(1,3)] by blast
  then show ?thesis using d assms(1) written_good [OF assms(2,3), of mem r] by (auto simp: copyData_def)
qed

lemma copy_instructions:
  assumes "stack fr = x # y # z # r" "frameOk fr" "good kec e m" "covers (memory fr) x z"
  shows "execGood kec m fr e (opCallDataCopy fr e)" "execGood kec m fr e (opCodeCopy fr e)"
  using copyData_good [of fr "[]", simplified, OF assms] assms(2) by (auto simp: opCallDataCopy_def opCodeCopy_def assms(1) frameOk_def)

lemma execGood_read:
  assumes "reads kec m e P q" "good kec e m" "\<And>x e'. P x \<Longrightarrow> good kec e' m \<Longrightarrow> execGood kec m fr e' (f (x, e'))"
  shows "execGood kec m fr e (andThen q f)"
  unfolding execGood_def
proof (rule fine_reads [OF assms(1,2)], goal_cases)
  case (1 x e')
  show ?case by (rule fine_mono [OF assms(3) [OF 1(1,3), unfolded execGood_def]]) (use evolves_after_read [OF assms(2) 1(2,3)] in auto)
qed

lemma opExtCodeCopy_good:
  assumes "stack fr = a # x # y # z # r" "frameOk fr" "good kec e m" "covers (memory fr) x z"
  shows "execGood kec m fr e (opExtCodeCopy kec fr e)"
proof -
  have "execGood kec m fr e (andThen (onState (GetCode kec (BigToAddress a)) e) (\<lambda>(code, e'). copyData (bytesOf code) x y z r fr e'))"
  proof (rule execGood_read [OF GetCode_reads [OF good_now(1) [OF assms(3)]] assms(3)], goal_cases)
    case (1 code e')
    have "length (bytesOf code) < 2 ^ 63" unfolding 1(1) by (rule vOk_code [OF good_now(2) [OF assms(3)]])
    then show ?case using copyData_good [of fr "[a]"] assms 1(2) by simp
  qed
  then show ?thesis by (simp add: opExtCodeCopy_def assms(1))
qed

lemma opReturnDataCopy_good:
  assumes "stack fr = x # y # z # r" "frameOk fr" "good kec e m" "covers (memory fr) x z"
  shows "execGood kec m fr e (opReturnDataCopy fr e)"
proof (cases "BitLen (y + z) > 64 \<or> word_of_nat (length (returnData e)) < Uint64 (y + z)")
  case True
  have "frameOk (fr\<lparr>stack := r\<rparr>)" using assms(1,2) frameOk_sel(1) [OF assms(2)] by (intro frameOk_stack) (auto simp: frameOk_def)
  then show ?thesis using True assms by (simp add: opReturnDataCopy_def execGood_def evolves_refl Let_def)
next
  case False
  have w: "word256 x" "word256 y" "word256 z" using assms(1) frameOk_sel(1) [OF assms(2)] by auto
  let ?n = "length (returnData e)"
  have n: "?n < 2 ^ 63" using assms(3) by (simp add: good_def)
  then have un: "unat (word_of_nat ?n :: u64) = ?n" by (simp add: unsigned_of_nat take_bit_nat_eq_self)
  have s: "0 \<le> y" "0 \<le> z" "y + z < 2 ^ 64" using False w BitLen_gt [of 64 "y + z"] by (auto simp: word256_def)
  then have u: "unat (Uint64 y) = nat y" "unat (Uint64 (y + z)) = nat (y + z)" by (auto intro!: Uint64_small)
  have "unat (Uint64 (y + z)) \<le> ?n" using False un by (simp add: word_less_nat_alt not_less)
  then obtain d where d: "goSlice (returnData e) (unat (Uint64 y)) (unat (Uint64 (y + z))) = Ret d"
    using s u goSlice_ok [of "unat (Uint64 y)" "unat (Uint64 (y + z))" "returnData e"] by auto
  obtain mem where "memSet (Uint64 x) (Uint64 z) d (memory fr) = Ret mem" "length (memStore mem) = length (memStore (memory fr))"
    using memSet_covered [OF frameOk_sel(2) [OF assms(2)] assms(4) w(1,3)] by blast
  then show ?thesis using d False assms(1) written_good [OF assms(2,3), of mem r] by (auto simp: opReturnDataCopy_def Let_def)
qed

lemma dropped_frame:
  assumes "stack fr = pre @ r" "frameOk fr"
  shows "frameOk (fr\<lparr>stack := r\<rparr>)"
  using assms frameOk_sel(1) [OF assms(2)] by (intro frameOk_stack) (auto simp: frameOk_def)

lemma opSha3_good:
  assumes "stack fr = x # y # r" "frameOk fr" "good kec e m" "covers (memory fr) x y"
  shows "execGood kec m fr e (opSha3 kec' fr e)"
proof -
  have w: "word256 x" "word256 y" using assms(1) frameOk_sel(1) [OF assms(2)] by auto
  obtain d where d: "memGet (Int64 x) (Int64 y) (memory fr) = Ret d"
    using memGet_covered(1) [OF frameOk_sel(2) [OF assms(2)] assms(4) w] by blast
  let ?h = "kec' (bytesOf d)"
  obtain p' where "now kec (e\<lparr>stateDB := AddPreimage ?h (bytesOf d) (stateDB e)\<rparr>) (m\<lparr>current := (current m)\<lparr>vPreimages := p'\<rparr>\<rparr>)"
    using AddPreimage_now [OF good_now(1) [OF assms(3)]] by blast
  then have ev: "evolves kec e m (e\<lparr>stateDB := AddPreimage ?h (bytesOf d) (stateDB e)\<rparr>)"
    by (rule evolves_current [OF assms(3)]) (simp_all add: sameWorld_def acctAt_def)
  have "frameOk (fr\<lparr>stack := r\<rparr>)" using dropped_frame [of fr "[x, y]" r] assms by simp
  then have "frameOk (fr\<lparr>stack := hashBig ?h # r\<rparr>)" using assms(1,2) by (simp add: frameOk_def)
  then show ?thesis using assms d ev evolves_refl [OF assms(3)] by (simp add: opSha3_def execGood_ok Let_def)
qed

lemma setAcct_keeps:
  assumes "vOk v" "aBalance ac = balOf v a" "length (aCode ac) < 2 ^ 63"
  shows "vOk (setAcct a ac v)" "money (setAcct a ac v) \<le> money v"
  using vOk_setAcct [OF assms(1) _ _ assms(3)] assms(2) vOk_bal [OF assms(1), of a] by auto

lemma opSstore_good:
  assumes "stack fr = x # y # r" "frameOk fr" "good kec e m" "\<not> readOnly e"
  shows "execGood kec m fr e (opSstore kec fr e)"
proof -
  let ?a = "cself (contract fr)"
  let ?ac = "acctAt kec ?a (current m)"
  let ?v = "setAcct ?a (?ac\<lparr>aStorage := (aStorage ?ac)(BigToHash x := BigToHash y)\<rparr>) (current m)"
  have v: "vOk ?v" "money ?v \<le> money (current m)"
    using setAcct_keeps [OF good_now(2) [OF assms(3)]] acctAt_code [OF good_now(2) [OF assms(3)]] by (simp_all add: balOf_acctAt [of _ ?a kec])
  have f: "frameOk (fr\<lparr>stack := r\<rparr>)" using dropped_frame [of fr "[x, y]" r] assms by simp
  have "execGood kec m fr e (andThen (doState (SetState kec ?a (BigToHash x) (BigToHash y)) e) (\<lambda>e'. ok (fr\<lparr>stack := r\<rparr>) e'))"
    unfolding execGood_def
    by (rule fine_sets [OF SetState_sets [OF good_now(1) [OF assms(3)]] assms(3) v(1)])
      (use f evolves_state [OF assms(3) _ _ v(2)] assms(4) in \<open>simp add: ok_def\<close>)
  then show ?thesis by (simp add: opSstore_def assms(1))
qed

lemma hasDest_fine: "fine (\<lambda>_. True) (hasDest h code dest d)"
  by (auto simp: hasDest_def Let_def orPanic_def fine_def split: option.splits if_splits prod.splits go.splits)

lemma jumpTo_good:
  assumes "stack fr = pre @ r" "frameOk fr" "good kec e m"
  shows "execGood kec m fr e (jumpTo pos r fr e)"
proof -
  have f: "frameOk (fr\<lparr>stack := r\<rparr>)" "frameOk (fr\<lparr>stack := r, pc := p\<rparr>)" for p
    using dropped_frame [OF assms(1,2)] frameOk_pc [where fr = "fr\<lparr>stack := r\<rparr>"] by simp_all
  show ?thesis unfolding jumpTo_def execGood_def Let_def
    by (rule fine_andThen [OF hasDest_fine]) (use f evolves_other(1) [OF assms(3)] in \<open>simp add: ok_def split: prod.split\<close>)
qed

lemma opJump_good: "stack fr = x # r \<Longrightarrow> frameOk fr \<Longrightarrow> good kec e m \<Longrightarrow> execGood kec m fr e (opJump fr e)"
  using jumpTo_good [of fr "[x]" r] by (simp add: opJump_def)

lemma opJumpi_good:
  assumes "stack fr = x # y # r" "frameOk fr" "good kec e m"
  shows "execGood kec m fr e (opJumpi fr e)"
  using jumpTo_good [of fr "[x, y]" r] dropped_frame [of fr "[x, y]" r] frameOk_pc [where fr = "fr\<lparr>stack := r\<rparr>"] assms evolves_refl [OF assms(3)]
  by (simp add: opJumpi_def execGood_ok)

lemma still_good: "frameOk fr \<Longrightarrow> good kec e m \<Longrightarrow> execGood kec m fr e (opJumpdest fr e)" "frameOk fr \<Longrightarrow> good kec e m \<Longrightarrow> execGood kec m fr e (opStop fr e)"
  by (simp_all add: opJumpdest_def opStop_def execGood_ok evolves_refl)

lemma opReturn_good:
  assumes "stack fr = x # y # r" "frameOk fr" "good kec e m" "covers (memory fr) x y"
  shows "execGood kec m fr e (opReturn fr e)" "execGood kec m fr e (opRevert fr e)"
proof -
  have w: "word256 x" "word256 y" using assms(1) frameOk_sel(1) [OF assms(2)] by auto
  obtain d where d: "memGetPtr (Int64 x) (Int64 y) (memory fr) = Ret d" "length (bytesOf d) < 2 ^ 63"
    using memGet_covered(2) [OF frameOk_sel(2) [OF assms(2)] assms(4) w] by blast
  have "frameOk (fr\<lparr>stack := r\<rparr>)" using dropped_frame [of fr "[x, y]" r] assms by simp
  then show "execGood kec m fr e (opReturn fr e)" "execGood kec m fr e (opRevert fr e)"
    using d assms evolves_refl [OF assms(3)] by (simp_all add: opReturn_def opRevert_def execGood_def)
qed

lemma makeLog_good:
  assumes "stack fr = x # y # r" "n \<le> length r" "frameOk fr" "good kec e m" "covers (memory fr) x y" "\<not> readOnly e"
  shows "execGood kec m fr e (makeLog n fr e)"
proof -
  have w: "word256 x" "word256 y" using assms(1) frameOk_sel(1) [OF assms(3)] by auto
  obtain d where d: "memGet (Int64 x) (Int64 y) (memory fr) = Ret d"
    using memGet_covered(1) [OF frameOk_sel(2) [OF assms(3)] assms(5) w] by blast
  have "frameOk (fr\<lparr>stack := drop n r\<rparr>)" using dropped_frame [of fr "x # y # take n r" "drop n r"] assms by simp
  moreover have "evolves kec e m (e\<lparr>stateDB := AddLog l (stateDB e)\<rparr>)" for l
    by (rule evolves_current [OF assms(4) AddLog_now [OF good_now(1) [OF assms(4)]]]) (simp_all add: fillLog_def assms(6))
  ultimately show ?thesis using d assms(1,2) by (simp add: makeLog_def execGood_ok Let_def)
qed

lemma int64_of_unat: "unat w < 2 ^ 63 \<Longrightarrow> int64_of w = int (unat w)"
proof -
  assume "unat w < 2 ^ 63"
  then have "int (unat w) < int (2 ^ 63)" by (rule iffD2 [OF of_nat_less_iff])
  then have "in_int64 (uint w)" by (simp add: in_int64_def order_trans [of _ 0])
  then show ?thesis by (simp add: int64_of_def)
qed

lemma makePush_good:
  assumes "frameOk fr" "good kec e m" "length (stack fr) + 1 \<le> StackLimit" "n \<le> 32" "GetOp (pc fr) (contract fr) \<noteq> 0"
  shows "execGood kec m fr e (makePush w n fr e)"
proof -
  let ?code = "cCode (contract fr)"
  let ?next = "int64_of (pc fr + 1)"
  let ?s = "if ?next < int (length ?code) then ?next else int (length ?code)"
  let ?e = "if ?s + int n < int (length ?code) then ?s + int n else int (length ?code)"
  have l: "length ?code < 2 ^ 63" using assms(1) by (simp add: frameOk_def)
  have "pc fr < word_of_nat (length ?code)" using assms(5) by (simp add: GetOp_def GetByte_def split: if_splits)
  then have p: "unat (pc fr) < length ?code" using l by (simp add: word_less_nat_alt unsigned_of_nat take_bit_nat_eq_self)
  then have "unat (pc fr + 1) = unat (pc fr) + 1" using l unat_add_nocarry [of "pc fr" 1] by simp
  then have "?next = int (unat (pc fr) + 1)" using p l int64_of_unat [of "pc fr + 1"] by simp
  then have s: "0 \<le> ?s" "?s \<le> ?e" "?e \<le> int (length ?code)" "?e \<le> ?s + int n" using p by auto
  then obtain d where d: "goSlice ?code (nat ?s) (nat ?e) = Ret d" "length d \<le> n"
    using goSlice_ok [of "nat ?s" "nat ?e" ?code] by auto
  have "word256 (setBytes (RightPadBytes d n))" using d(2) assms(4) by (intro be_val_word256) simp
  then have "frameOk (fr\<lparr>stack := setBytes (RightPadBytes d n) # stack fr\<rparr>)"
    using assms(3) frameOk_sel(1) [OF assms(1)] by (intro frameOk_stack [OF assms(1)]) auto
  then have "frameOk (fr\<lparr>stack := setBytes (RightPadBytes d n) # stack fr, pc := pc fr + w\<rparr>)"
    using frameOk_pc [where fr = "fr\<lparr>stack := setBytes (RightPadBytes d n) # stack fr\<rparr>"] by simp
  then have "execGood kec m fr e (ok (fr\<lparr>stack := setBytes (RightPadBytes d n) # stack fr, pc := pc fr + w\<rparr>) e)"
    using evolves_refl [OF assms(2)] by (simp add: execGood_ok)
  then show ?thesis unfolding makePush_def Let_def using s(1) d(1) by (simp only: andThen.simps not_less [symmetric] if_False)
qed

text \<open>Destruction moves the balance and then clears it.\<close>

lemma suicide_view:
  assumes "vOk v" "v1 = setAcct b ((acctAt kec b v)\<lparr>aBalance := balOf v b + balOf v a\<rparr>) v"
    "v2 = (case vAccts v1 a of None \<Rightarrow> v1 | Some ac \<Rightarrow> setAcct a (ac\<lparr>aSuicided := True, aBalance := 0\<rparr>) v1)"
  shows "vOk v2" "money v2 \<le> money v"
proof -
  have bal1: "balOf v1 c = (if c = b then balOf v b + balOf v a else balOf v c)" for c by (simp add: assms(2) balOf_setAcct)
  have bal2: "balOf v2 c = (if c = a then 0 else balOf v1 c)" for c
    by (cases "vAccts v1 a") (auto simp: assms(3) balOf_setAcct balOf_def)
  have t1: "money v1 = money v + balOf v a" by (simp add: assms(2) money_setAcct)
  have t2: "money v2 = money v1 - balOf v1 a"
    by (cases "vAccts v1 a") (auto simp: assms(3) money_setAcct balOf_def)
  have "balOf v a \<le> balOf v1 a" using bal1 [of a] vOk_bal [OF assms(1), of b] by auto
  then show t: "money v2 \<le> money v" using t1 t2 by simp
  have c1: "length (aCode ac) < 2 ^ 63" if "vAccts v1 c = Some ac" for c ac
    using that assms(1) acctAt_code [OF assms(1), of kec b] by (auto simp: assms(2) vOk_def split: if_splits)
  have "length (aCode ac) < 2 ^ 63" if "vAccts v2 c = Some ac" for c ac
    using that c1 by (cases "vAccts v1 a") (auto simp: assms(3) split: if_splits)
  moreover have "0 \<le> balOf v2 c" for c using bal2 [of c] bal1 [of c] vOk_bal [OF assms(1)] by (simp add: add_nonneg_nonneg)
  ultimately show "vOk v2" using t assms(1) by (auto simp: vOk_def)
qed

lemma opSuicide_good:
  assumes "stack fr = x # r" "frameOk fr" "good kec e m" "\<not> readOnly e"
  shows "execGood kec m fr e (opSuicide kec fr e)"
proof -
  let ?a = "cself (contract fr)" and ?b = "BigToAddress x" and ?v = "current m"
  define v1 where v1: "v1 = setAcct ?b ((acctAt kec ?b ?v)\<lparr>aBalance := balOf ?v ?b + balOf ?v ?a\<rparr>) ?v"
  define v2 where v2: "v2 = (case vAccts v1 ?a of None \<Rightarrow> v1 | Some ac \<Rightarrow> setAcct ?a (ac\<lparr>aSuicided := True, aBalance := 0\<rparr>) v1)"
  have v: "vOk v2" "money v2 \<le> money ?v" using suicide_view [OF good_now(2) [OF assms(3)] v1 v2] by auto
  have f: "frameOk (fr\<lparr>stack := r\<rparr>)" using dropped_frame [of fr "[x]" r] assms by simp
  obtain e1 where e1: "onState (GetBalance kec ?a) e = Ret (balOf ?v ?a, e1)" "stateOnly e e1" "now kec e1 m"
    using GetBalance_reads [OF good_now(1) [OF assms(3)], of ?a] by (auto simp: reads_def)
  obtain e2 where e2: "doState (AddBalance kec ?b (balOf ?v ?a)) e1 = Ret e2" "stateOnly e1 e2" "now kec e2 (m\<lparr>current := v1\<rparr>)"
    using AddBalance_sets [OF e1(3), of ?b "balOf ?v ?a"] by (auto simp: sets_def v1)
  obtain b e3 where e3: "onState (Suicide kec ?a) e2 = Ret (b, e3)" "stateOnly e2 e3" "now kec e3 (m\<lparr>current := v2\<rparr>)"
    using Suicide_sets [OF e2(3), of ?a] by (auto simp: v2 cong: option.case_cong)
  have "evolves kec e m e3"
    by (rule evolves_now [OF assms(3) stateOnly_trans [OF stateOnly_trans [OF e1(2) e2(2)] e3(2)] e3(3)])
      (rule advances_current [OF v], simp add: assms(4))
  then show ?thesis using f by (simp add: opSuicide_def Let_def e1(1) assms(1) e2(1) e3(1) execGood_ok)
qed

end
