(* ===== verification/EvmCalls.thy ===== *)
theory EvmCalls
  imports EvmStep
begin

text \<open>
  Precompiled contracts, calls between contracts, and creation, for a loop that keeps its promise on
  frames with less gas.
\<close>

section \<open>Precompiled contracts\<close>

text \<open>What the cryptographic functions promise: keys, hashes and points have their sizes.\<close>

definition cryptoOk :: "crypto \<Rightarrow> bool" where
  "cryptoOk cr \<longleftrightarrow> (\<forall>h sig pub. ecrecoverKey cr h sig = Some pub \<longrightarrow> length pub = 65) \<and> (\<forall>b. length (sha256Sum cr b) = 32) \<and>
     (\<forall>b. length (ripemd160Sum cr b) = 20) \<and> (\<forall>p q. length (g1Add cr p q) = 64) \<and> (\<forall>p k. length (g1Mul cr p k) = 64)"

lemma unat_len: "n < 2 ^ 63 \<Longrightarrow> unat (word_of_nat n :: u64) = n"
  by (simp add: unsigned_of_nat take_bit_nat_eq_self)

lemma getData_ok:
  assumes "length data < 2 ^ 63" "unat sz < 2 ^ 63"
  shows "\<exists>d. getData data start sz = Ret d \<and> length d = unat sz"
proof -
  let ?len = "word_of_nat (length data) :: u64"
  let ?s = "if start > ?len then ?len else start"
  let ?f = "?s + sz"
  let ?e = "if ?f > ?len then ?len else ?f"
  have l: "unat ?len = length data" using unat_len [OF assms(1)] .
  have s: "unat ?s \<le> length data" using l by (auto simp: word_less_nat_alt not_less)
  then have f: "unat ?f = unat ?s + unat sz" using assms by (intro unat_add_nocarry) simp
  have e: "unat ?e \<le> length data" "unat ?s \<le> unat ?e" "unat ?e \<le> unat ?s + unat sz"
    using l s f by (auto simp: word_less_nat_alt not_less)
  have "nat (int64_of sz) = unat sz" using int64_of_unat [OF assms(2)] by simp
  then show ?thesis using e unfolding getData_def Let_def by (simp add: goSlice_ok)
qed

lemma modExpLens_ok:
  assumes "length inp < 2 ^ 63"
  obtains b x m where "modExpLens inp = Ret (b, x, m)" "word256 b" "word256 x" "word256 m"
proof -
  have "\<exists>d. getData inp k 32 = Ret d \<and> length d = 32" for k using getData_ok [OF assms, of 32 k] by simp
  then obtain d1 d2 d3 where "getData inp 0 32 = Ret d1" "getData inp 32 32 = Ret d2" "getData inp 64 32 = Ret d3"
    "length d1 = 32" "length d2 = 32" "length d3 = 32" by metis
  then show ?thesis using that be_val_word256 by (simp add: modExpLens_def)
qed

lemma modExpComplexity_pos: "0 < x \<Longrightarrow> 1 \<le> modExpComplexity x"
proof -
  assume x: "0 < x"
  consider "x \<le> 64" | "64 < x" "x \<le> 1024" | "1024 < x" by linarith
  then show ?thesis
  proof cases
    case 1
    then have "1 * 1 \<le> x * x" using x by (intro mult_mono) auto
    then show ?thesis using 1 by (simp add: modExpComplexity_def)
  next
    case 2
    then have "0 \<le> x * x div 4" by (simp add: pos_imp_zdiv_nonneg_iff)
    then show ?thesis using 2 by (simp add: modExpComplexity_def bigDiv_def)
  next
    case 3
    then have "0 \<le> x * x div 16" by (simp add: pos_imp_zdiv_nonneg_iff)
    then show ?thesis using 3 by (simp add: modExpComplexity_def bigDiv_def)
  qed
qed

lemma modExpComplexity_big: "modExpComplexity x < 20 * 2 ^ 61 \<Longrightarrow> x < 2 ^ 36"
proof (rule ccontr)
  assume a: "modExpComplexity x < 20 * 2 ^ 61" "\<not> x < 2 ^ 36"
  then have "2 ^ 36 * 2 ^ 36 \<le> x * x" by (intro mult_mono) auto
  then have "(2 ^ 36 * 2 ^ 36) div 16 \<le> x * x div 16" by (rule zdiv_mono1) simp
  then show False using a by (simp add: modExpComplexity_def bigDiv_def)
qed

lemma modExpGas_ok:
  assumes "length inp < 2 ^ 63" "modExpLens inp = Ret (b, x, m)" "word256 b" "word256 x" "word256 m"
  shows "\<exists>g. modExpGas inp = Ret g \<and> (unat g < 2 ^ 61 \<longrightarrow> b = 0 \<and> m = 0 \<or> b < 2 ^ 36 \<and> m < 2 ^ 36 \<and> x < 2 ^ 63 - 2 ^ 36)"
proof -
  have pos: "0 \<le> b" "0 \<le> x" "0 \<le> m" using assms(3-5) by (auto simp: word256_def)
  obtain h where h: "expHead (drop 96 inp) b x = Ret h"
  proof (cases "int (length (drop 96 inp)) \<le> b")
    case False
    have "unat (if x > 32 then 32 else Uint64 x) < 2 ^ 63" using pos(2) Uint64_small [of x] by auto
    then have "\<exists>d. getData (drop 96 inp) (Uint64 b) (if x > 32 then 32 else Uint64 x) = Ret d"
      using getData_ok [of "drop 96 inp"] assms(1) by fastforce
    then show ?thesis using that False by (auto simp: expHead_def)
  qed (use that in \<open>simp add: expHead_def\<close>)
  define adj where "adj = (if x > 32 then 8 * (x - 32) else 0) + (if BitLen h > 0 then int (BitLen h) - 1 else 0)"
  define c where "c = modExpComplexity (BigMax m b)"
  define G where "G = bigDiv (c * BigMax adj 1) 20"
  have g: "modExpGas inp = Ret (if BitLen G > 64 then MaxUint64 else Uint64 G)"
    using assms(2) h by (simp add: modExpGas_def Let_def G_def c_def adj_def ModExpQuadCoeffDiv_def)
  show ?thesis
  proof (intro exI conjI impI, rule g)
    assume s: "unat (if BitLen G > 64 then MaxUint64 else Uint64 G) < 2 ^ 61"
    show "b = 0 \<and> m = 0 \<or> b < 2 ^ 36 \<and> m < 2 ^ 36 \<and> x < 2 ^ 63 - 2 ^ 36"
    proof (cases "BigMax m b = 0")
      case True
      then show ?thesis using pos by (auto simp: BigMax_def split: if_splits)
    next
      case False
      then have c1: "1 \<le> c" using pos modExpComplexity_pos [of "BigMax m b"] by (auto simp: c_def BigMax_def)
      have a1: "1 \<le> BigMax adj 1" "adj \<le> BigMax adj 1" by (auto simp: BigMax_def)
      have ca: "c \<le> c * BigMax adj 1" "BigMax adj 1 \<le> c * BigMax adj 1" using c1 a1(1) by (simp_all add: mult_le_cancel_left1 mult_le_cancel_right1)
      then have G0: "0 \<le> G" using c1 by (simp add: G_def bigDiv_def pos_imp_zdiv_nonneg_iff)
      have "\<not> BitLen G > 64" using s by (auto simp: unat_MaxUint64)
      then have "\<bar>G\<bar> < 2 ^ 64" using BitLen_gt [of 64 G] by simp
      then have "unat (Uint64 G) = nat G" using G0 by (intro Uint64_small) auto
      then have "G < 2 ^ 61" using s \<open>\<not> BitLen G > 64\<close> G0 by simp
      then have lt: "c * BigMax adj 1 < 20 * 2 ^ 61" by (simp add: G_def bigDiv_def)
      then have "BigMax m b < 2 ^ 36" using ca(1) by (intro modExpComplexity_big) (simp add: c_def)
      moreover have "adj < 20 * 2 ^ 61" using lt ca(2) a1(2) by linarith
      then have "x < 2 ^ 63 - 2 ^ 36" by (auto simp: adj_def split: if_splits)
      ultimately show ?thesis by (auto simp: BigMax_def split: if_splits)
    qed
  qed
qed


lemma runModExp_ok:
  assumes "length inp < 2 ^ 63" "modExpLens inp = Ret (b, x, m)" "word256 b" "word256 x" "word256 m"
    and "b = 0 \<and> m = 0 \<or> b < 2 ^ 36 \<and> m < 2 ^ 36 \<and> x < 2 ^ 63 - 2 ^ 36"
  shows "\<exists>ret. runModExp inp = Ret (Some ret, None) \<and> length ret < 2 ^ 63"
proof (cases "b = 0 \<and> m = 0")
  case True
  then show ?thesis using assms(2) by (simp add: runModExp_def)
next
  case False
  let ?i = "drop 96 inp"
  have r: "b < 2 ^ 36" "m < 2 ^ 36" "x < 2 ^ 63 - 2 ^ 36" "0 \<le> b" "0 \<le> x" "0 \<le> m" using False assms(3-6) by (auto simp: word256_def)
  then have u: "unat (Uint64 b) = nat b" "unat (Uint64 x) = nat x" "unat (Uint64 m) = nat m" by (auto intro!: Uint64_small)
  have l: "length ?i < 2 ^ 63" using assms(1) by simp
  have ul: "unat (Uint64 b) < 2 ^ 63" "unat (Uint64 x) < 2 ^ 63" "unat (Uint64 m) < 2 ^ 63" using u r by auto
  obtain d1 d2 d3 where d: "getData ?i 0 (Uint64 b) = Ret d1" "getData ?i (Uint64 b) (Uint64 x) = Ret d2"
    "getData ?i (Uint64 b + Uint64 x) (Uint64 m) = Ret d3" "length d3 = nat m"
    using getData_ok [OF l ul(1), of 0] getData_ok [OF l ul(2), of "Uint64 b"] getData_ok [OF l ul(3), of "Uint64 b + Uint64 x"] u(3) by auto
  have n: "nat (int64_of (Uint64 m)) = nat m" using int64_of_unat [of "Uint64 m"] u(3) r(2) by simp
  have z: "\<not> (Uint64 b = 0 \<and> Uint64 m = 0)" 
  proof
    assume "Uint64 b = 0 \<and> Uint64 m = 0"
    then have "nat b = 0" "nat m = 0" using u(1,3) by simp_all
    then show False using r(4,6) False by simp
  qed
  have "length (bigBytes (setBytes d1 ^ nat (setBytes d2) mod setBytes d3)) \<le> nat m" if "setBytes d3 \<noteq> 0"
  proof -
    have "0 < setBytes d3" using that by (simp add: setBytes_def)
    then have "nat \<bar>setBytes d1 ^ nat (setBytes d2) mod setBytes d3\<bar> < be_val d3" by (simp add: setBytes_def nat_less_iff)
    then have "nat \<bar>setBytes d1 ^ nat (setBytes d2) mod setBytes d3\<bar> < 256 ^ nat m" using be_val_lt [of d3] unfolding d(4) by (rule less_trans)
    then show ?thesis unfolding bigBytes_def by (rule length_be_bytes_le)
  qed
  then show ?thesis using assms(2) d n z r(2) by (simp add: runModExp_def Let_def)
qed

text \<open>A precompiled contract returns, and leaves no more gas than it was given.\<close>

definition precGood :: "Contract \<Rightarrow> (bytes option \<times> vmErr option \<times> Contract) go \<Rightarrow> bool" where
  "precGood c r \<longleftrightarrow> (\<exists>ret err c'. r = Ret (ret, err, c') \<and> length (bytesOf ret) < 2 ^ 63 \<and> unat (cGas c') \<le> unat (cGas c))"

lemma UseGas_le: "UseGas g c = (b, c') \<Longrightarrow> unat (cGas c') \<le> unat (cGas c)" "UseGas g c = (True, c') \<Longrightarrow> unat g \<le> unat (cGas c)"
  using unat_sub_noborrow [of g "cGas c"] by (auto simp: UseGas_def not_less word_le_nat_alt split: if_splits)

lemma precGood_run:
  assumes "RequiredGas p inp = Ret g" "unat g \<le> unat (cGas c) \<Longrightarrow> \<exists>ret err. runPrecompile cr p inp = Ret (ret, err) \<and> length (bytesOf ret) < 2 ^ 63"
  shows "precGood c (RunPrecompiledContract cr p inp c)"
proof (cases "UseGas g c")
  case (Pair b c')
  then show ?thesis
  proof (cases b)
    case True
    then have "\<exists>ret err. runPrecompile cr p inp = Ret (ret, err) \<and> length (bytesOf ret) < 2 ^ 63"
      using assms(2) UseGas_le(2) [of g c c'] Pair by simp
    then show ?thesis using assms(1) True Pair UseGas_le(1) [OF Pair] by (auto simp: precGood_def RunPrecompiledContract_def)
  next
    case False
    then show ?thesis using assms(1) Pair UseGas_le(1) [OF Pair] by (simp add: precGood_def RunPrecompiledContract_def)
  qed
qed

lemma bytesOf_Some [simp]: "bytesOf (Some b) = b"
  by (simp add: bytesOf_def)

lemma precompile_good:
  assumes "cryptoOk cr" "length inp < 2 ^ 63" "unat (cGas c) < 2 ^ 61"
  shows "precGood c (RunPrecompiledContract cr p inp c)"
proof -
  have d64: "\<exists>d. getData inp k 64 = Ret d" "\<exists>d. getData inp k 32 = Ret d" for k
    using getData_ok [OF assms(2), of 64 k] getData_ok [OF assms(2), of 32 k] by auto
  show ?thesis
  proof (cases "p = BigModExpC")
    case True
    obtain b x m where l: "modExpLens inp = Ret (b, x, m)" "word256 b" "word256 x" "word256 m" using modExpLens_ok [OF assms(2)] .
    obtain g where g: "modExpGas inp = Ret g" "unat g < 2 ^ 61 \<longrightarrow> b = 0 \<and> m = 0 \<or> b < 2 ^ 36 \<and> m < 2 ^ 36 \<and> x < 2 ^ 63 - 2 ^ 36"
      using modExpGas_ok [OF assms(2) l] by blast
    show ?thesis
    proof (rule precGood_run [of _ _ g])
      show "RequiredGas p inp = Ret g" using True g(1) by simp
      assume "unat g \<le> unat (cGas c)"
      then have "b = 0 \<and> m = 0 \<or> b < 2 ^ 36 \<and> m < 2 ^ 36 \<and> x < 2 ^ 63 - 2 ^ 36" using g(2) assms(3) by linarith
      then show "\<exists>ret err. runPrecompile cr p inp = Ret (ret, err) \<and> length (bytesOf ret) < 2 ^ 63"
        using runModExp_ok [OF assms(2) l] True by auto
    qed
  next
    case False
    then obtain g where g: "RequiredGas p inp = Ret g" by (cases p) auto
    have "\<exists>ret err. runPrecompile cr p inp = Ret (ret, err) \<and> length (bytesOf ret) < 2 ^ 63"
    proof (cases p)
      case EcrecoverC
      then show ?thesis using assms(1) by (auto simp: runEcrecover_def Let_def cryptoOk_def split: option.split dest!: spec)
    next
      case Bn256AddC
      obtain d1 d2 where "getData inp 0 64 = Ret d1" "getData inp 64 64 = Ret d2" using d64 by metis
      then show ?thesis using Bn256AddC assms(1) by (simp add: runBn256Add_def cryptoOk_def)
    next
      case Bn256ScalarMulC
      obtain d1 d2 where "getData inp 0 64 = Ret d1" "getData inp 64 32 = Ret d2" using d64 by metis
      then show ?thesis using Bn256ScalarMulC assms(1) by (simp add: runBn256ScalarMul_def cryptoOk_def)
    next
      case Bn256PairingC
      then show ?thesis by (simp add: runBn256Pairing_def split: option.split)
    qed (use assms False in \<open>simp_all add: cryptoOk_def\<close>)
    then show ?thesis using precGood_run [OF g] by blast
  qed
qed

section \<open>Running a contract\<close>

definition runGood :: "hashfun \<Rightarrow> EVM \<Rightarrow> machine \<Rightarrow> nat \<Rightarrow> (bytes option \<times> vmErr option \<times> Contract \<times> EVM) go \<Rightarrow> bool" where
  "runGood kec e m G = fine (\<lambda>(ret, err, c, e'). length (bytesOf ret) < 2 ^ 63 \<and> unat (cGas c) \<le> G \<and> evolves kec e m e')"

text \<open>A loop that is good for frames with less gas than a bound.\<close>

definition loopGood :: "hashfun \<Rightarrow> nat \<Rightarrow> loopFun \<Rightarrow> bool" where
  "loopGood kec f lp \<longleftrightarrow> (\<forall>fr e m. frameOk fr \<and> good kec e m \<and> gasOf fr < f \<longrightarrow>
     fine (\<lambda>(ret, err, fr', e'). length (bytesOf ret) < 2 ^ 63 \<and> gasOf fr' \<le> gasOf fr \<and> evolves kec e m e') (lp fr e))"

lemma loopGoodD:
  assumes "loopGood kec f lp" "frameOk fr" "good kec e m" "gasOf fr < f"
  shows "fine (\<lambda>(ret, err, fr', e'). length (bytesOf ret) < 2 ^ 63 \<and> gasOf fr' \<le> gasOf fr \<and> evolves kec e m e') (lp fr e)"
  using assms unfolding loopGood_def by blast

definition ctOk :: "Contract \<Rightarrow> bool" where
  "ctOk c \<longleftrightarrow> length (cCode c) < 2 ^ 63 \<and> word256 (cvalue c) \<and> unat (cGas c) < 2 ^ 61"

lemma evolves_deeper:
  assumes "good kec e m" "evolves kec (e\<lparr>depth := depth e + 1, returnData := []\<rparr>) m e2"
  shows "evolves kec e m (e2\<lparr>depth := depth e2 - 1\<rparr>)"
  using assms(2) good_other(4) [of kec e2 _ "depth e2 - 1"] by (auto simp: evolves_def sameEnv_def)

lemma Run_good:
  assumes "loopGood kec f lp" "good kec e m" "ctOk c" "length inp < 2 ^ 63" "unat (cGas c) < f"
  shows "runGood kec e m (unat (cGas c)) (Run lp c inp e)"
proof (cases "cCode c = []")
  case True
  have "evolves kec e m (e\<lparr>depth := depth e + 1 - 1, returnData := []\<rparr>)" using evolves_other(3) [OF assms(2), of "[]"] by simp
  then show ?thesis using True by (simp add: Run_def runGood_def Let_def)
next
  case False
  let ?fr = "\<lparr>pc = 0, contract = c\<lparr>cInput := inp\<rparr>, memory = NewMemory, stack = []\<rparr>"
  let ?e = "e\<lparr>depth := depth e + 1, returnData := []\<rparr>"
  have "frameOk ?fr" using assms(3,4) by (simp add: frameOk_def ctOk_def memOk_def NewMemory_def)
  moreover have "good kec ?e m" using good_other(3) [OF good_other(4) [OF assms(2), of "depth e + 1"], of "[]"] by simp
  ultimately have "fine (\<lambda>(ret, err, fr', e'). length (bytesOf ret) < 2 ^ 63 \<and> gasOf fr' \<le> gasOf ?fr \<and> evolves kec ?e m e') (lp ?fr ?e)"
    by (rule loopGoodD [OF assms(1)]) (simp add: assms(5))
  then have "runGood kec e m (unat (cGas c)) (andThen (lp ?fr ?e) (\<lambda>(ret, err, fr, e2). Ret (ret, err, contract fr, e2\<lparr>depth := depth e2 - 1\<rparr>)))"
    unfolding runGood_def by (rule fine_andThen) (use evolves_deeper [OF assms(2)] in auto)
  then show ?thesis unfolding Run_def Let_def using False by (simp only: if_False)
qed

lemma runContract_good:
  assumes "cryptoOk cr" "loopGood kec f lp" "good kec e m" "ctOk c" "length inp < 2 ^ 63" "unat (cGas c) < f"
  shows "runGood kec e m (unat (cGas c)) (runContract cr lp c inp e)"
proof (cases "Option.bind (cCodeAddr c) PrecompiledContracts")
  case None
  then show ?thesis using Run_good [OF assms(2-6)] by (simp add: runContract_def)
next
  case (Some p)
  have "precGood c (RunPrecompiledContract cr p inp c)" using precompile_good assms by (simp add: ctOk_def)
  then show ?thesis using Some evolves_refl [OF assms(3)] by (auto simp: runContract_def runGood_def precGood_def)
qed

lemma burnGas_le: "unat (cGas (burnGas err c)) \<le> unat (cGas c)"
  using UseGas_le(1) [of "cGas c" c] by (cases "UseGas (cGas c) c") (auto simp: burnGas_def)

section \<open>Calls\<close>

text \<open>A call leaves no more gas than it got, and one that fails leaves the state as it was.\<close>

definition callGood :: "hashfun \<Rightarrow> EVM \<Rightarrow> machine \<Rightarrow> nat \<Rightarrow> callRes \<Rightarrow> bool" where
  "callGood kec e m G = fine (\<lambda>(ret, gas, err, e'). length (bytesOf ret) < 2 ^ 63 \<and> unat gas \<le> G \<and> sameEnv e e' \<and>
     (\<exists>m'. good kec e' m' \<and> advances kec (readOnly e) m m' \<and> (err \<noteq> None \<longrightarrow> current m' = current m)))"

lemma callGood_same:
  assumes "stateOnly e e'" "good kec e' m"
  shows "callGood kec e m (unat gas) (Ret (None, gas, err, e'))"
  using assms advances_refl [OF good_now(2)] by (auto simp: callGood_def stateOnly_sameEnv intro!: exI [of _ m])

lemma loadCode_ok:
  assumes "good kec e m"
  shows "\<exists>h code e'. loadCode kec a c e = Ret (SetCallCode a h code c, e') \<and> length code < 2 ^ 63 \<and> stateOnly e e' \<and> good kec e' m"
proof -
  obtain h e1 where e1: "onState (GetCodeHash kec a) e = Ret (h, e1)" "stateOnly e e1" "now kec e1 m"
    using GetCodeHash_reads [OF good_now(1) [OF assms], of a] by (auto simp: reads_def)
  obtain code e2 where e2: "onState (GetCode kec a) e1 = Ret (code, e2)" "stateOnly e1 e2" "now kec e2 m"
    "bytesOf code = (case vAccts (current m) a of None \<Rightarrow> [] | Some ac \<Rightarrow> aCode ac)"
    using GetCode_reads [OF e1(3), of a] by (auto simp: reads_def)
  have s: "stateOnly e e2" using stateOnly_trans [OF e1(2) e2(2)] .
  moreover have "length (bytesOf code) < 2 ^ 63" unfolding e2(4) using vOk_code [OF good_now(2) [OF assms]] .
  ultimately show ?thesis using good_stateOnly [OF assms s e2(3) good_now(2) [OF assms]] by (auto simp: loadCode_def e1(1) e2(1))
qed

lemma SetCallCode_sel [simp]: "cGas (SetCallCode a h code c) = cGas c" "cvalue (SetCallCode a h code c) = cvalue c" "cCode (SetCallCode a h code c) = code"
  by (simp_all add: SetCallCode_def)

lemma runCall_good:
  assumes "cryptoOk cr" "loopGood kec f lp" "keccak cr = kec"
    and "now kec eS m0" "vOk (current m0)" "good kec e m1" "advances kec (readOnly e) (saveNow m0) m1"
    and "word256 (cvalue c)" "unat (cGas c) < 2 ^ 61" "unat (cGas c) < f" "length inp < 2 ^ 63"
  shows "callGood kec e m0 (unat (cGas c)) (runCall cr lp (nextId m0) a inp c e)"
proof -
  obtain h code e1 where l: "loadCode kec a c e = Ret (SetCallCode a h code c, e1)" "length code < 2 ^ 63" "stateOnly e e1" "good kec e1 m1"
    using loadCode_ok [OF assms(6)] by blast
  let ?c = "SetCallCode a h code c"
  have "ctOk ?c" using l(2) assms(8,9) by (simp add: ctOk_def)
  then have "runGood kec e1 m1 (unat (cGas ?c)) (runContract cr lp ?c inp e1)"
    using assms(10) by (intro runContract_good [OF assms(1,2) l(4) _ assms(11)]) simp_all
  then have "fine (\<lambda>(ret, err, c1, e2). length (bytesOf ret) < 2 ^ 63 \<and> unat (cGas c1) \<le> unat (cGas c) \<and> evolves kec e1 m1 e2) (runContract cr lp ?c inp e1)"
    by (simp add: runGood_def)
  then have "callGood kec e m0 (unat (cGas c)) (andThen (runContract cr lp ?c inp e1) (\<lambda>(ret, err, c1, e1).
       if err \<noteq> None
       then andThen (doState (RevertToSnapshot kec (nextId m0)) e1) (\<lambda>e2. Ret (ret, cGas (burnGas err c1), err, e2))
       else Ret (ret, cGas c1, None, e1)))" (is "callGood _ _ _ _ (andThen _ ?k)")
    unfolding callGood_def
  proof (rule fine_andThen, goal_cases)
    case (1 x)
    obtain ret err c1 e2 where x: "x = (ret, err, c1, e2)" by (cases x) auto
    have r: "length (bytesOf ret) < 2 ^ 63" "unat (cGas c1) \<le> unat (cGas c)" "evolves kec e1 m1 e2" using 1 x by auto
    have ro: "readOnly e1 = readOnly e" using stateOnly_sel(8) [OF l(3)] .
    obtain m2 where m2: "good kec e2 m2" "advances kec (readOnly e) (saveNow m0) m2"
      using r(3) advances_trans [OF assms(7)] ro by (auto simp: evolves_def)
    have env: "sameEnv e e2" using r(3) sameEnv_trans [OF stateOnly_sameEnv [OF l(3)]] by (auto simp: evolves_def)
    show ?case
    proof (cases "err = None")
      case True
      then show ?thesis using x r env m2 advances_saved [OF m2(2)] by auto
    next
      case False
      obtain e3 where e3: "doState (RevertToSnapshot kec (nextId m0)) e2 = Ret e3" "stateOnly e2 e3"
        "now kec e3 (m2\<lparr>current := current m0, saved := saved m0\<rparr>)" using revert_now [OF assms(4) good_now(1) [OF m2(1)] m2(2)] by blast
      have "good kec e3 (m2\<lparr>current := current m0, saved := saved m0\<rparr>)" using good_stateOnly [OF m2(1) e3(2,3)] assms(5) by simp
      moreover have "advances kec (readOnly e) m0 (m2\<lparr>current := current m0, saved := saved m0\<rparr>)" using advances_reverted [OF m2(2) assms(5)] .
      moreover have "sameEnv e e3" using sameEnv_trans [OF env stateOnly_sameEnv [OF e3(2)]] .
      ultimately show ?thesis using x r False e3(1) burnGas_le [of err c1] le_trans by fastforce
    qed
  qed
  then show ?thesis unfolding runCall_def assms(3) l(1) by simp
qed

lemma callGood_env: "sameEnv e e1 \<Longrightarrow> callGood kec e1 m G r \<Longrightarrow> callGood kec e m G r"
  unfolding callGood_def by (rule fine_mono, assumption) (auto intro: sameEnv_trans simp: sameEnv_def)

text \<open>Moving money, and making an account, on the state behind the machine.\<close>

definition moves :: "hashfun \<Rightarrow> EVM \<Rightarrow> machine \<Rightarrow> (vstate \<Rightarrow> bool) \<Rightarrow> EVM go \<Rightarrow> bool" where
  "moves kec e m P r \<longleftrightarrow> (\<exists>e' v. r = Ret e' \<and> stateOnly e e' \<and> good kec e' (m\<lparr>current := v\<rparr>) \<and> P v)"

lemma moves_sets: "sets kec m e v r \<Longrightarrow> good kec e m \<Longrightarrow> vOk v \<Longrightarrow> P v \<Longrightarrow> moves kec e m P r"
  using good_stateOnly by (fastforce simp: sets_def moves_def)

lemma CreateAccount_moves:
  assumes "good kec e m"
  shows "moves kec e m (\<lambda>v. (\<forall>b. balOf v b = balOf (current m) b) \<and> money v \<le> money (current m) \<and>
      (vAccts (current m) a = None \<longrightarrow> sameWorld kec (current m) v)) (doState (CreateAccount kec a) e)"
proof (rule moves_sets [OF CreateAccount_sets [OF good_now(1) [OF assms]] assms])
  let ?ac = "(freshAccount kec)\<lparr>aBalance := balOf (current m) a\<rparr>"
  show "vOk (setAcct a ?ac (current m))" using setAcct_keeps(1) [OF good_now(2) [OF assms], of ?ac a] by (simp add: freshAccount_def)
  have "?ac = acctAt kec a (current m)" if "vAccts (current m) a = None" using that by (simp add: balOf_def acctAt_def freshAccount_def)
  then show "(\<forall>b. balOf (setAcct a ?ac (current m)) b = balOf (current m) b) \<and> money (setAcct a ?ac (current m)) \<le> money (current m) \<and>
      (vAccts (current m) a = None \<longrightarrow> sameWorld kec (current m) (setAcct a ?ac (current m)))"
    using sameWorld_setAcct by (auto simp: balOf_setAcct money_setAcct)
qed

lemma SetNonce_moves:
  assumes "good kec e m"
  shows "moves kec e m (\<lambda>v. (\<forall>b. balOf v b = balOf (current m) b) \<and> money v \<le> money (current m)) (doState (SetNonce kec a n) e)"
proof (rule moves_sets [OF SetNonce_sets [OF good_now(1) [OF assms]] assms])
  let ?ac = "(acctAt kec a (current m))\<lparr>aNonce := n\<rparr>"
  show "vOk (setAcct a ?ac (current m))"
    using setAcct_keeps(1) [OF good_now(2) [OF assms], of ?ac a] acctAt_code [OF good_now(2) [OF assms]] by (simp add: balOf_acctAt [of _ a kec])
  show "(\<forall>b. balOf (setAcct a ?ac (current m)) b = balOf (current m) b) \<and> money (setAcct a ?ac (current m)) \<le> money (current m)"
    by (auto simp: balOf_setAcct money_setAcct balOf_acctAt [of _ a kec])
qed

lemma Transfer_moves:
  assumes "good kec e m" "0 \<le> x" "x \<le> balOf (current m) s"
  shows "moves kec e m (\<lambda>v. money v \<le> money (current m) \<and> (x = 0 \<longrightarrow> sameWorld kec (current m) v)) (Transfer kec s r x e)"
proof -
  let ?v = "current m"
  define v1 where v1: "v1 = setAcct s ((acctAt kec s ?v)\<lparr>aBalance := balOf ?v s - x\<rparr>) ?v"
  define v2 where v2: "v2 = setAcct r ((acctAt kec r v1)\<lparr>aBalance := balOf v1 r + x\<rparr>) v1"
  have ok: "vOk ?v" using good_now(2) [OF assms(1)] .
  have ok1: "vOk v1" using vOk_setAcct(1) [OF ok] acctAt_code [OF ok] assms(2,3) by (simp add: v1)
  have t2: "money v2 = money ?v" unfolding v1 v2 money_def by (rule accounts.total_moved) simp_all
  have ok2: "vOk v2"
    using ok1 t2 ok assms(2) acctAt_code [OF ok1, of kec r] unfolding vOk_def by (auto simp: v2 balOf_setAcct split: if_splits)
  have w: "sameWorld kec ?v v2" if "x = 0"
  proof -
    have "sameWorld kec ?v v1" unfolding v1 using that by (intro sameWorld_setAcct) (simp add: balOf_acctAt [of _ s kec])
    moreover have "sameWorld kec v1 v2" unfolding v2 using that by (intro sameWorld_setAcct) (simp add: balOf_acctAt [of _ r kec])
    ultimately show ?thesis by (rule sameWorld_trans)
  qed
  obtain e1 where e1: "doState (SubBalance kec s x) e = Ret e1" "stateOnly e e1" "now kec e1 (m\<lparr>current := v1\<rparr>)"
    using SubBalance_sets [OF good_now(1) [OF assms(1)], of s x] by (auto simp: sets_def v1)
  obtain e2 where e2: "doState (AddBalance kec r x) e1 = Ret e2" "stateOnly e1 e2" "now kec e2 (m\<lparr>current := v2\<rparr>)"
    using AddBalance_sets [OF e1(3), of r x] by (auto simp: sets_def v2)
  have s: "stateOnly e e2" using stateOnly_trans [OF e1(2) e2(2)] .
  have "good kec e2 (m\<lparr>current := v2\<rparr>)" using good_stateOnly [OF assms(1) s e2(3)] ok2 by simp
  then show ?thesis using s t2 w unfolding moves_def by (intro exI [of _ e2] exI [of _ v2]) (simp add: Transfer_def e1(1) e2(1))
qed

lemma CanTransfer_ok:
  assumes "good kec e m"
  shows "\<exists>e'. CanTransfer kec a x e = Ret (balOf (current m) a \<ge> x, e') \<and> stateOnly e e' \<and> good kec e' m"
proof -
  obtain e1 where e1: "onState (GetBalance kec a) e = Ret (balOf (current m) a, e1)" "stateOnly e e1" "now kec e1 m"
    using GetBalance_reads [OF good_now(1) [OF assms], of a] by (auto simp: reads_def)
  then show ?thesis using good_stateOnly [OF assms e1(2,3) good_now(2) [OF assms]] by (simp add: CanTransfer_def)
qed

lemma NewContract_ok:
  assumes "NewContract caller a v g e = (c, e')" "good kec e m"
  shows "cGas c = g" "cvalue c = v" "sameEnv e e'" "good kec e' m"
  using assms good_other(1) by (auto simp: NewContract_def split: ContractRef.splits)

lemma takeSnapshot_good:
  assumes "good kec e m"
  obtains e1 where "takeSnapshot e = (nextId m, e1)" "stateOnly e e1" "good kec e1 (saveNow m)"
  using takeSnapshot_now [OF good_now(1) [OF assms]] good_stateOnly [OF assms] good_now(2) [OF assms] by (metis current_saveNow)

lemma CallCode_good:
  assumes "cryptoOk cr" "loopGood kec f lp" "keccak cr = kec" "good kec e m"
    and "word256 val" "unat gas < 2 ^ 61" "unat gas < f" "length inp < 2 ^ 63"
  shows "callGood kec e m (unat gas) (CallCode cr lp caller a inp gas val e)"
proof (cases "NoRecursion e \<and> depth e > 0 \<or> depth e > CallCreateDepth")
  case True
  then show ?thesis using callGood_same [OF stateOnly_refl(1) assms(4)] by (auto simp: CallCode_def)
next
  case False
  obtain e1 where e1: "CanTransfer kec (refAddress caller) val e = Ret (balOf (current m) (refAddress caller) \<ge> val, e1)" "stateOnly e e1" "good kec e1 m"
    using CanTransfer_ok [OF assms(4)] by blast
  obtain e2 where e2: "takeSnapshot e1 = (nextId m, e2)" "stateOnly e1 e2" "good kec e2 (saveNow m)" using takeSnapshot_good [OF e1(3)] .
  obtain c e3 where c: "NewContract caller (refAddress caller) val gas e2 = (c, e3)" by fastforce
  note nc = NewContract_ok [OF c e2(3)]
  have env: "sameEnv e e3" using sameEnv_trans [OF stateOnly_sameEnv [OF stateOnly_trans [OF e1(2) e2(2)]] nc(3)] .
  have "callGood kec e3 m (unat gas) (runCall cr lp (nextId m) a inp c e3)"
    using runCall_good [OF assms(1-3) good_now(1) [OF e1(3)] good_now(2) [OF assms(4)] nc(4) advances_refl, of c inp a] good_now(2) [OF assms(4)]
      nc(1,2) assms(5-8) by simp
  then show ?thesis using False e1 e2(1) c callGood_same [OF e1(2,3)] callGood_env [OF env] by (auto simp: CallCode_def assms(3) Let_def)
qed

lemma DelegateCall_good:
  assumes "cryptoOk cr" "loopGood kec f lp" "keccak cr = kec" "good kec e m"
    and "word256 (cvalue parent)" "unat gas < 2 ^ 61" "unat gas < f" "length inp < 2 ^ 63"
  shows "callGood kec e m (unat gas) (DelegateCall cr lp (ContractRef parent) a inp gas e)"
proof (cases "NoRecursion e \<and> depth e > 0 \<or> depth e > CallCreateDepth")
  case True
  then show ?thesis using callGood_same [OF stateOnly_refl(1) assms(4)] by (auto simp: DelegateCall_def)
next
  case False
  obtain e2 where e2: "takeSnapshot e = (nextId m, e2)" "stateOnly e e2" "good kec e2 (saveNow m)" using takeSnapshot_good [OF assms(4)] .
  obtain c e3 where c: "NewContract (ContractRef parent) (refAddress (ContractRef parent)) 0 gas e2 = (c, e3)" by fastforce
  note nc = NewContract_ok [OF c e2(3)]
  obtain c' where c': "AsDelegate (ContractRef parent) c = Ret c'" "cGas c' = gas" "cvalue c' = cvalue parent" using nc(1) by (auto simp: AsDelegate_def)
  have env: "sameEnv e e3" using sameEnv_trans [OF stateOnly_sameEnv [OF e2(2)] nc(3)] .
  have "callGood kec e3 m (unat gas) (runCall cr lp (nextId m) a inp c' e3)"
    using runCall_good [OF assms(1-3) good_now [OF assms(4)] nc(4) advances_refl, of c' inp a] good_now(2) [OF assms(4)] c' assms(5-8) by simp
  then show ?thesis using False e2(1) c c'(1) callGood_env [OF env] by (auto simp: DelegateCall_def Let_def)
qed

lemma StaticCall_good:
  assumes "cryptoOk cr" "loopGood kec f lp" "keccak cr = kec" "good kec e m"
    and "unat gas < 2 ^ 61" "unat gas < f" "length inp < 2 ^ 63"
  shows "callGood kec e m (unat gas) (StaticCall cr lp caller a inp gas e)"
    "fine (\<lambda>(ret, gas, err, e'). \<exists>m'. good kec e' m' \<and> sameWorld kec (current m) (current m')) (StaticCall cr lp caller a inp gas e)"
proof -
  have "callGood kec e m (unat gas) (StaticCall cr lp caller a inp gas e) \<and>
    fine (\<lambda>(ret, gas, err, e'). \<exists>m'. good kec e' m' \<and> sameWorld kec (current m) (current m')) (StaticCall cr lp caller a inp gas e)"
  proof (cases "NoRecursion e \<and> depth e > 0 \<or> depth e > CallCreateDepth")
    case True
    then show ?thesis using callGood_same [OF stateOnly_refl(1) assms(4)] assms(4) sameWorld_refl by (auto simp: StaticCall_def)
  next
    case False
    have r: "good kec (e\<lparr>readOnly := True\<rparr>) m" using good_other(5) [OF assms(4)] .
    obtain e2 where e2: "takeSnapshot (e\<lparr>readOnly := True\<rparr>) = (nextId m, e2)" "stateOnly (e\<lparr>readOnly := True\<rparr>) e2" "good kec e2 (saveNow m)"
      using takeSnapshot_good [OF r] .
    obtain c e3 where c: "NewContract caller a 0 gas e2 = (c, e3)" by fastforce
    note nc = NewContract_ok [OF c e2(3)]
    have env: "sameEnv (e\<lparr>readOnly := True\<rparr>) e3" using sameEnv_trans [OF stateOnly_sameEnv [OF e2(2)] nc(3)] .
    have "callGood kec e3 m (unat gas) (runCall cr lp (nextId m) a inp c e3)"
      using runCall_good [OF assms(1-3) good_now [OF r] nc(4) advances_refl, of c inp a] good_now(2) [OF assms(4)] nc(1,2) assms(5-7) by simp
    then have run: "callGood kec (e\<lparr>readOnly := True\<rparr>) m (unat gas) (runCall cr lp (nextId m) a inp c e3)" by (rule callGood_env [OF env])
    have eq: "StaticCall cr lp caller a inp gas e = andThen (runCall cr lp (nextId m) a inp c e3)
        (\<lambda>(ret, left, err, e3). Ret (ret, left, err, if readOnly e then e3 else e3\<lparr>readOnly := False\<rparr>))"
      using False e2(1) c by (auto simp: StaticCall_def Let_def)
    have st: "sameEnv (e\<lparr>readOnly := True\<rparr>) e' \<Longrightarrow> sameEnv e (if readOnly e then e' else e'\<lparr>readOnly := False\<rparr>)" for e' by (auto simp: sameEnv_def)
    have gd: "good kec e' m' \<Longrightarrow> good kec (if readOnly e then e' else e'\<lparr>readOnly := False\<rparr>) m'" for e' m' using good_other(5) by auto
    have gr: "advances kec True m m' \<Longrightarrow> advances kec (readOnly e) m m' \<and> sameWorld kec (current m) (current m')" for m' by (simp add: advances_def)
    show ?thesis unfolding eq callGood_def
    proof (intro conjI, goal_cases)
      case 1
      show ?case by (rule fine_andThen [OF run [unfolded callGood_def]]) (use st gd gr in fastforce)
    next
      case 2
      show ?case by (rule fine_andThen [OF run [unfolded callGood_def]]) (use gd gr in fastforce)
    qed
  qed
  then show "callGood kec e m (unat gas) (StaticCall cr lp caller a inp gas e)"
    "fine (\<lambda>(ret, gas, err, e'). \<exists>m'. good kec e' m' \<and> sameWorld kec (current m) (current m')) (StaticCall cr lp caller a inp gas e)"
    by auto
qed


lemma Call_good:
  assumes "cryptoOk cr" "loopGood kec f lp" "keccak cr = kec" "good kec e m"
    and "word256 val" "unat gas < 2 ^ 61" "unat gas < f" "length inp < 2 ^ 63" "readOnly e \<longrightarrow> val = 0"
  shows "callGood kec e m (unat gas) (Call cr lp caller a inp gas val e)"
proof (cases "NoRecursion e \<and> depth e > 0 \<or> depth e > CallCreateDepth")
  case True
  then show ?thesis using callGood_same [OF stateOnly_refl(1) assms(4)] by (auto simp: Call_def Let_def)
next
  case False
  let ?s = "refAddress caller" and ?v = "current m"
  obtain e1 where e1: "CanTransfer kec ?s val e = Ret (balOf ?v ?s \<ge> val, e1)" "stateOnly e e1" "good kec e1 m"
    using CanTransfer_ok [OF assms(4)] by blast
  obtain e2 where e2: "takeSnapshot e1 = (nextId m, e2)" "stateOnly e1 e2" "good kec e2 (saveNow m)" using takeSnapshot_good [OF e1(3)] .
  obtain e3 where e3: "onState (Exist kec a) e2 = Ret (vAccts ?v a \<noteq> None, e3)" "stateOnly e2 e3" "now kec e3 (saveNow m)"
    using Exist_reads [OF good_now(1) [OF e2(3)], of a] by (auto simp: reads_def)
  have g3: "good kec e3 (saveNow m)" using good_stateOnly [OF e2(3) e3(2,3)] good_now(2) [OF assms(4)] by simp
  have s3: "stateOnly e e3" using stateOnly_trans [OF stateOnly_trans [OF e1(2) e2(2)] e3(2)] .
  have quit: "callGood kec e m (unat gas) (Ret (None, gas, None, e3))"
    using g3 advances_save [OF good_now(2) [OF assms(4)]] stateOnly_sameEnv [OF s3] by (auto simp: callGood_def)
  have go: "callGood kec e m (unat gas)
      (andThen (if vAccts ?v a \<noteq> None then Ret e3 else doState (CreateAccount kec a) e3) (\<lambda>e4.
       andThen (Transfer kec ?s a val e4) (\<lambda>e5.
         let (c, e6) = NewContract caller a val gas e5 in runCall cr lp (nextId m) a inp c e6)))" if can: "balOf ?v ?s \<ge> val"
  proof -
    have "moves kec e3 (saveNow m) (\<lambda>v. (\<forall>b. balOf v b = balOf ?v b) \<and> money v \<le> money ?v \<and> sameWorld kec ?v v)
        (if vAccts ?v a \<noteq> None then Ret e3 else doState (CreateAccount kec a) e3)"
    proof (cases "vAccts ?v a = None")
      case True
      then show ?thesis using CreateAccount_moves [OF g3, of a] by (simp add: moves_def)
    next
      case False
      have "good kec e3 ((saveNow m)\<lparr>current := current m\<rparr>)" using g3 by (simp add: saveNow_def)
      then show ?thesis using False by (auto simp: moves_def)
    qed
    then obtain e4 v4 where e4: "(if vAccts ?v a \<noteq> None then Ret e3 else doState (CreateAccount kec a) e3) = Ret e4" "stateOnly e3 e4"
      "good kec e4 ((saveNow m)\<lparr>current := v4\<rparr>)" "\<forall>b. balOf v4 b = balOf ?v b" "money v4 \<le> money ?v" "sameWorld kec ?v v4"
      by (auto simp: moves_def)
    obtain e5 v5 where e5: "Transfer kec ?s a val e4 = Ret e5" "stateOnly e4 e5" "good kec e5 ((saveNow m)\<lparr>current := v5\<rparr>)"
      "money v5 \<le> money v4" "val = 0 \<longrightarrow> sameWorld kec v4 v5"
      using Transfer_moves [OF e4(3), of val ?s a] can e4(4) assms(5) by (auto simp: moves_def word256_def)
    obtain c e6 where c: "NewContract caller a val gas e5 = (c, e6)" by fastforce
    note nc = NewContract_ok [OF c e5(3)]
    have s5: "stateOnly e e5" using stateOnly_trans [OF s3 stateOnly_trans [OF e4(2) e5(2)]] .
    have env: "sameEnv e e6" using sameEnv_trans [OF stateOnly_sameEnv [OF s5] nc(3)] .
    have "readOnly e6 = readOnly e" using env by (simp add: sameEnv_def)
    then have "advances kec (readOnly e6) (saveNow m) ((saveNow m)\<lparr>current := v5\<rparr>)"
      using good_now(2) [OF e5(3)] e5(4,5) e4(5,6) assms(9) sameWorld_trans [of kec ?v v4 v5] by (intro advances_current) auto
    then have "callGood kec e6 m (unat gas) (runCall cr lp (nextId m) a inp c e6)"
      using runCall_good [OF assms(1-3) good_now(1) [OF e1(3)] good_now(2) [OF assms(4)] nc(4), of c inp a] nc(1,2) assms(5-8) by simp
    then show ?thesis unfolding e4(1) using e5(1) c callGood_env [OF env] by simp
  qed
  show ?thesis
    using False quit go callGood_same [OF e1(2,3)] by (auto simp: Call_def Let_def assms(3) e1(1) e2(1) e3(1))
qed

section \<open>Creation\<close>

definition createGood :: "hashfun \<Rightarrow> EVM \<Rightarrow> machine \<Rightarrow> nat \<Rightarrow> (bytes option \<times> address \<times> u64 \<times> vmErr option \<times> EVM) go \<Rightarrow> bool" where
  "createGood kec e m G = fine (\<lambda>(ret, addr, gas, err, e'). length (bytesOf ret) < 2 ^ 63 \<and> unat gas \<le> G \<and> evolves kec e m e')"

lemma SetCode_moves:
  assumes "good kec e m" "length (bytesOf code) < 2 ^ 63"
  shows "moves kec e m (\<lambda>v. money v \<le> money (current m)) (doState (SetCode kec a code) e)"
proof (rule moves_sets [OF SetCode_sets [OF good_now(1) [OF assms(1)]] assms(1)])
  let ?ac = "(acctAt kec a (current m))\<lparr>aCodeHash := hash_bytes (kec (bytesOf code)), aCode := bytesOf code\<rparr>"
  show "vOk (setAcct a ?ac (current m))" "money (setAcct a ?ac (current m)) \<le> money (current m)"
    using setAcct_keeps [OF good_now(2) [OF assms(1)], of ?ac a] assms(2) by (simp_all add: balOf_acctAt [of _ a kec])
qed

lemma storeCode_good:
  assumes "keccak cr = kec" "now kec eS m0" "vOk (current m0)" "good kec e m1" "advances kec False (saveNow m0) m1" "\<not> readOnly e" "length (bytesOf ret) < 2 ^ 63"
  shows "createGood kec e m0 (unat (cGas c)) (storeCode cr (nextId m0) a ret err c e)"
proof -
  have end0: "evolves kec e m0 e'" if "sameEnv e e'" "good kec e' m'" "advances kec False m0 m'" for e' m'
    using that assms(6) by (auto simp: evolves_def)
  have rev: "\<exists>e3. doState (RevertToSnapshot kec (nextId m0)) e2 = Ret e3 \<and> evolves kec e m0 e3"
    if r: "sameEnv e e2" "good kec e2 m2" "advances kec False (saveNow m0) m2" for e2 m2
  proof -
    obtain e3 where e3: "doState (RevertToSnapshot kec (nextId m0)) e2 = Ret e3" "stateOnly e2 e3"
      "now kec e3 (m2\<lparr>current := current m0, saved := saved m0\<rparr>)" using revert_now [OF assms(2) good_now(1) [OF r(2)] r(3)] by blast
    have "good kec e3 (m2\<lparr>current := current m0, saved := saved m0\<rparr>)" using good_stateOnly [OF r(2) e3(2,3)] assms(3) by simp
    then have "evolves kec e m0 e3"
      using end0 [OF sameEnv_trans [OF r(1) stateOnly_sameEnv [OF e3(2)]]] advances_reverted [OF r(3) assms(3)] by blast
    then show ?thesis using e3(1) by blast
  qed
  have fail: "createGood kec e m0 (unat (cGas c)) (andThen (andThen (doState (RevertToSnapshot kec (nextId m0)) e) (\<lambda>e2. Ret (burnGas err1 c1, e2))) (\<lambda>(c2, e2).
      Ret (ret, a, cGas c2, err2, e2)))" if "unat (cGas c1) \<le> unat (cGas c)" for err1 c1 err2
    using rev [OF _ assms(4,5)] burnGas_le [of err1 c1] that assms(7) by (auto simp: createGood_def)
  show ?thesis
  proof (cases "err = None \<and> \<not> length (bytesOf ret) > MaxCodeSize")
    case False
    then show ?thesis using fail [of c] by (auto simp: storeCode_def assms(1) Let_def)
  next
    case True
    obtain b c' where u: "UseGas (word_of_nat (length (bytesOf ret)) * CreateDataGas) c = (b, c')" by fastforce
    note le = UseGas_le(1) [OF u]
    show ?thesis
    proof (cases b)
      case False
      then show ?thesis using True u le fail [of c'] by (simp add: storeCode_def assms(1) Let_def)
    next
      case yes: True
      obtain e2 v2 where e2: "doState (SetCode kec a ret) e = Ret e2" "stateOnly e e2" "good kec e2 (m1\<lparr>current := v2\<rparr>)" "money v2 \<le> money (current m1)"
        using SetCode_moves [OF assms(4,7), of a] by (auto simp: moves_def)
      have "advances kec False m1 (m1\<lparr>current := v2\<rparr>)" using good_now(2) [OF e2(3)] e2(4) by (intro advances_current) auto
      then have "advances kec False m0 (m1\<lparr>current := v2\<rparr>)" using advances_saved [OF advances_trans [OF assms(5)]] by blast
      then have "evolves kec e m0 e2" using end0 [OF stateOnly_sameEnv [OF e2(2)] e2(3)] by blast
      then show ?thesis using True yes u le e2(1) assms(7) by (simp add: storeCode_def assms(1) Let_def createGood_def)
    qed
  qed
qed

lemma createGood_from:
  assumes "createGood kec e1 m1 G r" "sameEnv e e1" "advances kec False m m1" "\<not> readOnly e" "G \<le> G'"
  shows "createGood kec e m G' r"
  using assms(1) unfolding createGood_def
proof (rule fine_mono, goal_cases)
  case (1 x)
  have "evolves kec e m e'" if "evolves kec e1 m1 e'" for e'
    by (rule evolves_step [OF assms(2) _ that]) (use assms(3,4) in simp)
  then show ?case using 1 assms(5) by auto
qed

lemma CreateContract_good:
  assumes "cryptoOk cr" "loopGood kec f lp" "keccak cr = kec" "good kec e m" "\<not> readOnly e"
    and "word256 val" "unat gas < 2 ^ 61" "unat gas < f" "length code < 2 ^ 63"
  shows "createGood kec e m (unat gas) (CreateContract cr lp caller code gas val e)"
proof (cases "depth e > CallCreateDepth")
  case True
  then show ?thesis using evolves_refl [OF assms(4)] by (simp add: CreateContract_def createGood_def)
next
  case False
  let ?s = "refAddress caller" and ?v = "current m"
  obtain e1 where e1: "CanTransfer kec ?s val e = Ret (balOf ?v ?s \<ge> val, e1)" "stateOnly e e1" "good kec e1 m"
    using CanTransfer_ok [OF assms(4)] by blast
  show ?thesis
  proof (cases "balOf ?v ?s \<ge> val")
    case no: False
    then show ?thesis using False e1 evolves_read [OF assms(4) e1(2,3)] by (simp add: CreateContract_def createGood_def assms(3) Let_def)
  next
    case can: True
    obtain nonce e2 where e2: "onState (GetNonce kec ?s) e1 = Ret (nonce, e2)" "stateOnly e1 e2" "now kec e2 m"
      using GetNonce_reads [OF good_now(1) [OF e1(3)], of ?s] by (auto simp: reads_def)
    have g2: "good kec e2 m" using good_stateOnly [OF e1(3) e2(2,3) good_now(2) [OF assms(4)]] .
    obtain e3 v3 where e3: "doState (SetNonce kec ?s (nonce + 1)) e2 = Ret e3" "stateOnly e2 e3" "good kec e3 (m\<lparr>current := v3\<rparr>)"
      "\<forall>b. balOf v3 b = balOf ?v b" "money v3 \<le> money ?v" using SetNonce_moves [OF g2, of ?s "nonce + 1"] by (auto simp: moves_def)
    define m3 where m3: "m3 = m\<lparr>current := v3\<rparr>"
    have g3: "good kec e3 m3" "current m3 = v3" using e3(3) m3 by simp_all
    have gr3: "advances kec False m m3" unfolding m3 using good_now(2) [OF g3(1)] e3(5) g3(2) by (intro advances_current) auto
    have s3: "stateOnly e e3" using stateOnly_trans [OF stateOnly_trans [OF e1(2) e2(2)] e3(2)] .
    let ?a = "CreateAddress kec ?s nonce"
    obtain h e4 where e4: "onState (GetCodeHash kec ?a) e3 = Ret (h, e4)" "stateOnly e3 e4" "now kec e4 m3"
      using GetCodeHash_reads [OF good_now(1) [OF g3(1)], of ?a] by (auto simp: reads_def)
    obtain n e5 where e5: "onState (GetNonce kec ?a) e4 = Ret (n, e5)" "stateOnly e4 e5" "now kec e5 m3"
      using GetNonce_reads [OF e4(3), of ?a] by (auto simp: reads_def)
    have s5: "stateOnly e e5" using stateOnly_trans [OF s3 stateOnly_trans [OF e4(2) e5(2)]] .
    have g5: "good kec e5 m3" using good_stateOnly [OF assms(4) s5 e5(3)] good_now(2) [OF g3(1)] by simp
    obtain e6 where e6: "takeSnapshot e5 = (nextId m3, e6)" "stateOnly e5 e6" "good kec e6 (saveNow m3)" using takeSnapshot_good [OF g5] .
    obtain e7 v7 where e7: "doState (CreateAccount kec ?a) e6 = Ret e7" "stateOnly e6 e7" "good kec e7 ((saveNow m3)\<lparr>current := v7\<rparr>)"
      "\<forall>b. balOf v7 b = balOf v3 b" "money v7 \<le> money v3" using CreateAccount_moves [OF e6(3), of ?a] g3(2) by (auto simp: moves_def)
    obtain e8 v8 where e8: "doState (SetNonce kec ?a 1) e7 = Ret e8" "stateOnly e7 e8" "good kec e8 ((saveNow m3)\<lparr>current := v8\<rparr>)"
      "\<forall>b. balOf v8 b = balOf v7 b" "money v8 \<le> money v7" using SetNonce_moves [OF e7(3), of ?a 1] by (auto simp: moves_def)
    obtain e9 v9 where e9: "Transfer kec ?s ?a val e8 = Ret e9" "stateOnly e8 e9" "good kec e9 ((saveNow m3)\<lparr>current := v9\<rparr>)" "money v9 \<le> money v8"
      using Transfer_moves [OF e8(3), of val ?s ?a] can e8(4) e7(4) e3(4) assms(6) by (auto simp: moves_def word256_def)
    obtain c0 e10 where c0: "NewContract caller ?a val gas e9 = (c0, e10)" by fastforce
    note nc = NewContract_ok [OF c0 e9(3)]
    let ?c = "SetCallCode ?a (kec code) code c0"
    have s9: "stateOnly e5 e9" using stateOnly_trans [OF e6(2) stateOnly_trans [OF e7(2) stateOnly_trans [OF e8(2) e9(2)]]] .
    have env: "sameEnv e e10" using sameEnv_trans [OF stateOnly_sameEnv [OF stateOnly_trans [OF s5 s9]] nc(3)] .
    have ro: "\<not> readOnly e10" using env assms(5) by (simp add: sameEnv_def)
    have gr9: "advances kec False (saveNow m3) ((saveNow m3)\<lparr>current := v9\<rparr>)"
      using good_now(2) [OF e9(3)] e9(4) e8(5) e7(5) g3(2) by (intro advances_current) auto
    have run: "createGood kec e10 m3 (unat gas) (andThen (runContract cr lp ?c [] e10) (\<lambda>(ret, err, c1, e11). storeCode cr (nextId m3) ?a ret err c1 e11))"
    proof -
      have "ctOk ?c" using nc(1,2) assms(6,7,9) by (simp add: ctOk_def)
      then have "runGood kec e10 ((saveNow m3)\<lparr>current := v9\<rparr>) (unat gas) (runContract cr lp ?c [] e10)"
        using runContract_good [OF assms(1,2) nc(4), of ?c "[]"] nc(1) assms(8) by simp
      then show ?thesis
        unfolding runGood_def createGood_def
    proof (rule fine_andThen, goal_cases)
      case x: (1 x)
      obtain ret err c1 e11 where xx: "x = (ret, err, c1, e11)" by (cases x) auto
      have r: "length (bytesOf ret) < 2 ^ 63" "unat (cGas c1) \<le> unat gas" "evolves kec e10 ((saveNow m3)\<lparr>current := v9\<rparr>) e11" using x xx by auto
      obtain m11 where m11: "good kec e11 m11" "advances kec False (saveNow m3) m11" "sameEnv e10 e11"
        using r(3) advances_trans [OF gr9] ro by (auto simp: evolves_def)
      have "\<not> readOnly e11" using m11(3) ro by (simp add: sameEnv_def)
      then have "createGood kec e11 m3 (unat (cGas c1)) (storeCode cr (nextId m3) ?a ret err c1 e11)"
        using storeCode_good [OF assms(3) e5(3) _ m11(1,2) _ r(1)] good_now(2) [OF g5] by blast
      then have "createGood kec e10 m3 (unat gas) (storeCode cr (nextId m3) ?a ret err c1 e11)"
        by (rule createGood_from [OF _ m11(3) advances_refl [OF good_now(2) [OF g5]] ro r(2)])
      then show ?case by (simp add: xx createGood_def)
    qed
    qed
    have stop: "createGood kec e10 m3 (unat gas) (Ret (None, ?a, gas, None, e10))"
      using advances_saved [OF gr9] nc(4) ro by (auto simp: createGood_def evolves_def)
    have coll: "createGood kec e5 m3 (unat gas) (Ret (None, 0, 0, Some ErrContractAddressCollision, e5))"
      using evolves_refl [OF g5] by (simp add: createGood_def)
    have fin: "createGood kec e10 m3 (unat gas) r \<Longrightarrow> createGood kec e m (unat gas) r" for r
      by (rule createGood_from [OF _ env gr3 assms(5)]) auto
    have fin5: "createGood kec e5 m3 (unat gas) r \<Longrightarrow> createGood kec e m (unat gas) r" for r
      by (rule createGood_from [OF _ stateOnly_sameEnv [OF s5] gr3 assms(5)]) auto
    have "CreateContract cr lp caller code gas val e =
        (if n \<noteq> 0 \<or> (h \<noteq> 0 \<and> h \<noteq> kec []) then Ret (None, 0, 0, Some ErrContractAddressCollision, e5)
         else if NoRecursion e10 \<and> depth e10 > 0 then Ret (None, ?a, gas, None, e10)
         else andThen (runContract cr lp ?c [] e10) (\<lambda>(ret, err, c1, e11). storeCode cr (nextId m3) ?a ret err c1 e11))"
      using False can unfolding CreateContract_def by (simp add: assms(3) e1(1) e2(1) e3(1) e4(1) e5(1) e6(1) e7(1) e8(1) e9(1) c0 Let_def)
    then show ?thesis using fin [OF run] fin [OF stop] fin5 [OF coll] by presburger
  qed
qed

end
