(* ===== verification/EvmLoop.thy ===== *)
theory EvmLoop
  imports EvmCalls
begin

text \<open>
  The jump table and the loop: every entry keeps the promise, so the loop does, by induction on its fuel.
\<close>

section \<open>Entries of the jump table\<close>

definition memReady :: "operation \<Rightarrow> frame \<Rightarrow> bool" where
  "memReady oper fr \<longleftrightarrow> (\<forall>f. memorySize oper = Some f \<longrightarrow> (\<exists>v. f (stack fr) = Ret v \<and> \<bar>v\<bar> \<le> int (length (memStore (memory fr)))))"

definition memPart :: "operation \<Rightarrow> bool" where
  "memPart oper \<longleftrightarrow> (\<forall>st. validateStack oper st = None \<longrightarrow> (\<exists>r. neededMemory oper st = Ret r))"

definition gasPart :: "hashfun \<Rightarrow> nat \<Rightarrow> operation \<Rightarrow> bool" where
  "gasPart kec k oper \<longleftrightarrow> (\<forall>fr e m ms. frameOk fr \<and> good kec e m \<and> unat ms mod 32 = 0 \<and> (memorySize oper = None \<longrightarrow> ms = 0) \<and>
     validateStack oper (stack fr) = None \<and> (readOnly e \<longrightarrow> \<not> operation.writes oper) \<longrightarrow>
     gasGood kec m (\<lambda>c _. k \<le> unat c) fr ms e (gasCost oper fr ms e))"

definition execPart :: "hashfun \<Rightarrow> u8 \<Rightarrow> operation \<Rightarrow> bool" where
  "execPart kec op oper \<longleftrightarrow> (\<forall>fr e m. frameOk fr \<and> good kec e m \<and> validateStack oper (stack fr) = None \<and> memReady oper fr \<and>
     (readOnly e \<longrightarrow> \<not> operation.writes oper) \<and> GetOp (pc fr) (contract fr) = op \<longrightarrow> execGood kec m fr e (execute oper fr e))"

definition normalOp :: "hashfun \<Rightarrow> u8 \<Rightarrow> operation \<Rightarrow> bool" where
  "normalOp kec op oper \<longleftrightarrow> op \<noteq> 0xf1 \<and> memPart oper \<and> execPart kec op oper \<and> (\<exists>k. gasPart kec k oper \<and> (halts oper \<or> reverts oper \<or> 0 < k))"

lemmas entry_defs = instr_def stackInstr_def pushInstr_def memInstr_def
lemmas gas_consts = GasQuickStep_def GasFastestStep_def GasFastStep_def GasMidStep_def GasSlowStep_def GasExtStep_def JumpdestGas_def

lemma noMem: "memorySize oper = None \<Longrightarrow> memPart oper"
  by (simp add: memPart_def neededMemory_def)

lemma spanMem:
  assumes "memorySize oper = Some f" "\<And>st. validateStack oper st = None \<Longrightarrow> \<exists>v. f st = Ret v"
  shows "memPart oper"
  unfolding memPart_def
proof (intro allI impI)
  fix st assume "validateStack oper st = None"
  then obtain v where "f st = Ret v" using assms(2) by blast
  then show "\<exists>r. neededMemory oper st = Ret r" using assms(1) by (simp add: neededMemory_def)
qed

lemma constPart:
  assumes "gasCost oper = constGasFunc g" "memorySize oper = None" "k \<le> unat g"
  shows "gasPart kec k oper"
  using assms constGas_good frameOk_sel(2) by (auto simp: gasPart_def)

lemma stackInstr_normal:
  assumes "stackFun f n 1" "0 < unat g" "op \<noteq> 0xf1"
  shows "normalOp kec op (stackInstr f g n)"
proof -
  have "execPart kec op (stackInstr f g n)" using onStack_good [OF assms(1)] by (auto simp: execPart_def entry_defs makeStackFunc_None)
  moreover have "gasPart kec (unat g) (stackInstr f g n)" by (rule constPart [of _ g]) (simp_all add: entry_defs)
  moreover have "memPart (stackInstr f g n)" by (rule noMem) (simp add: entry_defs)
  ultimately show ?thesis using assms(2,3) by (auto simp: normalOp_def)
qed

lemma pushInstr_normal:
  assumes "\<And>fr e m. frameOk fr \<Longrightarrow> good kec e m \<Longrightarrow> length (stack fr) + 1 \<le> StackLimit \<Longrightarrow> execGood kec m fr e (f fr e)" "op \<noteq> 0xf1"
  shows "normalOp kec op (pushInstr f)"
proof -
  have "execPart kec op (pushInstr f)" using assms(1) by (auto simp: execPart_def entry_defs makeStackFunc_None)
  moreover have "gasPart kec 2 (pushInstr f)" by (rule constPart [of _ GasQuickStep]) (simp_all add: entry_defs GasQuickStep_def)
  moreover have "memPart (pushInstr f)" by (rule noMem) (simp add: entry_defs)
  ultimately show ?thesis using assms(2) by (auto simp: normalOp_def)
qed

lemma arithTable_normal: "\<forall>(op, oper) \<in> set arithTable. normalOp kec op oper"
proof -
  have "gasPart kec 1 (instr (onStack opExp) gasExp (makeStackFunc 2 1))"
    using gasExp_good by (auto simp: gasPart_def entry_defs makeStackFunc_None frameOk_sel(2))
  moreover have "execPart kec 0x0a (instr (onStack opExp) gasExp (makeStackFunc 2 1))"
    using onStack_good [OF arith_stackFuns(10)] by (auto simp: execPart_def entry_defs makeStackFunc_None)
  moreover have "memPart (instr (onStack opExp) gasExp (makeStackFunc 2 1))" by (rule noMem) (simp add: entry_defs)
  ultimately have "normalOp kec 0x0a (instr (onStack opExp) gasExp (makeStackFunc 2 1))" by (auto simp: normalOp_def)
  then show ?thesis unfolding arithTable_def
    by (simp add: stackInstr_normal [OF arith_stackFuns(1)] stackInstr_normal [OF arith_stackFuns(2)] stackInstr_normal [OF arith_stackFuns(3)]
      stackInstr_normal [OF arith_stackFuns(4)] stackInstr_normal [OF arith_stackFuns(5)] stackInstr_normal [OF arith_stackFuns(6)]
      stackInstr_normal [OF arith_stackFuns(7)] stackInstr_normal [OF arith_stackFuns(8)] stackInstr_normal [OF arith_stackFuns(9)]
      stackInstr_normal [OF arith_stackFuns(11)] stackInstr_normal [OF arith_stackFuns(12)] stackInstr_normal [OF arith_stackFuns(13)]
      stackInstr_normal [OF arith_stackFuns(14)] stackInstr_normal [OF arith_stackFuns(15)] stackInstr_normal [OF arith_stackFuns(16)]
      stackInstr_normal [OF arith_stackFuns(17)] stackInstr_normal [OF arith_stackFuns(18)] stackInstr_normal [OF arith_stackFuns(19)]
      stackInstr_normal [OF arith_stackFuns(20)] stackInstr_normal [OF arith_stackFuns(21)] stackInstr_normal [OF arith_stackFuns(22)]
      stackInstr_normal [OF arith_stackFuns(23)] stackInstr_normal [OF arith_stackFuns(24)] stackInstr_normal [OF arith_stackFuns(25)] gas_consts del: One_nat_def)
qed

text \<open>The parts of entries with memory.\<close>

lemma memSpan_Ret: "i < length st \<Longrightarrow> j < length st \<Longrightarrow> \<exists>v. memSpan i j st = Ret v"
  by (simp add: memSpan_def Back_ok)

lemma memFixed_Ret: "i < length st \<Longrightarrow> \<exists>v. memFixed i l st = Ret v"
  by (simp add: memFixed_def Back_ok)

lemma memTwo_Ret: "i < length st \<Longrightarrow> j < length st \<Longrightarrow> k < length st \<Longrightarrow> l < length st \<Longrightarrow> \<exists>v. memTwo i j k l st = Ret v"
  by (simp add: memTwo_def memSpan_def Back_ok)

lemma memReady_span:
  assumes "memReady oper fr" "memorySize oper = Some (memSpan i j)" "i < length (stack fr)" "j < length (stack fr)"
  shows "covers (memory fr) (stack fr ! i) (stack fr ! j)"
  using assms memSpan_covers by (fastforce simp: memReady_def)

lemma le_4: "4 \<le> length st \<longleftrightarrow> (\<exists>w x y z r. st = w # x # y # z # r)"
  by (cases st; cases "tl st"; cases "tl (tl st)"; cases "tl (tl (tl st))") auto

lemma memInstr_normal:
  assumes "op \<noteq> 0xf1" "\<And>st. n \<le> length st \<Longrightarrow> \<exists>v. f st = Ret v"
    and "oper = (memInstr ex g (makeStackFunc n j) f)\<lparr>halts := h, reverts := rv, returns := rt\<rparr>"
    and "\<And>fr e m ms. memOk (memory fr) \<Longrightarrow> unat ms mod 32 = 0 \<Longrightarrow> good kec e m \<Longrightarrow> n \<le> length (stack fr) \<Longrightarrow> gasGood kec m (\<lambda>c _. k \<le> unat c) fr ms e (g fr ms e)"
    and "h \<or> rv \<or> 0 < k"
    and "\<And>fr e m v. frameOk fr \<Longrightarrow> good kec e m \<Longrightarrow> n \<le> length (stack fr) \<Longrightarrow> f (stack fr) = Ret v \<Longrightarrow> \<bar>v\<bar> \<le> int (length (memStore (memory fr))) \<Longrightarrow>
      execGood kec m fr e (ex fr e)"
  shows "normalOp kec op oper"
proof -
  have "memPart oper" by (rule spanMem [of _ f]) (use assms(2) in \<open>auto simp: assms(3) entry_defs makeStackFunc_None\<close>)
  moreover have "gasPart kec k oper" using assms(4) frameOk_sel(2) by (auto simp: gasPart_def assms(3) entry_defs makeStackFunc_None)
  moreover have "execPart kec op oper" using assms(6) by (auto simp: execPart_def memReady_def assms(3) entry_defs makeStackFunc_None)
  ultimately show ?thesis using assms(1,5) by (auto simp: normalOp_def assms(3))
qed

lemma memInstr_plain: "memInstr ex g chk f = (memInstr ex g chk f)\<lparr>halts := False, reverts := False, returns := False\<rparr>"
  by (simp add: entry_defs)

lemma mem_entries:
  "normalOp kec 0x20 (memInstr (opSha3 kec) gasSha3 (makeStackFunc 2 1) memorySha3)"
  "normalOp kec 0x37 (memInstr opCallDataCopy gasCallDataCopy (makeStackFunc 3 0) memoryCallDataCopy)"
  "normalOp kec 0x39 (memInstr opCodeCopy gasCodeCopy (makeStackFunc 3 0) memoryCodeCopy)"
  "normalOp kec 0x3c (memInstr (opExtCodeCopy kec) gasExtCodeCopy (makeStackFunc 4 0) memoryExtCodeCopy)"
  "normalOp kec 0x3e (memInstr opReturnDataCopy gasReturnDataCopy (makeStackFunc 3 0) memoryReturnDataCopy)"
  "normalOp kec 0x51 (memInstr opMload gasMLoad (makeStackFunc 1 1) memoryMLoad)"
  "normalOp kec 0x52 (memInstr opMstore gasMStore (makeStackFunc 2 0) memoryMStore)"
  "normalOp kec 0x53 (memInstr opMstore8 gasMStore8 (makeStackFunc 2 0) memoryMStore8)"
  "normalOp kec 0xf3 ((memInstr opReturn gasReturn (makeStackFunc 2 0) memoryReturn)\<lparr>halts := True\<rparr>)"
  "normalOp kec 0xfd ((memInstr opRevert gasRevert (makeStackFunc 2 0) memoryRevert)\<lparr>reverts := True, returns := True\<rparr>)"
proof -
  note covs = memSpan_covers memFixed_covers
  have word: "gasGood kec m (\<lambda>c _. 1 \<le> unat c) fr ms e (wordGas b p i fr ms e)"
    if "memOk (memory fr)" "unat ms mod 32 = 0" "good kec e m" "i < length (stack fr)" "1 \<le> unat (b e)" for fr e m ms b p i
    using wordGas_good [OF that(1-4), of b p] unfolding gasGood_def by (rule fine_mono) (use that(5) in force)
  have fee: "gasGood kec m (\<lambda>c _. 1 \<le> unat c) fr ms e (memPlus GasFastestStep fr ms e)"
    if "memOk (memory fr)" "unat ms mod 32 = 0" "good kec e m" for fr e m ms
    using memPlus_good [OF that, of GasFastestStep] unfolding gasGood_def by (rule fine_mono) (force simp: GasFastestStep_def)
  show "normalOp kec 0x20 (memInstr (opSha3 kec) gasSha3 (makeStackFunc 2 1) memorySha3)"
    by (rule memInstr_normal [where k = 1, OF _ _ memInstr_plain])
      (auto simp: memorySha3_def gasSha3_def Sha3Gas_def le_2 intro!: memSpan_Ret word [simplified] opSha3_good dest!: covs(1))
  show "normalOp kec 0x37 (memInstr opCallDataCopy gasCallDataCopy (makeStackFunc 3 0) memoryCallDataCopy)"
    by (rule memInstr_normal [where k = 1, OF _ _ memInstr_plain])
      (auto simp: memoryCallDataCopy_def gasCallDataCopy_def GasFastestStep_def le_3 intro!: memSpan_Ret word [simplified] copy_instructions dest!: covs(1))
  show "normalOp kec 0x39 (memInstr opCodeCopy gasCodeCopy (makeStackFunc 3 0) memoryCodeCopy)"
    by (rule memInstr_normal [where k = 1, OF _ _ memInstr_plain])
      (auto simp: memoryCodeCopy_def gasCodeCopy_def GasFastestStep_def le_3 intro!: memSpan_Ret word [simplified] copy_instructions dest!: covs(1))
  show "normalOp kec 0x3c (memInstr (opExtCodeCopy kec) gasExtCodeCopy (makeStackFunc 4 0) memoryExtCodeCopy)"
    by (rule memInstr_normal [where k = 1, OF _ _ memInstr_plain])
      (auto simp: memoryExtCodeCopy_def gasExtCodeCopy_def good_table DefaultGasTable_def le_4 intro!: memSpan_Ret word [simplified] opExtCodeCopy_good dest!: covs(1))
  show "normalOp kec 0x3e (memInstr opReturnDataCopy gasReturnDataCopy (makeStackFunc 3 0) memoryReturnDataCopy)"
    by (rule memInstr_normal [where k = 1, OF _ _ memInstr_plain])
      (auto simp: memoryReturnDataCopy_def gasReturnDataCopy_def GasFastestStep_def le_3 intro!: memSpan_Ret word [simplified] opReturnDataCopy_good dest!: covs(1))
  show "normalOp kec 0x51 (memInstr opMload gasMLoad (makeStackFunc 1 1) memoryMLoad)"
    by (rule memInstr_normal [where k = 1, OF _ _ memInstr_plain])
      (auto simp: memoryMLoad_def gasMLoad_def le_1 [simplified] intro!: memFixed_Ret fee [simplified] opMload_good dest!: covs(2))
  show "normalOp kec 0x52 (memInstr opMstore gasMStore (makeStackFunc 2 0) memoryMStore)"
    by (rule memInstr_normal [where k = 1, OF _ _ memInstr_plain])
      (auto simp: memoryMStore_def gasMStore_def le_2 intro!: memFixed_Ret fee [simplified] opMstore_good dest!: covs(2))
  show "normalOp kec 0x53 (memInstr opMstore8 gasMStore8 (makeStackFunc 2 0) memoryMStore8)"
    by (rule memInstr_normal [where k = 1, OF _ _ memInstr_plain])
      (auto simp: memoryMStore8_def gasMStore8_def le_2 intro!: memFixed_Ret fee [simplified] opMstore8_good dest!: covs(2))
  show "normalOp kec 0xf3 ((memInstr opReturn gasReturn (makeStackFunc 2 0) memoryReturn)\<lparr>halts := True\<rparr>)"
    by (rule memInstr_normal [where k = 0 and ex = opReturn and g = gasReturn and n = 2 and j = 0 and f = memoryReturn and h = True and rv = False and rt = False])
      (auto simp: memoryReturn_def entry_defs le_2 intro!: memSpan_Ret gasReturn_good [simplified] opReturn_good dest!: covs(1))
  show "normalOp kec 0xfd ((memInstr opRevert gasRevert (makeStackFunc 2 0) memoryRevert)\<lparr>reverts := True, returns := True\<rparr>)"
    by (rule memInstr_normal [where k = 0 and ex = opRevert and g = gasRevert and n = 2 and j = 0 and f = memoryRevert and h = False and rv = True and rt = True])
      (auto simp: memoryRevert_def entry_defs le_2 intro!: memSpan_Ret gasReturn_good [simplified] opReturn_good dest!: covs(1))
qed

lemma instr_normal:
  assumes "op \<noteq> 0xf1" "memorySize oper = None" "validateStack oper = makeStackFunc n j" "halts oper \<or> 0 < k"
    and "\<And>fr e m. memOk (memory fr) \<Longrightarrow> good kec e m \<Longrightarrow> n \<le> length (stack fr) \<Longrightarrow> readOnly e \<longrightarrow> \<not> operation.writes oper \<Longrightarrow>
      gasGood kec m (\<lambda>c _. k \<le> unat c) fr 0 e (gasCost oper fr 0 e)"
    and "\<And>fr e m. frameOk fr \<Longrightarrow> good kec e m \<Longrightarrow> n \<le> length (stack fr) \<Longrightarrow> length (stack fr) + j - n \<le> StackLimit \<Longrightarrow>
      readOnly e \<longrightarrow> \<not> operation.writes oper \<Longrightarrow> GetOp (pc fr) (contract fr) = op \<Longrightarrow> execGood kec m fr e (execute oper fr e)"
  shows "normalOp kec op oper"
proof -
  have "memPart oper" using noMem [OF assms(2)] .
  moreover have "gasPart kec k oper" using assms(2,3,5) frameOk_sel(2) by (auto simp: gasPart_def makeStackFunc_None)
  moreover have "execPart kec op oper" using assms(3,6) by (auto simp: execPart_def makeStackFunc_None)
  ultimately show ?thesis using assms(1,4) by (auto simp: normalOp_def)
qed

lemma const_gas: "memOk (memory fr) \<Longrightarrow> good kec e m \<Longrightarrow> k \<le> unat g \<Longrightarrow> gasGood kec m (\<lambda>c _. k \<le> unat c) fr 0 e (constGasFunc g fr 0 e)"
  by (rule constGas_good)

lemma table_gas:
  assumes "memOk (memory fr)" "good kec e m"
  shows "gasGood kec m (\<lambda>c _. 1 \<le> unat c) fr 0 e (gasBalance fr 0 e)" "gasGood kec m (\<lambda>c _. 1 \<le> unat c) fr 0 e (gasExtCodeSize fr 0 e)"
    "gasGood kec m (\<lambda>c _. 1 \<le> unat c) fr 0 e (gasSLoad fr 0 e)" "gasGood kec m (\<lambda>c _. 1 \<le> unat c) fr 0 e (gasPush fr 0 e)"
    "gasGood kec m (\<lambda>c _. 1 \<le> unat c) fr 0 e (gasDup fr 0 e)" "gasGood kec m (\<lambda>c _. 1 \<le> unat c) fr 0 e (gasSwap fr 0 e)"
  using assms evolves_refl [OF assms(2)] good_table [OF assms(2)]
  by (simp_all add: gasGood_def gasBalance_def gasExtCodeSize_def gasSLoad_def gasPush_def gasDup_def gasSwap_def DefaultGasTable_def GasFastestStep_def)

lemma read_entries:
  "normalOp kec 0x31 (instr (opBalance kec) gasBalance (makeStackFunc 1 1))"
  "normalOp kec 0x35 (instr opCallDataLoad (constGasFunc GasFastestStep) (makeStackFunc 1 1))"
  "normalOp kec 0x3b (instr (opExtCodeSize kec) gasExtCodeSize (makeStackFunc 1 1))"
  "normalOp kec 0x40 (instr opBlockhash (constGasFunc GasExtStep) (makeStackFunc 1 1))"
  "normalOp kec 0x50 (instr (onStack opPop) (constGasFunc GasQuickStep) (makeStackFunc 1 0))"
  "normalOp kec 0x54 (instr (opSload kec) gasSLoad (makeStackFunc 1 1))"
  "normalOp kec 0x55 ((instr (opSstore kec) (gasSStore kec) (makeStackFunc 2 0))\<lparr>writes := True\<rparr>)"
  "normalOp kec 0x56 ((instr opJump (constGasFunc GasMidStep) (makeStackFunc 1 0))\<lparr>jumps := True\<rparr>)"
  "normalOp kec 0x57 ((instr opJumpi (constGasFunc GasSlowStep) (makeStackFunc 2 0))\<lparr>jumps := True\<rparr>)"
  "normalOp kec 0x5b (instr opJumpdest (constGasFunc JumpdestGas) (makeStackFunc 0 0))"
  "normalOp kec 0x00 ((instr opStop (constGasFunc 0) (makeStackFunc 0 0))\<lparr>halts := True\<rparr>)"
  "normalOp kec 0xff ((instr (opSuicide kec) (gasSuicide kec) (makeStackFunc 1 0))\<lparr>halts := True, writes := True\<rparr>)"
proof -
  note le1 = le_1 [simplified]
  show "normalOp kec 0x31 (instr (opBalance kec) gasBalance (makeStackFunc 1 1))"
    by (rule instr_normal [where n = 1 and j = 1 and k = 1]) (auto simp: entry_defs le1 intro: table_gas [simplified] opBalance_good)
  show "normalOp kec 0x35 (instr opCallDataLoad (constGasFunc GasFastestStep) (makeStackFunc 1 1))"
    by (rule instr_normal [where n = 1 and j = 1 and k = 1]) (auto simp: entry_defs le1 GasFastestStep_def intro!: const_gas [simplified] opCallDataLoad_good)
  show "normalOp kec 0x3b (instr (opExtCodeSize kec) gasExtCodeSize (makeStackFunc 1 1))"
    by (rule instr_normal [where n = 1 and j = 1 and k = 1]) (auto simp: entry_defs le1 intro: table_gas [simplified] opExtCodeSize_good)
  show "normalOp kec 0x40 (instr opBlockhash (constGasFunc GasExtStep) (makeStackFunc 1 1))"
    by (rule instr_normal [where n = 1 and j = 1 and k = 1]) (auto simp: entry_defs le1 GasExtStep_def intro!: const_gas opBlockhash_good)
  show "normalOp kec 0x50 (instr (onStack opPop) (constGasFunc GasQuickStep) (makeStackFunc 1 0))"
    by (rule instr_normal [where n = 1 and j = 0 and k = 1]) (auto simp: entry_defs GasQuickStep_def intro!: const_gas onStack_good [OF opPop_stackFun])
  show "normalOp kec 0x54 (instr (opSload kec) gasSLoad (makeStackFunc 1 1))"
    by (rule instr_normal [where n = 1 and j = 1 and k = 1]) (auto simp: entry_defs le1 intro: table_gas [simplified] opSload_good)
  show "normalOp kec 0x55 ((instr (opSstore kec) (gasSStore kec) (makeStackFunc 2 0))\<lparr>writes := True\<rparr>)"
    by (rule instr_normal [where n = 2 and j = 0 and k = 1]) (auto simp: entry_defs le_2 intro: gasSStore_good [simplified] opSstore_good)
  show "normalOp kec 0x56 ((instr opJump (constGasFunc GasMidStep) (makeStackFunc 1 0))\<lparr>jumps := True\<rparr>)"
    by (rule instr_normal [where n = 1 and j = 0 and k = 1]) (auto simp: entry_defs le1 GasMidStep_def intro!: const_gas opJump_good)
  show "normalOp kec 0x57 ((instr opJumpi (constGasFunc GasSlowStep) (makeStackFunc 2 0))\<lparr>jumps := True\<rparr>)"
    by (rule instr_normal [where n = 2 and j = 0 and k = 1]) (auto simp: entry_defs le_2 GasSlowStep_def intro!: const_gas opJumpi_good)
  show "normalOp kec 0x5b (instr opJumpdest (constGasFunc JumpdestGas) (makeStackFunc 0 0))"
    by (rule instr_normal [where n = 0 and j = 0 and k = 1]) (auto simp: entry_defs JumpdestGas_def intro!: const_gas still_good)
  show "normalOp kec 0x00 ((instr opStop (constGasFunc 0) (makeStackFunc 0 0))\<lparr>halts := True\<rparr>)"
    by (rule instr_normal [where n = 0 and j = 0 and k = 0]) (auto simp: entry_defs intro!: constGas_good still_good)
  show "normalOp kec 0xff ((instr (opSuicide kec) (gasSuicide kec) (makeStackFunc 1 0))\<lparr>halts := True, writes := True\<rparr>)"
    by (rule instr_normal [where n = 1 and j = 0 and k = 0]) (auto simp: entry_defs le1 intro: gasSuicide_good [simplified] opSuicide_good)
qed

lemma envTable_normal: "\<forall>(op, oper) \<in> set (envTable kec). normalOp kec op oper"
  unfolding envTable_def using read_entries [of kec] mem_entries [of kec]
  by (simp add: pushInstr_normal push_instructions)

lemma flowTable_normal: "\<forall>(op, oper) \<in> set (flowTable kec). normalOp kec op oper"
  unfolding flowTable_def using read_entries [of kec] mem_entries [of kec]
  by (simp add: pushInstr_normal push_instructions)

lemma code_ne: "b + n < 256 \<Longrightarrow> b + n \<noteq> unat c \<Longrightarrow> word_of_nat b + word_of_nat n \<noteq> (c :: u8)"
proof
  assume "b + n < 256" "b + n \<noteq> unat c" "word_of_nat b + word_of_nat n = c"
  moreover from this have "unat (word_of_nat (b + n) :: u8) = b + n" by (simp only: unsigned_of_nat) (simp add: take_bit_nat_eq_self)
  ultimately show False by simp
qed

lemma numberedTable_normal: "\<forall>(op, oper) \<in> set numberedTable. normalOp kec op oper"
proof -
  have push: "normalOp kec (0x5f + word_of_nat n) (instr (makePush (word_of_nat n) n) gasPush (makeStackFunc 0 1))" if n: "1 \<le> n" "n < 33" for n
  proof -
    have ne: "0x5f + word_of_nat n \<noteq> (0xf1 :: u8)" "0x5f + word_of_nat n \<noteq> (0 :: u8)"
      using code_ne [of "0x5f" n "0xf1"] code_ne [of "0x5f" n 0] n by simp_all
    show ?thesis
      by (rule instr_normal [where n = 0 and j = 1 and k = 1]) (use ne n in \<open>auto simp: entry_defs intro: table_gas [simplified] intro!: makePush_good\<close>)
  qed
  have dup: "normalOp kec (0x7f + word_of_nat n) (instr (onStack (makeDup n)) gasDup (makeDupStackFunc n))" if n: "1 \<le> n" "n < 17" for n
  proof -
    have ne: "0x7f + word_of_nat n \<noteq> (0xf1 :: u8)" using code_ne [of "0x7f" n "0xf1"] n by simp
    show ?thesis
      by (rule instr_normal [where n = n and j = "n + 1" and k = 1])
        (use ne n in \<open>auto simp: entry_defs makeDupStackFunc_def intro: table_gas [simplified] intro!: onStack_good [OF makeDup_stackFun]\<close>)
  qed
  have swap: "normalOp kec (0x8f + word_of_nat n) (instr (onStack (makeSwap n)) gasSwap (makeSwapStackFunc (n + 1)))" if n: "1 \<le> n" "n < 17" for n
  proof -
    have ne: "0x8f + word_of_nat n \<noteq> (0xf1 :: u8)" using code_ne [of "0x8f" n "0xf1"] n by simp
    show ?thesis
      by (rule instr_normal [where n = "n + 1" and j = "n + 1" and k = 1])
        (use ne n in \<open>auto simp: entry_defs makeSwapStackFunc_def intro: table_gas [simplified] intro!: onStack_good [OF makeSwap_stackFun]\<close>)
  qed
  have logs: "normalOp kec (0xa0 + word_of_nat n) ((memInstr (makeLog n) (makeGasLog (word_of_nat n)) (makeStackFunc (n + 2) 0) memoryLog)\<lparr>writes := True\<rparr>)"
    (is "normalOp kec ?op ?oper") if n: "n < 5" for n
  proof -
    have ne: "0xa0 + word_of_nat n \<noteq> (0xf1 :: u8)" using code_ne [of "0xa0" n "0xf1"] n by simp
    have st: "\<exists>x y r. stack fr = x # y # r \<and> n \<le> length r" if "n + 2 \<le> length (stack fr)" for fr
      using that le_2 [of "stack fr"] by auto
    have "memPart ?oper" by (rule spanMem) (auto simp: entry_defs memoryLog_def makeStackFunc_None intro!: memSpan_Ret)
    moreover have "gasPart kec 375 ?oper" using makeGasLog_good by (auto simp: gasPart_def entry_defs makeStackFunc_None frameOk_sel(2))
    moreover have "execPart kec ?op ?oper"
      unfolding execPart_def
    proof (intro allI impI)
      fix fr e m
      assume a: "frameOk fr \<and> good kec e m \<and> validateStack ?oper (stack fr) = None \<and> memReady ?oper fr \<and> (readOnly e \<longrightarrow> \<not> operation.writes ?oper) \<and> GetOp (pc fr) (contract fr) = ?op"
      then obtain x y r where s: "stack fr = x # y # r" "n \<le> length r" using st [of fr] by (auto simp: entry_defs makeStackFunc_None)
      then have "covers (memory fr) x y" using a memReady_span [of ?oper fr 0 1] by (simp add: entry_defs memoryLog_def)
      then show "execGood kec m fr e (execute ?oper fr e)" using makeLog_good [OF s] a by (simp add: entry_defs)
    qed
    ultimately show ?thesis using ne by (auto simp: normalOp_def)
  qed
  show ?thesis unfolding numberedTable_def using push dup swap logs by auto
qed

section \<open>Instructions that call\<close>

definition stepGood :: "hashfun \<Rightarrow> EVM \<Rightarrow> machine \<Rightarrow> nat \<Rightarrow> operation \<Rightarrow> opResult \<Rightarrow> bool" where
  "stepGood kec e m G oper = fine (\<lambda>(ret, err, fr, e'). length (bytesOf ret) < 2 ^ 63 \<and> frameOk fr \<and> gasOf fr \<le> G \<and>
     (halts oper \<or> reverts oper \<or> gasOf fr < G) \<and> evolves kec e m e')"

lemma addBack_ok:
  assumes "frameOk fr" "gasOf fr + unat g < G" "G < 2 ^ 61"
  shows "frameOk (addBack g fr)" "gasOf (addBack g fr) < G"
proof -
  have "unat (cGas (contract fr) + g) = gasOf fr + unat g" using assms(2,3) by (intro unat_add_nocarry) simp
  then show "frameOk (addBack g fr)" "gasOf (addBack g fr) < G" using assms by (auto simp: addBack_def frameOk_def)
qed

lemma afterCall_good:
  assumes "callGood kec e m g res" "frameOk fr" "gasOf fr + g < G" "G < 2 ^ 61"
    and "stack fr = pre @ x # y # r" "covers (memory fr) x y"
  shows "stepGood kec e m G oper (afterCall res x y r fr)"
  unfolding afterCall_def stepGood_def
proof (rule fine_andThen [OF assms(1) [unfolded callGood_def]], goal_cases)
  case (1 z)
  obtain ret gas err e' where z: "z = (ret, gas, err, e')" by (cases z) auto
  have c: "length (bytesOf ret) < 2 ^ 63" "unat gas \<le> g" "evolves kec e m e'" using 1 by (auto simp: z evolves_def)
  let ?fr = "fr\<lparr>stack := (if err \<noteq> None then 0 else 1) # r\<rparr>"
  have w: "word256 x" "word256 y" "\<forall>v \<in> set r. word256 v" using frameOk_sel(1) [OF assms(2)] assms(5) by auto
  have f: "frameOk ?fr" using w(3) assms(2,5) by (intro frameOk_stack) (auto simp: frameOk_def)
  have "\<exists>mem. (if err = None \<or> err = Some errExecutionReverted
          then memSet (Uint64 x) (Uint64 y) (bytesOf ret) (memory ?fr) else Ret (memory ?fr)) = Ret mem \<and> length (memStore mem) = length (memStore (memory ?fr))"
    using memSet_covered [OF frameOk_sel(2) [OF assms(2)] assms(6) w(1,2), of "bytesOf ret"] by auto
  then obtain mem where mem: "(if err = None \<or> err = Some errExecutionReverted
          then memSet (Uint64 x) (Uint64 y) (bytesOf ret) (memory ?fr) else Ret (memory ?fr)) = Ret mem" "length (memStore mem) = length (memStore (memory ?fr))" by blast
  have f2: "frameOk (?fr\<lparr>memory := mem\<rparr>)" using frameOk_memory [OF f mem(2)] .
  have "gasOf (?fr\<lparr>memory := mem\<rparr>) + unat gas < G" using assms(3) c(2) by simp
  note b = addBack_ok [OF f2 this assms(4)]
  show ?case unfolding z prod.case Let_def mem(1) using b c(1,3) by simp
qed

lemma le_7: "7 \<le> length st \<Longrightarrow> \<exists>a b c d x y z r. st = a # b # c # d # x # y # z # r"
proof -
  assume "7 \<le> length st"
  then have "4 \<le> length st" by simp
  then obtain a b c d r where s: "st = a # b # c # d # r" by (auto simp: le_4)
  then have "3 \<le> length r" using \<open>7 \<le> length st\<close> by simp
  then show ?thesis using s by (auto simp: le_3)
qed

lemma le_6: "6 \<le> length st \<Longrightarrow> \<exists>a b c d x y r. st = a # b # c # d # x # y # r"
proof -
  assume "6 \<le> length st"
  then have "4 \<le> length st" by simp
  then obtain a b c d r where s: "st = a # b # c # d # r" by (auto simp: le_4)
  then have "2 \<le> length r" using \<open>6 \<le> length st\<close> by simp
  then show ?thesis using s by (auto simp: le_2)
qed

lemma withStipend_unat: "unat t < 2 ^ 61 \<Longrightarrow> unat (withStipend v t) = unat t + (if v \<noteq> 0 then 2300 else 0)"
  using unat_add_nocarry [of t CallStipend] by (simp add: withStipend_def CallStipend_def)

lemma opCall_good:
  assumes "cryptoOk cr" "loopGood kec f lp" "keccak cr = kec" "frameOk fr" "good kec e m"
    and "stack fr = a # b # v # x # y # p # q # r" "covers (memory fr) p q" "covers (memory fr) x y"
    and "gasOf fr + unat (callGasTemp e) + 700 + valueGas v \<le> G" "G < 2 ^ 61" "G \<le> f"
  shows "readOnly e \<longrightarrow> v = 0 \<Longrightarrow> stepGood kec e m G oper (opCall cr lp fr e)" "stepGood kec e m G oper (opCallCode cr lp fr e)"
proof -
  have w: "word256 v" "word256 x" "word256 y" using frameOk_sel(1) [OF assms(4)] assms(6) by auto
  then have v: "U256 v = v" by (simp add: word256_def)
  obtain d where d: "memGet (Int64 x) (Int64 y) (memory fr) = Ret d" "length (bytesOf d) < 2 ^ 63"
    using memGet_covered(1) [OF frameOk_sel(2) [OF assms(4)] assms(8) w(2,3)] by blast
  let ?g = "withStipend v (callGasTemp e)"
  have "unat (callGasTemp e) < 2 ^ 61" using assms(9,10) by linarith
  then have "unat ?g + gasOf fr < G" using assms(9) withStipend_unat [of "callGasTemp e" v] by (simp split: if_splits)
  then have g: "unat ?g < 2 ^ 61" "unat ?g < f" "gasOf fr + unat ?g < G" using assms(10,11) by auto
  have s: "stack fr = [a, b, v, x, y] @ p # q # r" using assms(6) by simp
  show "stepGood kec e m G oper (opCall cr lp fr e)" if "readOnly e \<longrightarrow> v = 0"
    using afterCall_good [OF Call_good [OF assms(1-3,5) w(1) g(1,2) d(2) that] assms(4) g(3) assms(10) s assms(7)] assms(6) d(1) v by (simp add: opCall_def Let_def)
  show "stepGood kec e m G oper (opCallCode cr lp fr e)"
    using afterCall_good [OF CallCode_good [OF assms(1-3,5) w(1) g(1,2) d(2)] assms(4) g(3) assms(10) s assms(7)] assms(6) d(1) v by (simp add: opCallCode_def Let_def)
qed

lemma opDelegate_good:
  assumes "cryptoOk cr" "loopGood kec f lp" "keccak cr = kec" "frameOk fr" "good kec e m"
    and "stack fr = a # b # x # y # p # q # r" "covers (memory fr) p q" "covers (memory fr) x y"
    and "gasOf fr + unat (callGasTemp e) + 700 \<le> G" "G < 2 ^ 61" "G \<le> f"
  shows "stepGood kec e m G oper (opDelegateCall cr lp fr e)" "stepGood kec e m G oper (opStaticCall cr lp fr e)"
proof -
  have w: "word256 x" "word256 y" using frameOk_sel(1) [OF assms(4)] assms(6) by auto
  have c: "word256 (cvalue (contract fr))" using assms(4) by (simp add: frameOk_def)
  obtain d where d: "memGet (Int64 x) (Int64 y) (memory fr) = Ret d" "length (bytesOf d) < 2 ^ 63"
    using memGet_covered(1) [OF frameOk_sel(2) [OF assms(4)] assms(8) w] by blast
  have g: "unat (callGasTemp e) < 2 ^ 61" "unat (callGasTemp e) < f" "gasOf fr + unat (callGasTemp e) < G" using assms(9-11) by auto
  have s: "stack fr = [a, b, x, y] @ p # q # r" using assms(6) by simp
  show "stepGood kec e m G oper (opDelegateCall cr lp fr e)"
    using afterCall_good [OF DelegateCall_good [OF assms(1-3,5) c g(1,2) d(2)] assms(4) g(3) assms(10) s assms(7)] assms(6) d(1) by (simp add: opDelegateCall_def)
  show "stepGood kec e m G oper (opStaticCall cr lp fr e)"
    using afterCall_good [OF StaticCall_good(1) [OF assms(1-3,5) g(1,2) d(2)] assms(4) g(3) assms(10) s assms(7)] assms(6) d(1) by (simp add: opStaticCall_def)
qed

lemma opCreate_good:
  assumes "cryptoOk cr" "loopGood kec f lp" "keccak cr = kec" "frameOk fr" "good kec e m" "\<not> readOnly e"
    and "stack fr = v # x # y # r" "covers (memory fr) x y" "gasOf fr < G" "G < 2 ^ 61" "G \<le> f"
  shows "stepGood kec e m G oper (opCreate cr lp fr e)"
proof -
  have w: "word256 v" "word256 x" "word256 y" using frameOk_sel(1) [OF assms(4)] assms(7) by auto
  obtain d where d: "memGet (Int64 x) (Int64 y) (memory fr) = Ret d" "length (bytesOf d) < 2 ^ 63"
    using memGet_covered(1) [OF frameOk_sel(2) [OF assms(4)] assms(8) w(2,3)] by blast
  let ?g = "cGas (contract fr)"
  let ?gas = "?g - ?g div 64"
  define c where c: "c = snd (UseGas ?gas (contract fr))"
  have le: "?g div 64 \<le> ?g" by (simp add: word_le_nat_alt unat_div)
  then have u: "unat ?gas = unat ?g - unat ?g div 64" by (simp add: unat_sub_noborrow unat_div)
  then have "\<not> ?g < ?gas" by (simp add: word_less_nat_alt)
  then have cg: "c = (contract fr)\<lparr>cGas := ?g div 64\<rparr>" by (simp add: c UseGas_def)
  have "createGood kec e m (unat ?gas) (CreateContract cr lp (ContractRef c) (bytesOf d) ?gas v e)"
    by (rule CreateContract_good [OF assms(1-3,5,6) w(1) _ _ d(2)]) (use u assms(9-11) in linarith)+
  then have "stepGood kec e m G oper (andThen (CreateContract cr lp (ContractRef c) (bytesOf d) ?gas v e) (\<lambda>(res, addr, returnGas, suberr, e1).
       Ret (if suberr = Some errExecutionReverted then res else None, None,
            addBack returnGas (fr\<lparr>contract := c, stack := (if suberr \<noteq> None then 0 else addrBig addr) # r\<rparr>), e1)))"
    unfolding createGood_def stepGood_def
  proof (rule fine_andThen, goal_cases)
    case (1 z)
    obtain res addr rg suberr e1 where z: "z = (res, addr, rg, suberr, e1)" by (cases z) auto
    let ?fr = "fr\<lparr>contract := c, stack := (if suberr \<noteq> None then 0 else addrBig addr) # r\<rparr>"
    have "\<forall>x \<in> set r. word256 x" using frameOk_sel(1) [OF assms(4)] assms(7) by auto
    moreover have "unat (?g div 64) \<le> unat ?g" using le by (simp add: word_le_nat_alt)
    ultimately have f: "frameOk ?fr" using assms(4,7) unfolding frameOk_def cg by auto
    have "gasOf ?fr + unat rg < G" using 1 z assms(9) u by (auto simp: cg unat_div)
    note b = addBack_ok [OF f this assms(10)]
    show ?case unfolding z prod.case using b 1 z by auto
  qed
  then show ?thesis using assms(7) d(1) by (simp add: opCreate_def Let_def c)
qed

section \<open>The interpreter\<close>

text \<open>An entry of the table keeps its part of the contract when the loops it starts do, on less gas.\<close>

definition opGood :: "hashfun \<Rightarrow> nat \<Rightarrow> u8 \<Rightarrow> operation \<Rightarrow> bool" where
  "opGood kec f op oper \<longleftrightarrow> memPart oper \<and> (op = 0xf1 \<longrightarrow> (\<forall>st. validateStack oper st = None \<longrightarrow> 2 < length st)) \<and>
     (\<forall>fr e m ms. frameOk fr \<and> good kec e m \<and> GetOp (pc fr) (contract fr) = op \<and> validateStack oper (stack fr) = None \<and>
       (readOnly e \<longrightarrow> \<not> operation.writes oper \<and> (op = 0xf1 \<longrightarrow> stack fr ! 2 = 0)) \<and> neededMemory oper (stack fr) = Ret (Inr ms) \<and> gasOf fr \<le> f \<longrightarrow>
       fine (\<lambda>(cost, mem, e1). evolves kec e m e1 \<and> (\<forall>cst c. cost = Inr cst \<and> UseGas cst (contract fr) = (True, c) \<longrightarrow>
         stepGood kec e m (gasOf fr) oper (execute oper (fr\<lparr>contract := c, memory := resized ms mem\<rparr>) e1))) (gasCost oper fr ms e))"

lemma UseGas_True: "UseGas g c = (True, c') \<Longrightarrow> c' = c\<lparr>cGas := cGas c - g\<rparr> \<and> unat (cGas c') + unat g = unat (cGas c)"
  using unat_sub_noborrow [of g "cGas c"] by (auto simp: UseGas_def not_less word_le_nat_alt split: if_splits)

lemma charged_frame:
  assumes "frameOk fr" "UseGas cst (contract fr) = (True, c)" "memOk mem"
  shows "frameOk (fr\<lparr>contract := c, memory := mem\<rparr>)" "GetOp (pc fr) c = GetOp (pc fr) (contract fr)" "unat (cGas c) + unat cst = gasOf fr"
  using UseGas_True [OF assms(2)] assms(1,3) by (auto simp: frameOk_def GetOp_def GetByte_def)

lemma ready_after_charge:
  assumes "neededMemory oper (stack fr) = Ret (Inr ms)" "memStore mem = memStore (memory fr)"
  shows "memReady oper (fr\<lparr>contract := c, memory := resized ms mem\<rparr>)"
  unfolding memReady_def
proof (intro allI impI)
  fix f assume "memorySize oper = Some f"
  then obtain v where "f (stack fr) = Ret v" "\<bar>v\<bar> \<le> int (unat ms)" using neededMemory_ok(2) [OF assms(1)] by blast
  then show "\<exists>v. f (stack (fr\<lparr>contract := c, memory := resized ms mem\<rparr>)) = Ret v \<and>
      \<bar>v\<bar> \<le> int (length (memStore (memory (fr\<lparr>contract := c, memory := resized ms mem\<rparr>))))"
    by (intro exI [of _ v]) (auto simp: resized_length of_nat_max simp del: uint_nat)
qed

lemma needed_none: "memorySize oper = None \<Longrightarrow> neededMemory oper st = Ret (Inr ms) \<Longrightarrow> ms = 0"
  by (simp add: neededMemory_def)

text \<open>The gas function and the instruction together, with a relation between the price and the machine.\<close>

lemma entry_opGood:
  assumes "memPart oper" "op = 0xf1 \<longrightarrow> (\<forall>st. validateStack oper st = None \<longrightarrow> 2 < length st)"
    and "\<And>fr e m ms. frameOk fr \<Longrightarrow> unat ms mod 32 = 0 \<Longrightarrow> memorySize oper = None \<longrightarrow> ms = 0 \<Longrightarrow> good kec e m \<Longrightarrow> validateStack oper (stack fr) = None \<Longrightarrow>
      readOnly e \<longrightarrow> \<not> operation.writes oper \<Longrightarrow> gasGood kec m (Q (stack fr)) fr ms e (gasCost oper fr ms e)"
    and "\<And>fr e m G cst. frameOk fr \<Longrightarrow> good kec e m \<Longrightarrow> validateStack oper (stack fr) = None \<Longrightarrow> memReady oper fr \<Longrightarrow>
      readOnly e \<longrightarrow> \<not> operation.writes oper \<and> (op = 0xf1 \<longrightarrow> stack fr ! 2 = 0) \<Longrightarrow> GetOp (pc fr) (contract fr) = op \<Longrightarrow>
      Q (stack fr) cst e \<Longrightarrow> gasOf fr + unat cst = G \<Longrightarrow> G < 2 ^ 61 \<Longrightarrow> G \<le> f \<Longrightarrow> stepGood kec e m G oper (execute oper fr e)"
  shows "opGood kec f op oper"
  unfolding opGood_def
proof (intro conjI allI impI, rule assms(1), goal_cases)
  case 1
  then show ?case using assms(2) by blast
next
  case (2 fr e m ms)
  then have ms: "unat ms mod 32 = 0" "memorySize oper = None \<longrightarrow> ms = 0" using neededMemory_ok(1) needed_none by blast+
  have "gasGood kec m (Q (stack fr)) fr ms e (gasCost oper fr ms e)" by (rule assms(3)) (use 2 ms in auto)
  then show ?case unfolding gasGood_def
  proof (rule fine_mono, goal_cases)
    case z: (1 z)
    obtain cost mem e1 where zz: "z = (cost, mem, e1)" by (cases z) auto
    have b: "memStore mem = memStore (memory fr)" "evolves kec e m e1" "\<And>c. cost = Inr c \<Longrightarrow> Q (stack fr) c e1 \<and> memOk (resized ms mem)"
      using z zz by auto
    have "stepGood kec e m (gasOf fr) oper (execute oper (fr\<lparr>contract := c, memory := resized ms mem\<rparr>) e1)"
      if u: "cost = Inr cst" "UseGas cst (contract fr) = (True, c)" for cst c
    proof -
      let ?fr = "fr\<lparr>contract := c, memory := resized ms mem\<rparr>"
      have ch: "frameOk ?fr" "GetOp (pc fr) c = op" "unat (cGas c) + unat cst = gasOf fr" using charged_frame [of fr cst c] u b(3) 2 by auto
      have rdy: "memReady oper ?fr" using ready_after_charge 2 b(1) by blast
      obtain m1 where m1: "good kec e1 m1" "sameEnv e e1" "advances kec (readOnly e) m m1" using b(2) by (auto simp: evolves_def)
      have "stepGood kec e1 m1 (gasOf fr) oper (execute oper ?fr e1)"
        by (rule assms(4) [OF ch(1) m1(1), of cst]) (use 2 rdy m1(2) u b(3) ch(2,3) in \<open>auto simp: sameEnv_def frameOk_def\<close>)
      then show ?thesis unfolding stepGood_def
      proof (rule fine_mono, goal_cases)
        case (1 x)
        obtain ret err fr' e2 where x: "x = (ret, err, fr', e2)" by (cases x) auto
        have "evolves kec e1 m1 e2" using 1 x by simp
        then have "evolves kec e m e2" by (rule evolves_step [OF m1(2,3)])
        then show ?case using 1 x by simp
      qed
    qed
    then show ?case using b(2) by (simp add: zz)
  qed
qed

lemma normal_opGood:
  assumes "normalOp kec op oper"
  shows "opGood kec f op oper"
proof -
  have p: "op \<noteq> 0xf1" "memPart oper" "execPart kec op oper" using assms by (auto simp: normalOp_def)
  obtain k where k: "gasPart kec k oper" "halts oper \<or> reverts oper \<or> 0 < k" using assms by (auto simp: normalOp_def)
  show ?thesis
  proof (rule entry_opGood [where Q = "\<lambda>_ c _. k \<le> unat c"], goal_cases)
    case (3 fr e m ms)
    then show ?case by (intro k(1) [unfolded gasPart_def, rule_format]) auto
  next
    case (4 fr e m G cst)
    have "execGood kec m fr e (execute oper fr e)" by (rule p(3) [unfolded execPart_def, rule_format]) (use 4 in auto)
    then show ?case unfolding execGood_def stepGood_def
    proof (rule fine_mono, goal_cases)
      case (1 x)
      then show ?case using 4(7,8) k(2) by (cases x) auto
    qed
  qed (use p in auto)
qed

lemma memReady_two:
  assumes "memReady oper fr" "memorySize oper = Some (memTwo i j k l)" "i < length (stack fr)" "j < length (stack fr)" "k < length (stack fr)" "l < length (stack fr)" "frameOk fr"
  shows "covers (memory fr) (stack fr ! i) (stack fr ! j)" "covers (memory fr) (stack fr ! k) (stack fr ! l)"
proof -
  obtain v where "memTwo i j k l (stack fr) = Ret v" "\<bar>v\<bar> \<le> int (length (memStore (memory fr)))" using assms(1,2) by (auto simp: memReady_def)
  from memTwo_covers [OF this assms(3-6)] show "covers (memory fr) (stack fr ! i) (stack fr ! j)" "covers (memory fr) (stack fr ! k) (stack fr ! l)"
    using frameOk_sel(1) [OF assms(7)] by auto
qed


lemma callTable_good:
  assumes "cryptoOk cr" "loopGood kec f lp" "keccak cr = kec"
  shows "\<forall>(op, oper) \<in> set (callTable cr lp). opGood kec f op oper"
proof -
  have two: "memPart oper" if "memorySize oper = Some (memTwo i j k l)" "\<And>st. validateStack oper st = None \<Longrightarrow> i < length st \<and> j < length st \<and> k < length st \<and> l < length st" for oper i j k l
    by (rule spanMem [OF that(1)]) (use that(2) memTwo_Ret in blast)
  have create: "opGood kec f 0xf0 ((memInstr (opCreate cr lp) gasCreate (makeStackFunc 3 1) memoryCreate)\<lparr>writes := True, returns := True\<rparr>)" (is "opGood _ _ _ ?oper")
  proof (rule entry_opGood [where Q = "\<lambda>_ c _. 1 \<le> unat c"], goal_cases)
    case 1
    show ?case by (rule spanMem) (auto simp: entry_defs memoryCreate_def makeStackFunc_None intro!: memSpan_Ret)
  next
    case (3 fr e m ms)
    show ?case using memPlus_good [OF frameOk_sel(2) [OF 3(1)] 3(2,4), of CreateGas] unfolding gasGood_def
      by (simp add: entry_defs gasCreate_def) (rule fine_mono, assumption, force simp: CreateGas_def)
  next
    case (4 fr e m G cst)
    obtain v x y r where s: "stack fr = v # x # y # r" using 4(3) by (auto simp: entry_defs makeStackFunc_None le_3)
    have "covers (memory fr) x y" using memReady_span [OF 4(4), of 1 2] s by (simp add: entry_defs memoryCreate_def)
    then show ?case using opCreate_good [OF assms 4(1,2) _ s, of G ?oper] 4(5,7-10) by (simp add: entry_defs)
  qed simp
  have call: "opGood kec f 0xf1 ((memInstr (opCall cr lp) (gasCall (keccak cr)) (makeStackFunc 7 1) memoryCall)\<lparr>returns := True\<rparr>)" (is "opGood _ _ _ ?oper")
  proof (rule entry_opGood [where Q = "\<lambda>st c e. 700 + valueGas (st ! 2) + unat (callGasTemp e) \<le> unat c"], goal_cases)
    case 1
    show ?case by (rule two) (auto simp: entry_defs memoryCall_def makeStackFunc_None)
  next
    case (3 fr e m ms)
    then show ?case using gasCall_good [OF frameOk_sel(2) [OF 3(1)] 3(2,4)] by (simp add: entry_defs assms(3) makeStackFunc_None)
  next
    case (4 fr e m G cst)
    obtain a b v x y p q r where s: "stack fr = a # b # v # x # y # p # q # r" using 4(3) le_7 [of "stack fr"] by (auto simp: entry_defs makeStackFunc_None)
    have "covers (memory fr) p q" "covers (memory fr) x y" using memReady_two [OF 4(4) _ _ _ _ _ 4(1), of 5 6 3 4] s by (simp_all add: entry_defs memoryCall_def)
    then show ?case using opCall_good(1) [OF assms 4(1,2) s, of G ?oper] 4(5,7-10) s by (simp add: entry_defs)
  qed (simp add: entry_defs makeStackFunc_None)
  have code: "opGood kec f 0xf2 ((memInstr (opCallCode cr lp) gasCallCode (makeStackFunc 7 1) memoryCall)\<lparr>returns := True\<rparr>)" (is "opGood _ _ _ ?oper")
  proof (rule entry_opGood [where Q = "\<lambda>st c e. 700 + valueGas (st ! 2) + unat (callGasTemp e) \<le> unat c"], goal_cases)
    case 1
    show ?case by (rule two) (auto simp: entry_defs memoryCall_def makeStackFunc_None)
  next
    case (3 fr e m ms)
    then show ?case using gasCallCode_good [OF frameOk_sel(2) [OF 3(1)] 3(2,4)] by (simp add: entry_defs makeStackFunc_None)
  next
    case (4 fr e m G cst)
    obtain a b v x y p q r where s: "stack fr = a # b # v # x # y # p # q # r" using 4(3) le_7 [of "stack fr"] by (auto simp: entry_defs makeStackFunc_None)
    have "covers (memory fr) p q" "covers (memory fr) x y" using memReady_two [OF 4(4) _ _ _ _ _ 4(1), of 5 6 3 4] s by (simp_all add: entry_defs memoryCall_def)
    then show ?case using opCall_good(2) [OF assms 4(1,2) s, of G ?oper] 4(5,7-10) s by (simp add: entry_defs)
  qed simp
  have delegate: "opGood kec f 0xf4 ((memInstr (opDelegateCall cr lp) gasDelegateCall (makeStackFunc 6 1) memoryDelegateCall)\<lparr>returns := True\<rparr>)" (is "opGood _ _ _ ?oper")
  proof (rule entry_opGood [where Q = "\<lambda>st c e. 700 + unat (callGasTemp e) \<le> unat c"], goal_cases)
    case 1
    show ?case by (rule two) (auto simp: entry_defs memoryDelegateCall_def makeStackFunc_None)
  next
    case (3 fr e m ms)
    then show ?case using gasDelegate_good(1) [OF frameOk_sel(2) [OF 3(1)] 3(2,4)] by (cases "stack fr") (auto simp: entry_defs makeStackFunc_None)
  next
    case (4 fr e m G cst)
    obtain a b x y p q r where s: "stack fr = a # b # x # y # p # q # r" using 4(3) le_6 [of "stack fr"] by (auto simp: entry_defs makeStackFunc_None)
    have "covers (memory fr) p q" "covers (memory fr) x y" using memReady_two [OF 4(4) _ _ _ _ _ 4(1), of 4 5 2 3] s by (simp_all add: entry_defs memoryDelegateCall_def)
    then show ?case using opDelegate_good(1) [OF assms 4(1,2) s, of G ?oper] 4(5,7-10) s by (simp add: entry_defs)
  qed simp
  have static: "opGood kec f 0xfa ((memInstr (opStaticCall cr lp) gasStaticCall (makeStackFunc 6 1) memoryStaticCall)\<lparr>returns := True\<rparr>)" (is "opGood _ _ _ ?oper")
  proof (rule entry_opGood [where Q = "\<lambda>st c e. 700 + unat (callGasTemp e) \<le> unat c"], goal_cases)
    case 1
    show ?case by (rule two) (auto simp: entry_defs memoryStaticCall_def makeStackFunc_None)
  next
    case (3 fr e m ms)
    then show ?case using gasDelegate_good(2) [OF frameOk_sel(2) [OF 3(1)] 3(2,4)] by (cases "stack fr") (auto simp: entry_defs makeStackFunc_None)
  next
    case (4 fr e m G cst)
    obtain a b x y p q r where s: "stack fr = a # b # x # y # p # q # r" using 4(3) le_6 [of "stack fr"] by (auto simp: entry_defs makeStackFunc_None)
    have "covers (memory fr) p q" "covers (memory fr) x y" using memReady_two [OF 4(4) _ _ _ _ _ 4(1), of 4 5 2 3] s by (simp_all add: entry_defs memoryStaticCall_def)
    then show ?case using opDelegate_good(2) [OF assms 4(1,2) s, of G ?oper] 4(5,7-10) s by (simp add: entry_defs)
  qed simp
  show ?thesis unfolding callTable_def using create call code delegate static by simp
qed

lemma NewInstructionSet_good:
  assumes "cryptoOk cr" "loopGood (keccak cr) f lp" "NewInstructionSet cr lp op = Some oper"
  shows "opGood (keccak cr) f op oper"
proof -
  have "(op, oper) \<in> set (arithTable @ envTable (keccak cr) @ flowTable (keccak cr) @ numberedTable @ callTable cr lp)"
    using assms(3) unfolding NewInstructionSet_def by (rule map_of_SomeD)
  then show ?thesis
    using arithTable_normal [of "keccak cr"] envTable_normal [of "keccak cr"] flowTable_normal [of "keccak cr"] numberedTable_normal [of "keccak cr"]
      callTable_good [OF assms(1,2) refl] normal_opGood by auto
qed

definition loopRes :: "hashfun \<Rightarrow> frame \<Rightarrow> EVM \<Rightarrow> machine \<Rightarrow> opResult \<Rightarrow> bool" where
  "loopRes kec fr e m = fine (\<lambda>(ret, err, fr', e'). length (bytesOf ret) < 2 ^ 63 \<and> gasOf fr' \<le> gasOf fr \<and> evolves kec e m e')"

lemma loopGood_res: "loopGood kec f lp \<longleftrightarrow> (\<forall>fr e m. frameOk fr \<and> good kec e m \<and> gasOf fr < f \<longrightarrow> loopRes kec fr e m (lp fr e))"
  by (simp add: loopGood_def loopRes_def)

text \<open>An iteration ends the loop, or goes on with a good frame that has less gas.\<close>

definition iterGood :: "hashfun \<Rightarrow> loopFun \<Rightarrow> frame \<Rightarrow> EVM \<Rightarrow> machine \<Rightarrow> opResult \<Rightarrow> bool" where
  "iterGood kec lp fr e m r \<longleftrightarrow> loopRes kec fr e m r \<or>
     (\<exists>fr' e'. r = lp fr' e' \<and> frameOk fr' \<and> gasOf fr' < gasOf fr \<and> evolves kec e m e')"

lemma fine_cases: "fine P r \<Longrightarrow> (\<And>x. r = Ret x \<Longrightarrow> P x \<Longrightarrow> T) \<Longrightarrow> (r = Panic BitmapFault \<Longrightarrow> T) \<Longrightarrow> T"
  by (cases r) (auto simp: fine_def)

lemma loopRes_fault [simp]: "loopRes kec fr e m (Panic BitmapFault)"
  by (simp add: loopRes_def fine_def)

lemma evolves_returnData: "evolves kec e m e1 \<Longrightarrow> length d < 2 ^ 63 \<Longrightarrow> evolves kec e m (e1\<lparr>returnData := d\<rparr>)"
  using good_other(3) by (fastforce simp: evolves_def sameEnv_def)

lemma afterOp_good:
  assumes "stepGood kec e m (gasOf fr) oper r"
  shows "iterGood kec lp fr e m (afterOp lp oper r)"
  using assms unfolding stepGood_def
proof (rule fine_cases)
  fix x assume a: "r = Ret x" "case x of (ret, err, fr', e') \<Rightarrow> length (bytesOf ret) < 2 ^ 63 \<and> frameOk fr' \<and> gasOf fr' \<le> gasOf fr \<and>
     (halts oper \<or> reverts oper \<or> gasOf fr' < gasOf fr) \<and> evolves kec e m e'"
  obtain ret err fr' e' where x: "x = (ret, err, fr', e')" by (cases x) auto
  have p: "length (bytesOf ret) < 2 ^ 63" "frameOk fr'" "gasOf fr' \<le> gasOf fr" "halts oper \<or> reverts oper \<or> gasOf fr' < gasOf fr" "evolves kec e m e'"
    using a x by auto
  define e1 where "e1 = (if returns oper then e'\<lparr>returnData := bytesOf ret\<rparr> else e')"
  have ev: "evolves kec e m e1" using p(1,5) evolves_returnData by (simp add: e1_def)
  have eq: "afterOp lp oper r = (if err \<noteq> None then Ret (None, err, fr', e1) else if reverts oper then Ret (ret, Some errExecutionReverted, fr', e1)
       else if halts oper then Ret (ret, None, fr', e1) else lp (if jumps oper then fr' else fr'\<lparr>pc := pc fr' + 1\<rparr>) e1)"
    by (simp add: afterOp_def a(1) x Let_def e1_def)
  show ?thesis
  proof (cases "err \<noteq> None \<or> reverts oper \<or> halts oper")
    case True
    then show ?thesis using p(1,3) ev by (auto simp: eq iterGood_def loopRes_def)
  next
    case False
    let ?fr = "if jumps oper then fr' else fr'\<lparr>pc := pc fr' + 1\<rparr>"
    have "frameOk ?fr" "gasOf ?fr < gasOf fr" using p(2,4) False by (simp_all add: frameOk_pc)
    moreover have "afterOp lp oper r = lp ?fr e1" unfolding eq using False by simp
    ultimately show ?thesis using ev unfolding iterGood_def by blast
  qed
qed (simp add: afterOp_def iterGood_def)

lemma iteration_good:
  assumes "cryptoOk cr" "loopGood (keccak cr) f lp" "frameOk fr" "good (keccak cr) e m" "gasOf fr \<le> f"
  shows "iterGood (keccak cr) lp fr e m (iteration cr lp fr e)"
proof -
  let ?kec = "keccak cr"
  let ?op = "GetOp (pc fr) (contract fr)"
  have stop: "iterGood ?kec lp fr e m (Ret (None, err, fr', e'))" if "gasOf fr' = gasOf fr" "evolves ?kec e m e'" for err fr' e'
    using that by (simp add: iterGood_def loopRes_def)
  note same = stop [OF refl evolves_refl [OF assms(4)]]
  show ?thesis
  proof (cases "aborted e \<or> NewInstructionSet cr lp ?op = None")
    case True
    then show ?thesis using same by (auto simp: iteration_def Let_def)
  next
    case False
    then obtain oper where oper: "NewInstructionSet cr lp ?op = Some oper" by auto
    have g: "opGood ?kec f ?op oper" using NewInstructionSet_good [OF assms(1,2) oper] .
    have na: "\<not> aborted e" using False by simp
    note it = iteration_def Let_def oper na
    show ?thesis
    proof (cases "validateStack oper (stack fr)")
      case (Some err)
      then show ?thesis using same by (simp add: it)
    next
      case vs: None
      have "\<exists>b. enforceRestrictions ?op oper (stack fr) e = Ret b \<and> (b = None \<longrightarrow> readOnly e \<longrightarrow> \<not> operation.writes oper \<and> (?op = 0xf1 \<longrightarrow> stack fr ! 2 = 0))"
        using g vs by (auto simp: enforceRestrictions_def opGood_def Back_ok)
      then obtain b where b: "enforceRestrictions ?op oper (stack fr) e = Ret b" "b = None \<longrightarrow> readOnly e \<longrightarrow> \<not> operation.writes oper \<and> (?op = 0xf1 \<longrightarrow> stack fr ! 2 = 0)"
        by blast
      have "memPart oper" using g by (simp add: opGood_def)
      then obtain need where need: "neededMemory oper (stack fr) = Ret need" using vs by (auto simp: memPart_def)
      show ?thesis
      proof (cases "b = None \<and> (\<exists>ms. need = Inr ms)")
        case False
        then show ?thesis using same by (cases b; cases need) (auto simp: it vs b(1) need)
      next
        case True
        then obtain ms where ms: "need = Inr ms" "b = None" by blast
        have "fine (\<lambda>(cost, mem, e1). evolves ?kec e m e1 \<and> (\<forall>cst c. cost = Inr cst \<and> UseGas cst (contract fr) = (True, c) \<longrightarrow>
             stepGood ?kec e m (gasOf fr) oper (execute oper (fr\<lparr>contract := c, memory := resized ms mem\<rparr>) e1))) (gasCost oper fr ms e)"
          by (rule g [unfolded opGood_def, THEN conjunct2, THEN conjunct2, rule_format]) (use assms(3-5) vs b(2) need ms in auto)
        then show ?thesis
        proof (rule fine_cases)
          fix z assume z: "gasCost oper fr ms e = Ret z" "case z of (cost, mem, e1) \<Rightarrow> evolves ?kec e m e1 \<and> (\<forall>cst c. cost = Inr cst \<and> UseGas cst (contract fr) = (True, c) \<longrightarrow>
             stepGood ?kec e m (gasOf fr) oper (execute oper (fr\<lparr>contract := c, memory := resized ms mem\<rparr>) e1))"
          obtain cost mem e1 where zz: "z = (cost, mem, e1)" by (cases z) auto
          have ev: "evolves ?kec e m e1" using z(2) zz by simp
          have out: "iterGood ?kec lp fr e m (Ret (None, err, fr\<lparr>memory := mem\<rparr>, e1))" for err using stop [OF _ ev, of "fr\<lparr>memory := mem\<rparr>"] by simp
          show ?thesis
          proof (cases cost)
            case (Inl err)
            then show ?thesis using out by (simp add: it vs b(1) need ms z(1) zz)
          next
            case (Inr cst)
            obtain u c where u: "UseGas cst (contract fr) = (u, c)" by fastforce
            show ?thesis
            proof (cases u)
              case False
              then show ?thesis using out by (simp add: it vs b(1) need ms z(1) zz Inr u)
            next
              case True
              have "stepGood ?kec e m (gasOf fr) oper (execute oper (fr\<lparr>contract := c, memory := resized ms mem\<rparr>) e1)" using z(2) zz Inr u True by simp
              from afterOp_good [OF this, of lp] show ?thesis by (simp add: it vs b(1) need ms z(1) zz Inr u True resized_def)
            qed
          qed
        next
          assume "gasCost oper fr ms e = Panic BitmapFault"
          then show ?thesis by (simp add: it vs b(1) need ms iterGood_def)
        qed
      qed
    qed
  qed
qed

lemma loop_good:
  assumes "cryptoOk cr"
  shows "loopGood (keccak cr) f (loop cr f)"
proof (induction f)
  case 0
  then show ?case by (simp add: loopGood_def)
next
  case (Suc f)
  show ?case unfolding loopGood_res
  proof (intro allI impI)
    fix fr e m assume a: "frameOk fr \<and> good (keccak cr) e m \<and> gasOf fr < Suc f"
    then have "iterGood (keccak cr) (loop cr f) fr e m (loop cr (Suc f) fr e)" using iteration_good [OF assms Suc.IH] by simp
    then show "loopRes (keccak cr) fr e m (loop cr (Suc f) fr e)"
      unfolding iterGood_def
    proof (elim disjE exE conjE)
      fix fr' e' assume n: "loop cr (Suc f) fr e = loop cr f fr' e'" "frameOk fr'" "gasOf fr' < gasOf fr" "evolves (keccak cr) e m e'"
      obtain m' where m': "good (keccak cr) e' m'" "advances (keccak cr) (readOnly e) m m'" "sameEnv e e'" using n(4) by (auto simp: evolves_def)
      have "loopRes (keccak cr) fr' e' m' (loop cr f fr' e')" using Suc.IH n(2,3) m'(1) a unfolding loopGood_res by simp
      then show ?thesis unfolding n(1) loopRes_def
      proof (rule fine_mono, goal_cases)
        case (1 x)
        obtain ret err fr2 e2 where x: "x = (ret, err, fr2, e2)" by (cases x) auto
        have "evolves (keccak cr) e' m' e2" using 1 x by simp
        then have "evolves (keccak cr) e m e2" by (rule evolves_step [OF m'(3,2)])
        then show ?case using 1 x n(3) by simp
      qed
    qed
  qed
qed

end
