(* ===== verification/EvmProps.thy ===== *)
theory EvmProps
  imports EvmLoop
begin

text \<open>
  What the virtual machine as a whole promises: calls and creations return, failed calls leave no trace,
  static calls change nothing and no money is made.
\<close>

section \<open>Machines at the start of a transaction\<close>

definition evmOk :: "hashfun \<Rightarrow> EVM \<Rightarrow> bool" where
  "evmOk kec e \<longleftrightarrow> stateOk kec (stateDB e) \<and> validRevisions (stateDB e) = [] \<and> vOk (vabs kec (stateDB e)) \<and> gasTable e = DefaultGasTable \<and>
     word256 (GasPrice (ctx e)) \<and> length (returnData e) < 2 ^ 63"

definition beginning :: "hashfun \<Rightarrow> EVM \<Rightarrow> machine" where
  "beginning kec e = \<lparr>current = vabs kec (stateDB e), saved = [], nextId = nextRevisionId (stateDB e)\<rparr>"

lemma evmOk_good: "evmOk kec e \<Longrightarrow> good kec e (beginning kec e)"
  using simulates_start [of kec "stateDB e"] by (simp add: evmOk_def good_def now_def beginning_def)

lemma good_vabs: "good kec e m \<Longrightarrow> vabs kec (stateDB e) = current m"
  by (simp add: good_def now_state)

lemma current_beginning [simp]: "current (beginning kec e) = vabs kec (stateDB e)"
  by (simp add: beginning_def)

text \<open>The four ways to call the code of an account.\<close>

datatype callKind = PlainCall int | CodeCall int | Delegation Contract | Static

primrec callBy :: "crypto \<Rightarrow> loopFun \<Rightarrow> callKind \<Rightarrow> ContractRef \<Rightarrow> address \<Rightarrow> bytes \<Rightarrow> u64 \<Rightarrow> EVM \<Rightarrow> callRes" where
  "callBy cr lp (PlainCall val) caller a inp gas e = Call cr lp caller a inp gas val e"
| "callBy cr lp (CodeCall val) caller a inp gas e = CallCode cr lp caller a inp gas val e"
| "callBy cr lp (Delegation parent) caller a inp gas e = DelegateCall cr lp (ContractRef parent) a inp gas e"
| "callBy cr lp Static caller a inp gas e = StaticCall cr lp caller a inp gas e"

primrec callValOk :: "EVM \<Rightarrow> callKind \<Rightarrow> bool" where
  "callValOk e (PlainCall val) \<longleftrightarrow> word256 val \<and> (readOnly e \<longrightarrow> val = 0)"
| "callValOk e (CodeCall val) \<longleftrightarrow> word256 val"
| "callValOk e (Delegation parent) \<longleftrightarrow> word256 (cvalue parent)"
| "callValOk e Static \<longleftrightarrow> True"

lemma callBy_good:
  assumes "cryptoOk cr" "good (keccak cr) e m" "callValOk e k" "unat gas < 2 ^ 61" "unat gas < fuel" "length inp < 2 ^ 63"
  shows "callGood (keccak cr) e m (unat gas) (callBy cr (loop cr fuel) k caller a inp gas e)"
  using assms Call_good [OF assms(1) loop_good [OF assms(1)] refl assms(2)] CallCode_good [OF assms(1) loop_good [OF assms(1)] refl assms(2)]
    DelegateCall_good [OF assms(1) loop_good [OF assms(1)] refl assms(2)] StaticCall_good(1) [OF assms(1) loop_good [OF assms(1)] refl assms(2)]
  by (cases k) auto

section \<open>Properties\<close>


text \<open>C11. A call that fails leaves no trace in the state: every account with its balance, nonce, code and
  storage, the refund counter, the logs and the preimages are what they were before the call, however much
  the called contracts and those that they called had changed.\<close>

theorem failed_call_restores:
  assumes "cryptoOk cr" "good (keccak cr) e m" "callValOk e k" "unat gas < 2 ^ 61" "unat gas < fuel" "length inp < 2 ^ 63"
    and "callBy cr (loop cr fuel) k caller a inp gas e = Ret (ret, left, Some err, e')"
  shows "vabs (keccak cr) (stateDB e') = vabs (keccak cr) (stateDB e)"
proof -
  have "\<exists>m'. good (keccak cr) e' m' \<and> current m' = current m"
    using callBy_good [OF assms(1,2,3-6), of caller a] assms(7) by (auto simp: callGood_def)
  then show ?thesis using good_vabs good_vabs [OF assms(2)] by auto
qed


text \<open>C12. No contract makes money: whatever a call or a creation does, and the calls within it, no account
  has a negative balance afterwards and the sum of all balances is not greater than before.\<close>

theorem evm_makes_no_money:
  assumes "cryptoOk cr" "good (keccak cr) e m" "callValOk e k" "word256 val" "\<not> readOnly e" "unat gas < 2 ^ 61" "unat gas < fuel" "length inp < 2 ^ 63"
    and "callBy cr (loop cr fuel) k caller a inp gas e = Ret (ret, left, err, e') \<or>
      CreateContract cr (loop cr fuel) caller inp gas val e = Ret (ret, addr, left, err, e')"
  shows "0 \<le> balOf (vabs (keccak cr) (stateDB e')) b \<and> money (vabs (keccak cr) (stateDB e')) \<le> money (vabs (keccak cr) (stateDB e))"
proof -
  have "\<exists>m'. good (keccak cr) e' m' \<and> money (current m') \<le> money (current m)"
    using assms(9)
  proof
    assume "callBy cr (loop cr fuel) k caller a inp gas e = Ret (ret, left, err, e')"
    then show ?thesis using callBy_good [OF assms(1,2,3,6-8), of caller a] by (auto simp: callGood_def advances_def)
  next
    assume "CreateContract cr (loop cr fuel) caller inp gas val e = Ret (ret, addr, left, err, e')"
    then show ?thesis using CreateContract_good [OF assms(1) loop_good [OF assms(1)] refl assms(2,5,4,6,7,8), of caller]
      by (auto simp: createGood_def evolves_def advances_def)
  qed
  then show ?thesis using good_vabs good_vabs [OF assms(2)] vOk_bal [OF good_now(2)] by auto
qed


section \<open>Concrete machines\<close>

definition exCr :: crypto where
  "exCr = \<lparr>keccak = exKec, ecrecoverKey = (\<lambda>_ _. None), sha256Sum = (\<lambda>_. replicate 32 0), ripemd160Sum = (\<lambda>_. replicate 20 0),
     g1Valid = (\<lambda>_. False), g1Add = (\<lambda>_ _. replicate 64 0), g1Mul = (\<lambda>_ _. replicate 64 0), g2Valid = (\<lambda>_. False), PairingCheck = (\<lambda>_. True)\<rparr>"

definition exEvm :: EVM where
  "exEvm = NewEVM \<lparr>GetHash = (\<lambda>_. 0), Origin = 7, GasPrice = 1, Coinbase = 9, ctxGasLimit = 1000, ctxNumber = 5, ctxTime = 6, ctxDifficulty = 1\<rparr> exState False False"

definition exFrame :: frame where
  "exFrame = \<lparr>pc = 0, contract = \<lparr>CallerAddress = 7, cself = 8, cCode = [0x60, 1, 0x60, 2, 0x01], cCodeHash = 3, cCodeAddr = Some 8, cInput = [],
     cGas = 100, cvalue = 0, cDelegate = False\<rparr>, memory = NewMemory, stack = [5, 6]\<rparr>"

lemma exCr_ok: "cryptoOk exCr" "keccak exCr = exKec"
  by (simp_all add: cryptoOk_def exCr_def)

lemma exEvm_ok: "evmOk exKec exEvm" "\<not> readOnly exEvm" "depth exEvm = 0" "\<not> NoRecursion exEvm"
proof -
  have v: "vAccts (vabs exKec exState) a = None" for a
    by (simp add: vabs_def exState_def emptyStateDB_def sview_def readAccount_def exSecure_ok)
  then have "vOk (vabs exKec exState)" by (simp add: vOk_def balOf_def money_def tt256_def)
  then show "evmOk exKec exEvm" using exState_ok by (simp add: evmOk_def exEvm_def NewEVM_def word256_def tt256_def)
qed (simp_all add: exEvm_def NewEVM_def)

lemma exEvm_good: "good (keccak exCr) exEvm (beginning exKec exEvm)"
  using evmOk_good [OF exEvm_ok(1)] exCr_ok(2) by simp

lemma exFrame_ok: "frameOk exFrame"
  by (simp add: frameOk_def exFrame_def StackLimit_def word256_def tt256_def memOk_def NewMemory_def)



text \<open>Calls of precompiled contracts from the empty state.\<close>

lemma ex_static:
  "\<exists>e'. StaticCall exCr lp (AccountRef 7) 4 [1] 100 exEvm = Ret (Some [1], 82, None, e')"
proof -
  have r: "good exKec (exEvm\<lparr>readOnly := True\<rparr>) (beginning exKec exEvm)" using good_other(5) [OF evmOk_good [OF exEvm_ok(1)]] .
  obtain e2 where e2: "takeSnapshot (exEvm\<lparr>readOnly := True\<rparr>) = (nextId (beginning exKec exEvm), e2)" "good exKec e2 (saveNow (beginning exKec exEvm))"
    using takeSnapshot_good [OF r] by blast
  obtain c e3 where c: "NewContract (AccountRef 7) 4 0 100 e2 = (c, e3)" by fastforce
  note nc = NewContract_ok [OF c e2(2)]
  obtain h code e4 where l: "loadCode exKec 4 c e3 = Ret (SetCallCode 4 h code c, e4)" using loadCode_ok [OF nc(4)] by blast
  have g: "perWord [1] IdentityPerWordGas IdentityBaseGas = 18" by (simp add: perWord_def IdentityPerWordGas_def IdentityBaseGas_def)
  have "runContract exCr lp (SetCallCode 4 h code c) [1] e4 = Ret (Some [1], None, (SetCallCode 4 h code c)\<lparr>cGas := 82\<rparr>, e4)"
    using nc(1) by (simp add: runContract_def SetCallCode_def PrecompiledContracts_def RunPrecompiledContract_def g UseGas_def)
  then show ?thesis using exEvm_ok(3,4) e2(1) c l
    by (simp add: StaticCall_def runCall_def exCr_ok(2) CallCreateDepth_def Let_def)
qed


theorem evm_makes_no_money_witness:
  "\<exists>e'. callBy exCr (loop exCr 1000) Static (AccountRef 7) 4 [1] 100 exEvm = Ret (Some [1], 82, None, e') \<and>
     0 \<le> balOf (vabs exKec (stateDB e')) 4 \<and> money (vabs exKec (stateDB e')) \<le> money (vabs exKec (stateDB exEvm))"
proof -
  obtain e' where e': "callBy exCr (loop exCr 1000) Static (AccountRef 7) 4 [1] 100 exEvm = Ret (Some [1], 82, None, e')" using ex_static by auto
  show ?thesis using evm_makes_no_money [OF exCr_ok(1) exEvm_good _ _ _ _ _ _ disjI1 [OF e'], of 0 4] e' exEvm_ok(2) by (simp add: exCr_ok(2))
qed

lemma ex_failing:
  "\<exists>e'. CallCode exCr lp (AccountRef 7) 1 [] 100 0 exEvm = Ret (None, 0, Some ErrOutOfGas, e')"
proof -
  let ?m = "beginning exKec exEvm"
  have g: "good exKec exEvm ?m" using evmOk_good [OF exEvm_ok(1)] .
  have z: "balOf (current ?m) 7 \<ge> 0" using vOk_bal [OF good_now(2) [OF g]] by simp
  obtain e1 where e1: "CanTransfer exKec 7 0 exEvm = Ret (balOf (current ?m) 7 \<ge> 0, e1)" "good exKec e1 ?m" using CanTransfer_ok [OF g] by blast
  obtain e2 where e2: "takeSnapshot e1 = (nextId ?m, e2)" "stateOnly e1 e2" "good exKec e2 (saveNow ?m)" using takeSnapshot_good [OF e1(2)] .
  obtain c e3 where c: "NewContract (AccountRef 7) 7 0 100 e2 = (c, e3)" by fastforce
  note nc = NewContract_ok [OF c e2(3)]
  obtain h code e4 where l: "loadCode exKec 1 c e3 = Ret (SetCallCode 1 h code c, e4)" "stateOnly e3 e4" "good exKec e4 (saveNow ?m)" using loadCode_ok [OF nc(4)] by blast
  obtain e5 where e5: "doState (RevertToSnapshot exKec (nextId ?m)) e4 = Ret e5"
    using revert_now [OF good_now(1) [OF e1(2)] good_now(1) [OF l(3)] advances_refl [OF good_now(2) [OF l(3)]]] by blast
  have "runContract exCr lp (SetCallCode 1 h code c) [] e4 = Ret (None, Some ErrOutOfGas, SetCallCode 1 h code c, e4)"
    using nc(1) by (simp add: runContract_def SetCallCode_def PrecompiledContracts_def RunPrecompiledContract_def EcrecoverGas_def UseGas_def)
  then show ?thesis using exEvm_ok(3,4) e1(1) z e2(1) c l(1) e5
    by (simp add: CallCode_def runCall_def exCr_ok(2) CallCreateDepth_def Let_def burnGas_def UseGas_def)
qed

theorem failed_call_restores_witness:
  "\<exists>e'. callBy exCr (loop exCr 1000) (CodeCall 0) (AccountRef 7) 1 [] 100 exEvm = Ret (None, 0, Some ErrOutOfGas, e') \<and>
     vabs exKec (stateDB e') = vabs exKec (stateDB exEvm)"
proof -
  obtain e' where e': "callBy exCr (loop exCr 1000) (CodeCall 0) (AccountRef 7) 1 [] 100 exEvm = Ret (None, 0, Some ErrOutOfGas, e')" using ex_failing by auto
  show ?thesis using failed_call_restores [OF exCr_ok(1) exEvm_good _ _ _ _ e'] e' by (simp add: exCr_ok(2))
qed

end
