(* ===== verification/TransitionProps.thy ===== *)
theory TransitionProps
  imports Transition EvmProps
begin

text \<open>
  What applying a message does to the gas pool, the balances and the money: the parts of the state
  transition as steps on the machine behind the state.
\<close>

section \<open>The price of a message's data\<close>

definition intrinsic :: "bytes \<Rightarrow> bool \<Rightarrow> nat" where
  "intrinsic data contractCreation =
     (if contractCreation then 53000 else 21000) + 68 * length (filter (\<lambda>b. b \<noteq> 0) data) + 4 * length (filter (\<lambda>b. b = 0) data)"

lemma add_product_exact:
  fixes g k z :: u64
  assumes "\<not> (MaxUint64 - g) div k < z" "0 < k"
  shows "unat (g + z * k) = unat g + unat z * unat k"
proof -
  have m: "unat MaxUint64 = 2 ^ 64 - 1" by (simp add: unat_MaxUint64)
  have lt: "unat g < 2 ^ 64" using unsigned_less [where ?'a = nat, of g] by simp
  have "unat z \<le> unat (MaxUint64 - g) div unat k"
    using assms(1) by (simp add: not_less word_le_nat_alt unat_div_distrib)
  moreover have "g \<le> MaxUint64" unfolding word_le_nat_alt m using lt by linarith
  then have "unat (MaxUint64 - g) = 2 ^ 64 - 1 - unat g"
    unfolding m [symmetric] by (rule unat_sub)
  ultimately have "unat z * unat k \<le> 2 ^ 64 - 1 - unat g"
    using assms(2) by (simp add: less_eq_div_iff_mult_less_eq word_less_nat_alt)
  then have s: "unat g + unat z * unat k < 2 ^ 64" using lt by linarith
  then have "unat (z * k) = unat z * unat k" by (subst unat_mult_lem [THEN iffD1]) simp_all
  then show ?thesis using s by (subst unat_add_lem [THEN iffD1]) simp_all
qed

lemma IntrinsicGas_exact:
  assumes "IntrinsicGas data c = Inr g" "length data < 2 ^ 63"
  shows "unat g = intrinsic data c"
proof (cases "data = []")
  case True
  then show ?thesis using assms(1) by (auto simp: IntrinsicGas_def intrinsic_def TxGas_def TxGasContractCreation_def split: if_splits)
next
  case False
  let ?f = "filter (\<lambda>b. b \<noteq> 0) data" and ?b = "if c then TxGasContractCreation else TxGas"
  let ?nz = "word_of_nat (length ?f) :: u64" and ?z = "word_of_nat (length data) - word_of_nat (length ?f) :: u64"
  let ?g1 = "?b + ?nz * TxDataNonZeroGas"
  have len: "length ?f + length (filter (\<lambda>b. b = 0) data) = length data" using sum_length_filter_compl [of "\<lambda>b. b \<noteq> 0" data] by simp
  have nz: "unat ?nz = length ?f" using len assms(2) by (simp add: unsigned_of_nat take_bit_nat_eq_self)
  have "unat (word_of_nat (length data) :: u64) = length data" using assms(2) by (simp add: unsigned_of_nat take_bit_nat_eq_self)
  then have z: "unat ?z = length (filter (\<lambda>b. b = 0) data)" using nz len by (subst unat_sub) (simp_all add: word_le_nat_alt)
  have h: "\<not> (MaxUint64 - ?b) div TxDataNonZeroGas < ?nz" "\<not> (MaxUint64 - ?g1) div TxDataZeroGas < ?z" "g = ?g1 + ?z * TxDataZeroGas"
    using assms(1) False by (auto simp: IntrinsicGas_def Let_def split: if_splits)
  have "unat g = unat ?b + unat ?nz * 68 + unat ?z * 4"
    using add_product_exact [OF h(1)] add_product_exact [OF h(2)] unfolding h(3) by (simp add: TxDataNonZeroGas_def TxDataZeroGas_def)
  then show ?thesis using nz z by (simp add: intrinsic_def TxGas_def TxGasContractCreation_def)
qed

section \<open>Moving money for gas\<close>

lemma money_cong: "(\<And>b. balOf v b = balOf w b) \<Longrightarrow> money v = money w"
  by (simp add: money_def)

lemma AddBalance_moves:
  assumes "good kec e m" "0 \<le> x" "money (current m) + x < tt256"
  shows "moves kec e m (\<lambda>v. money v = money (current m) + x) (doState (AddBalance kec a x) e)"
proof (rule moves_sets [OF AddBalance_sets [OF good_now(1) [OF assms(1)]] assms(1)])
  let ?v = "setAcct a ((acctAt kec a (current m))\<lparr>aBalance := balOf (current m) a + x\<rparr>) (current m)"
  have ok: "vOk (current m)" using good_now(2) [OF assms(1)] .
  show t: "money ?v = money (current m) + x" by (simp add: money_setAcct)
  show "vOk ?v" using ok t assms(2,3) acctAt_code [OF ok, of kec a] unfolding vOk_def by (auto simp: balOf_setAcct split: if_splits)
qed

lemma SubBalance_moves:
  assumes "good kec e m" "0 \<le> x" "x \<le> balOf (current m) a"
  shows "moves kec e m (\<lambda>v. money v = money (current m) - x) (doState (SubBalance kec a x) e)"
proof (rule moves_sets [OF SubBalance_sets [OF good_now(1) [OF assms(1)]] assms(1)])
  let ?v = "setAcct a ((acctAt kec a (current m))\<lparr>aBalance := balOf (current m) a - x\<rparr>) (current m)"
  have ok: "vOk (current m)" using good_now(2) [OF assms(1)] .
  show "money ?v = money (current m) - x" by (simp add: money_setAcct)
  show "vOk ?v" using vOk_setAcct(1) [OF ok] acctAt_code [OF ok] assms(2,3) by simp
qed

lemma ensure_moves:
  assumes "good kec e m"
  shows "moves kec e m (\<lambda>v. \<forall>b. balOf v b = balOf (current m) b) (ensure kec a e)"
proof -
  obtain x e1 where e1: "onState (Exist kec a) e = Ret (x, e1)" "stateOnly e e1" "now kec e1 m"
    using Exist_reads [OF good_now(1) [OF assms], of a] by (auto simp: reads_def)
  have g: "good kec e1 m" using good_stateOnly [OF assms e1(2,3) good_now(2) [OF assms]] .
  show ?thesis
  proof (cases x)
    case True
    then show ?thesis using e1(1,2) g by (auto simp: ensure_def moves_def intro!: exI [of _ "current m"])
  next
    case False
    then show ?thesis using e1(1) CreateAccount_moves [OF g, of a] stateOnly_trans [OF e1(2)] by (auto simp: ensure_def moves_def)
  qed
qed

section \<open>The parts of a transition\<close>

definition sameJob :: "StateTransition \<Rightarrow> StateTransition \<Rightarrow> bool" where
  "sameJob st st' \<longleftrightarrow> stMsg st' = stMsg st \<and> stGasPrice st' = stGasPrice st \<and> stValue st' = stValue st \<and> stData st' = stData st \<and>
     sameEnv (stEvm st) (stEvm st')"

lemma sameJob_trans: "sameJob a b \<Longrightarrow> sameJob b c \<Longrightarrow> sameJob a c"
  by (auto simp: sameJob_def intro: sameEnv_trans)

lemma sameJob_evm: "stateOnly (stEvm st) e \<Longrightarrow> sameJob st (st\<lparr>stEvm := e\<rparr>)"
  by (simp add: sameJob_def stateOnly_sameEnv)

lemma stFrom_good:
  assumes "good kec (stEvm st) m"
  obtains e v where "stFrom kec st = Ret (msgFrom (stMsg st), st\<lparr>stEvm := e\<rparr>)" "sameJob st (st\<lparr>stEvm := e\<rparr>)"
    "good kec e (m\<lparr>current := v\<rparr>)" "\<And>b. balOf v b = balOf (current m) b" "money v = money (current m)"
proof -
  obtain e v where e: "ensure kec (msgFrom (stMsg st)) (stEvm st) = Ret e" "stateOnly (stEvm st) e" "good kec e (m\<lparr>current := v\<rparr>)"
    "\<forall>b. balOf v b = balOf (current m) b" using ensure_moves [OF assms, of "msgFrom (stMsg st)"] by (auto simp: moves_def)
  then show thesis using that [of e v] money_cong [of v "current m"] sameJob_evm [OF e(2)] by (simp add: stFrom_def Let_def)
qed

text \<open>What has been bought: all the gas of the message, paid for at its price and taken from the pool,
  or nothing at all. A sender who can pay is not refused, except for the nonce.\<close>

definition bought :: "hashfun \<Rightarrow> StateTransition \<Rightarrow> machine \<Rightarrow> txErr option \<Rightarrow> StateTransition \<Rightarrow> bool" where
  "bought kec st m err st' \<longleftrightarrow> sameJob st st' \<and>
     (\<not> msgCheckNonce (stMsg st) \<and> uint (msgGas (stMsg st)) * stGasPrice st \<le> balOf (current m) (msgFrom (stMsg st)) \<and> msgGas (stMsg st) \<le> stGp st
        \<longrightarrow> err = None) \<and>
     (\<exists>m'. good kec (stEvm st') m' \<and>
       (if err = None then stGas st' = stGas st + msgGas (stMsg st) \<and> stInitialGas st' = msgGas (stMsg st) \<and>
          unat (stGp st') + unat (msgGas (stMsg st)) = unat (stGp st) \<and>
          money (current m') + uint (msgGas (stMsg st)) * stGasPrice st = money (current m)
        else stGp st' = stGp st \<and> money (current m') = money (current m)))"

lemma bought_from:
  assumes "bought kec st1 m1 err st'" "sameJob st st1" "\<And>b. balOf (current m1) b = balOf (current m) b" "stGas st1 = stGas st" "stGp st1 = stGp st"
  shows "bought kec st m err st'"
proof -
  have eq: "stMsg st1 = stMsg st" "stGasPrice st1 = stGasPrice st" using assms(2) by (simp_all add: sameJob_def)
  have "sameJob st st'" using sameJob_trans [OF assms(2)] assms(1) unfolding bought_def by blast
  with assms(1) show ?thesis unfolding bought_def eq assms(3-5) money_cong [OF assms(3)] by blast
qed

lemma buyGas_good:
  assumes "good kec (stEvm st) m" "0 \<le> stGasPrice st"
  shows "\<exists>err st'. buyGas kec st = Ret (err, st') \<and> bought kec st m err st'"
proof -
  obtain e v where f: "stFrom kec st = Ret (msgFrom (stMsg st), st\<lparr>stEvm := e\<rparr>)" "sameJob st (st\<lparr>stEvm := e\<rparr>)"
    "good kec e (m\<lparr>current := v\<rparr>)" "\<And>b. balOf v b = balOf (current m) b" "money v = money (current m)" using stFrom_good [OF assms(1)] by blast
  let ?s = "msgFrom (stMsg st)" and ?m = "m\<lparr>current := v\<rparr>" and ?g = "msgGas (stMsg st)"
  let ?x = "uint ?g * stGasPrice st"
  obtain e1 where e1: "onState (GetBalance kec ?s) e = Ret (balOf v ?s, e1)" "stateOnly e e1" "now kec e1 ?m"
    using GetBalance_reads [OF good_now(1) [OF f(3)], of ?s] by (auto simp: reads_def)
  have g1: "good kec e1 ?m" using good_stateOnly [OF f(3) e1(2,3) good_now(2) [OF f(3)]] .
  have j1: "sameJob st (st\<lparr>stEvm := e1\<rparr>)" using sameJob_trans [OF f(2) sameJob_evm [of "st\<lparr>stEvm := e\<rparr>" e1]] e1(2) by simp
  have fail: "bought kec st m (Some err) (st\<lparr>stEvm := e1\<rparr>)" if "balOf v ?s < ?x \<or> stGp st < ?g" for err
    using that j1 g1 f(4,5) by (auto simp: bought_def not_less intro!: exI [of _ ?m])
  show ?thesis
  proof (cases "balOf v ?s < ?x \<or> stGp st < ?g")
    case True
    then show ?thesis using fail [OF True] f(1) e1(1) by (auto simp: buyGas_def Let_def SubGas_def)
  next
    case False
    obtain e2 w where e2: "doState (SubBalance kec ?s ?x) e1 = Ret e2" "stateOnly e1 e2" "good kec e2 (m\<lparr>current := w\<rparr>)" "money w = money v - ?x"
      using SubBalance_moves [OF g1, of ?x ?s] False assms(2) by (auto simp: moves_def)
    let ?st = "st\<lparr>stGp := stGp st - ?g, stGas := stGas st + ?g, stInitialGas := ?g, stEvm := e2\<rparr>"
    have "sameJob st ?st" using sameEnv_trans [OF stateOnly_sameEnv [OF e1(2)] stateOnly_sameEnv [OF e2(2)]] f(2)
      by (auto simp: sameJob_def intro: sameEnv_trans)
    moreover have "unat (stGp st - ?g) + unat ?g = unat (stGp st)" using False by (simp add: not_less word_le_nat_alt unat_sub)
    ultimately have "bought kec st m None ?st" using e2(3,4) f(5) by (auto simp: bought_def intro!: exI [of _ "m\<lparr>current := w\<rparr>"])
    then show ?thesis using False f(1) e1(1) e2(1) by (simp add: buyGas_def Let_def SubGas_def)
  qed
qed

lemma preCheck_good:
  assumes "good kec (stEvm st) m" "0 \<le> stGasPrice st"
  shows "\<exists>err st'. preCheck kec st = Ret (err, st') \<and> bought kec st m err st'"
proof -
  obtain e v where f: "stFrom kec st = Ret (msgFrom (stMsg st), st\<lparr>stEvm := e\<rparr>)" "sameJob st (st\<lparr>stEvm := e\<rparr>)"
    "good kec e (m\<lparr>current := v\<rparr>)" "\<And>b. balOf v b = balOf (current m) b" "money v = money (current m)"
    using stFrom_good [OF assms(1)] by blast
  let ?s = "msgFrom (stMsg st)" and ?m = "m\<lparr>current := v\<rparr>"
  have buy: "\<exists>err st'. buyGas kec (st\<lparr>stEvm := e1\<rparr>) = Ret (err, st') \<and> bought kec st m err st'"
    if j: "sameJob st (st\<lparr>stEvm := e1\<rparr>)" and g: "good kec e1 ?m" for e1
  proof -
    obtain err st' where b: "buyGas kec (st\<lparr>stEvm := e1\<rparr>) = Ret (err, st')" "bought kec (st\<lparr>stEvm := e1\<rparr>) ?m err st'"
      using buyGas_good [of kec "st\<lparr>stEvm := e1\<rparr>" ?m] g assms(2) by auto
    then show ?thesis using bought_from [OF b(2) j, of m] f(4) by auto
  qed
  obtain n e1 where e1: "onState (GetNonce kec ?s) e = Ret (n, e1)" "stateOnly e e1" "now kec e1 ?m"
    using GetNonce_reads [OF good_now(1) [OF f(3)], of ?s] by (auto simp: reads_def)
  have g1: "good kec e1 ?m" using good_stateOnly [OF f(3) e1(2,3) good_now(2) [OF f(3)]] .
  have j1: "sameJob st (st\<lparr>stEvm := e1\<rparr>)" using sameJob_trans [OF f(2) sameJob_evm [of "st\<lparr>stEvm := e\<rparr>" e1]] e1(2) by simp
  have "bought kec st m (Some err) (st\<lparr>stEvm := e1\<rparr>)" if "msgCheckNonce (stMsg st)" for err
    using that j1 g1 f(5) by (auto simp: bought_def intro!: exI [of _ ?m])
  then show ?thesis using f(1) e1(1) buy [OF f(2,3)] buy [OF j1 g1] by (auto simp: preCheck_def Let_def)
qed

lemma runMessage_good:
  assumes "cryptoOk cr" "good (keccak cr) (stEvm st) m" "\<not> readOnly (stEvm st)" "word256 (stValue st)"
    and "unat (stGas st) < 2 ^ 61" "unat (stGas st) < fuel" "length (stData st) < 2 ^ 63"
  shows "fine (\<lambda>(ret, err, st'). sameJob st st' \<and> stGp st' = stGp st \<and> stInitialGas st' = stInitialGas st \<and> stGas st' \<le> stGas st \<and>
      (\<exists>m'. good (keccak cr) (stEvm st') m' \<and> money (current m') \<le> money (current m)))
    (runMessage cr (loop cr fuel) sender st)"
proof (cases "msgTo (stMsg st)")
  case None
  have "createGood (keccak cr) (stEvm st) m (unat (stGas st))
      (CreateContract cr (loop cr fuel) (AccountRef sender) (stData st) (stGas st) (stValue st) (stEvm st))"
    by (rule CreateContract_good [OF assms(1) loop_good [OF assms(1)] refl assms(2-7)])
  then have "fine (\<lambda>(ret, addr, gas, err, e'). gas \<le> stGas st \<and> sameEnv (stEvm st) e' \<and>
        (\<exists>m'. good (keccak cr) e' m' \<and> money (current m') \<le> money (current m)))
      (CreateContract cr (loop cr fuel) (AccountRef sender) (stData st) (stGas st) (stValue st) (stEvm st))"
    unfolding createGood_def by (rule fine_mono) (auto simp: evolves_def advances_def word_le_nat_alt)
  then show ?thesis unfolding runMessage_def if_P [OF None]
    by (rule fine_andThen) (auto simp: sameJob_def)
next
  case (Some a)
  let ?k = "keccak cr"
  obtain n e1 where e1: "onState (GetNonce ?k sender) (stEvm st) = Ret (n, e1)" "stateOnly (stEvm st) e1" "now ?k e1 m"
    using GetNonce_reads [OF good_now(1) [OF assms(2)], of sender] by (auto simp: reads_def)
  have g1: "good ?k e1 m" using good_stateOnly [OF assms(2) e1(2,3) good_now(2) [OF assms(2)]] .
  obtain e2 v where e2: "doState (SetNonce ?k sender (n + 1)) e1 = Ret e2" "stateOnly e1 e2" "good ?k e2 (m\<lparr>current := v\<rparr>)" "money v \<le> money (current m)"
    using SetNonce_moves [OF g1, of sender "n + 1"] by (auto simp: moves_def)
  obtain e3 w where e3: "ensure ?k a e2 = Ret e3" "stateOnly e2 e3" "good ?k e3 (m\<lparr>current := w\<rparr>)" "\<forall>b. balOf w b = balOf v b"
    using ensure_moves [OF e2(3), of a] by (auto simp: moves_def)
  have w: "money w \<le> money (current m)" using money_cong [of w v] e3(4) e2(4) by simp
  have so: "stateOnly (stEvm st) e3" using stateOnly_trans [OF stateOnly_trans [OF e1(2) e2(2)] e3(2)] .
  have ro: "\<not> readOnly e3" using assms(3) stateOnly_sel(8) [OF so] by simp
  have "callGood ?k e3 (m\<lparr>current := w\<rparr>) (unat (stGas st)) (Call cr (loop cr fuel) (AccountRef sender) a (stData st) (stGas st) (stValue st) e3)"
    using Call_good [OF assms(1) loop_good [OF assms(1)] refl e3(3) assms(4-7)] ro by simp
  then have "fine (\<lambda>(ret, gas, err, e'). gas \<le> stGas st \<and> sameEnv e3 e' \<and> (\<exists>m'. good ?k e' m' \<and> money (current m') \<le> money w))
      (Call cr (loop cr fuel) (AccountRef sender) a (stData st) (stGas st) (stValue st) e3)"
    unfolding callGood_def by (rule fine_mono) (auto simp: advances_def word_le_nat_alt)
  then have "fine (\<lambda>(ret, err, st'). sameJob st st' \<and> stGp st' = stGp st \<and> stInitialGas st' = stInitialGas st \<and> stGas st' \<le> stGas st \<and>
      (\<exists>m'. good ?k (stEvm st') m' \<and> money (current m') \<le> money (current m)))
     (andThen (Call cr (loop cr fuel) (AccountRef sender) a (stData st) (stGas st) (stValue st) e3)
       (\<lambda>(ret, gas, vmerr, e). Ret (ret, vmerr, st\<lparr>stEvm := e3, stGas := gas, stEvm := e\<rparr>)))"
  proof (rule fine_andThen, goal_cases)
    case (1 x)
    then show ?case using w sameEnv_trans [OF stateOnly_sameEnv [OF so]] by (cases x) (auto simp: sameJob_def intro: order_trans)
  qed
  then show ?thesis using Some e1(1) e2(1) e3(1) by (simp add: runMessage_def stTo_def)
qed

lemma refundGas_good:
  assumes "good kec (stEvm st) m" "0 \<le> stGasPrice st" "stGas st \<le> stInitialGas st"
    and "money (current m) + uint (stInitialGas st) * stGasPrice st < tt256" "unat (stGp st) + unat (stInitialGas st) < 2 ^ 64"
  shows "\<exists>st' m'. refundGas kec st = Ret st' \<and> sameJob st st' \<and> stInitialGas st' = stInitialGas st \<and> stGas st' \<le> stInitialGas st \<and>
    unat (stInitialGas st) - unat (stGas st) \<le> 2 * unat (gasUsed st') \<and> unat (stGp st') = unat (stGp st) + unat (stGas st') \<and>
    good kec (stEvm st') m' \<and> money (current m') = money (current m) + uint (stGas st') * stGasPrice st"
proof -
  let ?i = "stInitialGas st" and ?g = "stGas st"
  define bonus where "bonus = (if gasUsed st div 2 > refund (stateDB (stEvm st)) then refund (stateDB (stEvm st)) else gasUsed st div 2)"
  define g' where "g' = ?g + bonus"
  have u: "unat (gasUsed st) = unat ?i - unat ?g" using assms(3) by (simp add: gasUsed_def unat_sub)
  have "bonus \<le> gasUsed st div 2" by (auto simp: bonus_def)
  then have b: "unat bonus \<le> (unat ?i - unat ?g) div 2" using u by (simp add: word_le_nat_alt unat_div_distrib)
  have le: "unat ?g \<le> unat ?i" using assms(3) by (simp add: word_le_nat_alt)
  have "unat ?g + unat bonus < 2 ^ 64" using assms(5) b le by linarith
  then have g': "unat g' = unat ?g + unat bonus" unfolding g'_def by (subst unat_add_lem [THEN iffD1]) simp_all
  have gi: "g' \<le> ?i" using g' b le by (simp add: word_le_nat_alt)
  have half: "unat ?i - unat ?g \<le> 2 * unat (?i - g')" using g' b le gi by (simp add: unat_sub)
  obtain e v where f: "stFrom kec (st\<lparr>stGas := g'\<rparr>) = Ret (msgFrom (stMsg st), st\<lparr>stGas := g', stEvm := e\<rparr>)" "sameJob st (st\<lparr>stGas := g', stEvm := e\<rparr>)"
    "good kec e (m\<lparr>current := v\<rparr>)" "money v = money (current m)"
  proof (rule stFrom_good [of kec "st\<lparr>stGas := g'\<rparr>" m], goal_cases)
    case 1
    then show ?case using assms(1) by simp
  next
    case (2 e v)
    then show ?case by (intro 2(1) [of e v]) (simp_all add: sameJob_def)
  qed
  let ?x = "uint g' * stGasPrice st"
  have "uint g' \<le> uint ?i" using gi by (simp add: word_le_def)
  then have "?x \<le> uint ?i * stGasPrice st" using assms(2) by (simp add: mult_right_mono)
  then obtain e1 w where e1: "doState (AddBalance kec (msgFrom (stMsg st)) ?x) e = Ret e1" "stateOnly e e1" "good kec e1 (m\<lparr>current := w\<rparr>)"
      "money w = money (current m) + ?x"
    using AddBalance_moves [OF f(3), of ?x "msgFrom (stMsg st)"] assms(2,4) f(4) by (auto simp: moves_def)
  have p: "unat (stGp st) + unat g' < 2 ^ 64" using assms(5) gi by (simp add: word_le_nat_alt)
  then have p': "unat (stGp st + g') = unat (stGp st) + unat g'" by (subst unat_add_lem [THEN iffD1]) simp_all
  have "g' \<le> MaxUint64" unfolding word_le_nat_alt unat_MaxUint64 using p by (simp add: less_eq_Suc_le)
  then have "unat (MaxUint64 - g') = unat MaxUint64 - unat g'" by (rule unat_sub)
  then have "AddGas g' (stGp st) = Ret (stGp st + g')" using p by (simp add: AddGas_def word_less_nat_alt unat_MaxUint64)
  then have "refundGas kec st = Ret (st\<lparr>stGas := g', stEvm := e, stGp := stGp st + g', stEvm := e1\<rparr>)"
    using f(1) e1(1) unfolding refundGas_def Let_def bonus_def [symmetric] g'_def [symmetric] by simp
  moreover have "sameJob st (st\<lparr>stGas := g', stEvm := e, stGp := stGp st + g', stEvm := e1\<rparr>)"
    using f(2) sameEnv_trans [OF _ stateOnly_sameEnv [OF e1(2)]] by (auto simp: sameJob_def)
  ultimately show ?thesis using gi half p' e1(3,4) by (auto simp: gasUsed_def intro!: exI [of _ "m\<lparr>current := w\<rparr>"])
qed

text \<open>How a transition leaves the pool and the money.\<close>

definition accounted :: "hashfun \<Rightarrow> StateTransition \<Rightarrow> machine \<Rightarrow> u64 \<Rightarrow> txErr option \<Rightarrow> StateTransition \<Rightarrow> bool" where
  "accounted kec st m used err st' \<longleftrightarrow>
     (\<exists>m'. good kec (stEvm st') m' \<and> money (current m') \<le> money (current m)) \<and> unat (stGp st') \<le> unat (stGp st) \<and>
     (if err = None then unat (stGp st') + unat used = unat (stGp st) \<and> used \<le> msgGas (stMsg st) \<and>
        intrinsic (stData st) (msgTo (stMsg st) = None) \<le> 2 * unat used
      else used = 0)"

lemma settle_good:
  assumes "good kec (stEvm st4) m4" "0 \<le> stGasPrice st4" "stGas st4 \<le> stInitialGas st4"
    and "money (current m4) + uint (stInitialGas st4) * stGasPrice st4 \<le> money (current m)" "money (current m) < tt256"
    and "unat (stGp st4) + unat (stInitialGas st4) = unat (stGp st)" "stInitialGas st4 = msgGas (stMsg st)"
    and "unat (stGas st4) + intrinsic (stData st) (msgTo (stMsg st) = None) \<le> unat (stInitialGas st4)"
  shows "fine (\<lambda>(ret, used, failed, err, st'). accounted kec st m used err st')
    (andThen (refundGas kec st4) (\<lambda>st5.
       andThen (doState (AddBalance kec (Coinbase (ctx (stEvm st5))) (uint (gasUsed st5) * stGasPrice st5)) (stEvm st5)) (\<lambda>e6.
         let st6 = st5\<lparr>stEvm := e6\<rparr> in Ret (ret, gasUsed st6, failed, None, st6))))"
proof -
  have lt: "unat (stGp st) < 2 ^ 64" using unsigned_less [where ?'a = nat, of "stGp st"] by simp
  obtain st5 m5 where r: "refundGas kec st4 = Ret st5" "sameJob st4 st5" "stInitialGas st5 = stInitialGas st4" "stGas st5 \<le> stInitialGas st4"
    "unat (stInitialGas st4) - unat (stGas st4) \<le> 2 * unat (gasUsed st5)" "unat (stGp st5) = unat (stGp st4) + unat (stGas st5)"
    "good kec (stEvm st5) m5" "money (current m5) = money (current m4) + uint (stGas st5) * stGasPrice st4"
    using refundGas_good [OF assms(1-3)] assms(4-6) lt by auto
  let ?x = "uint (gasUsed st5) * stGasPrice st5"
  have price: "stGasPrice st5 = stGasPrice st4" using r(2) by (simp add: sameJob_def)
  have "uint (gasUsed st5) = uint (stInitialGas st4) - uint (stGas st5)"
    using r(3,4) by (simp add: gasUsed_def uint_minus_simple_alt word_le_def)
  then have x: "money (current m5) + ?x = money (current m4) + uint (stInitialGas st4) * stGasPrice st4"
    using r(8) price by (simp add: left_diff_distrib)
  obtain e6 w where e6: "doState (AddBalance kec (Coinbase (ctx (stEvm st5))) ?x) (stEvm st5) = Ret e6" "good kec e6 (m5\<lparr>current := w\<rparr>)"
      "money w = money (current m5) + ?x"
    using AddBalance_moves [OF r(7), of ?x "Coinbase (ctx (stEvm st5))"] x assms(2,4,5) price by (auto simp: moves_def)
  have used: "unat (gasUsed st5) = unat (stInitialGas st4) - unat (stGas st5)" "unat (stGas st5) \<le> unat (stInitialGas st4)"
    using r(3,4) by (simp_all add: gasUsed_def unat_sub word_le_nat_alt)
  have "accounted kec st m (gasUsed st5) None (st5\<lparr>stEvm := e6\<rparr>)"
    unfolding accounted_def using e6(2,3) x assms(4,6,7,8) used r(5,6)
    by (auto simp: word_le_nat_alt intro!: exI [of _ "m5\<lparr>current := w\<rparr>"])
  then show ?thesis using r(1) e6(1) by (simp add: gasUsed_def)
qed

text \<open>The end of a transition: the message runs, and what is left of the gas is settled.\<close>

definition runAndSettle ::
  "crypto \<Rightarrow> loopFun \<Rightarrow> address \<Rightarrow> StateTransition \<Rightarrow> (bytes option \<times> u64 \<times> bool \<times> txErr option \<times> StateTransition) go" where
  "runAndSettle cr lp sender st3 =
     andThen (runMessage cr lp sender st3) (\<lambda>(ret, vmerr, st4).
       if vmerr = Some ErrInsufficientBalance then Ret (None, 0, False, Some (VmError ErrInsufficientBalance), st4)
       else
         andThen (refundGas (keccak cr) st4) (\<lambda>st5.
         andThen (doState (AddBalance (keccak cr) (Coinbase (ctx (stEvm st5))) (uint (gasUsed st5) * stGasPrice st5)) (stEvm st5)) (\<lambda>e6.
           let st6 = st5\<lparr>stEvm := e6\<rparr> in Ret (ret, gasUsed st6, vmerr \<noteq> None, None, st6))))"

lemma accounted_stop:
  assumes "good kec (stEvm st') m'" "money (current m') \<le> money (current m)" "unat (stGp st') \<le> unat (stGp st)"
  shows "accounted kec st m 0 (Some x) st'"
  using assms by (auto simp: accounted_def)

lemma runAndSettle_good:
  assumes "cryptoOk cr" "good (keccak cr) (stEvm st3) m3" "\<not> readOnly (stEvm st3)" "word256 (stValue st3)" "0 \<le> stGasPrice st3"
    and "unat (msgGas (stMsg st)) < 2 ^ 61" "unat (msgGas (stMsg st)) < fuel" "length (stData st3) < 2 ^ 63"
    and "money (current m3) + uint (msgGas (stMsg st)) * stGasPrice st3 = money (current m)" "money (current m) < tt256"
    and "stInitialGas st3 = msgGas (stMsg st)" "unat (stGp st3) + unat (msgGas (stMsg st)) = unat (stGp st)"
    and "unat (stGas st3) + intrinsic (stData st) (msgTo (stMsg st) = None) \<le> unat (msgGas (stMsg st))"
  shows "fine (\<lambda>(ret, used, failed, err, st'). accounted (keccak cr) st m used err st') (runAndSettle cr (loop cr fuel) sender st3)"
proof -
  let ?k = "keccak cr" and ?g = "msgGas (stMsg st)"
  have "fine (\<lambda>(ret, err, st'). sameJob st3 st' \<and> stGp st' = stGp st3 \<and> stInitialGas st' = stInitialGas st3 \<and> stGas st' \<le> stGas st3 \<and>
      (\<exists>m'. good ?k (stEvm st') m' \<and> money (current m') \<le> money (current m3))) (runMessage cr (loop cr fuel) sender st3)"
    by (rule runMessage_good [OF assms(1-4)]) (use assms(6-8,13) in simp_all)
  then show ?thesis unfolding runAndSettle_def
  proof (rule fine_andThen, goal_cases)
    case (1 x)
    then obtain ret vmerr st4 m4 where x: "x = (ret, vmerr, st4)" "stGasPrice st4 = stGasPrice st3" "stGp st4 = stGp st3" "stInitialGas st4 = ?g"
      "unat (stGas st4) \<le> unat (stGas st3)" "good ?k (stEvm st4) m4" "money (current m4) \<le> money (current m3)"
      using assms(11) by (cases x) (auto simp: sameJob_def word_le_nat_alt)
    have nonneg: "0 \<le> uint ?g * stGasPrice st3" using assms(5) by simp
    have stop: "accounted ?k st m 0 (Some y) st4" for y
      by (rule accounted_stop [OF x(6)]) (use x(3,7) nonneg assms(9,12) in simp_all)
    have "fine (\<lambda>(ret, used, failed, err, st'). accounted ?k st m used err st')
      (andThen (refundGas ?k st4) (\<lambda>st5.
         andThen (doState (AddBalance ?k (Coinbase (ctx (stEvm st5))) (uint (gasUsed st5) * stGasPrice st5)) (stEvm st5)) (\<lambda>e6.
           let st6 = st5\<lparr>stEvm := e6\<rparr> in Ret (ret, gasUsed st6, vmerr \<noteq> None, None, st6))))"
    proof (rule settle_good [OF x(6)])
      show "0 \<le> stGasPrice st4" using x(2) assms(5) by simp
      show "stGas st4 \<le> stInitialGas st4" unfolding x(4) word_le_nat_alt using x(5) assms(13) by linarith
      show "money (current m4) + uint (stInitialGas st4) * stGasPrice st4 \<le> money (current m)" using x(2,4,7) assms(9) by simp
    qed (use x(3,4,5) assms(10,12,13) in simp_all)
    then show ?case using x(1) stop by simp
  qed
qed

lemma TransitionDb_good:
  assumes "cryptoOk cr" "good (keccak cr) (stEvm st) m" "\<not> readOnly (stEvm st)" "word256 (stValue st)" "0 \<le> stGasPrice st" "stGas st = 0"
    and "unat (msgGas (stMsg st)) < 2 ^ 61" "unat (msgGas (stMsg st)) < fuel" "length (stData st) < 2 ^ 63"
  shows "fine (\<lambda>(ret, used, failed, err, st'). accounted (keccak cr) st m used err st') (TransitionDb cr (loop cr fuel) st)"
proof -
  let ?k = "keccak cr" and ?g = "msgGas (stMsg st)"
  obtain err st1 where b: "preCheck ?k st = Ret (err, st1)" "bought ?k st m err st1" "sameJob st st1"
    using preCheck_good [OF assms(2,5)] unfolding bought_def by blast
  show ?thesis
  proof (cases err)
    case (Some x)
    then have "accounted ?k st m 0 err st1" using b(2) by (auto simp: bought_def accounted_def)
    then show ?thesis using Some b(1) by (simp add: TransitionDb_def Let_def)
  next
    case None
    obtain m1 where m1: "good ?k (stEvm st1) m1" "money (current m1) + uint ?g * stGasPrice st = money (current m)"
      and s1: "stGas st1 = ?g" "stInitialGas st1 = ?g" "unat (stGp st1) + unat ?g = unat (stGp st)"
      using b(2) None assms(6) by (auto simp: bought_def)
    obtain e v where f: "stFrom ?k st1 = Ret (msgFrom (stMsg st1), st1\<lparr>stEvm := e\<rparr>)" "sameJob st1 (st1\<lparr>stEvm := e\<rparr>)"
      "good ?k e (m1\<lparr>current := v\<rparr>)" "money v = money (current m1)" using stFrom_good [OF m1(1)] by metis
    have eqs: "stMsg st1 = stMsg st" "stGasPrice st1 = stGasPrice st" "stValue st1 = stValue st" "stData st1 = stData st" using b(3) by (simp_all add: sameJob_def)
    have nonneg: "0 \<le> uint ?g * stGasPrice st" using assms(5) by simp
    have fail: "accounted ?k st m 0 (Some x) (st1\<lparr>stEvm := e\<rparr>)" for x
      by (rule accounted_stop [of _ _ "m1\<lparr>current := v\<rparr>"]) (use f(3,4) m1(2) s1(3) nonneg in simp_all)
    show ?thesis
    proof (cases "IntrinsicGas (stData st) (msgTo (stMsg st) = None)")
      case (Inl x)
      then show ?thesis using None b(1) f(1) fail eqs by (simp add: TransitionDb_def Let_def)
    next
      case (Inr i)
      show ?thesis
      proof (cases "?g < i")
        case True
        then show ?thesis using None b(1) f(1) fail eqs Inr s1(1) by (simp add: TransitionDb_def Let_def useGas_def)
      next
        case False
        let ?st3 = "st1\<lparr>stEvm := e, stGas := ?g - i\<rparr>"
        have i: "unat (?g - i) + intrinsic (stData st) (msgTo (stMsg st) = None) \<le> unat ?g"
          using False IntrinsicGas_exact [OF Inr assms(9)] by (simp add: not_less word_le_nat_alt unat_sub)
        have ro: "\<not> readOnly e" using sameJob_trans [OF b(3) f(2)] assms(3) by (simp add: sameJob_def sameEnv_def)
        have "money (current m) < tt256" using good_now(2) [OF assms(2)] by (simp add: vOk_def)
        then have "fine (\<lambda>(ret, used, failed, err, st'). accounted ?k st m used err st') (runAndSettle cr (loop cr fuel) (msgFrom (stMsg st)) ?st3)"
          by (intro runAndSettle_good [OF assms(1), where ?m3.0 = "m1\<lparr>current := v\<rparr>"]) (use f(3,4) ro assms(4,5,7-9) eqs m1(2) s1 i in simp_all)
        then show ?thesis using None b(1) f(1) eqs Inr s1(1) False by (simp add: TransitionDb_def Let_def useGas_def runAndSettle_def)
      qed
    qed
  qed
qed

end
