(* ===== verification/Spec2Isabelle.thy ===== *)
theory Spec2Isabelle
  imports Miner Confirm RlpRoundtrip StateMachine EvmWords EvmJumps EvmMemory TransitionProps
begin

text \<open>
  LoveBlock is the node of a block chain, written in Go: a fixed list of producers takes turns to make
  blocks, confirms the blocks of the others by signed messages, and executes the transactions in them on a
  virtual machine whose state is a Merkle Patricia trie. This library models the parts of the node on which
  the agreement of nodes rests and proves what makes them correct. Files are named relative to \<open>src/\<close>.

  \<^bold>\<open>How the parts interact.\<close> The miner's timer decides when the node makes a block. The engine verifies the
  header of a block that arrives: its parent, its time, its signature and the turn of its producer; both ask
  the producer list for positions. The chain counts the confirmations of a block, moves the stable block and
  chooses the head. A transaction is a message: the state transition buys gas from the gas pool of the
  block, runs a call or a creation on the virtual machine, refunds what is left and pays the coinbase. The
  machine reads and writes accounts through the state data base, which journals its changes so that a failed
  call can be undone, and keeps accounts and storage in tries with hashed keys. Accounts and trie nodes are
  stored in RLP, and a trie is named by the hash of its root node.

  \<^bold>\<open>Conventions.\<close> A \<open>uint64\<close> is a \<open>64 word\<close>, a hash a \<open>256 word\<close>, an address a \<open>160 word\<close>, a \<open>big.Int\<close> an
  \<open>int\<close>; byte slices are lists of \<open>8 word\<close>, and an option of one where the code tells nil from empty. State
  that the code reaches through pointers is passed and returned. Errors are values. A panic is \<open>None\<close> in the
  tries and the state, an error of its own in consensus, and \<open>Panic\<close> of the type \<open>go\<close> in the virtual machine,
  where running out of fuel is \<open>OutOfFuel\<close>. Hash functions, signatures and the operations of the curve
  are parameters; where a theorem needs something of them it is a hypothesis, and a witness satisfies it.

  \<^bold>\<open>The theories.\<close>

  \<^item> \<open>Prelude\<close>, \<open>Common\<close>: fixed-width arithmetic, big-endian numbers and the interfaces of codecs;
    \<open>common/bytes.go\<close> and \<open>common/types.go\<close>.
  \<^item> \<open>StarList\<close>: \<open>common/dpovp/dpovp_util.go\<close>. The locale \<open>core_nodes\<close> is what the clients use of the list.
  \<^item> \<open>Engine\<close>: \<open>consensus/dpovp/dpovp.go\<close>. The turn check is a round robin with exactly one producer at any
    time, verified headers are sound, two children of a parent with one time stamp have one producer, and a
    sealed block verifies. The signature covers the coinbase only.
  \<^item> \<open>Miner\<close>: the timer of \<open>miner/worker.go\<close>. What it decides to seal the verifier accepts, with one boundary
    case where it does not.
  \<^item> \<open>Confirm\<close>: confirmations in \<open>core/blockchain.go\<close>. The bit mask counts producers, quorums of three
    or of five to 64 producers intersect, the stable block only rises in every run of the step relation
    \<open>confirmStep\<close>, the head is the best leaf, and messages are handled without a panic. Shifts by 64 and more, four producers, and the
    test for a common chain are shown to go wrong.
  \<^item> \<open>RlpEncode\<close>, \<open>RlpRaw\<close>, \<open>RlpDecode\<close>, \<open>RlpRoundtrip\<close>: \<open>rlp/encode.go\<close>, \<open>rlp/raw.go\<close>, \<open>rlp/decode.go\<close>. The encoder
    with its deferred list headers writes the recursive encoding; splitting accepts exactly canonical values;
    what is encoded is decoded, with one type of value for which the decoder never ends.
  \<^item> \<open>TrieKeys\<close>, \<open>TrieSpec\<close>, \<open>Trie\<close>, \<open>TrieEnc\<close>, \<open>TrieMap\<close>, \<open>TrieHash\<close>, \<open>TrieCommit\<close>: \<open>trie/encoding.go\<close>, \<open>trie/trie.go\<close>,
    \<open>trie/node.go\<close>, \<open>trie/hasher.go\<close> and \<open>trie/database.go\<close>. Canonical tries (\<open>TrieSpec\<close>) are the abstract
    specification; the trie with its unloaded and cached nodes refines a map, its root hash depends on the
    map only and determines it without a collision, and a committed trie can be opened again.
  \<^item> \<open>SecureTrie\<close>, \<open>StateObject\<close>, \<open>StateDB\<close>: \<open>trie/secure_trie.go\<close>, \<open>core/state/database.go\<close>,
    \<open>core/state/state_object.go\<close>, \<open>core/state/statedb.go\<close> and \<open>core/state/journal.go\<close>. \<open>StateView\<close> (with the
    locale \<open>kv_store\<close> of tries as stores), \<open>StateRefine\<close> and \<open>StateMachine\<close> show that every sequence of
    operations, snapshots and reverts behaves as on a machine that keeps copies of whole states.
  \<^item> \<open>BigMath\<close>, \<open>EvmData\<close>, \<open>EvmOps\<close>, \<open>EvmGas\<close>, \<open>Precompiled\<close>, \<open>EvmRun\<close>: \<open>common/math\<close> and the virtual machine in
    \<open>core/vm\<close>: stack, memory, contracts and jump destinations; every instruction; gas; the precompiled
    contracts; calls, creation, the jump table and the interpreter's loop. Constants of
    \<open>params/protocol_params.go\<close> and \<open>core/vm/gas.go\<close> have their own names.
  \<^item> \<open>EvmState\<close>, \<open>EvmTypes\<close>, \<open>EvmStep\<close>, \<open>EvmCalls\<close>, \<open>EvmLoop\<close>: one invariant for the whole machine. \<open>good\<close> relates the
    state to the machine of saved states, \<open>frameOk\<close> is the shape of a frame, \<open>execGood\<close>, \<open>callGood\<close> and
    \<open>loopGood\<close> say what instructions, calls and the loop promise. The locale \<open>ledger\<close> carries the sum of all
    balances. \<open>EvmProps\<close> states the results: execution returns, failed calls leave no trace, static calls
    change nothing, and no money is made.
  \<^item> \<open>EvmWords\<close>, \<open>EvmJumps\<close>, \<open>EvmMemory\<close>: the arithmetic is that of 256-bit words, jump destinations are
    instructions, and the fee for memory is exact below 2^32 words.
  \<^item> \<open>Transition\<close>, \<open>TransitionProps\<close>: \<open>core/state_transition.go\<close> and \<open>core/gaspool.go\<close>. The theorem below puts
    the state, the machine and the gas pool together.

  \<^bold>\<open>Bounds and fuel.\<close> The loop of the interpreter spends gas in every iteration, so fuel above the gas of a
  call is enough for it and for all calls inside it. Gas below 2^61 and lengths below 2^63, which no machine
  exceeds, keep sums of gas and \<open>int\<close> lengths from wrapping around. Reading a trie takes two steps for each
  nibble of the key and one for each node loaded; leaves of a block are found within the greatest height; a
  decoder needs as much fuel as a value is deep and long, which the round trip provides. The one panic left
  open in the machine is a bit vector of jump destinations cached for other code with the same hash: the
  absence of collisions is not assumed.

  \<^bold>\<open>Not modelled.\<close> Goroutines, locks and channels; time is an argument. Allocation failures. The
  transaction pool, transactions with their signers, receipts and blooms, block processing and validation,
  the storage of headers and bodies, genesis and indexing; trie iterators, proofs and synchronisation; the
  tracer, the integer pool and the printing of the machine. The network protocols, the downloader and
  fetcher, the light client, the RPC services, the console, wallets, key files and the ABI, logging and
  metrics are input and output around the parts above. Cryptography appears as parameters.
\<close>

section \<open>Messages\<close>

text \<open>A message for the precompiled identity contract, whose gas costs nothing.\<close>

definition exMsg :: Message where
  "exMsg = \<lparr>msgFrom = 7, msgTo = Some 4, msgGasPrice = 0, msgGas = 30000, msgValue = 0, msgNonce = 0, msgCheckNonce = False, msgData = []\<rparr>"


subsection \<open>A message that is accepted\<close>

lemma ex_call:
  assumes "good exKec e m" "depth e = 0" "\<not> NoRecursion e"
  shows "\<exists>e'. Call exCr lp (AccountRef 7) 4 [] 9000 0 e = Ret (Some [], 8985, None, e') \<and> sameEnv e e' \<and> (\<exists>m'. good exKec e' m')"
proof -
  have pre: "PrecompiledContracts 4 \<noteq> None" by (simp add: PrecompiledContracts_def)
  have z: "balOf (current m) 7 \<ge> 0" using vOk_bal [OF good_now(2) [OF assms(1)]] by simp
  obtain e1 where e1: "CanTransfer exKec 7 0 e = Ret (balOf (current m) 7 \<ge> 0, e1)" "stateOnly e e1" "good exKec e1 m" using CanTransfer_ok [OF assms(1)] by blast
  obtain e2 where e2: "takeSnapshot e1 = (nextId m, e2)" "stateOnly e1 e2" "good exKec e2 (saveNow m)" using takeSnapshot_good [OF e1(3)] .
  obtain x e3 where e3: "onState (Exist exKec 4) e2 = Ret (x, e3)" "stateOnly e2 e3" "now exKec e3 (saveNow m)"
    using Exist_reads [OF good_now(1) [OF e2(3)], of 4] by (auto simp: reads_def)
  have g3: "good exKec e3 (saveNow m)" using good_stateOnly [OF e2(3) e3(2,3) good_now(2) [OF e2(3)]] .
  obtain e4 m4 where e4: "(if x then Ret e3 else doState (CreateAccount exKec 4) e3) = Ret e4" "stateOnly e3 e4" "good exKec e4 m4"
    using g3 CreateAccount_moves [OF g3, of 4] by (cases x) (auto simp: moves_def)
  obtain e5 m5 where e5: "Transfer exKec 7 4 0 e4 = Ret e5" "stateOnly e4 e5" "good exKec e5 m5"
    using Transfer_moves [OF e4(3), of 0 7 4] vOk_bal [OF good_now(2) [OF e4(3)]] by (auto simp: moves_def)
  obtain c e6 where c: "NewContract (AccountRef 7) 4 0 9000 e5 = (c, e6)" by fastforce
  note nc = NewContract_ok [OF c e5(3)]
  obtain h code e7 where l: "loadCode exKec 4 c e6 = Ret (SetCallCode 4 h code c, e7)" "stateOnly e6 e7" "good exKec e7 m5" using loadCode_ok [OF nc(4)] by blast
  have g: "perWord [] IdentityPerWordGas IdentityBaseGas = 15" by (simp add: perWord_def IdentityPerWordGas_def IdentityBaseGas_def)
  have "runContract exCr lp (SetCallCode 4 h code c) [] e7 = Ret (Some [], None, (SetCallCode 4 h code c)\<lparr>cGas := 8985\<rparr>, e7)"
    using nc(1) by (simp add: runContract_def SetCallCode_def PrecompiledContracts_def RunPrecompiledContract_def g UseGas_def)
  then have "Call exCr lp (AccountRef 7) 4 [] 9000 0 e = Ret (Some [], 8985, None, e7)"
    using assms(2,3) e1(1) z e2(1) e3(1) e4(1) e5(1) c l(1) pre by (simp add: Call_def runCall_def exCr_ok(2) CallCreateDepth_def Let_def)
  moreover have "sameEnv e e7"
    using stateOnly_sameEnv [OF e1(2)] stateOnly_sameEnv [OF e2(2)] stateOnly_sameEnv [OF e3(2)] stateOnly_sameEnv [OF e4(2)]
      stateOnly_sameEnv [OF e5(2)] nc(3) stateOnly_sameEnv [OF l(2)] by (simp add: sameEnv_def)
  ultimately show ?thesis using l(3) by blast
qed

text \<open>Buying gas for nothing, and running the message.\<close>

lemma ex_bought:
  "\<exists>e m. preCheck exKec (NewStateTransition exEvm exMsg 50000) =
       Ret (None, \<lparr>stGp = 20000, stMsg = exMsg, stGas = 30000, stGasPrice = 0, stInitialGas = 30000, stValue = 0, stData = [], stEvm = e\<rparr>) \<and>
     good exKec e m \<and> depth e = 0 \<and> \<not> NoRecursion e"
proof -
  obtain err st' where b: "preCheck exKec (NewStateTransition exEvm exMsg 50000) = Ret (err, st')"
    "bought exKec (NewStateTransition exEvm exMsg 50000) (beginning exKec exEvm) err st'"
    using preCheck_good [of exKec "NewStateTransition exEvm exMsg 50000" "beginning exKec exEvm"] evmOk_good [OF exEvm_ok(1)]
    by (auto simp: NewStateTransition_def exMsg_def)
  have "balOf (vabs exKec (stateDB exEvm)) 7 \<ge> 0" using vOk_bal exEvm_ok(1) by (simp add: evmOk_def)
  then have err: "err = None" using b(2) by (simp add: bought_def NewStateTransition_def exMsg_def)
  obtain m where m: "good exKec (stEvm st') m" using b(2) unfolding bought_def by blast
  have "unat (stGp st') = unat (20000 :: u64)" using b(2) err by (auto simp: bought_def NewStateTransition_def exMsg_def)
  then have "stGp st' = 20000" by (simp only: word_unat_eq_iff)
  then have "st' = \<lparr>stGp = 20000, stMsg = exMsg, stGas = 30000, stGasPrice = 0, stInitialGas = 30000, stValue = 0, stData = [], stEvm = stEvm st'\<rparr>"
    using b(2) err by (cases st') (auto simp: bought_def sameJob_def NewStateTransition_def exMsg_def)
  moreover have "depth (stEvm st') = 0" "\<not> NoRecursion (stEvm st')"
    using b(2) exEvm_ok(3,4) by (auto simp: bought_def sameJob_def sameEnv_def NewStateTransition_def)
  ultimately show ?thesis using b(1) err m by (intro exI [of _ "stEvm st'"] exI [of _ m]) simp
qed

lemma ex_applied: "\<exists>used st. ApplyMessage exCr lp exEvm exMsg 50000 = Ret (Some [], used, False, None, st)"
proof -
  obtain e m where p: "preCheck exKec (NewStateTransition exEvm exMsg 50000) =
       Ret (None, \<lparr>stGp = 20000, stMsg = exMsg, stGas = 30000, stGasPrice = 0, stInitialGas = 30000, stValue = 0, stData = [], stEvm = e\<rparr>)"
    "good exKec e m" "depth e = 0" "\<not> NoRecursion e" using ex_bought by blast
  let ?st = "\<lambda>g e. \<lparr>stGp = 20000, stMsg = exMsg, stGas = g, stGasPrice = 0, stInitialGas = 30000, stValue = 0, stData = [], stEvm = e\<rparr>"
  obtain e1 m1 where e1: "ensure exKec 7 e = Ret e1" "stateOnly e e1" "good exKec e1 m1"
    using ensure_moves [OF p(2), of 7] by (auto simp: moves_def)
  have i: "IntrinsicGas [] False = Inr 21000" by (simp add: IntrinsicGas_def TxGas_def)
  obtain n e2 where e2: "onState (GetNonce exKec 7) e1 = Ret (n, e2)" "stateOnly e1 e2" "now exKec e2 m1"
    using GetNonce_reads [OF good_now(1) [OF e1(3)], of 7] by (auto simp: reads_def)
  have g2: "good exKec e2 m1" using good_stateOnly [OF e1(3) e2(2,3) good_now(2) [OF e1(3)]] .
  obtain e3 m3 where e3: "doState (SetNonce exKec 7 (n + 1)) e2 = Ret e3" "stateOnly e2 e3" "good exKec e3 m3"
    using SetNonce_moves [OF g2, of 7 "n + 1"] by (auto simp: moves_def)
  obtain e4 m4 where e4: "ensure exKec 4 e3 = Ret e4" "stateOnly e3 e4" "good exKec e4 m4"
    using ensure_moves [OF e3(3), of 4] by (auto simp: moves_def)
  have "sameEnv e e4"
    using stateOnly_sameEnv [OF e1(2)] stateOnly_sameEnv [OF e2(2)] stateOnly_sameEnv [OF e3(2)] stateOnly_sameEnv [OF e4(2)] by (simp add: sameEnv_def)
  then have "depth e4 = 0" "\<not> NoRecursion e4" using p(3,4) by (simp_all add: sameEnv_def)
  then obtain e5 m5 where e5: "Call exCr lp (AccountRef 7) 4 [] 9000 0 e4 = Ret (Some [], 8985, None, e5)" "good exKec e5 m5"
    using ex_call [OF e4(3)] by blast
  have run: "runMessage exCr lp 7 (?st 9000 e1) = Ret (Some [], None, ?st 8985 e5)"
    using e2(1) e3(1) e4(1) e5(1) by (simp add: runMessage_def stTo_def exCr_ok(2) exMsg_def)
  have "money (current m5) < tt256" using good_now(2) [OF e5(2)] by (simp add: vOk_def)
  then obtain st m6 where r: "refundGas exKec (?st 8985 e5) = Ret st" "sameJob (?st 8985 e5) st" "good exKec (stEvm st) m6"
    using refundGas_good [of exKec "?st 8985 e5" m5] e5(2) by auto
  obtain e6 where a: "doState (AddBalance exKec (Coinbase (ctx (stEvm st))) 0) (stEvm st) = Ret e6"
    using AddBalance_sets [OF good_now(1) [OF r(3)]] by (auto simp: sets_def)
  have "stGasPrice st = 0" using r(2) by (simp add: sameJob_def)
  then show ?thesis using p(1) e1(1) i run r(1) a
    by (simp add: ApplyMessage_def TransitionDb_def exCr_ok(2) stFrom_def exMsg_def useGas_def Let_def)
qed


end
